(* ===== verification/Prelude.thy ===== *)
theory Prelude
  imports Main "HOL-Library.Word" "HOL-Library.Multiset"
begin

text \<open>
  Shared vocabulary of the development: the machine types of the kernel, the faults an
  operation can end in, the sequencing of fallible operations, and the generic facts on
  lists and words that the component theories use.

  Every place where the C++ code can stop is a value of \<open>fault\<close>: a failed
  \<^verbatim>\<open>assert\<close> (src/libc/assert.cpp calls \<^verbatim>\<open>kstd::panic\<close>), a
  \<^verbatim>\<open>kstd::panic\<close> (src/kernel/panic.cpp halts), an operation the C++
  standard leaves undefined (a shift by the width or more, an access outside an array), and
  a wait for a lock that is taken.
\<close>

unbundle bit_operations_syntax

type_synonym u8 = "8 word"
type_synonym u16 = "16 word"
type_synonym u32 = "32 word"
type_synonym u64 = "64 word"
type_synonym address = "64 word"

datatype fault =
    Assert_failed string
  | Panicked string
  | Undefined_behaviour string
  | Blocked string

type_synonym 'a res = "fault + 'a"

named_theorems res_simps \<open>rewriting of sequenced fallible operations\<close>
named_theorems inv_intros \<open>preservation of component invariants\<close>

definition rbind :: "'a res \<Rightarrow> ('a \<Rightarrow> 'b res) \<Rightarrow> 'b res" where
  "rbind m f = (case m of Inl e \<Rightarrow> Inl e | Inr x \<Rightarrow> f x)"

definition assert_that :: "bool \<Rightarrow> string \<Rightarrow> unit res" where
  "assert_that c msg = (if c then Inr () else Inl (Assert_failed msg))"

lemma rbind_Inl [simp, res_simps]: "rbind (Inl e) f = Inl e"
  by (simp add: rbind_def)

lemma rbind_Inr [simp, res_simps]: "rbind (Inr x) f = f x"
  by (simp add: rbind_def)

lemma rbind_eq_Inr_iff [res_simps]:
  "rbind m f = Inr y \<longleftrightarrow> (\<exists>x. m = Inr x \<and> f x = Inr y)"
  by (cases m) auto

lemma rbind_eq_Inl_iff:
  "rbind m f = Inl e \<longleftrightarrow> m = Inl e \<or> (\<exists>x. m = Inr x \<and> f x = Inl e)"
  by (cases m) auto

lemma rbind_assoc: "rbind (rbind m f) g = rbind m (\<lambda>x. rbind (f x) g)"
  by (cases m) auto

lemma assert_that_True [simp, res_simps]: "assert_that True msg = Inr ()"
  by (simp add: assert_that_def)

lemma assert_that_False [simp, res_simps]: "assert_that False msg = Inl (Assert_failed msg)"
  by (simp add: assert_that_def)

lemma assert_that_eq_Inr_iff [simp, res_simps]: "assert_that c msg = Inr u \<longleftrightarrow> c"
  by (simp add: assert_that_def)

lemma rbind_cong [fundef_cong]:
  "m = m' \<Longrightarrow> (\<And>x. m' = Inr x \<Longrightarrow> f x = g x) \<Longrightarrow> rbind m f = rbind m' g"
  by (cases m') auto

subsection \<open>Lists\<close>

lemma map_upt_Suc_Cons: "map f [0..<Suc n] = f 0 # map (\<lambda>k. f (Suc k)) [0..<n]"
  by (simp add: map_upt_Suc del: upt_Suc)

subsection \<open>Words\<close>

lemma unat_u64_lt [simp]: "unat (w :: u64) < 18446744073709551616"
  by (rule order_less_le_trans [OF unsigned_less]) simp

lemma unat_u32_lt [simp]: "unat (w :: u32) < 4294967296"
  by (rule order_less_le_trans [OF unsigned_less]) simp

lemma unat_add_u64: "unat a + unat b < 2 ^ 64 \<Longrightarrow> unat (a + b :: u64) = unat a + unat b"
  by (simp add: unat_word_ariths)

lemma unat_sub_u64: "b \<le> a \<Longrightarrow> unat (a - b :: u64) = unat a - unat b"
  by (rule unat_sub)

lemma unat_mult_u64: "unat a * unat b < 2 ^ 64 \<Longrightarrow> unat (a * b :: u64) = unat a * unat b"
  by (simp add: unat_word_ariths)

lemma unat_of_nat_u32: "n < 2 ^ 32 \<Longrightarrow> unat (of_nat n :: u32) = n"
  by (simp add: unat_of_nat)

lemma unat_of_nat_u64: "n < 2 ^ 64 \<Longrightarrow> unat (of_nat n :: u64) = n"
  by (simp add: unat_of_nat)

lemma bit_u64_lt: "bit (w :: u64) k \<Longrightarrow> k < 64"
  by (drule bit_imp_le_length) simp

lemma unat_minus_one_u32 [simp]: "unat (-1 :: u32) = 4294967295"
  by (simp add: unsigned_minus_1_eq_mask mask_eq_exp_minus_1)

lemma unat_ucast_u32: "unat (w :: u64) < 2 ^ 32 \<Longrightarrow> unat (ucast w :: u32) = unat w"
  using unat_of_nat_u32 [of "unat w"] by (simp add: unsigned_ucast_eq)

end
