(* ===== verification/Ring_Buffer.thy ===== *)
theory Ring_Buffer
  imports Prelude
begin

text \<open>
  \<^verbatim>\<open>adt::ring_buffer<T, N>\<close> of src/libadt/ring_buffer.h, the queue behind the
  keyboard event pump (src/kernel/input.cpp). The C++ object is the record
  \<open>ring_buffer\<close>; the template argument \<^verbatim>\<open>N\<close> is the length of its
  storage array. Indices are \<^verbatim>\<open>size_t\<close>; they never exceed \<^verbatim>\<open>N\<close>,
  and \<^verbatim>\<open>i + 1 < capacity ? i + 1 : 0\<close> gives 0 for the largest
  \<^verbatim>\<open>size_t\<close> as well, so natural numbers describe them exactly.
\<close>

record 'a ring_buffer =
  storage :: "'a list"
  rb_begin :: nat
  rb_end :: nat
  rb_count :: nat

definition capacity :: "'a ring_buffer \<Rightarrow> nat" where
  "capacity b = length (storage b)"

definition rb_size :: "'a ring_buffer \<Rightarrow> nat" where
  "rb_size b = rb_count b"

definition rb_empty :: "'a ring_buffer \<Rightarrow> bool" where
  "rb_empty b \<longleftrightarrow> rb_size b = 0"

definition rb_full :: "'a ring_buffer \<Rightarrow> bool" where
  "rb_full b \<longleftrightarrow> rb_size b = capacity b"

definition forward_wrap :: "nat \<Rightarrow> nat \<Rightarrow> nat" where
  "forward_wrap cap i = (if i + 1 < cap then i + 1 else 0)"

definition backward_wrap :: "nat \<Rightarrow> nat \<Rightarrow> nat" where
  "backward_wrap cap i = (if i > 0 then i - 1 else cap - 1)"

text \<open>The default constructor: an \<^verbatim>\<open>adt::array\<close> of default elements, both
  indices and the count zero. The array constructor copies \<^verbatim>\<open>M \<le> N\<close> elements.\<close>

definition rb_new :: "nat \<Rightarrow> 'a \<Rightarrow> 'a ring_buffer" where
  "rb_new n d = \<lparr>storage = replicate n d, rb_begin = 0, rb_end = 0, rb_count = 0\<rparr>"

definition rb_of_array :: "nat \<Rightarrow> 'a \<Rightarrow> 'a list \<Rightarrow> 'a ring_buffer" where
  "rb_of_array n d input =
     (let m = length input in
      \<lparr>storage = input @ drop m (replicate n d),
       rb_begin = 0, rb_end = (if m = n then 0 else m), rb_count = m\<rparr>)"

definition push_back :: "'a ring_buffer \<Rightarrow> 'a \<Rightarrow> bool \<times> 'a ring_buffer" where
  "push_back b v =
     (if rb_full b then (False, b)
      else (True, b\<lparr>storage := (storage b)[rb_end b := v],
                    rb_end := forward_wrap (capacity b) (rb_end b),
                    rb_count := rb_count b + 1\<rparr>))"

definition push_front :: "'a ring_buffer \<Rightarrow> 'a \<Rightarrow> bool \<times> 'a ring_buffer" where
  "push_front b v =
     (if rb_full b then (False, b)
      else let s = backward_wrap (capacity b) (rb_begin b) in
        (True, b\<lparr>storage := (storage b)[s := v],
                 rb_begin := s,
                 rb_count := rb_count b + 1\<rparr>))"

definition pop_front :: "'a ring_buffer \<Rightarrow> 'a option \<times> 'a ring_buffer" where
  "pop_front b =
     (if rb_empty b then (None, b)
      else (Some (storage b ! rb_begin b),
            b\<lparr>rb_begin := forward_wrap (capacity b) (rb_begin b),
              rb_count := rb_count b - 1\<rparr>))"

definition pop_back :: "'a ring_buffer \<Rightarrow> 'a option \<times> 'a ring_buffer" where
  "pop_back b =
     (if rb_empty b then (None, b)
      else let e = backward_wrap (capacity b) (rb_end b) in
        (Some (storage b ! e), b\<lparr>rb_end := e, rb_count := rb_count b - 1\<rparr>))"

definition rb_front :: "'a ring_buffer \<Rightarrow> 'a" where
  "rb_front b = storage b ! rb_begin b"

definition rb_back :: "'a ring_buffer \<Rightarrow> 'a" where
  "rb_back b = storage b ! backward_wrap (capacity b) (rb_end b)"

text \<open>
  A range-based \<^verbatim>\<open>for\<close> over the buffer: an iterator starts at
  \<^verbatim>\<open>_begin\<close>, is advanced with \<^verbatim>\<open>forward_wrap\<close>, and the loop stops
  when its index equals \<^verbatim>\<open>_end\<close>. The result is the list of visited elements;
  \<open>None\<close> would be a loop that does not end.
\<close>

partial_function (option) rb_iter_from :: "'a ring_buffer \<Rightarrow> nat \<Rightarrow> 'a list option" where
  "rb_iter_from b idx =
     (if idx = rb_end b then Some []
      else Option.bind (rb_iter_from b (forward_wrap (capacity b) idx))
             (\<lambda>xs. Some (storage b ! idx # xs)))"

definition rb_iterate :: "'a ring_buffer \<Rightarrow> 'a list option" where
  "rb_iterate b = rb_iter_from b (rb_begin b)"

text \<open>\<^verbatim>\<open>clear\<close> runs the element destructor on every element the loop visits,
  unless the element type is trivially destructible, and resets the indices.\<close>

definition rb_clear :: "bool \<Rightarrow> 'a ring_buffer \<Rightarrow> ('a list \<times> 'a ring_buffer) option" where
  "rb_clear trivially_destructible b =
     map_option (\<lambda>destroyed. (destroyed, b\<lparr>rb_begin := 0, rb_end := 0, rb_count := 0\<rparr>))
       (if trivially_destructible then Some [] else rb_iterate b)"

subsection \<open>The contract: a bounded double-ended queue\<close>

text \<open>
  The interface the clients of the buffer rely on: the operations act on the list of
  elements, refuse an insertion exactly when the queue is full, and keep the invariant and
  the capacity.
\<close>

locale bounded_deque =
  fixes inv :: "'q \<Rightarrow> bool"
    and elems :: "'q \<Rightarrow> 'a list"
    and cap :: "'q \<Rightarrow> nat"
    and pushb :: "'q \<Rightarrow> 'a \<Rightarrow> bool \<times> 'q"
    and pushf :: "'q \<Rightarrow> 'a \<Rightarrow> bool \<times> 'q"
    and popf :: "'q \<Rightarrow> 'a option \<times> 'q"
    and popb :: "'q \<Rightarrow> 'a option \<times> 'q"
  assumes bounded: "inv q \<Longrightarrow> length (elems q) \<le> cap q"
    and pushb_full: "inv q \<Longrightarrow> length (elems q) = cap q \<Longrightarrow> pushb q x = (False, q)"
    and pushf_full: "inv q \<Longrightarrow> length (elems q) = cap q \<Longrightarrow> pushf q x = (False, q)"
    and pushb_room: "inv q \<Longrightarrow> length (elems q) < cap q \<Longrightarrow>
      \<exists>q'. pushb q x = (True, q') \<and> inv q' \<and> elems q' = elems q @ [x] \<and> cap q' = cap q"
    and pushf_room: "inv q \<Longrightarrow> length (elems q) < cap q \<Longrightarrow>
      \<exists>q'. pushf q x = (True, q') \<and> inv q' \<and> elems q' = x # elems q \<and> cap q' = cap q"
    and popf_empty: "inv q \<Longrightarrow> elems q = [] \<Longrightarrow> popf q = (None, q)"
    and popb_empty: "inv q \<Longrightarrow> elems q = [] \<Longrightarrow> popb q = (None, q)"
    and popf_cons: "inv q \<Longrightarrow> elems q = x # xs \<Longrightarrow>
      \<exists>q'. popf q = (Some x, q') \<and> inv q' \<and> elems q' = xs \<and> cap q' = cap q"
    and popb_snoc: "inv q \<Longrightarrow> elems q = xs @ [x] \<Longrightarrow>
      \<exists>q'. popb q = (Some x, q') \<and> inv q' \<and> elems q' = xs \<and> cap q' = cap q"

text \<open>Operations and what a caller observes of each, for sequences of calls.\<close>

datatype 'a deque_op = PushBack 'a | PushFront 'a | PopFront | PopBack

datatype 'a deque_out = Pushed bool | Popped "'a option"

fun op_step ::
  "('q \<Rightarrow> 'a \<Rightarrow> bool \<times> 'q) \<Rightarrow> ('q \<Rightarrow> 'a \<Rightarrow> bool \<times> 'q) \<Rightarrow> ('q \<Rightarrow> 'a option \<times> 'q) \<Rightarrow>
   ('q \<Rightarrow> 'a option \<times> 'q) \<Rightarrow> 'q \<Rightarrow> 'a deque_op \<Rightarrow> 'a deque_out \<times> 'q" where
  "op_step pb pf qf qb q (PushBack x) = (let (r, q') = pb q x in (Pushed r, q'))"
| "op_step pb pf qf qb q (PushFront x) = (let (r, q') = pf q x in (Pushed r, q'))"
| "op_step pb pf qf qb q PopFront = (let (r, q') = qf q in (Popped r, q'))"
| "op_step pb pf qf qb q PopBack = (let (r, q') = qb q in (Popped r, q'))"

fun op_run :: "('q \<Rightarrow> 'a deque_op \<Rightarrow> 'a deque_out \<times> 'q) \<Rightarrow> 'q \<Rightarrow> 'a deque_op list \<Rightarrow>
    'a deque_out list \<times> 'q" where
  "op_run step q [] = ([], q)"
| "op_run step q (c # cs) =
     (let (r, q') = step q c; (rs, q'') = op_run step q' cs in (r # rs, q''))"

text \<open>The reference: the same operations on a plain list with a capacity.\<close>

fun spec_step :: "nat \<Rightarrow> 'a list \<Rightarrow> 'a deque_op \<Rightarrow> 'a deque_out \<times> 'a list" where
  "spec_step n xs (PushBack x) =
     (if length xs < n then (Pushed True, xs @ [x]) else (Pushed False, xs))"
| "spec_step n xs (PushFront x) =
     (if length xs < n then (Pushed True, x # xs) else (Pushed False, xs))"
| "spec_step n xs PopFront = (case xs of [] \<Rightarrow> (Popped None, []) | y # ys \<Rightarrow> (Popped (Some y), ys))"
| "spec_step n xs PopBack =
     (if xs = [] then (Popped None, []) else (Popped (Some (last xs)), butlast xs))"

context bounded_deque
begin

lemma step_refines:
  assumes "inv q"
  shows "\<exists>q'. op_step pushb pushf popf popb q c = (fst (spec_step (cap q) (elems q) c), q') \<and>
    inv q' \<and> elems q' = snd (spec_step (cap q) (elems q) c) \<and> cap q' = cap q"
proof (cases c)
  case (PushBack x)
  then show ?thesis
    using assms bounded [OF assms] pushb_room [OF assms, of x] pushb_full [OF assms, of x]
    by (cases "length (elems q) < cap q") auto
next
  case (PushFront x)
  then show ?thesis
    using assms bounded [OF assms] pushf_room [OF assms, of x] pushf_full [OF assms, of x]
    by (cases "length (elems q) < cap q") auto
next
  case PopFront
  then show ?thesis
    using assms popf_empty [OF assms] popf_cons [OF assms] by (cases "elems q") fastforce+
next
  case PopBack
  then show ?thesis
    using assms popb_empty [OF assms] popb_snoc [OF assms]
    by (cases "elems q" rule: rev_cases) fastforce+
qed

lemma run_refines:
  "inv q \<Longrightarrow> \<exists>q'. op_run (op_step pushb pushf popf popb) q cs =
      (fst (op_run (spec_step (cap q)) (elems q) cs), q') \<and>
    inv q' \<and> elems q' = snd (op_run (spec_step (cap q)) (elems q) cs) \<and> cap q' = cap q"
proof (induction cs arbitrary: q)
  case Nil
  then show ?case by simp
next
  case (Cons c cs)
  obtain q1 where q1: "op_step pushb pushf popf popb q c =
      (fst (spec_step (cap q) (elems q) c), q1)" "inv q1"
      "elems q1 = snd (spec_step (cap q) (elems q) c)" "cap q1 = cap q"
    using step_refines [OF Cons.prems, of c] by blast
  from Cons.IH [OF q1(2)] q1 show ?case
    by (auto simp: Let_def split_beta)
qed

end


subsection \<open>The ring buffer keeps the contract\<close>

text \<open>
  The buffer holds \<open>rb_count\<close> elements from \<open>rb_begin\<close> on, modulo the capacity;
  \<open>rb_end\<close> is the slot after the last one.
\<close>

definition rb_elems :: "'a ring_buffer \<Rightarrow> 'a list" where
  "rb_elems b = map (\<lambda>k. storage b ! ((rb_begin b + k) mod capacity b)) [0..<rb_count b]"

definition rb_inv :: "'a ring_buffer \<Rightarrow> bool" where
  "rb_inv b \<longleftrightarrow> 0 < capacity b \<and> rb_begin b < capacity b \<and> rb_count b \<le> capacity b \<and>
     rb_end b = (rb_begin b + rb_count b) mod capacity b"

lemmas rb_size_defs = rb_full_def rb_empty_def rb_size_def capacity_def

lemma length_rb_elems [simp]: "length (rb_elems b) = rb_count b"
  by (simp add: rb_elems_def)

lemma forward_wrap_mod: "i < c \<Longrightarrow> forward_wrap c i = (i + 1) mod c"
  by (cases "Suc i = c") (auto simp: forward_wrap_def)

lemma backward_wrap_mod: "i < c \<Longrightarrow> backward_wrap c i = (i + (c - 1)) mod c"
  by (auto simp: backward_wrap_def mod_if)

lemma backward_wrap_lt: "i < c \<Longrightarrow> backward_wrap c i < c"
  by (auto simp: backward_wrap_def)

lemma mod_add_neq:
  assumes "k < n" "n < c" shows "(s + k) mod c \<noteq> (s + n) mod (c :: nat)"
proof
  assume "(s + k) mod c = (s + n) mod c"
  then have "(s + n - (s + k)) mod c = 0"
    using assms by (intro mod_eq_dvd_iff_nat [THEN iffD1, THEN dvd_imp_mod_0]) auto
  with assms show False by simp
qed

lemma rb_new_inv: "0 < n \<Longrightarrow> rb_inv (rb_new n d) \<and> rb_elems (rb_new n d) = []"
  by (simp add: rb_inv_def rb_new_def capacity_def rb_elems_def)

lemma rb_of_array_inv:
  "0 < n \<Longrightarrow> length xs \<le> n \<Longrightarrow>
     rb_inv (rb_of_array n d xs) \<and> rb_elems (rb_of_array n d xs) = xs"
  by (auto simp: rb_inv_def rb_of_array_def capacity_def rb_elems_def Let_def nth_append
      intro!: nth_equalityI)

lemma push_back_room:
  assumes inv: "rb_inv b" and room: "rb_count b < capacity b"
  shows "\<exists>b'. push_back b x = (True, b') \<and> rb_inv b' \<and> rb_elems b' = rb_elems b @ [x] \<and>
    capacity b' = capacity b"
proof -
  define b' where "b' = b\<lparr>storage := (storage b)[rb_end b := x],
    rb_end := forward_wrap (capacity b) (rb_end b), rb_count := rb_count b + 1\<rparr>"
  have e: "rb_end b = (rb_begin b + rb_count b) mod capacity b" "rb_end b < capacity b"
    using inv by (auto simp: rb_inv_def)
  have cap: "capacity b' = capacity b" by (simp add: b'_def capacity_def)
  have "rb_inv b'"
    using inv room e cap
    by (simp add: rb_inv_def b'_def forward_wrap_mod mod_Suc_eq)
  moreover have "rb_elems b' = rb_elems b @ [x]"
  proof (rule nth_equalityI)
    fix k assume "k < length (rb_elems b')"
    then have "k \<le> rb_count b" by (simp add: b'_def)
    then show "rb_elems b' ! k = (rb_elems b @ [x]) ! k"
      using room e mod_add_neq [of k "rb_count b" "capacity b" "rb_begin b"]
      by (cases "k < rb_count b")
        (auto simp: rb_elems_def cap nth_append b'_def capacity_def simp del: upt_Suc)
  qed (simp add: b'_def)
  moreover have "push_back b x = (True, b')"
    using room by (simp add: push_back_def b'_def rb_full_def rb_size_def)
  ultimately show ?thesis using cap by blast
qed

lemma push_front_room:
  assumes inv: "rb_inv b" and room: "rb_count b < capacity b"
  shows "\<exists>b'. push_front b x = (True, b') \<and> rb_inv b' \<and> rb_elems b' = x # rb_elems b \<and>
    capacity b' = capacity b"
proof -
  define s where "s = backward_wrap (capacity b) (rb_begin b)"
  define b' where "b' = b\<lparr>storage := (storage b)[s := x], rb_begin := s,
    rb_count := rb_count b + 1\<rparr>"
  have bg: "rb_begin b < capacity b" and s: "s < capacity b"
    using inv by (auto simp: rb_inv_def s_def backward_wrap_lt)
  have cap: "capacity b' = capacity b" by (simp add: b'_def capacity_def)
  have shift: "(s + Suc k) mod capacity b = (rb_begin b + k) mod capacity b" for k
    using bg by (auto simp: s_def backward_wrap_def)
  have "rb_inv b'"
    using inv room s cap shift by (simp add: rb_inv_def b'_def)
  moreover have "rb_elems b' = x # rb_elems b"
  proof -
    have "storage b' ! ((s + Suc k) mod capacity b) = storage b ! ((rb_begin b + k) mod capacity b)"
      if "k < rb_count b" for k
      using mod_add_neq [of 0 "Suc k" "capacity b" s] that room s shift [of k]
      by (auto simp: b'_def capacity_def)
    moreover have "storage b' ! (s mod capacity b) = x"
      using s by (simp add: b'_def capacity_def)
    moreover have "rb_begin b' = s" "rb_count b' = Suc (rb_count b)"
      by (simp_all add: b'_def)
    ultimately show ?thesis
      unfolding rb_elems_def cap by (simp add: map_upt_Suc_Cons del: upt_Suc)
  qed
  moreover have "push_front b x = (True, b')"
    using room by (simp add: push_front_def b'_def s_def rb_full_def rb_size_def Let_def)
  ultimately show ?thesis using cap by blast
qed

lemma pop_front_cons:
  assumes inv: "rb_inv b" and el: "rb_elems b = x # xs"
  shows "\<exists>b'. pop_front b = (Some x, b') \<and> rb_inv b' \<and> rb_elems b' = xs \<and> capacity b' = capacity b"
proof -
  obtain n where n: "rb_count b = Suc n"
    using el by (cases "rb_count b") (auto simp: rb_elems_def)
  define b' where "b' = b\<lparr>rb_begin := forward_wrap (capacity b) (rb_begin b), rb_count := n\<rparr>"
  have shift: "(rb_begin b' + k) mod capacity b = (rb_begin b + Suc k) mod capacity b" for k
    using inv by (simp add: b'_def rb_inv_def forward_wrap_mod mod_simps)
  have cap: "capacity b' = capacity b" by (simp add: b'_def capacity_def)
  have "rb_elems b = storage b ! rb_begin b # rb_elems b'"
    using inv n shift unfolding rb_elems_def cap
    by (simp add: map_upt_Suc_Cons rb_inv_def b'_def del: upt_Suc)
  moreover have "rb_inv b'"
    using inv n shift [of n] cap
    by (simp add: rb_inv_def b'_def forward_wrap_def)
  moreover have "pop_front b = (Some (storage b ! rb_begin b), b')"
    using n by (simp add: pop_front_def b'_def rb_size_defs)
  ultimately show ?thesis using el cap by auto
qed

lemma pop_back_snoc:
  assumes inv: "rb_inv b" and el: "rb_elems b = xs @ [x]"
  shows "\<exists>b'. pop_back b = (Some x, b') \<and> rb_inv b' \<and> rb_elems b' = xs \<and> capacity b' = capacity b"
proof -
  obtain n where n: "rb_count b = Suc n"
    using el by (cases "rb_count b") (auto simp: rb_elems_def)
  define e where "e = backward_wrap (capacity b) (rb_end b)"
  define b' where "b' = b\<lparr>rb_end := e, rb_count := n\<rparr>"
  have cap: "capacity b' = capacity b" by (simp add: b'_def capacity_def)
  have "rb_end b < capacity b" using inv by (auto simp: rb_inv_def)
  then have "e = (rb_begin b + Suc n + (capacity b - 1)) mod capacity b"
    using inv n unfolding e_def by (simp only: backward_wrap_mod rb_inv_def mod_add_left_eq)
  also have "rb_begin b + Suc n + (capacity b - 1) = rb_begin b + n + capacity b"
    using inv by (simp add: rb_inv_def)
  finally have e: "e = (rb_begin b + n) mod capacity b" by simp
  have "rb_elems b = rb_elems b' @ [storage b ! e]"
    using n e unfolding rb_elems_def cap by (simp add: b'_def)
  moreover have "rb_inv b'"
    using inv n e cap by (simp add: rb_inv_def b'_def)
  moreover have "pop_back b = (Some (storage b ! e), b')"
    using n by (simp add: pop_back_def b'_def e_def rb_size_defs Let_def)
  ultimately show ?thesis using el cap by auto
qed

interpretation rbq: bounded_deque rb_inv rb_elems capacity push_back push_front pop_front pop_back
proof unfold_locales
  fix q :: "'a ring_buffer" and x assume inv: "rb_inv q"
  show "length (rb_elems q) \<le> capacity q" using inv by (simp add: rb_inv_def)
  show "length (rb_elems q) = capacity q \<Longrightarrow> push_back q x = (False, q)"
    by (simp add: push_back_def rb_full_def rb_size_def)
  show "length (rb_elems q) = capacity q \<Longrightarrow> push_front q x = (False, q)"
    by (simp add: push_front_def rb_full_def rb_size_def)
  show "rb_elems q = [] \<Longrightarrow> pop_front q = (None, q)" "rb_elems q = [] \<Longrightarrow> pop_back q = (None, q)"
    by (auto simp: pop_front_def pop_back_def rb_empty_def rb_size_def rb_elems_def)
qed (simp_all add: push_back_room push_front_room pop_front_cons pop_back_snoc)


subsection \<open>Iteration\<close>

lemma rb_iter_from_suffix:
  assumes inv: "rb_inv b" and nf: "rb_count b < capacity b"
  shows "k \<le> rb_count b \<Longrightarrow>
    rb_iter_from b ((rb_begin b + (rb_count b - k)) mod capacity b) =
      Some (drop (rb_count b - k) (rb_elems b))"
proof (induction k)
  case 0
  then show ?case using inv by (simp add: rb_iter_from.simps [of b] rb_inv_def)
next
  case (Suc k)
  let ?i = "rb_count b - Suc k"
  have i: "?i < rb_count b" "Suc ?i = rb_count b - k" using Suc.prems by auto
  have ne: "(rb_begin b + ?i) mod capacity b \<noteq> rb_end b"
    using inv i nf mod_add_neq [of ?i "rb_count b" "capacity b" "rb_begin b"]
    by (simp add: rb_inv_def)
  have nxt: "forward_wrap (capacity b) ((rb_begin b + ?i) mod capacity b) =
      (rb_begin b + (rb_count b - k)) mod capacity b"
    using inv unfolding i(2) [symmetric] by (simp add: rb_inv_def forward_wrap_mod mod_Suc_eq)
  have el: "storage b ! ((rb_begin b + ?i) mod capacity b) = rb_elems b ! ?i"
    using i by (simp add: rb_elems_def)
  have dr: "rb_elems b ! ?i # drop (rb_count b - k) (rb_elems b) = drop ?i (rb_elems b)"
    using i(1) unfolding i(2) [symmetric] by (simp add: Cons_nth_drop_Suc)
  show ?case
    using Suc ne nxt el dr by (subst rb_iter_from.simps) simp
qed

lemma rb_iterate_full: "rb_inv b \<Longrightarrow> rb_full b \<Longrightarrow> rb_iterate b = Some []"
  by (simp add: rb_iterate_def rb_inv_def rb_full_def rb_size_def rb_iter_from.simps [of b])

lemma rb_iterate_not_full:
  assumes "rb_inv b" "\<not> rb_full b"
  shows "rb_iterate b = Some (rb_elems b)"
proof -
  have "rb_count b < capacity b" and "rb_begin b mod capacity b = rb_begin b"
    using assms by (auto simp: rb_inv_def rb_full_def rb_size_def)
  then show ?thesis
    using rb_iter_from_suffix [OF assms(1), of "rb_count b"] by (simp add: rb_iterate_def)
qed

lemma rb_clear_inv:
  assumes "rb_inv b"
  shows "\<exists>destroyed b'. rb_clear t b = Some (destroyed, b') \<and> rb_inv b' \<and> rb_elems b' = [] \<and>
    capacity b' = capacity b"
  using assms rb_iterate_full [OF assms] rb_iterate_not_full [OF assms]
  by (cases "rb_full b"; cases t) (auto simp: rb_clear_def rb_inv_def capacity_def rb_elems_def)

subsection \<open>Properties\<close>

text \<open>
  C7. A ring buffer of any positive capacity is observationally a bounded double-ended
  queue: for every sequence of \<^verbatim>\<open>push_back\<close>, \<^verbatim>\<open>push_front\<close>,
  \<^verbatim>\<open>pop_front\<close> and \<^verbatim>\<open>pop_back\<close> calls on a fresh buffer, every
  returned value (accepted or refused, element or none) is the one the list
  specification gives, and the elements held at the end are those of the list.
\<close>

theorem rb_refines_deque:
  assumes "0 < n"
  shows "\<exists>b'. op_run (op_step push_back push_front pop_front pop_back) (rb_new n d) cs =
      (fst (op_run (spec_step n) [] cs), b') \<and>
    rb_inv b' \<and> rb_elems b' = snd (op_run (spec_step n) [] cs) \<and> capacity b' = n"
proof -
  have "rb_inv (rb_new n d)" "rb_elems (rb_new n d) = []" "capacity (rb_new n d) = n"
    using rb_new_inv [OF assms, of d] by (auto simp: rb_new_def capacity_def)
  then show ?thesis using rbq.run_refines [of "rb_new n d" cs] by auto
qed

theorem rb_refines_deque_witness:
  "fst (op_run (op_step push_back push_front pop_front pop_back) (rb_new 2 (0::nat))
      [PushBack 1, PushFront 2, PushBack 3, PopFront, PopBack, PopBack]) =
    [Pushed True, Pushed True, Pushed False, Popped (Some 2), Popped (Some 1), Popped None]"
proof -
  let ?cs = "[PushBack (1::nat), PushFront 2, PushBack 3, PopFront, PopBack, PopBack]"
  have "fst (op_run (spec_step 2) [] ?cs) =
      [Pushed True, Pushed True, Pushed False, Popped (Some 2), Popped (Some 1), Popped None]"
    by simp
  then show ?thesis using rb_refines_deque [of 2 0 ?cs] by (metis fst_conv zero_less_numeral)
qed

text \<open>
  A range-based \<^verbatim>\<open>for\<close> loop over a well-formed buffer always ends. It visits
  the elements in order when the buffer is not full, and visits nothing at all when it is
  full, because \<^verbatim>\<open>begin()\<close> and \<^verbatim>\<open>end()\<close> then hold the same index.
\<close>

theorem rb_iterate_visits:
  assumes "rb_inv b"
  shows "rb_iterate b = Some (if rb_full b then [] else rb_elems b)"
  using assms by (simp add: rb_iterate_full rb_iterate_not_full)

theorem rb_iterate_visits_witness:
  "rb_iterate (rb_of_array 3 (0::nat) [7, 8]) = Some [7, 8] \<and>
   rb_iterate (rb_of_array 2 (0::nat) [7, 8]) = Some []"
  using rb_iterate_visits [of "rb_of_array 3 (0::nat) [7, 8]"]
    rb_iterate_visits [of "rb_of_array 2 (0::nat) [7, 8]"]
    rb_of_array_inv [of 3 "[7, 8]" "0::nat"] rb_of_array_inv [of 2 "[7, 8]" "0::nat"]
  by (simp add: rb_full_def rb_size_def capacity_def rb_of_array_def Let_def)

end
