(* ===== verification/Util.thy ===== *)
theory Util
  imports Prelude
begin

text \<open>
  The arithmetic helpers of src/kernel/util.h (\<^verbatim>\<open>align_to\<close>,
  \<^verbatim>\<open>div_ceil\<close>, \<^verbatim>\<open>sign_extend\<close>) on 64-bit words, and the array
  algorithms of src/kernel/util/algorithm.h (\<^verbatim>\<open>transform\<close> for a callback that
  returns \<^verbatim>\<open>bool\<close>, \<^verbatim>\<open>insertion_sort\<close>). An alignment of 0 would
  divide by zero; callers pass a non-zero one or check it.
\<close>

definition align_to :: "u64 \<Rightarrow> u64 \<Rightarrow> u64" where
  "align_to val align = (val + align - 1) div align * align"

definition div_ceil :: "u64 \<Rightarrow> u64 \<Rightarrow> u64" where
  "div_ceil a b = a div b + (if a mod b \<noteq> 0 then 1 else 0)"

definition sign_extend :: "u64 \<Rightarrow> nat \<Rightarrow> u64" where
  "sign_extend v num_source_bits =
     signed_drop_bit (64 - num_source_bits) (push_bit (64 - num_source_bits) v)"

text \<open>\<^verbatim>\<open>transform\<close> with a callback returning \<^verbatim>\<open>bool\<close>: the callback
  updates the element in place and the loop ends after the first \<open>True\<close>.\<close>

fun transform :: "('a \<Rightarrow> bool \<times> 'a) \<Rightarrow> 'a list \<Rightarrow> 'a list" where
  "transform f [] = []"
| "transform f (x # xs) = (let (stop, y) = f x in if stop then y # xs else y # transform f xs)"

text \<open>
  \<^verbatim>\<open>insertion_sort\<close>: the inner loop runs \<^verbatim>\<open>j\<close> downwards while
  \<^verbatim>\<open>j >= 0 && !less(a[j], v)\<close>, copying \<^verbatim>\<open>a[j]\<close> one slot up; the value
  is stored at \<^verbatim>\<open>j + 1\<close>. The argument \<open>j\<close> below is the C++ \<^verbatim>\<open>j + 1\<close>.
\<close>

fun insertion_shift :: "('a \<Rightarrow> 'a \<Rightarrow> bool) \<Rightarrow> 'a \<Rightarrow> nat \<Rightarrow> 'a list \<Rightarrow> nat \<times> 'a list" where
  "insertion_shift lt v 0 a = (0, a)"
| "insertion_shift lt v (Suc j) a =
     (if \<not> lt (a ! j) v then insertion_shift lt v j (a[Suc j := a ! j]) else (Suc j, a))"

definition insertion_step :: "('a \<Rightarrow> 'a \<Rightarrow> bool) \<Rightarrow> 'a list \<Rightarrow> nat \<Rightarrow> 'a list" where
  "insertion_step lt a i =
     (let v = a ! i; (j, a') = insertion_shift lt v i a in a'[j := v])"

definition insertion_sort :: "('a \<Rightarrow> 'a \<Rightarrow> bool) \<Rightarrow> 'a list \<Rightarrow> nat \<Rightarrow> 'a list" where
  "insertion_sort lt a n = foldl (insertion_step lt) a [1..<n]"

subsection \<open>Alignment\<close>

lemma unat_align_to:
  assumes "align \<noteq> 0" "unat val + unat align \<le> 2 ^ 64"
  shows "unat (align_to val align) = (unat val + unat align - 1) div unat align * unat align"
proof -
  let ?v = "unat val + unat align - 1"
  have al: "0 < unat align" using assms(1) by (simp add: unat_gt_0)
  have "val + align - 1 = word_of_nat ?v"
    using al by (simp add: of_nat_diff)
  moreover have lt: "?v < 2 ^ 64" using assms(2) al by linarith
  ultimately have "unat (val + align - 1) = ?v" by (simp add: unat_of_nat)
  moreover have "?v div unat align * unat align < 2 ^ 64"
    by (rule le_less_trans [OF _ lt]) simp
  ultimately show ?thesis
    unfolding align_to_def by (simp add: unat_mult_u64 unat_div)
qed

lemma nat_round_up:
  fixes v a :: nat assumes "0 < a"
  shows "v \<le> (v + a - 1) div a * a" "(v + a - 1) div a * a < v + a"
proof -
  have "(v + a - 1) div a * a + (v + a - 1) mod a = v + a - 1" by simp
  moreover have "(v + a - 1) mod a < a" using assms by simp
  ultimately show "v \<le> (v + a - 1) div a * a" "(v + a - 1) div a * a < v + a"
    using assms by linarith+
qed

lemma align_to_bounds:
  assumes "align \<noteq> 0" "unat val + unat align \<le> 2 ^ 64"
  shows "unat align dvd unat (align_to val align)"
    "unat val \<le> unat (align_to val align)" "unat (align_to val align) < unat val + unat align"
  using unat_align_to [OF assms] nat_round_up [of "unat align" "unat val"] assms(1)
  by (simp_all add: unat_gt_0)

lemma unat_div_ceil:
  assumes "b \<noteq> 0"
  shows "unat (div_ceil a b) = (unat a + unat b - 1) div unat b"
proof -
  let ?a = "unat a" and ?b = "unat b"
  have b: "0 < ?b" using assms by (simp add: unat_gt_0)
  have nat: "?a div ?b + (if ?a mod ?b \<noteq> 0 then 1 else 0) = (?a + ?b - 1) div ?b"
  proof (cases "?a mod ?b = 0")
    case True
    then obtain k where "?a = ?b * k" by (auto simp: mod_eq_0_iff_dvd)
    then have "?a + ?b - 1 = (?b - 1) + k * ?b" using b by (simp add: mult.commute)
    then have "(?a + ?b - 1) div ?b = k + (?b - 1) div ?b"
      using b by (simp only: div_mult_self1 mult.commute)
    then show ?thesis using b True \<open>?a = ?b * k\<close> by simp
  next
    case False
    then obtain k r where "?a = k * ?b + Suc r" "Suc r < ?b"
      using b div_mult_mod_eq [of ?a ?b] mod_less_divisor [OF b, of ?a]
      by (metis not0_implies_Suc)
    then have "?a + ?b - 1 = r + Suc k * ?b" by simp
    then have "(?a + ?b - 1) div ?b = Suc k + r div ?b"
      using b by (simp only: div_mult_self1 mult.commute)
    moreover have "?a div ?b = k"
      using \<open>?a = k * ?b + Suc r\<close> \<open>Suc r < ?b\<close> by (simp only: div_mult_self3 div_less)
    ultimately show ?thesis using \<open>Suc r < ?b\<close> False by simp
  qed
  have "?a div ?b + (if ?a mod ?b \<noteq> 0 then 1 else 0) < 2 ^ 64"
  proof (cases "?a mod ?b = 0")
    case True
    then show ?thesis by (simp add: le_less_trans [OF div_le_dividend])
  next
    case False
    then have "1 < ?b" using b by (cases "?b = 1") auto
    then have "?a div ?b < ?a \<or> ?a = 0" by auto
    then show ?thesis using False unat_u64_lt [of a] by (auto simp del: unat_u64_lt)
  qed
  moreover have "a mod b = 0 \<longleftrightarrow> ?a mod ?b = 0"
    by (simp add: unat_mod [symmetric] unat_eq_0)
  ultimately show ?thesis
    unfolding nat [symmetric] div_ceil_def by (auto simp: unat_div unat_add_u64)
qed


lemma div_ceil_covers:
  assumes "b \<noteq> 0"
  shows "unat a \<le> unat (div_ceil a b) * unat b" "unat (div_ceil a b) * unat b < unat a + unat b"
  using nat_round_up [of "unat b" "unat a"] assms
  by (simp_all add: unat_div_ceil unat_gt_0)

subsection \<open>Sign extension\<close>

lemma bit_sign_extend:
  assumes "0 < n" "n \<le> 64" "k < 64"
  shows "bit (sign_extend v n) k = bit v (if k < n then k else n - 1)"
  using assms unfolding sign_extend_def
  by (auto simp: bit_signed_drop_bit_iff bit_push_bit_iff)

subsection \<open>Insertion sort\<close>

text \<open>The elements before and after the slot in which the inner loop leaves the value.\<close>

abbreviation kept_below :: "('a \<Rightarrow> 'a \<Rightarrow> bool) \<Rightarrow> 'a \<Rightarrow> 'a list \<Rightarrow> 'a list" where
  "kept_below lt v xs \<equiv> rev (dropWhile (\<lambda>x. \<not> lt x v) (rev xs))"

abbreviation moved_up :: "('a \<Rightarrow> 'a \<Rightarrow> bool) \<Rightarrow> 'a \<Rightarrow> 'a list \<Rightarrow> 'a list" where
  "moved_up lt v xs \<equiv> rev (takeWhile (\<lambda>x. \<not> lt x v) (rev xs))"

lemma kept_moved: "kept_below lt v xs @ moved_up lt v xs = xs"
  by (metis rev_append rev_rev_ident takeWhile_dropWhile_id)

lemma insertion_shift_split:
  "\<exists>w. insertion_shift lt v (length xs) (xs @ y # zs) =
     (length (kept_below lt v xs), kept_below lt v xs @ w # moved_up lt v xs @ zs)"
proof (induction xs arbitrary: y zs rule: rev_induct)
  case Nil
  then show ?case by auto
next
  case (snoc x xs)
  have "(xs @ x # y # zs)[Suc (length xs) := x] = xs @ x # x # zs"
    by (simp add: list_update_append)
  then show ?case
    using snoc [of x "x # zs"] by (auto simp: nth_append)
qed

lemma insertion_step_insert:
  "insertion_step lt (xs @ v # zs) (length xs) = kept_below lt v xs @ v # moved_up lt v xs @ zs"
  using insertion_shift_split [of lt v xs v zs]
  by (auto simp: insertion_step_def Let_def nth_append list_update_append)

lemma insertion_sort_Suc:
  "0 < n \<Longrightarrow> insertion_sort lt a (Suc n) = insertion_step lt (insertion_sort lt a n) n"
  by (simp add: insertion_sort_def)

lemma insertion_sort_frame:
  "n \<le> length a \<Longrightarrow> mset (insertion_sort lt a n) = mset a \<and>
     drop n (insertion_sort lt a n) = drop n a"
proof (induction n)
  case 0
  then show ?case by (simp add: insertion_sort_def)
next
  case (Suc n)
  show ?case
  proof (cases "n = 0")
    case True
    then show ?thesis by (simp add: insertion_sort_def)
  next
    case False
    let ?a = "insertion_sort lt a n"
    have IH: "mset ?a = mset a" "drop n ?a = drop n a" using Suc by auto
    then have len: "length ?a = length a" by (metis size_mset)
    with Suc.prems obtain xs v zs where split: "?a = xs @ v # zs" and n: "n = length xs"
      by (metis Suc_le_lessD id_take_nth_drop length_take min.absorb2 less_imp_le)
    have "drop n a = v # zs" using IH(2) split n by simp
    then have "drop (Suc n) a = zs" by (metis drop_Suc tl_drop list.sel(3))
    moreover have "\<exists>k m. xs = k @ m \<and> insertion_sort lt a (Suc n) = k @ v # m @ zs"
      using False split n insertion_step_insert [of lt xs v zs] kept_moved [of lt v xs]
      by (metis insertion_sort_Suc neq0_conv)
    ultimately show ?thesis using IH(1) split n by (auto simp: add.assoc)
  qed
qed

text \<open>A comparison that is a strict weak order, as the callers of the sort pass.\<close>

locale strict_weak_order =
  fixes lt :: "'a \<Rightarrow> 'a \<Rightarrow> bool"
  assumes asym: "lt x y \<Longrightarrow> \<not> lt y x"
    and neg_trans: "\<not> lt x y \<Longrightarrow> \<not> lt y z \<Longrightarrow> \<not> lt x z"
begin

lemma insert_sorted:
  assumes "sorted_wrt (\<lambda>x y. \<not> lt y x) xs"
  shows "sorted_wrt (\<lambda>x y. \<not> lt y x) (kept_below lt v xs @ v # moved_up lt v xs)"
proof -
  define k m where "k = kept_below lt v xs" and "m = moved_up lt v xs"
  have km: "sorted_wrt (\<lambda>x y. \<not> lt y x) (k @ m)"
    using assms by (simp only: k_def m_def kept_moved)
  have m: "\<not> lt x v" if "x \<in> set m" for x
    using that by (auto simp: m_def dest: set_takeWhileD)
  have k: "\<not> lt v x" if x: "x \<in> set k" for x
  proof -
    from x obtain ys y where d: "k = ys @ [y]" by (cases k rule: rev_cases) auto
    then have "dropWhile (\<lambda>x. \<not> lt x v) (rev xs) = y # rev ys"
      by (metis k_def rev.simps(2) rev_rev_ident rev_swap)
    then have "lt y v" by (simp add: dropWhile_eq_Cons_conv)
    then have "\<not> lt v y" by (rule asym)
    moreover have "x = y \<or> \<not> lt y x"
      using km x unfolding d by (auto simp: sorted_wrt_append)
    ultimately show ?thesis using neg_trans by blast
  qed
  show ?thesis
    using km k m unfolding k_def [symmetric] m_def [symmetric] by (simp add: sorted_wrt_append)
qed

lemma insertion_sort_sorted:
  "n \<le> length a \<Longrightarrow> sorted_wrt (\<lambda>x y. \<not> lt y x) (take n (insertion_sort lt a n))"
proof (induction n)
  case 0
  then show ?case by simp
next
  case (Suc n)
  let ?a = "insertion_sort lt a n"
  have len: "length ?a = length a"
    using Suc.prems insertion_sort_frame [of n a lt] by (metis Suc_leD size_mset)
  with Suc.prems obtain xs v zs where split: "?a = xs @ v # zs" and n: "n = length xs"
    by (metis Suc_le_lessD id_take_nth_drop length_take min.absorb2 less_imp_le)
  show ?case
  proof (cases "n = 0")
    case True
    then show ?thesis
      using Suc.prems by (cases a) (auto simp: insertion_sort_def)
  next
    case False
    define k m where "k = kept_below lt v xs" and "m = moved_up lt v xs"
    have "sorted_wrt (\<lambda>x y. \<not> lt y x) xs" using Suc split n by simp
    then have "sorted_wrt (\<lambda>x y. \<not> lt y x) (k @ v # m)"
      unfolding k_def m_def by (rule insert_sorted)
    moreover have "insertion_sort lt a (Suc n) = (k @ v # m) @ zs"
      using False split n insertion_step_insert [of lt xs v zs]
      by (simp add: insertion_sort_Suc k_def m_def)
    moreover have "Suc n = length (k @ v # m)"
      using n kept_moved [of lt v xs] unfolding k_def m_def
      by (metis add_Suc_right length_Cons length_append)
    ultimately show ?thesis by (simp only: append_eq_conv_conj) simp
  qed
qed

end

end
