(* ===== verification/Bitmap.thy ===== *)
theory Bitmap
  imports Util
begin

text \<open>
  \<^verbatim>\<open>adt::bitmap\<close> of src/libadt/intrusive_bitmap.h, the free map of the physical page
  allocator. A limb is a 64-bit word; \<^verbatim>\<open>int\<close> results are 32-bit words read as
  two's complement, so \<^verbatim>\<open>-1\<close> is the word \<open>-1\<close>. An access outside
  \<^verbatim>\<open>limbs\<close> and a shift of the \<^verbatim>\<open>int\<close> 1 by 32 or more are undefined.
\<close>

record bitmap =
  num_limbs :: u32
  total_size :: u32
  limbs :: "u64 list"

definition BITS_PER_LIMB :: nat where
  "BITS_PER_LIMB = 64"

definition bm_make :: "u64 \<Rightarrow> bitmap" where
  "bm_make num_bits =
     (let n = (ucast (div_ceil num_bits 64) :: u32) in
      \<lparr>num_limbs = n, total_size = n * 8, limbs = replicate (unat n) 0\<rparr>)"

definition size_required :: "u64 \<Rightarrow> u64" where
  "size_required num_bits = div_ceil num_bits 64 * 8"

text \<open>The bytes of the object that \<^verbatim>\<open>make\<close> writes: the two 32-bit members stand before the limbs, and
  \<^verbatim>\<open>size_required\<close> does not count them.\<close>

definition bm_bytes :: "bitmap \<Rightarrow> nat" where
  "bm_bytes b = 4 + 4 + 8 * unat (num_limbs b)"

definition limb_at :: "bitmap \<Rightarrow> nat \<Rightarrow> u64 res" where
  "limb_at b i =
     (if i < length (limbs b) then Inr (limbs b ! i)
      else Inl (Undefined_behaviour ''limb index out of bounds''))"

definition bm_test :: "bitmap \<Rightarrow> u32 \<Rightarrow> bool res" where
  "bm_test b idx = rbind (limb_at b (unat idx div BITS_PER_LIMB)) (\<lambda>w.
     Inr (w AND push_bit (unat idx mod BITS_PER_LIMB) 1 \<noteq> 0))"

definition bm_set :: "bitmap \<Rightarrow> u32 \<Rightarrow> bitmap res" where
  "bm_set b idx = rbind (limb_at b (unat idx div BITS_PER_LIMB)) (\<lambda>w.
     Inr (b\<lparr>limbs := (limbs b)[unat idx div BITS_PER_LIMB :=
       w OR push_bit (unat idx mod BITS_PER_LIMB) 1]\<rparr>))"

definition bm_reset :: "bitmap \<Rightarrow> u32 \<Rightarrow> bitmap res" where
  "bm_reset b idx = rbind (limb_at b (unat idx div BITS_PER_LIMB)) (\<lambda>w.
     Inr (b\<lparr>limbs := (limbs b)[unat idx div BITS_PER_LIMB :=
       w AND NOT (push_bit (unat idx mod BITS_PER_LIMB) 1)]\<rparr>))"

definition bm_size :: "bitmap \<Rightarrow> nat" where
  "bm_size b = unat (total_size b)"

text \<open>\<^verbatim>\<open>const limb_type empty = v ? 0 : ~0\<close>\<close>

definition empty_limb :: "bool \<Rightarrow> u64" where
  "empty_limb v = (if v then 0 else -1)"

text \<open>The \<^verbatim>\<open>int\<close> expression \<^verbatim>\<open>1 << bit\<close>, converted to \<^verbatim>\<open>uint64_t\<close>
  (the sign bit is extended).\<close>

definition int_one_shl :: "nat \<Rightarrow> u64 res" where
  "int_one_shl k =
     (if k < 32 then Inr (scast (push_bit k 1 :: u32))
      else Inl (Undefined_behaviour ''shift count exceeds the width of int''))"

text \<open>The inner loop of \<^verbatim>\<open>find_first\<close> over the bits of one limb.\<close>

fun find_bit :: "u64 \<Rightarrow> bool \<Rightarrow> nat list \<Rightarrow> nat option res" where
  "find_bit w v [] = Inr None"
| "find_bit w v (k # ks) = rbind (int_one_shl k) (\<lambda>m.
     if (w AND m \<noteq> 0) = v then Inr (Some k) else find_bit w v ks)"

fun find_first_from :: "bitmap \<Rightarrow> bool \<Rightarrow> nat list \<Rightarrow> u32 res" where
  "find_first_from b v [] = Inr (-1)"
| "find_first_from b v (i # is) = rbind (limb_at b i) (\<lambda>w.
     if w = empty_limb v then find_first_from b v is
     else rbind (find_bit w v [0..<BITS_PER_LIMB]) (\<lambda>r.
       case r of Some k \<Rightarrow> Inr (of_nat (BITS_PER_LIMB * i + k))
       | None \<Rightarrow> find_first_from b v is))"

definition find_first :: "bitmap \<Rightarrow> bool \<Rightarrow> u32 res" where
  "find_first b v = find_first_from b v [0..<unat (num_limbs b)]"

text \<open>
  \<^verbatim>\<open>find_first_n\<close>. The loop variables are \<^verbatim>\<open>i\<close>,
  \<^verbatim>\<open>num_contiguous\<close> and \<^verbatim>\<open>start_idx\<close>; the inner loop returns
  \<open>Inl r\<close> when it executes \<^verbatim>\<open>return start_idx\<close>.
\<close>

fun scan_bits :: "bitmap \<Rightarrow> bool \<Rightarrow> nat \<Rightarrow> nat \<Rightarrow> nat list \<Rightarrow> nat \<Rightarrow> int \<Rightarrow> (int + nat \<times> int) res" where
  "scan_bits b v n i [] nc st = Inr (Inr (nc, st))"
| "scan_bits b v n i (j # js) nc st =
     (if i + j < bm_size b then
        rbind (bm_test b (of_nat (i + j))) (\<lambda>t.
          if t \<noteq> v then scan_bits b v n i js 0 (-1)
          else let st' = (if st = -1 then int (i + j) else st) in
            if nc + 1 \<ge> n then Inr (Inl st') else scan_bits b v n i js (nc + 1) st')
      else Inr (Inr (nc, st)))"

function find_first_n_loop :: "bitmap \<Rightarrow> bool \<Rightarrow> nat \<Rightarrow> nat \<Rightarrow> nat \<Rightarrow> int \<Rightarrow> int res" where
  "find_first_n_loop b v n i nc st =
     (if i < bm_size b then
        if nc \<ge> n then Inr st
        else rbind (limb_at b (i div BITS_PER_LIMB)) (\<lambda>w.
          if w = empty_limb v then find_first_n_loop b v n (i + (BITS_PER_LIMB - 1) + 1) 0 (-1)
          else if w = NOT (empty_limb v) then
            let i' = i + (BITS_PER_LIMB - 1) in
            find_first_n_loop b v n (i' + 1) (nc + BITS_PER_LIMB) (if st = -1 then int i' else st)
          else rbind (scan_bits b v n i [i mod BITS_PER_LIMB..<BITS_PER_LIMB] nc st) (\<lambda>r.
            case r of Inl found \<Rightarrow> Inr found
            | Inr (nc', st') \<Rightarrow>
                find_first_n_loop b v n
                  (i + (BITS_PER_LIMB - i mod BITS_PER_LIMB - 1) + 1) nc' st'))
      else Inr (-1))"
  by pat_completeness auto
termination
  by (relation "measure (\<lambda>(b, v, n, i, nc, st). bm_size b - i)")
    (auto simp: BITS_PER_LIMB_def)

declare find_first_n_loop.simps [simp del]

definition find_first_n :: "bitmap \<Rightarrow> bool \<Rightarrow> nat \<Rightarrow> int res" where
  "find_first_n b v n = find_first_n_loop b v n 0 0 (-1)"

subsection \<open>The bits of a bitmap\<close>

definition bm_bit :: "bitmap \<Rightarrow> nat \<Rightarrow> bool" where
  "bm_bit b i = bit (limbs b ! (i div 64)) (i mod 64)"

definition bm_bits :: "bitmap \<Rightarrow> nat" where
  "bm_bits b = 64 * length (limbs b)"

definition bm_wf :: "bitmap \<Rightarrow> bool" where
  "bm_wf b \<longleftrightarrow> length (limbs b) = unat (num_limbs b) \<and> total_size b = num_limbs b * 8 \<and>
     bm_bits b \<le> 2 ^ 31"

lemma and_exp_neq_0 [simp]: "w AND 2 ^ k \<noteq> 0 \<longleftrightarrow> bit (w :: u64) k"
  by (simp add: bit_iff_and_push_bit_not_eq_0)

lemma and_exp_eq_0 [simp]: "w AND 2 ^ k = 0 \<longleftrightarrow> \<not> bit (w :: u64) k"
  using and_exp_neq_0 by blast

lemma bm_index: "i < bm_bits b \<Longrightarrow> i div 64 < length (limbs b)"
  by (simp add: bm_bits_def div_less_iff_less_mult mult.commute)

lemma bm_test_eq: "unat idx < bm_bits b \<Longrightarrow> bm_test b idx = Inr (bm_bit b (unat idx))"
  by (simp add: bm_test_def limb_at_def bm_index bm_bit_def BITS_PER_LIMB_def)

lemma bm_update_ok:
  assumes "unat idx < bm_bits b"
  shows "\<exists>b'. bm_set b idx = Inr b' \<and> bm_bits b' = bm_bits b \<and> num_limbs b' = num_limbs b \<and>
      total_size b' = total_size b \<and> (\<forall>i. bm_bit b' i = (i = unat idx \<or> bm_bit b i))" (is ?set)
    and "\<exists>b'. bm_reset b idx = Inr b' \<and> bm_bits b' = bm_bits b \<and> num_limbs b' = num_limbs b \<and>
      total_size b' = total_size b \<and> (\<forall>i. bm_bit b' i = (i \<noteq> unat idx \<and> bm_bit b i))" (is ?reset)
proof -
  let ?q = "unat idx div 64" and ?r = "unat idx mod 64"
  have q: "?q < length (limbs b)" using assms by (rule bm_index)
  have eq: "i = unat idx \<longleftrightarrow> i div 64 = ?q \<and> i mod 64 = ?r" for i
    by (metis div_mult_mod_eq)
  have upd: "(limbs b)[?q := w] ! (i div 64) = (if i div 64 = ?q then w else limbs b ! (i div 64))" for w i
    using q by simp
  have "bm_set b idx = Inr (b\<lparr>limbs := (limbs b)[?q := limbs b ! ?q OR 2 ^ ?r]\<rparr>)"
    using q by (simp add: bm_set_def limb_at_def BITS_PER_LIMB_def)
  moreover have "bit (limbs b ! ?q OR 2 ^ ?r) k \<longleftrightarrow> k = ?r \<or> bit (limbs b ! ?q) k" for k
    by (auto simp: bit_or_iff bit_exp_iff)
  ultimately show ?set using eq by (auto simp: bm_bits_def bm_bit_def upd)
  have "bm_reset b idx = Inr (b\<lparr>limbs := (limbs b)[?q := limbs b ! ?q AND NOT (2 ^ ?r)]\<rparr>)"
    using q by (simp add: bm_reset_def limb_at_def BITS_PER_LIMB_def)
  moreover have "bit (limbs b ! ?q AND NOT (2 ^ ?r)) k \<longleftrightarrow> k \<noteq> ?r \<and> bit (limbs b ! ?q) k" for k
    using bit_imp_le_length [of "limbs b ! ?q" k] by (auto simp: bit_and_iff bit_not_iff bit_exp_iff)
  ultimately show ?reset using eq by (auto simp: bm_bits_def bm_bit_def upd)
qed

subsection \<open>Searching for a bit\<close>

lemma int_one_shl_eq:
  "int_one_shl k = (if k < 31 then Inr (2 ^ k) else if k = 31 then Inr 0xFFFFFFFF80000000
     else Inl (Undefined_behaviour ''shift count exceeds the width of int''))"
proof (cases "k < 31")
  case True
  then have "scast (2 ^ k :: u32) = (2 ^ k :: u64)"
    by (auto intro!: bit_eqI simp: bit_signed_iff bit_exp_iff)
  then show ?thesis using True by (simp add: int_one_shl_def)
qed (auto simp: int_one_shl_def)

lemma and_top_mask: "w AND 0xFFFFFFFF80000000 = 0 \<longleftrightarrow> (\<forall>k. 31 \<le> k \<longrightarrow> \<not> bit (w :: u64) k)"
proof -
  have eq: "(0xFFFFFFFF80000000 :: u64) = NOT (mask 31)" by (simp add: mask_eq_exp_minus_1)
  have "bit (w AND 0xFFFFFFFF80000000) k \<longleftrightarrow> bit w k \<and> 31 \<le> k" for k
    unfolding eq bit_and_iff bit_not_iff bit_mask_iff
    using bit_imp_le_length [of w k] by auto
  then show ?thesis
    by (auto simp: bit_eq_iff [of "w AND 0xFFFFFFFF80000000"] dest: bit_u64_lt)
qed

lemma find_bit_clear_sound:
  assumes "find_bit w False [a..<64] = Inr r" "a \<le> 32"
  shows "\<exists>k. r = Some k \<and> a \<le> k \<and> k < 32 \<and> \<not> bit w k \<and> (\<forall>j. a \<le> j \<longrightarrow> j < k \<longrightarrow> bit w j)"
  using assms
proof (induction "32 - a" arbitrary: a)
  case 0
  then show ?case by (simp add: upt_conv_Cons int_one_shl_eq)
next
  case (Suc n)
  then have a: "a < 32" "[a..<64] = a # [Suc a..<64]" by (auto simp: upt_conv_Cons)
  show ?case
  proof (cases "a = 31")
    case True
    then show ?thesis
      using Suc.prems a
      by (cases "w AND 0xFFFFFFFF80000000 = 0")
        (auto simp: int_one_shl_eq and_top_mask upt_conv_Cons split: if_splits)
  next
    case False
    with a have lt: "a < 31" by simp
    show ?thesis
    proof (cases "bit w a")
      case True
      then have "find_bit w False [Suc a..<64] = Inr r"
        using Suc.prems a lt by (simp add: int_one_shl_eq)
      with Suc.hyps lt obtain k where "r = Some k" "Suc a \<le> k" "k < 32" "\<not> bit w k"
          "\<forall>j. Suc a \<le> j \<longrightarrow> j < k \<longrightarrow> bit w j"
        by (metis diff_Suc_Suc less_Suc_eq_le Suc_diff_Suc a(1) diff_Suc_1 Suc_leI)
      then show ?thesis using True by (metis Suc_leD Suc_leI le_neq_implies_less)
    qed (use Suc.prems a lt in \<open>auto simp: int_one_shl_eq\<close>)
  qed
qed

lemma find_bit_clear_complete:
  assumes "\<forall>j < k. bit w j" "\<not> bit w k" "k < 31 \<or> k = 31 \<and> (\<forall>j \<ge> 31. \<not> bit w j)" "a \<le> k"
  shows "find_bit w False [a..<64] = Inr (Some k)"
  using assms(4)
proof (induction "k - a" arbitrary: a)
  case 0
  then show ?case
    using assms by (auto simp: upt_conv_Cons int_one_shl_eq and_top_mask)
next
  case (Suc n)
  then have "bit w a" "a < 31" "[a..<64] = a # [Suc a..<64]"
    using assms by (auto simp: upt_conv_Cons)
  moreover have "find_bit w False [Suc a..<64] = Inr (Some k)"
    using Suc by (auto intro!: Suc.hyps(1))
  ultimately show ?case by (simp add: int_one_shl_eq)
qed


lemma limb_full_iff: "(w :: u64) = -1 \<longleftrightarrow> (\<forall>k < 64. bit w k)"
  by (auto simp: bit_eq_iff [of w] bit_minus_1_iff possible_bit_word)

lemma find_first_from_sound:
  assumes "find_first_from b False [a..<n] = Inr r" "n \<le> length (limbs b)" "64 * n \<le> 2 ^ 31"
  shows "if r = -1 then \<forall>i. 64 * a \<le> i \<longrightarrow> i < 64 * n \<longrightarrow> bm_bit b i
    else 64 * a \<le> unat r \<and> unat r < 64 * n \<and> \<not> bm_bit b (unat r) \<and>
      (\<forall>i. 64 * a \<le> i \<longrightarrow> i < unat r \<longrightarrow> bm_bit b i)"
  using assms(1)
proof (induction "n - a" arbitrary: a)
  case 0
  then show ?case by auto
next
  case (Suc m)
  then have a: "a < n" "[a..<n] = a # [Suc a..<n]" by (auto simp: upt_conv_Cons)
  have limb: "limb_at b a = Inr (limbs b ! a)" using a assms(2) by (simp add: limb_at_def)
  have bits: "bm_bit b (64 * a + k) = bit (limbs b ! a) k" if "k < 64" for k
    using that by (simp add: bm_bit_def)
  show ?case
  proof (cases "limbs b ! a = -1")
    case True
    then have rest: "find_first_from b False [Suc a..<n] = Inr r"
      using Suc.prems a limb by (simp add: empty_limb_def)
    have full: "bm_bit b i" if "64 * a \<le> i" "i < 64 * Suc a" for i
      using that bits [of "i - 64 * a"] True by (simp add: limb_full_iff)
    have "m = n - Suc a" using Suc.hyps(2) by simp
    from Suc.hyps(1) [OF this rest] show ?thesis
      using full a by (auto simp: not_less) (metis not_less)+
  next
    case False
    then obtain k where k: "k < 32" "\<not> bit (limbs b ! a) k" "\<forall>j < k. bit (limbs b ! a) j"
        "r = of_nat (64 * a + k)"
      using Suc.prems a limb find_bit_clear_sound [of "limbs b ! a" 0]
      by (fastforce simp: empty_limb_def BITS_PER_LIMB_def rbind_eq_Inr_iff)
    have lt: "64 * a + k < 2 ^ 31" using a k assms(3) by linarith
    then have "unat r = 64 * a + k" unfolding k(4) by (intro unat_of_nat_u32) simp
    moreover from this have "r \<noteq> -1" using lt by auto
    moreover have "\<forall>i. 64 * a \<le> i \<longrightarrow> i < 64 * a + k \<longrightarrow> bm_bit b i"
      using bits k by (auto simp: le_iff_add)
    ultimately show ?thesis using a k bits [of k] by auto
  qed
qed


lemma find_bit_clear_faults:
  assumes "\<forall>j < 31. bit w j" "\<exists>j \<ge> 31. bit w j" "a \<le> 31"
  shows "find_bit w False [a..<64] =
    Inl (Undefined_behaviour ''shift count exceeds the width of int'')"
  using assms(3)
proof (induction "31 - a" arbitrary: a)
  case 0
  then show ?case
    using assms by (auto simp: upt_conv_Cons int_one_shl_eq and_top_mask)
next
  case (Suc n)
  then have "bit w a" "a < 31" "[a..<64] = a # [Suc a..<64]"
    using assms by (auto simp: upt_conv_Cons)
  moreover have "find_bit w False [Suc a..<64] =
      Inl (Undefined_behaviour ''shift count exceeds the width of int'')"
    using Suc by (auto intro!: Suc.hyps(1))
  ultimately show ?case by (simp add: int_one_shl_eq)
qed

lemma find_first_from_skip:
  assumes "\<forall>i. a \<le> i \<longrightarrow> i < q \<longrightarrow> limbs b ! i = empty_limb v" "a \<le> q" "q < n"
    "n \<le> length (limbs b)" "limbs b ! q \<noteq> empty_limb v"
  shows "find_first_from b v [a..<n] =
    rbind (find_bit (limbs b ! q) v [0..<64]) (\<lambda>r.
      case r of Some k \<Rightarrow> Inr (of_nat (64 * q + k)) | None \<Rightarrow> find_first_from b v [Suc q..<n])"
  using assms
proof (induction "q - a" arbitrary: a)
  case 0
  then show ?case by (simp add: upt_conv_Cons limb_at_def BITS_PER_LIMB_def)
next
  case (Suc m)
  then have "find_first_from b v [Suc a..<n] = rbind (find_bit (limbs b ! q) v [0..<64]) (\<lambda>r.
      case r of Some k \<Rightarrow> Inr (of_nat (64 * q + k)) | None \<Rightarrow> find_first_from b v [Suc q..<n])"
    by auto
  moreover have "[a..<n] = a # [Suc a..<n]" "limb_at b a = Inr (empty_limb v)"
    using Suc by (auto simp: upt_conv_Cons limb_at_def)
  ultimately show ?case by (simp del: of_nat_add of_nat_mult)
qed

subsection \<open>Searching for a run of bits\<close>

text \<open>The state at the head of the loop: the \<open>nc\<close> bits below \<open>i\<close> have the wanted
  value, and the recorded start is theirs or, when they begin with a whole limb, the last
  bit of that limb.\<close>

definition run_inv :: "bitmap \<Rightarrow> bool \<Rightarrow> nat \<Rightarrow> nat \<Rightarrow> int \<Rightarrow> bool" where
  "run_inv b v i nc st \<longleftrightarrow> nc \<le> i \<and> (\<forall>k. i - nc \<le> k \<longrightarrow> k < i \<longrightarrow> bm_bit b k = v) \<and>
     (st = -1 \<longrightarrow> nc = 0) \<and>
     (st \<noteq> -1 \<longrightarrow> 0 \<le> st \<and> st < int i \<and>
       (st = int (i - nc) \<or> st mod 64 = 63 \<and> 64 \<le> nc \<and> st = int (i - nc) + 63))"

definition run_found :: "bitmap \<Rightarrow> bool \<Rightarrow> nat \<Rightarrow> int \<Rightarrow> bool" where
  "run_found b v n r \<longleftrightarrow> r = -1 \<or> 0 \<le> r \<and> r < int (bm_size b) \<and>
     (\<forall>k < n. bm_bit b (nat r + k) = v \<or> r mod 64 = 63 \<and> 0 < k \<and> n \<le> k + 63)"

lemma run_inv_found:
  "run_inv b v i nc st \<Longrightarrow> n \<le> nc \<Longrightarrow> i \<le> bm_size b \<Longrightarrow> run_found b v n st"
  by (auto simp: run_inv_def run_found_def)

lemma run_inv_reset: "run_inv b v i 0 (-1)"
  by (simp add: run_inv_def)

lemma run_inv_extend:
  assumes "run_inv b v i nc st" "bm_bit b i = v"
  shows "run_inv b v (Suc i) (nc + 1) (if st = -1 then int i else st)"
  using assms unfolding run_inv_def
  by (auto simp: le_less_Suc_eq)

lemma run_inv_extend_limb:
  assumes "run_inv b v i nc st" "\<forall>k. i \<le> k \<longrightarrow> k < i + 64 \<longrightarrow> bm_bit b k = v" "i mod 64 = 0"
  shows "run_inv b v (i + 64) (nc + 64) (if st = -1 then int (i + 63) else st)"
proof -
  have "int (i + 63) mod 64 = 63" using assms(3) by presburger
  moreover have "bm_bit b k = v" if "i - nc \<le> k" "k < i + 64" for k
    using assms(1,2) that by (cases "i \<le> k") (auto simp: run_inv_def)
  ultimately show ?thesis using assms(1) by (auto simp: run_inv_def)
qed

lemma scan_bits_sound:
  assumes "scan_bits b v n i [a..<64] nc st = Inr out" "run_inv b v (i + a) nc st" "a \<le> 64"
    "bm_size b \<le> bm_bits b" "bm_bits b \<le> 2 ^ 31"
  shows "case out of Inl r \<Rightarrow> run_found b v n r
    | Inr (nc', st') \<Rightarrow> bm_size b \<le> i + 64 \<or> run_inv b v (i + 64) nc' st'"
  using assms(1-3)
proof (induction "64 - a" arbitrary: a nc st)
  case 0
  then show ?case by auto
next
  case (Suc m)
  then have a: "a < 64" "[a..<64] = a # [Suc a..<64]" "m = 64 - Suc a" by (auto simp: upt_conv_Cons)
  show ?case
  proof (cases "i + a < bm_size b")
    case False
    then show ?thesis using Suc.prems a by auto
  next
    case True
    then have "i + a < bm_bits b" using assms(4) by simp
    moreover from this have idx: "unat (of_nat (i + a) :: u32) = i + a"
      using assms(5) by (intro unat_of_nat_u32) simp
    ultimately have test: "bm_test b (of_nat (i + a)) = Inr (bm_bit b (i + a))"
      by (metis bm_test_eq)
    show ?thesis
    proof (cases "bm_bit b (i + a) = v")
      case False
      then show ?thesis
        using Suc.prems a True test Suc.hyps(1) [OF a(3), of 0 "-1"] run_inv_reset [of b v "i + Suc a"]
        by simp
    next
      case hit: True
      let ?st = "if st = -1 then int (i + a) else st"
      have inv: "run_inv b v (i + Suc a) (nc + 1) ?st"
        using run_inv_extend [OF Suc.prems(2) hit] by simp
      show ?thesis
      proof (cases "nc + 1 \<ge> n")
        case True
        then have "run_found b v n ?st" using run_inv_found [OF inv, of n] \<open>i + a < bm_size b\<close> by auto
        then show ?thesis
          using True Suc.prems a \<open>i + a < bm_size b\<close> test hit by (auto simp: Let_def split: if_splits)
      next
        case False
        then show ?thesis
          using Suc.prems a True test hit Suc.hyps(1) [OF a(3) _ inv] by (simp add: Let_def)
      qed
    qed
  qed
qed

lemma find_first_n_loop_aligned:
  assumes "i mod 64 = 0" "i < bm_size b" "nc < n" "limb_at b (i div 64) = Inr w"
  shows "find_first_n_loop b v n i nc st =
    (if w = empty_limb v then find_first_n_loop b v n (i + 64) 0 (-1)
     else if w = NOT (empty_limb v) then
       find_first_n_loop b v n (i + 64) (nc + 64) (if st = -1 then int (i + 63) else st)
     else rbind (scan_bits b v n i [0..<64] nc st) (\<lambda>r. case r of Inl found \<Rightarrow> Inr found
       | Inr (nc', st') \<Rightarrow> find_first_n_loop b v n (i + 64) nc' st'))"
proof -
  have "i + (64 - 1) + 1 = i + 64" "i + (64 - 0 - 1) + 1 = i + 64" "i + (64 - 1) = i + 63" by simp_all
  then show ?thesis
    using assms by (simp only: find_first_n_loop.simps [of b v n i nc st] BITS_PER_LIMB_def
      rbind_Inr Let_def if_True not_le [symmetric] if_False simp_thms)
qed

lemma limb_bits:
  assumes "i mod 64 = 0" "i \<le> k" "k < i + 64"
  shows "bm_bit b k = bit (limbs b ! (i div 64)) (k - i)"
proof -
  obtain q where "i = 64 * q" using assms(1) by auto
  with assms(2,3) show ?thesis by (auto simp: bm_bit_def le_iff_add)
qed

text \<open>A limb with both kinds of bits is scanned, and the search goes on after it.\<close>

lemma find_first_n_mixed:
  assumes run: "rbind (scan_bits b v n i [0..<64] nc st) (\<lambda>out. case out of Inl found \<Rightarrow> Inr found
      | Inr (nc', st') \<Rightarrow> find_first_n_loop b v n (i + 64) nc' st') = Inr r"
    and inv: "run_inv b v i nc st" "i mod 64 = 0" and bounds: "bm_size b \<le> bm_bits b" "bm_bits b \<le> 2 ^ 31"
    and rest: "\<And>nc' st'. find_first_n_loop b v n (i + 64) nc' st' = Inr r \<Longrightarrow> run_inv b v (i + 64) nc' st' \<Longrightarrow> run_found b v n r"
  shows "run_found b v n r"
proof -
  from run obtain out where out: "scan_bits b v n i [0..<64] nc st = Inr out"
    and step: "(case out of Inl found \<Rightarrow> Inr found | Inr (nc', st') \<Rightarrow> find_first_n_loop b v n (i + 64) nc' st') = Inr r"
    by (auto simp: rbind_eq_Inr_iff)
  have sound: "case out of Inl r \<Rightarrow> run_found b v n r
      | Inr (nc', st') \<Rightarrow> bm_size b \<le> i + 64 \<or> run_inv b v (i + 64) nc' st'"
    using scan_bits_sound [OF out] inv bounds by simp
  have ended: "find_first_n_loop b v n (i + 64) nc' st' = Inr (-1)" if "bm_size b \<le> i + 64" for nc' st'
    using that find_first_n_loop.simps [of b v n "i + 64" nc' st'] by simp
  show ?thesis using step sound rest ended by (auto split: sum.splits simp: run_found_def)
qed

lemma find_first_n_loop_sound:
  assumes "find_first_n_loop b v n i nc st = Inr r" "run_inv b v i nc st" "i mod 64 = 0"
    and bounds: "bm_size b \<le> bm_bits b" "bm_bits b \<le> 2 ^ 31"
  shows "run_found b v n r"
  using assms(1-3)
proof (induction "bm_size b - i" arbitrary: i nc st rule: less_induct)
  case less
  show ?case
  proof (cases "i < bm_size b \<and> nc < n")
    case False
    then show ?thesis
      using less.prems find_first_n_loop.simps [of b v n i nc st] run_inv_found [OF less.prems(2)]
      by (auto simp: run_found_def split: if_splits)
  next
    case True
    let ?w = "limbs b ! (i div 64)"
    from True have "i div 64 < length (limbs b)" using bounds by (intro bm_index) simp
    then have limb: "limb_at b (i div 64) = Inr ?w" by (simp add: limb_at_def)
    note loop = find_first_n_loop_aligned [OF less.prems(3) conjunct1 [OF True] conjunct2 [OF True] limb,
      of v st]
    have IH: "run_found b v n r" if "find_first_n_loop b v n (i + 64) nc' st' = Inr r"
        "run_inv b v (i + 64) nc' st'" for nc' st'
    proof (rule less.hyps [OF _ that])
      show "bm_size b - (i + 64) < bm_size b - i" using True by linarith
      show "(i + 64) mod 64 = 0" using less.prems(3) by simp
    qed
    consider (empty) "?w = empty_limb v"
      | (whole) "?w \<noteq> empty_limb v" "?w = NOT (empty_limb v)"
      | (mixed) "?w \<noteq> empty_limb v" "?w \<noteq> NOT (empty_limb v)"
      by blast
    then show ?thesis
    proof cases
      case empty
      then show ?thesis using less.prems(1) loop IH [OF _ run_inv_reset] by simp
    next
      case whole
      then have "\<forall>k. i \<le> k \<longrightarrow> k < i + 64 \<longrightarrow> bm_bit b k = v"
        using limb_bits [OF less.prems(3)] by (cases v) (auto simp: empty_limb_def bit_minus_1_iff possible_bit_word)
      from IH [OF _ run_inv_extend_limb [OF less.prems(2) this less.prems(3)]] show ?thesis
        using whole less.prems(1) loop by simp
    next
      case mixed
      with less.prems(1) loop have run: "rbind (scan_bits b v n i [0..<64] nc st) (\<lambda>out. case out of Inl found \<Rightarrow> Inr found
          | Inr (nc', st') \<Rightarrow> find_first_n_loop b v n (i + 64) nc' st') = Inr r" by simp
      show ?thesis by (rule find_first_n_mixed [OF run less.prems(2,3) bounds IH])
    qed
  qed
qed

lemma bm_wf_size: "bm_wf b \<Longrightarrow> bm_size b \<le> bm_bits b"
proof -
  assume wf: "bm_wf b"
  then have "unat (num_limbs b) * 8 < 2 ^ 32" by (simp add: bm_wf_def bm_bits_def)
  then have "unat (num_limbs b * 8) = unat (num_limbs b) * 8" by (simp add: unat_word_ariths)
  then show ?thesis using wf by (simp add: bm_wf_def bm_bits_def bm_size_def)
qed

lemma bm_make_wf:
  assumes "unat num_bits \<le> 2 ^ 31 - 64"
  shows "bm_wf (bm_make num_bits)" "unat num_bits \<le> bm_bits (bm_make num_bits)"
    "i < bm_bits (bm_make num_bits) \<Longrightarrow> \<not> bm_bit (bm_make num_bits) i"
proof -
  have cover: "unat num_bits \<le> unat (div_ceil num_bits 64) * 64"
      "unat (div_ceil num_bits 64) * 64 < unat num_bits + 64"
    using div_ceil_covers [of 64 num_bits] by auto
  then have n: "unat (ucast (div_ceil num_bits 64) :: u32) = unat (div_ceil num_bits 64)"
    using assms by (intro unat_ucast_u32) simp
  show "bm_wf (bm_make num_bits)" "unat num_bits \<le> bm_bits (bm_make num_bits)"
    using n cover assms by (simp_all add: bm_wf_def bm_make_def bm_bits_def Let_def)
  show "\<not> bm_bit (bm_make num_bits) i" if "i < bm_bits (bm_make num_bits)"
    using bm_index [OF that] by (simp add: bm_make_def bm_bit_def Let_def)
qed

text \<open>Where the search for a clear bit ends.\<close>

lemma find_first_least:
  assumes "bm_wf b" "k < bm_bits b" "\<not> bm_bit b k" "\<forall>i < k. bm_bit b i"
  shows "find_first b False =
    (if k mod 64 < 31 \<or> k mod 64 = 31 \<and> (\<forall>j \<ge> 31. \<not> bit (limbs b ! (k div 64)) j)
     then Inr (of_nat k)
     else Inl (Undefined_behaviour ''shift count exceeds the width of int''))"
proof -
  let ?q = "k div 64" and ?w = "limbs b ! (k div 64)"
  have q: "?q < length (limbs b)" using assms(2) by (rule bm_index)
  have full: "limbs b ! i = -1" if "i < ?q" for i
  proof -
    have "bm_bit b (64 * i + j)" if "j < 64" for j
      using assms(4) that \<open>i < ?q\<close> by (intro assms(4) [rule_format]) (auto simp: less_mult_imp_div_less)
    then show ?thesis by (auto simp: limb_full_iff bm_bit_def)
  qed
  have low: "bit ?w j" if "j < k mod 64" for j
  proof -
    have "64 * ?q + j < k" using that by (metis add_strict_left_mono mult_div_mod_eq)
    then have "bm_bit b (64 * ?q + j)" using assms(4) by blast
    moreover have "j < 64" using that by (meson mod_less_divisor less_trans zero_less_numeral)
    ultimately show ?thesis by (simp add: bm_bit_def)
  qed
  have clear: "\<not> bit ?w (k mod 64)" using assms(3) by (simp add: bm_bit_def)
  then have some: "?w \<noteq> -1" using limb_full_iff [of ?w] by (metis mod_less_divisor zero_less_numeral)
  have len: "unat (num_limbs b) = length (limbs b)" using assms(1) by (simp add: bm_wf_def)
  have skip: "find_first b False = rbind (find_bit ?w False [0..<64]) (\<lambda>r.
      case r of Some j \<Rightarrow> Inr (of_nat (64 * ?q + j))
      | None \<Rightarrow> find_first_from b False [Suc ?q..<length (limbs b)])"
    unfolding find_first_def len
    using find_first_from_skip [of 0 ?q b False "length (limbs b)"] full q some
    by (simp add: empty_limb_def del: of_nat_add of_nat_mult)
  show ?thesis
  proof (cases "k mod 64 < 31 \<or> k mod 64 = 31 \<and> (\<forall>j \<ge> 31. \<not> bit ?w j)")
    case True
    then have "find_bit ?w False [0..<64] = Inr (Some (k mod 64))"
      using find_bit_clear_complete [of "k mod 64" ?w 0] low clear by auto
    then show ?thesis using skip True by simp
  next
    case False
    then have "\<forall>j < 31. bit ?w j" using low by auto
    moreover have "\<exists>j \<ge> 31. bit ?w j" using False low by (metis less_or_eq_imp_le linorder_neqE_nat not_less)
    ultimately show ?thesis using skip False find_bit_clear_faults [of ?w 0] by simp
  qed
qed

subsection \<open>Properties\<close>

text \<open>
  \<^verbatim>\<open>find_first(FREE)\<close> on a well-formed bitmap returns the least clear bit, or -1
  when every bit is set, whenever it returns.
\<close>

theorem find_first_clear:
  assumes "bm_wf b" "find_first b False = Inr r"
  shows "if r = -1 then \<forall>i. i < bm_bits b \<longrightarrow> bm_bit b i
    else unat r < bm_bits b \<and> \<not> bm_bit b (unat r) \<and> (\<forall>i. i < unat r \<longrightarrow> bm_bit b i)"
  using find_first_from_sound [of b 0 "unat (num_limbs b)" r] assms
  by (simp add: find_first_def bm_wf_def bm_bits_def)

theorem find_first_clear_witness:
  "\<not> bm_bit \<lparr>num_limbs = 1, total_size = 8, limbs = [7]\<rparr> 3"
proof -
  let ?b = "\<lparr>num_limbs = 1, total_size = 8, limbs = [7]\<rparr>"
  have "(7 :: u64) = mask 3" by (simp add: mask_eq_exp_minus_1)
  then have "find_first ?b False = Inr 3"
    by (simp add: find_first_def limb_at_def empty_limb_def BITS_PER_LIMB_def upt_conv_Cons
      int_one_shl_eq bit_mask_iff)
  moreover have "bm_wf ?b" by (simp add: bm_wf_def bm_bits_def)
  ultimately show ?thesis using find_first_clear [of ?b 3] by simp
qed

text \<open>
  C13. Exactly when \<^verbatim>\<open>find_first(FREE)\<close> finds the least clear bit \<open>k\<close>: its offset in
  the limb is below 31, or it is 31 and all higher bits of the limb are clear. Otherwise
  the loop reaches the \<^verbatim>\<open>int\<close> shift \<^verbatim>\<open>1 << 32\<close>, which is undefined.
\<close>

theorem find_first_reaches:
  assumes "bm_wf b" "k < bm_bits b" "\<not> bm_bit b k" "\<forall>i < k. bm_bit b i"
  shows "find_first b False =
    (if k mod 64 < 31 \<or> k mod 64 = 31 \<and> (\<forall>j \<ge> 31. \<not> bit (limbs b ! (k div 64)) j)
     then Inr (of_nat k)
     else Inl (Undefined_behaviour ''shift count exceeds the width of int''))"
  using assms by (rule find_first_least)

theorem find_first_reaches_witness:
  "find_first \<lparr>num_limbs = 1, total_size = 8, limbs = [mask 32]\<rparr> False =
     Inl (Undefined_behaviour ''shift count exceeds the width of int'')"
proof -
  let ?b = "\<lparr>num_limbs = 1, total_size = 8, limbs = [mask 32]\<rparr>"
  have "\<forall>i < 32. bm_bit ?b i" "\<not> bm_bit ?b 32"
    by (simp_all add: bm_bit_def bit_mask_iff)
  moreover have "bm_wf ?b" "32 < bm_bits ?b" by (simp_all add: bm_wf_def bm_bits_def)
  ultimately show ?thesis using find_first_reaches [of ?b 32] by simp
qed

text \<open>
  A start index that \<^verbatim>\<open>find_first_n\<close> returns begins a run of \<open>n\<close> bits with the
  wanted value, unless the index is the last bit of a limb.
\<close>

theorem find_first_n_run:
  assumes "bm_wf b" "find_first_n b v n = Inr r" "0 \<le> r" "r mod 64 \<noteq> 63" "k < n"
  shows "bm_bit b (nat r + k) = v"
  using find_first_n_loop_sound [of b v n 0 0 "-1" r] assms run_inv_reset bm_wf_size
  by (simp add: find_first_n_def run_found_def bm_wf_def)

theorem find_first_n_run_witness:
  "bm_bit \<lparr>num_limbs = 8, total_size = 64, limbs = 3 # replicate 7 0\<rparr> (2 + 2) = False"
proof -
  let ?b = "\<lparr>num_limbs = 8, total_size = 64, limbs = 3 # replicate 7 0\<rparr>"
  have "find_first_n ?b False 3 = Inr 2"
    by (simp add: find_first_n_def find_first_n_loop.simps bm_size_def limb_at_def Let_def
      empty_limb_def BITS_PER_LIMB_def upt_conv_Cons bm_test_def)
  moreover have "bm_wf ?b" by (simp add: bm_wf_def bm_bits_def)
  ultimately show ?thesis using find_first_n_run [of ?b False 3 2 2] by simp
qed

text \<open>
  When the run starts with a whole free limb, \<^verbatim>\<open>find_first_n\<close> records the limb's
  last bit as the start: here it reports two free pages at 63 although bit 64 is taken.
\<close>

theorem find_first_n_start_of_whole_limb:
  "find_first_n \<lparr>num_limbs = 16, total_size = 128, limbs = 0 # (-1) # replicate 14 0\<rparr> False 2 = Inr 63 \<and>
   bm_bit \<lparr>num_limbs = 16, total_size = 128, limbs = 0 # (-1) # replicate 14 0\<rparr> 64"
  by (simp add: find_first_n_def find_first_n_loop.simps bm_bit_def bm_size_def limb_at_def
    empty_limb_def BITS_PER_LIMB_def)

end
