(* ===== verification/Memory_Map.thy ===== *)
theory Memory_Map
  imports Util
begin

text \<open>
  The physical memory map of src/kernel/memory.h and src/kernel/memory.cpp: the entries the
  boot loader collected, sorted so that the largest usable region comes first, with the
  areas owned by the BIOS and by the kernel image taken out. The page allocator
  (theory \<open>Pma\<close>) works on entry 0. Printing the map is not modelled.
\<close>

subsection \<open>Constants and data\<close>

definition PAGE_SIZE :: u64 where
  "PAGE_SIZE = 0x1000"

definition KERNEL_SIZE :: u64 where
  "KERNEL_SIZE = 0x100 * PAGE_SIZE"

definition KERNEL_VMA_OFFSET :: u64 where
  "KERNEL_VMA_OFFSET = 0xFFFFFFFF80000000"

definition KERNEL_LMA_START :: u64 where
  "KERNEL_LMA_START = 0x100000"

definition KERNEL_VMA_START :: u64 where
  "KERNEL_VMA_START = KERNEL_LMA_START + KERNEL_VMA_OFFSET"

definition KERNEL_VMA_END :: u64 where
  "KERNEL_VMA_END = KERNEL_VMA_START + KERNEL_SIZE"

definition MAX_MEMORY_MAP_ENTRIES :: nat where
  "MAX_MEMORY_MAP_ENTRIES = 16"

record memory_map_entry =
  entry_base :: u64
  entry_length :: u64
  entry_type :: u32
  extended_attributes :: u32

abbreviation usable :: u32 where
  "usable \<equiv> 1"

definition type_str :: "u32 \<Rightarrow> string" where
  "type_str t = (if t = 1 then ''usable'' else if t = 2 then ''reserved''
     else if t = 3 then ''reclaimable'' else if t = 4 then ''nvs''
     else if t = 5 then ''badmemory'' else ''<error>'')"

record memory_state =
  g_memory_map :: "memory_map_entry list"
  g_num_of_memory_map_entries :: u32

subsection \<open>Operations\<close>

definition entry_is_usable :: "memory_map_entry \<Rightarrow> bool" where
  "entry_is_usable e \<longleftrightarrow> entry_type e = usable"

text \<open>The comparison passed to the sort: a usable region comes before an unusable one,
  and a larger usable region before a smaller one.\<close>

definition region_better :: "memory_map_entry \<Rightarrow> memory_map_entry \<Rightarrow> bool" where
  "region_better lhs rhs =
     (if \<not> entry_is_usable lhs then False
      else if \<not> entry_is_usable rhs then True
      else entry_length lhs > entry_length rhs)"

text \<open>The callback of \<^verbatim>\<open>mark_unusable\<close>: a region that starts inside the area is cut
  at the area's end, and the search stops.\<close>

definition cut_region :: "u64 \<Rightarrow> u64 \<Rightarrow> memory_map_entry \<Rightarrow> bool \<times> memory_map_entry" where
  "cut_region start stop e =
     (if start \<le> entry_base e \<and> entry_base e < stop
      then (True, e\<lparr>entry_length := entry_length e - (stop - entry_base e), entry_base := stop\<rparr>)
      else (False, e))"

definition mark_unusable :: "nat \<Rightarrow> u64 \<Rightarrow> u64 \<Rightarrow> memory_map_entry list \<Rightarrow> memory_map_entry list" where
  "mark_unusable n start stop a = transform (cut_region start stop) (take n a) @ drop n a"

definition sort_memory_map :: "nat \<Rightarrow> memory_map_entry list \<Rightarrow> memory_map_entry list" where
  "sort_memory_map n a =
     mark_unusable n 0x100000 0x300000
       (mark_unusable n 0x0 0x500
          (insertion_sort region_better a n))"

text \<open>\<^verbatim>\<open>early_init\<close> copies the entries found at the boot loader's address
  (the argument \<open>boot\<close>) over the static array and sorts it.\<close>

definition memory_early_init ::
  "(nat \<Rightarrow> memory_map_entry) \<Rightarrow> u32 \<Rightarrow> memory_state \<Rightarrow> memory_state res" where
  "memory_early_init boot num s =
     rbind (assert_that (unat num < MAX_MEMORY_MAP_ENTRIES) ''too many memory map entries!'') (\<lambda>_.
       let a = map boot [0..<unat num] @ drop (unat num) (g_memory_map s)
       in Inr (s\<lparr>g_memory_map := sort_memory_map (unat num) a, g_num_of_memory_map_entries := num\<rparr>))"

definition get_memory_map :: "memory_state \<Rightarrow> memory_map_entry list res" where
  "get_memory_map s =
     rbind (assert_that (g_num_of_memory_map_entries s \<noteq> 0) ''memory map not initialized!'')
       (\<lambda>_. Inr (g_memory_map s))"

subsection \<open>The comparison is a strict weak order\<close>

interpretation region: strict_weak_order region_better
  by unfold_locales (auto simp: region_better_def split: if_splits)

lemma length_insertion_sort [simp]: "n \<le> length a \<Longrightarrow> length (insertion_sort lt a n) = length a"
  using insertion_sort_frame [of n a lt] by (metis size_mset)

lemma set_take_insertion_sort:
  assumes "n \<le> length a"
  shows "set (take n (insertion_sort lt a n)) = set (take n a)"
proof -
  have "mset (take n (insertion_sort lt a n)) + mset (drop n (insertion_sort lt a n)) =
      mset (take n a) + mset (drop n a)"
    using insertion_sort_frame [OF assms, of lt] by (metis append_take_drop_id mset_append)
  then have "mset (take n (insertion_sort lt a n)) = mset (take n a)"
    using insertion_sort_frame [OF assms, of lt] by simp
  then show ?thesis by (metis set_mset_mset)
qed

lemma best_region_first:
  assumes n: "n \<le> length a" and e: "e \<in> set (take n a)" "entry_is_usable e"
  shows "\<exists>e0 \<in> set (take n a). insertion_sort region_better a n ! 0 = e0 \<and> entry_is_usable e0 \<and>
    (\<forall>x \<in> set (take n a). entry_is_usable x \<longrightarrow> entry_length x \<le> entry_length e0)"
proof -
  let ?s = "take n (insertion_sort region_better a n)"
  have pos: "0 < n" using e by (cases n) auto
  have set: "set ?s = set (take n a)" by (rule set_take_insertion_sort [OF n])
  obtain e0 rest where s: "?s = e0 # rest"
    using e(1) set by (cases ?s) auto
  then have head: "insertion_sort region_better a n ! 0 = e0"
    using pos by (metis nth_Cons_0 nth_take)
  have "sorted_wrt (\<lambda>x y. \<not> region_better y x) (e0 # rest)"
    using region.insertion_sort_sorted [OF n] s by simp
  then have best: "\<not> region_better x e0" if "x \<in> set (take n a)" for x
    using that region.asym [of e0 e0] unfolding set [symmetric] s by auto
  from this [OF e(1)] have us: "entry_is_usable e0"
    using e(2) by (simp add: region_better_def split: if_splits)
  have "e0 \<in> set (take n a)" using set s by (metis list.set_intros(1))
  then show ?thesis using head us best by (force simp: region_better_def not_less split: if_splits)
qed

lemma transform_hd: "0 < length xs \<Longrightarrow> transform f xs ! 0 = snd (f (xs ! 0))"
  by (cases xs) (auto simp: Let_def split_beta)

lemma length_transform [simp]: "length (transform f xs) = length xs"
  by (induction xs) (auto simp: Let_def split_beta)

lemma mark_unusable_hd:
  "0 < n \<Longrightarrow> n \<le> length a \<Longrightarrow> mark_unusable n s e a ! 0 = snd (cut_region s e (a ! 0))"
  by (simp add: mark_unusable_def nth_append transform_hd)

lemma length_mark_unusable [simp]: "length (mark_unusable n s e a) = length a"
  by (simp add: mark_unusable_def)

lemma cut_region_end:
  "entry_base (snd (cut_region s e x)) + entry_length (snd (cut_region s e x)) =
     entry_base x + entry_length x"
  by (simp add: cut_region_def)

lemma cut_region_outside:
  "s \<le> e \<Longrightarrow> \<not> (s \<le> entry_base (snd (cut_region s e x)) \<and> entry_base (snd (cut_region s e x)) < e)"
  by (auto simp: cut_region_def)

subsection \<open>Properties\<close>

text \<open>
  C12. After \<^verbatim>\<open>sort_memory_map\<close>, if any of the \<open>n\<close> entries is usable, entry 0
  is a usable entry of the input whose length is largest among the usable ones, with the
  BIOS area and the kernel area cut off its front: its end address is unchanged and it
  starts neither in 0x0-0x500 nor in 0x100000-0x300000.
\<close>

theorem sort_memory_map_head:
  assumes n: "n \<le> length a" and e: "e \<in> set (take n a)" "entry_is_usable e"
  shows "\<exists>e0 \<in> set (take n a).
    let r = sort_memory_map n a ! 0 in
      entry_is_usable e0 \<and>
      (\<forall>x \<in> set (take n a). entry_is_usable x \<longrightarrow> entry_length x \<le> entry_length e0) \<and>
      entry_is_usable r \<and>
      entry_base r + entry_length r = entry_base e0 + entry_length e0 \<and>
      \<not> entry_base r < 0x500 \<and> \<not> (0x100000 \<le> entry_base r \<and> entry_base r < 0x300000)"
proof -
  obtain e0 where e0: "e0 \<in> set (take n a)" "insertion_sort region_better a n ! 0 = e0"
      "entry_is_usable e0"
      "\<forall>x \<in> set (take n a). entry_is_usable x \<longrightarrow> entry_length x \<le> entry_length e0"
    using best_region_first [OF n e] by blast
  have pos: "0 < n" using e by (cases n) auto
  define r1 where "r1 = snd (cut_region 0x0 0x500 e0)"
  define r where "r = snd (cut_region 0x100000 0x300000 r1)"
  have r: "sort_memory_map n a ! 0 = r"
    using n pos e0(2) by (simp add: sort_memory_map_def mark_unusable_hd r_def r1_def)
  have "entry_is_usable r"
    using e0(3) by (simp add: r_def r1_def cut_region_def entry_is_usable_def)
  moreover have "entry_base r + entry_length r = entry_base e0 + entry_length e0"
    unfolding r_def r1_def cut_region_end ..
  moreover have "\<not> entry_base r1 < 0x500"
    using cut_region_outside [of 0 "0x500" e0] by (simp add: r1_def)
  then have "\<not> entry_base r < 0x500" by (auto simp: r_def cut_region_def)
  moreover have "\<not> (0x100000 \<le> entry_base r \<and> entry_base r < 0x300000)"
    using cut_region_outside [of "0x100000" "0x300000" r1] by (simp add: r_def)
  ultimately show ?thesis using e0 r by (auto simp: Let_def)
qed

theorem sort_memory_map_head_witness:
  "let a = [\<lparr>entry_base = 0, entry_length = 0x9FC00, entry_type = 1, extended_attributes = 1\<rparr>,
            \<lparr>entry_base = 0xF0000, entry_length = 0x10000, entry_type = 2, extended_attributes = 1\<rparr>,
            \<lparr>entry_base = 0x100000, entry_length = 0x7EE0000, entry_type = 1, extended_attributes = 1\<rparr>]
   in \<exists>e0 \<in> set a. entry_length e0 = 0x7EE0000 \<and>
        entry_base (sort_memory_map 3 a ! 0) + entry_length (sort_memory_map 3 a ! 0) = 0x7FE0000"
proof -
  define a where "a = [\<lparr>entry_base = 0, entry_length = 0x9FC00, entry_type = 1, extended_attributes = 1\<rparr>,
     \<lparr>entry_base = 0xF0000, entry_length = 0x10000, entry_type = 2, extended_attributes = 1\<rparr>,
     \<lparr>entry_base = 0x100000, entry_length = 0x7EE0000, entry_type = 1, extended_attributes = (1::u32)\<rparr>]"
  have "take 3 a = a" by (simp add: a_def)
  then show ?thesis
    using sort_memory_map_head [of 3 a "a ! 0"]
    by (auto simp: a_def Let_def entry_is_usable_def)
qed

end
