(* ===== verification/Cpu.thy ===== *)
theory Cpu
  imports Prelude
begin

text \<open>
  The processor as the kernel's inline assembly sees it: model-specific registers and the control
  registers (src/kernel/paging.cpp), the flags (interrupts.h) and the quadword in memory that one of
  the instructions writes. The assembly is in AT\&T syntax, as its operand order elsewhere shows: the source
  comes first.
\<close>

subsection \<open>Registers\<close>

record cpu =
  cr0 :: u64
  cr3 :: u64
  msrs :: "u32 \<Rightarrow> u64"
  flags_register :: u64
  quadword :: "u64 \<Rightarrow> u64"

text \<open>\<^verbatim>\<open>rdmsr\<close> gives the two halves of the register.\<close>

definition readmsr :: "u32 \<Rightarrow> cpu \<Rightarrow> u64" where
  "readmsr n c = (let efer_lo = ucast (msrs c n) :: u32; efer_hi = ucast (drop_bit 32 (msrs c n)) :: u32
     in ucast efer_lo OR push_bit 32 (ucast efer_hi))"

definition writesmr :: "u32 \<Rightarrow> u64 \<Rightarrow> cpu \<Rightarrow> cpu" where
  "writesmr n val c = (let lo = ucast val :: u32; hi = ucast (drop_bit 32 val) :: u32
     in c\<lparr>msrs := (msrs c)(n := push_bit 32 (ucast hi) OR ucast lo)\<rparr>)"

definition enable_execute_disable :: "cpu \<Rightarrow> cpu" where
  "enable_execute_disable c = (let efer = readmsr 0xC0000080 c in writesmr 0xC0000080 (efer OR push_bit 11 1) c)"

text \<open>
  \<^verbatim>\<open>or %0, %c1\<close> prints its second operand without a dollar sign, so it is the memory at the address
  \<^verbatim>\<open>1 << 16\<close> and the destination of the instruction: the register keeps the old value of \<^verbatim>\<open>CR0\<close>.
\<close>

definition enable_write_protection :: "cpu \<Rightarrow> cpu" where
  "enable_write_protection c =
     (let tmp = cr0 c;
          c1 = c\<lparr>quadword := (quadword c)(0x10000 := quadword c 0x10000 OR tmp)\<rparr>
      in c1\<lparr>cr0 := tmp\<rparr>)"

lemma join_halves: "ucast (ucast v :: u32) OR push_bit 32 (ucast (ucast (drop_bit 32 v) :: u32)) = (v :: u64)"
proof (rule bit_eqI)
  fix k assume "possible_bit TYPE(u64) k"
  then have k: "k < 64" by (simp add: possible_bit_word)
  show "bit (ucast (ucast v :: u32) OR push_bit 32 (ucast (ucast (drop_bit 32 v) :: u32)) :: u64) k = bit v k"
  proof (cases "k < 32")
    case True
    then show ?thesis using k by (simp add: bit_or_iff bit_push_bit_iff bit_unsigned_iff possible_bit_word)
  next
    case False
    then have "k - 32 < 32" using k by simp
    then show ?thesis using False k by (simp add: bit_or_iff bit_push_bit_iff bit_unsigned_iff possible_bit_word bit_drop_bit_eq)
  qed
qed

lemma readmsr_value: "readmsr n c = msrs c n"
  by (simp add: readmsr_def Let_def join_halves)

lemma writesmr_value: "writesmr n v c = c\<lparr>msrs := (msrs c)(n := v)\<rparr>"
  using join_halves [of v] by (simp add: writesmr_def Let_def or.commute)

lemma execute_disable_set:
  "bit (msrs (enable_execute_disable c) 0xC0000080) k \<longleftrightarrow> k = 11 \<or> bit (msrs c 0xC0000080) k"
proof -
  have "bit (push_bit 11 1 :: u64) k \<longleftrightarrow> k = 11" unfolding bit_push_bit_iff bit_1_iff by (auto simp: possible_bit_word)
  moreover have "msrs (enable_execute_disable c) 0xC0000080 = msrs c 0xC0000080 OR push_bit 11 1"
    by (simp add: enable_execute_disable_def readmsr_value writesmr_value Let_def)
  ultimately show ?thesis by (auto simp only: bit_or_iff)
qed

text \<open>Write protection in supervisor mode is bit 16 of \<^verbatim>\<open>CR0\<close>.\<close>

definition write_protected :: "cpu \<Rightarrow> bool" where
  "write_protected c \<longleftrightarrow> bit (cr0 c) 16"

text \<open>The execute-disable bit of page entries is honoured when bit 11 of \<^verbatim>\<open>EFER\<close> is set.\<close>

definition nx_enabled :: "cpu \<Rightarrow> bool" where
  "nx_enabled c \<longleftrightarrow> bit (msrs c 0xC0000080) 11"

text \<open>
  What the first statements of \<^verbatim>\<open>enable_kernel_page_protection\<close> do to the registers: the execute-disable bit
  of \<^verbatim>\<open>EFER\<close> is turned on and no other bit of it changes, but write protection is not turned on: \<^verbatim>\<open>CR0\<close> keeps
  its value, and the eight bytes at \<^verbatim>\<open>0x10000\<close> get the bits of \<^verbatim>\<open>CR0\<close> instead.
\<close>

theorem write_protection_not_enabled:
  "(let c' = enable_write_protection (enable_execute_disable c) in
    (\<forall>k. bit (msrs c' 0xC0000080) k \<longleftrightarrow> k = 11 \<or> bit (msrs c 0xC0000080) k) \<and>
    write_protected c' = write_protected c \<and> cr0 c' = cr0 c \<and>
    quadword c' = (quadword c)(0x10000 := quadword c 0x10000 OR cr0 c))"
proof -
  have k: "cr0 (enable_execute_disable c) = cr0 c" "quadword (enable_execute_disable c) = quadword c"
    by (simp_all add: enable_execute_disable_def writesmr_value Let_def)
  have m: "msrs (enable_write_protection d) = msrs d" "cr0 (enable_write_protection d) = cr0 d"
    "quadword (enable_write_protection d) = (quadword d)(0x10000 := quadword d 0x10000 OR cr0 d)" for d
    by (simp_all add: enable_write_protection_def Let_def)
  show ?thesis by (simp add: Let_def m k execute_disable_set write_protected_def)
qed

end
