(* ===== verification/Paging.thy ===== *)
theory Paging
  imports Memory_Map Cpu
begin

text \<open>
  The four-level page tables of src/kernel/paging.h and src/kernel/paging.cpp.

  Kernel memory is a function from the address of an aligned 64-bit word to its contents;
  a table at address \<open>t\<close> keeps entry \<open>i\<close> at \<open>t + 8 * i\<close>. Tables are reached the way
  the code reaches them, through the identity mapping at \<open>KERNEL_VMA_OFFSET\<close>. The iterator
  is the C++ class with its arrays \<^verbatim>\<open>tables\<close>, \<^verbatim>\<open>indices\<close> and its
  \<^verbatim>\<open>_level\<close>; the null pointer is 0. \<^verbatim>\<open>invlpg\<close> appends to a log of
  invalidated addresses. The addresses the linker gives to the static tables and to the
  sections are the fields of \<open>symbols\<close>. Model-specific and control registers are not modelled.
\<close>

type_synonym memory = "u64 \<Rightarrow> u64"

definition PREFIX_MASK :: u64 where
  "PREFIX_MASK = 0x1FF"

definition ADDRESS_MASK :: u64 where
  "ADDRESS_MASK = 0x000FFFFFFFFFF000"

definition PRESENT :: u64 where
  "PRESENT = 1"

definition RW :: u64 where
  "RW = 2"

definition USER :: u64 where
  "USER = 4"

definition XD :: u64 where
  "XD = 0x8000000000000000"

definition NUM_PAGE_TABLE_ENTRIES :: nat where
  "NUM_PAGE_TABLE_ENTRIES = 512"

definition MAX_STATIC_TABLES :: nat where
  "MAX_STATIC_TABLES = 8"

definition MAX_DYNAMIC_TABLES :: nat where
  "MAX_DYNAMIC_TABLES = 512"

record symbols =
  kernel_pml4 :: u64
  kernel_pml3 :: u64
  kernel_pml2 :: u64
  kernel_pml1 :: u64
  identity_pml3 :: u64
  identity_pml2 :: u64
  identity_pml1 :: u64
  static_tables :: u64
  text_start :: u64
  text_end :: u64
  rodata_start :: u64
  rodata_end :: u64
  data_start :: u64
  data_end :: u64
  bss_start :: u64
  bss_end :: u64

text \<open>\<^verbatim>\<open>kernel_page_tables\<close> (\<^verbatim>\<open>base\<close>, and whether \<^verbatim>\<open>allocate\<close>
  points to \<^verbatim>\<open>allocate_page_level\<close>) with the table pools and kernel memory.\<close>

record paging_state =
  mem :: memory
  syms :: symbols
  pt_base :: u64
  allocate_set :: bool
  num_static_tables_left :: nat
  dynamic_tables :: u64
  num_dynamic_tables_left :: nat
  invalidated :: "u64 list"

record page_iter =
  it_tables :: "u64 list"
  it_indices :: "nat list"
  it_level :: nat

subsection \<open>The iterator\<close>

definition slot :: "u64 \<Rightarrow> nat \<Rightarrow> u64" where
  "slot t i = t + 8 * of_nat i"

definition iter_base :: "u64 \<Rightarrow> page_iter" where
  "iter_base b = \<lparr>it_tables = [0, 0, 0, b], it_indices = [0, 0, 0, 0], it_level = 3\<rparr>"

definition iter_at :: "u64 \<Rightarrow> u64 \<Rightarrow> page_iter" where
  "iter_at b addr = (iter_base b)\<lparr>it_indices :=
     map (\<lambda>l. unat (drop_bit (9 * l) (drop_bit 12 addr) AND PREFIX_MASK)) [0..<4]\<rparr>"

definition iter_end :: "nat \<Rightarrow> page_iter" where
  "iter_end lvl = \<lparr>it_tables = [0, 0, 0, 0],
     it_indices = [0, 0, 0, 0][lvl - 1 := NUM_PAGE_TABLE_ENTRIES], it_level = lvl - 1\<rparr>"

definition level :: "page_iter \<Rightarrow> nat" where
  "level it = it_level it + 1"

definition iter_eq :: "page_iter \<Rightarrow> page_iter \<Rightarrow> bool" where
  "iter_eq a b \<longleftrightarrow> it_level a = it_level b \<and>
     it_indices a ! it_level a = it_indices b ! it_level a"

definition entry_ref :: "page_iter \<Rightarrow> u64 res" where
  "entry_ref it =
     (let table = it_tables it ! it_level it; idx = it_indices it ! it_level it in
      rbind (assert_that (table \<noteq> 0) ''empty page table!'') (\<lambda>_.
      rbind (assert_that (idx < NUM_PAGE_TABLE_ENTRIES) ''index into page tables out of bounds!'')
        (\<lambda>_. Inr (slot table idx))))"

definition entry_val :: "memory \<Rightarrow> page_iter \<Rightarrow> u64 res" where
  "entry_val m it = rbind (entry_ref it) (\<lambda>a. Inr (m a))"

definition iter_exists :: "page_iter \<Rightarrow> bool" where
  "iter_exists it \<longleftrightarrow> it_tables it ! it_level it \<noteq> 0"

definition iter_present :: "memory \<Rightarrow> page_iter \<Rightarrow> bool res" where
  "iter_present m it = rbind (entry_val m it) (\<lambda>e. Inr (e AND PRESENT \<noteq> 0))"

definition physical_page_address :: "memory \<Rightarrow> page_iter \<Rightarrow> u64 res" where
  "physical_page_address m it =
     rbind (assert_that (level it = 1) ''can't get physical addr of non level 1 page!'') (\<lambda>_.
     rbind (entry_val m it) (\<lambda>e. Inr (e AND ADDRESS_MASK)))"

definition virtual_page_address :: "page_iter \<Rightarrow> u64" where
  "virtual_page_address it = sign_extend
     (push_bit 39 (of_nat (it_indices it ! 3)) OR push_bit 30 (of_nat (it_indices it ! 2)) OR
      push_bit 21 (of_nat (it_indices it ! 1)) OR push_bit 12 (of_nat (it_indices it ! 0))) 42"

text \<open>The table an entry points to, as \<^verbatim>\<open>descend\<close> computes it.\<close>

definition entry_table :: "u64 \<Rightarrow> u64" where
  "entry_table e = (e AND NOT PREFIX_MASK) + KERNEL_VMA_OFFSET"

definition enter_table :: "page_iter \<Rightarrow> u64 \<Rightarrow> page_iter" where
  "enter_table it t = it\<lparr>it_level := it_level it - 1,
     it_tables := (it_tables it)[it_level it - 1 := t]\<rparr>"

definition descend :: "memory \<Rightarrow> page_iter \<Rightarrow> (bool \<times> page_iter) res" where
  "descend m it =
     (if level it = 1 \<or> it_indices it ! it_level it \<ge> NUM_PAGE_TABLE_ENTRIES \<or> \<not> iter_exists it
      then Inr (False, it)
      else rbind (iter_present m it) (\<lambda>p.
        if \<not> p then Inr (False, it)
        else rbind (entry_val m it) (\<lambda>e. Inr (True, enter_table it (entry_table e)))))"

definition ascend :: "page_iter \<Rightarrow> page_iter res" where
  "ascend it =
     rbind (assert_that (level it < 4) ''can't ascend from level 4 page iterator'') (\<lambda>_.
       Inr (it\<lparr>it_indices := (it_indices it)[it_level it := 0], it_level := it_level it + 1\<rparr>))"

definition advance :: "nat \<Rightarrow> page_iter \<Rightarrow> page_iter res" where
  "advance n it =
     rbind (assert_that (it_indices it ! it_level it + n \<le> NUM_PAGE_TABLE_ENTRIES) ''advanced out of bounds!'')
       (\<lambda>_. Inr (it\<lparr>it_indices := (it_indices it)[it_level it := it_indices it ! it_level it + n]\<rparr>))"

subsection \<open>Table allocation\<close>

definition allocate_page_level :: "paging_state \<Rightarrow> (u64 \<times> paging_state) res" where
  "allocate_page_level s =
     (if num_static_tables_left s > 0 then
        let n = num_static_tables_left s - 1 in
        Inr (static_tables (syms s) + 0x1000 * of_nat n - KERNEL_VMA_OFFSET, s\<lparr>num_static_tables_left := n\<rparr>)
      else rbind (assert_that (dynamic_tables s \<noteq> 0)
          ''ran out of static tables before dynamic tables could be initialized!'') (\<lambda>_.
        if num_dynamic_tables_left s > 0 then
          let n = num_dynamic_tables_left s - 1 in
          Inr (dynamic_tables s + 0x1000 * of_nat n - KERNEL_VMA_OFFSET, s\<lparr>num_dynamic_tables_left := n\<rparr>)
        else Inl (Panicked ''no more page tables!'')))"

definition store :: "u64 \<Rightarrow> u64 \<Rightarrow> paging_state \<Rightarrow> paging_state" where
  "store a v s = s\<lparr>mem := (mem s)(a := v)\<rparr>"

definition allocate_and_descend :: "paging_state \<Rightarrow> page_iter \<Rightarrow> (page_iter \<times> paging_state) res" where
  "allocate_and_descend s it =
     rbind (assert_that (level it > 1) ''can't allocate and descend on level 1 page iterator!'') (\<lambda>_.
     rbind (assert_that (it_indices it ! it_level it < NUM_PAGE_TABLE_ENTRIES) ''can't allocate on end iterator!'') (\<lambda>_.
     rbind (if iter_exists it then rbind (entry_val (mem s) it) (\<lambda>e. Inr (e AND NOT PREFIX_MASK)) else Inr 0) (\<lambda>addr.
     rbind (if addr = 0 then
              rbind (allocate_page_level s) (\<lambda>(addr', s').
              rbind (entry_ref it) (\<lambda>a. Inr (addr', store a (addr' OR RW OR PRESENT) s')))
            else Inr (addr, s)) (\<lambda>(addr', s').
     rbind (assert_that (addr' mod PAGE_SIZE = 0) ''address isn't page-aligned?'') (\<lambda>_.
       Inr (enter_table it (addr' + KERNEL_VMA_OFFSET), s'))))))"

subsection \<open>Lookup\<close>

lemma descend_level: "descend m it = Inr (True, it') \<Longrightarrow> it_level it' < it_level it"
  by (auto simp: descend_def level_def enter_table_def rbind_eq_Inr_iff split: if_splits)

text \<open>\<^verbatim>\<open>while (cursor.descend());\<close>\<close>

function descend_loop :: "memory \<Rightarrow> page_iter \<Rightarrow> page_iter res" where
  "descend_loop m it = rbind (descend m it) (\<lambda>(more, it').
     if more then descend_loop m it' else Inr it')"
  by pat_completeness auto
termination
  by (relation "measure (\<lambda>(m, it). it_level it)") (auto dest: descend_level)

declare descend_loop.simps [simp del]

definition pt_find :: "paging_state \<Rightarrow> u64 \<Rightarrow> page_iter res" where
  "pt_find s page = rbind (descend_loop (mem s) (iter_at (pt_base s) page)) (\<lambda>cursor.
     if level cursor \<noteq> 1 then Inr (iter_end 4) else Inr cursor)"

definition pt_get :: "paging_state \<Rightarrow> u64 \<Rightarrow> (page_iter \<times> paging_state) res" where
  "pt_get s page =
     rbind (assert_that (allocate_set s) ''tried to allocate before table allocator was initialized!'') (\<lambda>_.
     rbind (allocate_and_descend s (iter_at (pt_base s) page)) (\<lambda>(c1, s1).
     rbind (allocate_and_descend s1 c1) (\<lambda>(c2, s2).
     rbind (allocate_and_descend s2 c2) (\<lambda>(c3, s3).
     rbind (assert_that (level c3 = 1) ''didn't find a level 1 page?'') (\<lambda>_. Inr (c3, s3))))))"

definition get_physical_address :: "paging_state \<Rightarrow> u64 \<Rightarrow> u64 res" where
  "get_physical_address s virtual_addr =
     (let page_addr = virtual_addr AND - PAGE_SIZE; offset_in_page = virtual_addr - page_addr in
      rbind (pt_find s page_addr) (\<lambda>entry.
      rbind (assert_that (\<not> iter_eq entry (iter_end 4)) ''couldn't find an entry for address!'') (\<lambda>_.
      rbind (iter_present (mem s) entry) (\<lambda>p.
      rbind (assert_that p ''entry not found!'') (\<lambda>_.
      rbind (physical_page_address (mem s) entry) (\<lambda>a. Inr (a + offset_in_page)))))))"

subsection \<open>Mapping and unmapping\<close>

definition invlpg :: "u64 \<Rightarrow> paging_state \<Rightarrow> paging_state" where
  "invlpg page s = s\<lparr>invalidated := invalidated s @ [page]\<rparr>"

definition map_page_at :: "u64 \<Rightarrow> page_iter \<Rightarrow> u64 \<Rightarrow> paging_state \<Rightarrow> (u64 \<times> paging_state) res" where
  "map_page_at physical_page it attrs s =
     (let virtual_page = virtual_page_address it in
      rbind (assert_that (virtual_page mod PAGE_SIZE = 0) ''virtual address must be page-aligned!'') (\<lambda>_.
      rbind (assert_that (physical_page mod PAGE_SIZE = 0) ''physical address must be page-aligned!'') (\<lambda>_.
      rbind (assert_that (level it = 1) ''iterator must point to a page table entry!'') (\<lambda>_.
      rbind (assert_that (\<not> iter_eq it (iter_end 4) \<and> iter_exists it) ''lookup/allocation failed?'') (\<lambda>_.
      rbind (iter_present (mem s) it) (\<lambda>p.
        if p then Inl (Panicked ''Tried to map already-present page!'')
        else rbind (entry_ref it) (\<lambda>a.
          Inr (virtual_page, invlpg virtual_page (store a (physical_page OR attrs OR PRESENT) s)))))))))"

definition map_page :: "u64 \<Rightarrow> u64 \<Rightarrow> u64 \<Rightarrow> paging_state \<Rightarrow> (u64 \<times> paging_state) res" where
  "map_page physical_page virtual_page attrs s =
     rbind (assert_that (virtual_page mod PAGE_SIZE = 0) ''virtual address must be page-aligned!'') (\<lambda>_.
     rbind (pt_get s virtual_page) (\<lambda>(it, s'). map_page_at physical_page it attrs s'))"

text \<open>\<^verbatim>\<open>while (++it == iterator::end(it.level())) it.ascend();\<close>\<close>

lemma ascend_level: "ascend it = Inr it' \<Longrightarrow> it_level it < 3 \<and> it_level it' = Suc (it_level it)"
  by (auto simp: ascend_def level_def rbind_eq_Inr_iff)

lemma advance_level: "advance n it = Inr it' \<Longrightarrow> it_level it' = it_level it"
  by (auto simp: advance_def rbind_eq_Inr_iff)

function step_up_loop :: "page_iter \<Rightarrow> page_iter res" where
  "step_up_loop it = rbind (advance 1 it) (\<lambda>it1.
     if iter_eq it1 (iter_end (level it1))
     then rbind (ascend it1) (\<lambda>it2. step_up_loop it2) else Inr it1)"
  by pat_completeness auto
termination
  by (relation "measure (\<lambda>it. 3 - it_level it)") (auto dest!: ascend_level advance_level)

declare step_up_loop.simps [simp del]

text \<open>\<^verbatim>\<open>while (it.level() != 1) it.allocate_and_descend(allocate);\<close>\<close>

lemma allocate_and_descend_level:
  "allocate_and_descend s it = Inr (it', s') \<Longrightarrow> 0 < it_level it \<and> it_level it' = it_level it - 1"
  by (auto simp: allocate_and_descend_def level_def rbind_eq_Inr_iff enter_table_def)

function step_down_loop :: "page_iter \<Rightarrow> paging_state \<Rightarrow> (page_iter \<times> paging_state) res" where
  "step_down_loop it s =
     (if level it \<noteq> 1 then rbind (allocate_and_descend s it) (\<lambda>(it', s'). step_down_loop it' s')
      else Inr (it, s))"
  by pat_completeness auto
termination
  by (relation "measure (\<lambda>(it, s). it_level it)") (auto dest!: allocate_and_descend_level)

declare step_down_loop.simps [simp del]

text \<open>The loop of \<^verbatim>\<open>map_range\<close>. Both ends are page-aligned, so
  \<^verbatim>\<open>p < physical_end\<close> holds for as many iterations as there are pages between them.\<close>

fun map_range_loop :: "nat \<Rightarrow> u64 \<Rightarrow> u64 \<Rightarrow> u64 \<Rightarrow> page_iter \<Rightarrow> paging_state \<Rightarrow> paging_state res" where
  "map_range_loop 0 p v attrs it s = Inr s"
| "map_range_loop (Suc n) p v attrs it s =
     rbind (assert_that (virtual_page_address it = v) ''iterator and virtual address out of sync!'') (\<lambda>_.
     rbind (map_page_at p it attrs s) (\<lambda>(_, s1).
     rbind (step_up_loop it) (\<lambda>it1.
     rbind (step_down_loop it1 s1) (\<lambda>(it2, s2).
       map_range_loop n (p + PAGE_SIZE) (v + PAGE_SIZE) attrs it2 s2))))"

definition pages_between :: "u64 \<Rightarrow> u64 \<Rightarrow> nat" where
  "pages_between a b = (if a < b then unat (b - a) div 0x1000 else 0)"

definition map_range :: "u64 \<Rightarrow> u64 \<Rightarrow> u64 \<Rightarrow> u64 \<Rightarrow> u64 \<Rightarrow> paging_state \<Rightarrow> (u64 \<times> paging_state) res" where
  "map_range physical_start physical_end virtual_start virtual_end attrs s =
     rbind (assert_that (virtual_start mod PAGE_SIZE = 0 \<and> virtual_end mod PAGE_SIZE = 0)
       ''virtual addresses must be page-aligned!'') (\<lambda>_.
     rbind (assert_that (physical_start mod PAGE_SIZE = 0 \<and> physical_end mod PAGE_SIZE = 0)
       ''physical addresses must be page-aligned!'') (\<lambda>_.
     rbind (assert_that (physical_end - physical_start = virtual_end - virtual_start)
       ''physical and virtual address range sizes must match!'') (\<lambda>_.
     rbind (pt_get s virtual_start) (\<lambda>(it, s1).
     rbind (map_range_loop (pages_between physical_start physical_end)
         physical_start virtual_start attrs it s1) (\<lambda>s2.
       Inr (virtual_start, s2))))))"

definition map_range_size :: "u64 \<Rightarrow> u64 \<Rightarrow> u64 \<Rightarrow> u64 \<Rightarrow> paging_state \<Rightarrow> (u64 \<times> paging_state) res" where
  "map_range_size physical_start virtual_start sz attrs s =
     (let size' = align_to sz PAGE_SIZE in
      map_range physical_start (physical_start + size') virtual_start (virtual_start + size') attrs s)"

definition unmap_page :: "u64 \<Rightarrow> paging_state \<Rightarrow> paging_state res" where
  "unmap_page virtual_page s =
     rbind (assert_that (virtual_page mod PAGE_SIZE = 0) ''virtual address should be page-aligned!'') (\<lambda>_.
     rbind (pt_find s virtual_page) (\<lambda>entry.
     rbind (if iter_eq entry (iter_end 4) \<or> \<not> iter_exists entry then Inr False
            else iter_present (mem s) entry) (\<lambda>ok.
       if \<not> ok then Inl (Panicked ''Tried to unmap non-present page'')
       else rbind (entry_ref entry) (\<lambda>a.
         Inr (invlpg virtual_page (store a (mem s a AND NOT PRESENT) s))))))"

text \<open>\<^verbatim>\<open>for (p = virtual_start; p != virtual_end; p += PAGE_SIZE)\<close>: both ends are
  page-aligned, so the pointer difference, wrapping, counts the iterations.\<close>

fun for_pages :: "(u64 \<Rightarrow> paging_state \<Rightarrow> paging_state res) \<Rightarrow> nat \<Rightarrow> u64 \<Rightarrow> paging_state \<Rightarrow> paging_state res" where
  "for_pages f 0 p s = Inr s"
| "for_pages f (Suc n) p s = rbind (f p s) (\<lambda>s'. for_pages f n (p + PAGE_SIZE) s')"

definition unmap_range :: "u64 \<Rightarrow> u64 \<Rightarrow> paging_state \<Rightarrow> paging_state res" where
  "unmap_range virtual_start virtual_end s =
     rbind (assert_that (virtual_start mod PAGE_SIZE = 0) ''virtual start address should be page-aligned!'') (\<lambda>_.
     rbind (assert_that (virtual_end mod PAGE_SIZE = 0) ''virtual end address should be page-aligned!'') (\<lambda>_.
       for_pages unmap_page (unat (virtual_end - virtual_start) div 0x1000) virtual_start s))"

definition identity_map_page_range_into_kernel_space ::
  "u64 \<Rightarrow> u64 \<Rightarrow> u64 \<Rightarrow> paging_state \<Rightarrow> (u64 \<times> paging_state) res" where
  "identity_map_page_range_into_kernel_space address sz attrs s =
     map_range_size address (address + KERNEL_VMA_OFFSET) sz attrs s"

definition identity_map_pages_into_kernel_space ::
  "u64 \<Rightarrow> u64 \<Rightarrow> u64 \<Rightarrow> paging_state \<Rightarrow> (u64 \<times> paging_state) res" where
  "identity_map_pages_into_kernel_space starting_address n attrs s =
     rbind (assert_that (n > 0) ''trying to map 0 pages?'') (\<lambda>_.
       identity_map_page_range_into_kernel_space starting_address (n * PAGE_SIZE) attrs s)"

definition identity_map_page_into_kernel_space :: "u64 \<Rightarrow> u64 \<Rightarrow> paging_state \<Rightarrow> (u64 \<times> paging_state) res" where
  "identity_map_page_into_kernel_space address attrs s =
     identity_map_pages_into_kernel_space address 1 attrs s"

definition identity_map_address_to_kernel_space :: "u64 \<Rightarrow> u64" where
  "identity_map_address_to_kernel_space address = address + KERNEL_VMA_OFFSET"

definition identity_map_containing_page_into_kernel_space :: "u64 \<Rightarrow> paging_state \<Rightarrow> (u64 \<times> paging_state) res" where
  "identity_map_containing_page_into_kernel_space address s =
     identity_map_page_into_kernel_space (address AND - PAGE_SIZE) (RW OR XD) s"

subsection \<open>Initialisation\<close>

fun store_all :: "(u64 \<times> u64) list \<Rightarrow> memory \<Rightarrow> memory" where
  "store_all [] m = m"
| "store_all ((a, v) # xs) m = store_all xs (m(a := v))"

definition paging_early_init :: "paging_state \<Rightarrow> paging_state" where
  "paging_early_init s =
     (let y = syms s;
          link = (\<lambda>t. (t - KERNEL_VMA_OFFSET) OR RW OR PRESENT);
          page = (\<lambda>i. of_nat i * PAGE_SIZE OR XD OR PRESENT);
          stores = [(slot (kernel_pml4 y) 0x1FF, link (kernel_pml3 y)),
                    (slot (kernel_pml3 y) 0x1FE, link (kernel_pml2 y)),
                    (slot (kernel_pml2 y) 0, link (kernel_pml1 y))]
            @ map (\<lambda>i. (slot (kernel_pml1 y) i, page i)) [0x100..<0x200]
            @ [(slot (kernel_pml4 y) 0, link (identity_pml3 y)),
               (slot (identity_pml3 y) 0, link (identity_pml2 y)),
               (slot (identity_pml2 y) 0, link (identity_pml1 y)),
               (slot (identity_pml1 y) 0, 0)]
            @ map (\<lambda>i. (slot (identity_pml1 y) i, page i)) [1..<0x200]
      in s\<lparr>mem := store_all stores (mem s), pt_base := kernel_pml4 y, allocate_set := True\<rparr>)"

text \<open>
  The loops \<^verbatim>\<open>for (c = start; c != end; c += PAGE_SIZE)\<close> of
  \<^verbatim>\<open>enable_kernel_page_protection\<close> compare pointers for equality without an alignment
  check, so a loop over a misaligned section would not stop: \<open>None\<close>.
\<close>

partial_function (option) pages_until ::
  "(u64 \<Rightarrow> paging_state \<Rightarrow> paging_state res) \<Rightarrow> u64 \<Rightarrow> u64 \<Rightarrow> paging_state \<Rightarrow> paging_state res option" where
  "pages_until f c stop s =
     (if c = stop then Some (Inr s)
      else case f c s of Inl e \<Rightarrow> Some (Inl e) | Inr s' \<Rightarrow> pages_until f (c + PAGE_SIZE) stop s')"

text \<open>The bodies of the loops: look the page up, check it, and rewrite its entry.\<close>

definition protect_entry :: "bool \<Rightarrow> bool \<Rightarrow> string \<Rightarrow> (u64 \<Rightarrow> u64) \<Rightarrow> u64 \<Rightarrow> paging_state \<Rightarrow> paging_state res" where
  "protect_entry check_exists need_present what f c s =
     rbind (pt_find s c) (\<lambda>entry.
     rbind (assert_that (\<not> iter_eq entry (iter_end 4) \<and> (check_exists \<longrightarrow> iter_exists entry)) (''no '' @ what @ '' page mapped?'')) (\<lambda>_.
     rbind (if need_present then
              rbind (iter_present (mem s) entry) (\<lambda>p. assert_that p (what @ '' page not present?''))
            else Inr ()) (\<lambda>_.
     rbind (entry_ref entry) (\<lambda>a. Inr (store a (f (mem s a)) s)))))"

definition protect_text :: "u64 \<Rightarrow> paging_state \<Rightarrow> paging_state res" where
  "protect_text = protect_entry True True ''text'' (\<lambda>e. e AND NOT (XD OR RW))"

definition protect_rodata :: "u64 \<Rightarrow> paging_state \<Rightarrow> paging_state res" where
  "protect_rodata = protect_entry True True ''rodata'' (\<lambda>e. (e OR XD) AND NOT RW)"

definition protect_data :: "u64 \<Rightarrow> paging_state \<Rightarrow> paging_state res" where
  "protect_data = protect_entry True True ''data'' (\<lambda>e. e OR XD OR RW)"

definition protect_bss :: "u64 \<Rightarrow> paging_state \<Rightarrow> paging_state res" where
  "protect_bss = protect_entry False True ''bss'' (\<lambda>e. e OR XD OR RW)"

definition protect_stack :: "u64 \<Rightarrow> paging_state \<Rightarrow> paging_state res" where
  "protect_stack = protect_entry True False ''stack'' (\<lambda>e. e OR XD OR RW OR PRESENT)"

definition protect_guard :: "u64 \<Rightarrow> paging_state \<Rightarrow> paging_state res" where
  "protect_guard = protect_entry True True ''stack'' (\<lambda>e. e AND NOT PRESENT)"

definition KERNEL_STACK_SIZE :: u64 where
  "KERNEL_STACK_SIZE = 0x10 * PAGE_SIZE"

text \<open>A loop that stopped with a fault ends the run; one that does not stop never reaches
  the next.\<close>

definition then_pages :: "paging_state res option \<Rightarrow> (paging_state \<Rightarrow> paging_state res option) \<Rightarrow>
    paging_state res option" where
  "then_pages r k = (case r of None \<Rightarrow> None | Some (Inl e) \<Rightarrow> Some (Inl e) | Some (Inr s) \<Rightarrow> k s)"

text \<open>The lookups made by the messages printed at the end: each asserts that its page is
  present.\<close>

fun lookups_ok :: "u64 list \<Rightarrow> paging_state \<Rightarrow> paging_state res" where
  "lookups_ok [] s = Inr s"
| "lookups_ok (a # as) s = rbind (get_physical_address s a) (\<lambda>_. lookups_ok as s)"

text \<open>The part of \<^verbatim>\<open>enable_kernel_page_protection\<close> that walks over the kernel's sections and its stack.\<close>

definition protect_kernel_pages :: "u64 \<Rightarrow> paging_state \<Rightarrow> paging_state res option" where
  "protect_kernel_pages kernel_stack_base s =
     (let y = syms s; kernel_stack_top = kernel_stack_base - KERNEL_STACK_SIZE in
      then_pages (pages_until protect_text (text_start y) (text_end y) s) (\<lambda>s1.
      then_pages (pages_until protect_rodata (rodata_start y) (rodata_end y) s1) (\<lambda>s2.
      then_pages (pages_until protect_data (data_start y) (data_end y) s2) (\<lambda>s3.
      then_pages (pages_until protect_bss (bss_start y) (bss_end y) s3) (\<lambda>s4.
      then_pages (Some (rbind (assert_that (kernel_stack_top > bss_end y) ''bss and stack overlap!'') (\<lambda>_. Inr s4))) (\<lambda>s5.
      then_pages (pages_until protect_stack kernel_stack_top kernel_stack_base s5) (\<lambda>s6.
      then_pages (Some (protect_guard (kernel_stack_base - KERNEL_STACK_SIZE - PAGE_SIZE) s6)) (\<lambda>s7.
        Some (lookups_ok [text_start y, text_end y, rodata_start y, rodata_end y,
                data_start y, data_end y, bss_start y, bss_end y] s7)))))))))"

text \<open>The whole function: the registers first, then the pages, and last the tables are loaded into \<^verbatim>\<open>CR3\<close>.\<close>

definition enable_kernel_page_protection :: "u64 \<Rightarrow> cpu \<times> paging_state \<Rightarrow> (cpu \<times> paging_state) res option" where
  "enable_kernel_page_protection kernel_stack_base cs =
     (let c = enable_write_protection (enable_execute_disable (fst cs)) in
      case protect_kernel_pages kernel_stack_base (snd cs) of None \<Rightarrow> None
      | Some r \<Rightarrow> Some (rbind r (\<lambda>s. Inr (c\<lparr>cr3 := kernel_pml4 (syms s) - KERNEL_VMA_OFFSET\<rparr>, s))))"

end
