(* ===== verification/Paging_Tables.thy ===== *)
theory Paging_Tables
  imports Paging
begin

text \<open>
  The tree of page tables behind the iterator of theory \<open>Paging\<close>: the tables a walk
  visits, the invariant that makes the tables a tree (every table is aligned, has one level
  and one parent entry, and the unused tables are empty), and the effect of
  \<^verbatim>\<open>descend\<close>, \<^verbatim>\<open>allocate_and_descend\<close>, \<^verbatim>\<open>find\<close> and
  \<^verbatim>\<open>get\<close> on the entries a walk reaches.
\<close>

subsection \<open>Aligned addresses and slots\<close>

definition aligned :: "u64 \<Rightarrow> bool" where
  "aligned t \<longleftrightarrow> take_bit 12 t = 0"

lemma mod_PAGE_SIZE: "t mod PAGE_SIZE = 0 \<longleftrightarrow> aligned t"
  by (simp add: aligned_def take_bit_eq_mod PAGE_SIZE_def)

lemma aligned_unat: "aligned t \<longleftrightarrow> unat t mod 4096 = 0"
proof -
  have "unat (take_bit 12 t) = unat t mod 4096"
    unfolding unsigned_take_bit_eq by (simp add: take_bit_eq_mod)
  moreover have "take_bit 12 t = 0 \<longleftrightarrow> unat (take_bit 12 t) = 0" by (simp add: unat_eq_0)
  ultimately show ?thesis by (simp add: aligned_def)
qed

lemma aligned_iff_dvd: "aligned t \<longleftrightarrow> 2 ^ 12 dvd t"
proof
  assume "aligned t"
  then have "t = push_bit 12 (drop_bit 12 t)"
    using bits_ident [of 12 t] by (simp add: aligned_def)
  then have "t = drop_bit 12 t * 2 ^ 12" by (simp only: push_bit_eq_mult)
  then show "2 ^ 12 dvd t" by (metis dvd_triv_right)
next
  assume "2 ^ 12 dvd t"
  then obtain c where "t = push_bit 12 c" by (auto simp: push_bit_eq_mult mult.commute)
  then show "aligned t" by (simp only: aligned_def take_bit_push_bit) simp
qed

lemma aligned_add: "aligned a \<Longrightarrow> aligned b \<Longrightarrow> aligned (a + b)"
  unfolding aligned_iff_dvd by (rule dvd_add)

lemma aligned_diff: "aligned a \<Longrightarrow> aligned b \<Longrightarrow> aligned (a - b)"
  unfolding aligned_iff_dvd by (rule dvd_diff)

lemma aligned_bit: "aligned t \<Longrightarrow> k < 12 \<Longrightarrow> \<not> bit t k"
  unfolding aligned_def by (metis bit_0_eq bit_take_bit_iff bot_apply bot_bool_def)

lemma aligned_OFFSET [simp]: "aligned KERNEL_VMA_OFFSET"
  by (simp add: aligned_def KERNEL_VMA_OFFSET_def)

lemma aligned_PAGE_SIZE [simp]: "aligned PAGE_SIZE"
  by (simp add: aligned_def PAGE_SIZE_def)

lemma unat_slot:
  assumes "aligned t" "i < 512"
  shows "unat (slot t i) = unat t + 8 * i"
proof -
  have "unat t mod 4096 = 0" using assms by (simp add: aligned_unat)
  then obtain q where q: "unat t = 4096 * q" by auto
  have "unat t < 2 ^ 64" by simp
  with q have "unat t + 8 * i < 2 ^ 64" using assms(2) by simp
  moreover have "unat (8 * of_nat i :: u64) = 8 * i"
    using assms(2) by (simp add: unat_word_ariths unat_of_nat)
  ultimately show ?thesis unfolding slot_def by (simp add: unat_add_u64)
qed

lemma digit_eq:
  fixes a b x y :: nat
  assumes "a + 512 * x = b + 512 * y" "a < 512" "b < 512"
  shows "a = b" "x = y"
proof -
  have "(a + 512 * x) mod 512 = a" "(b + 512 * y) mod 512 = b"
    "(a + 512 * x) div 512 = x" "(b + 512 * y) div 512 = y"
    using assms(2,3) by simp_all
  then show "a = b" "x = y" using assms(1) by simp_all
qed

lemma slot_eq_iff:
  assumes "aligned t" "aligned t'" "i < 512" "i' < 512"
  shows "slot t i = slot t' i' \<longleftrightarrow> t = t' \<and> i = i'"
proof
  assume "slot t i = slot t' i'"
  then have "unat t + 8 * i = unat t' + 8 * i'" using assms by (metis unat_slot)
  moreover obtain q q' where "unat t = 4096 * q" "unat t' = 4096 * q'"
    using assms(1,2) unfolding aligned_unat by (metis dvdE mod_eq_0_iff_dvd)
  ultimately have "unat t = unat t'" "i = i'" using assms(3,4) digit_eq [of i q i' q'] by auto
  then show "t = t' \<and> i = i'" by (simp add: unsigned_word_eqI)
qed simp

subsection \<open>Table entries\<close>

definition link_entry :: "u64 \<Rightarrow> u64" where
  "link_entry addr = (addr OR RW OR PRESENT)"

lemma and_PRESENT: "e AND PRESENT \<noteq> 0 \<longleftrightarrow> bit e 0" for e :: u64
  by (simp add: PRESENT_def and_one_eq odd_iff_mod_2_eq_one [symmetric] bit_0)

lemma bit_PREFIX_MASK: "bit PREFIX_MASK k \<longleftrightarrow> k < 9"
proof -
  have eq: "PREFIX_MASK = mask 9" by (simp add: PREFIX_MASK_def mask_eq_exp_minus_1)
  show ?thesis unfolding eq by (auto simp: bit_mask_iff)
qed

lemma bit_RW: "bit RW k \<longleftrightarrow> k = 1"
proof -
  have eq: "RW = push_bit 1 1" by (simp add: RW_def)
  show ?thesis unfolding eq bit_push_bit_iff bit_1_iff by auto
qed

lemma bit_PRESENT: "bit PRESENT k \<longleftrightarrow> k = 0"
  by (simp add: PRESENT_def bit_1_iff)

lemma link_entry_address:
  assumes "aligned addr"
  shows "link_entry addr AND NOT PREFIX_MASK = addr"
proof (rule bit_eqI)
  fix k assume "possible_bit TYPE(64 word) k"
  then show "bit (link_entry addr AND NOT PREFIX_MASK) k = bit addr k"
    using aligned_bit [OF assms, of k]
    by (auto simp: link_entry_def bit_and_iff bit_or_iff bit_not_iff bit_PREFIX_MASK bit_RW bit_PRESENT)
qed

lemma bit_link_entry [simp]: "bit (link_entry addr) 0"
  by (simp add: link_entry_def bit_or_iff bit_PRESENT)

lemma link_entry_neq_0 [simp]: "link_entry addr \<noteq> 0"
  using bit_link_entry [of addr] by (metis bit_0_eq bot_apply bot_bool_def)

lemma link_entry_table: "aligned addr \<Longrightarrow> entry_table (link_entry addr) = addr + KERNEL_VMA_OFFSET"
  by (simp add: entry_table_def link_entry_address)

subsection \<open>Paths\<close>

text \<open>The path of a virtual address: its index in the PML1, PML2, PML3 and PML4.\<close>

definition path_of :: "u64 \<Rightarrow> nat list" where
  "path_of va = map (\<lambda>l. unat (drop_bit (9 * l) (drop_bit 12 va) AND PREFIX_MASK)) [0..<4]"

definition valid_path :: "nat list \<Rightarrow> bool" where
  "valid_path p \<longleftrightarrow> length p = 4 \<and> (\<forall>k < 4. p ! k < 512)"

lemma and_PREFIX_MASK: "x AND PREFIX_MASK = take_bit 9 x"
proof -
  have "PREFIX_MASK = mask 9" by (simp add: PREFIX_MASK_def mask_eq_exp_minus_1)
  then show ?thesis by (simp add: take_bit_eq_mask)
qed

lemma path_of_nth: "k < 4 \<Longrightarrow> path_of va ! k = unat va div 2 ^ (12 + 9 * k) mod 512"
proof -
  assume "k < 4"
  then have "k = 0 \<or> k = 1 \<or> k = 2 \<or> k = 3" by auto
  then show ?thesis
    unfolding path_of_def and_PREFIX_MASK
    by (elim disjE) (simp_all add: take_bit_eq_mod drop_bit_eq_div unat_div unat_mod div_mult2_eq [symmetric])
qed

lemma length_path_of [simp]: "length (path_of va) = 4"
  by (simp add: path_of_def)

lemma valid_path_of [simp]: "valid_path (path_of va)"
  by (simp add: valid_path_def path_of_nth)

text \<open>The number of the page a path names among the \<open>2 ^ 36\<close> pages.\<close>

definition path_number :: "nat list \<Rightarrow> nat" where
  "path_number p = p ! 0 + 512 * (p ! 1 + 512 * (p ! 2 + 512 * (p ! 3)))"

lemma path_number_of: "path_number (path_of va) = unat va div 4096 mod 2 ^ 36"
proof -
  have split: "n mod (512 * k) = n mod 512 + 512 * (n div 512 mod k)" for n k :: nat
    by (simp add: mod_mult2_eq add.commute)
  let ?n = "unat va div 4096"
  have "?n mod 2 ^ 36 = ?n mod (512 * (512 * (512 * 512)))" by simp
  also have "\<dots> = ?n mod 512 + 512 * (?n div 512 mod 512 + 512 *
      (?n div 512 div 512 mod 512 + 512 * (?n div 512 div 512 div 512 mod 512)))"
    by (simp only: split)
  finally show ?thesis
    by (simp add: path_number_def path_of_nth div_mult2_eq [symmetric])
qed

lemma path_number_inj:
  assumes "valid_path p" "valid_path q" "path_number p = path_number q"
  shows "p = q"
proof -
  have lt: "p ! 0 < 512" "p ! 1 < 512" "p ! 2 < 512" "p ! 3 < 512"
      "q ! 0 < 512" "q ! 1 < 512" "q ! 2 < 512" "q ! 3 < 512" "length p = 4" "length q = 4"
    using assms(1,2) by (auto simp: valid_path_def)
  note d0 = digit_eq [OF assms(3) [unfolded path_number_def] lt(1,5)]
  note d1 = digit_eq [OF d0(2) lt(2,6)]
  note d2 = digit_eq [OF d1(2) lt(3,7)]
  show ?thesis
  proof (rule nth_equalityI)
    fix k assume "k < length p"
    then have "k = 0 \<or> k = 1 \<or> k = 2 \<or> k = 3" using lt by auto
    then show "p ! k = q ! k" using d0 d1 d2 by auto
  qed (use lt in simp)
qed

lemma path_number_less:
  assumes "valid_path p" shows "path_number p < 2 ^ 36"
proof -
  have "p ! 0 < 512" "p ! 1 < 512" "p ! 2 < 512" "p ! 3 < 512"
    using assms by (auto simp: valid_path_def)
  then show ?thesis by (simp add: path_number_def)
qed

subsection \<open>Walks\<close>

text \<open>The table a walk along path \<open>p\<close> reaches after \<open>d\<close> descents from \<open>b\<close>, and the
  level-1 entry it ends at.\<close>

fun table_at :: "memory \<Rightarrow> u64 \<Rightarrow> nat list \<Rightarrow> nat \<Rightarrow> u64 option" where
  "table_at m b p 0 = Some b"
| "table_at m b p (Suc d) = (case table_at m b p d of None \<Rightarrow> None
     | Some t \<Rightarrow> let e = m (slot t (p ! (3 - d))) in
         if bit e 0 then Some (entry_table e) else None)"

definition pte_slot :: "paging_state \<Rightarrow> nat list \<Rightarrow> u64 option" where
  "pte_slot s p = map_option (\<lambda>t. slot t (p ! 0)) (table_at (mem s) (pt_base s) p 3)"

definition pte :: "paging_state \<Rightarrow> nat list \<Rightarrow> u64 option" where
  "pte s p = map_option (mem s) (pte_slot s p)"

subsection \<open>The invariant of the table tree\<close>

definition tree_inv :: "(u64 \<Rightarrow> nat) \<Rightarrow> memory \<Rightarrow> u64 \<Rightarrow> bool" where
  "tree_inv L m b \<longleftrightarrow>
     L b = 4 \<and> (\<forall>t. L t \<noteq> 0 \<longrightarrow> aligned t \<and> t \<noteq> 0 \<and> L t \<le> 4) \<and>
     (\<forall>t i. 2 \<le> L t \<longrightarrow> i < 512 \<longrightarrow> m (slot t i) \<noteq> 0 \<longrightarrow>
        bit (m (slot t i)) 0 \<and> m (slot t i) AND NOT PREFIX_MASK \<noteq> 0 \<and>
        L (entry_table (m (slot t i))) = L t - 1) \<and>
     (\<forall>t i t' i'. 2 \<le> L t \<longrightarrow> 2 \<le> L t' \<longrightarrow> i < 512 \<longrightarrow> i' < 512 \<longrightarrow>
        m (slot t i) \<noteq> 0 \<longrightarrow> m (slot t' i') \<noteq> 0 \<longrightarrow>
        entry_table (m (slot t i)) = entry_table (m (slot t' i')) \<longrightarrow> t = t' \<and> i = i')"

text \<open>The tables \<^verbatim>\<open>allocate_page_level\<close> has left, in the order it hands them out.\<close>

definition free_tables :: "paging_state \<Rightarrow> u64 list" where
  "free_tables s =
     map (\<lambda>k. static_tables (syms s) + 0x1000 * of_nat k) (rev [0..<num_static_tables_left s]) @
     (if dynamic_tables s = 0 then []
      else map (\<lambda>k. dynamic_tables s + 0x1000 * of_nat k) (rev [0..<num_dynamic_tables_left s]))"

definition fresh_table :: "(u64 \<Rightarrow> nat) \<Rightarrow> memory \<Rightarrow> u64 \<Rightarrow> bool" where
  "fresh_table L m t \<longleftrightarrow> L t = 0 \<and> aligned t \<and> t \<noteq> 0 \<and> t \<noteq> KERNEL_VMA_OFFSET \<and>
     (\<forall>i < 512. m (slot t i) = 0)"

definition pt_inv :: "(u64 \<Rightarrow> nat) \<Rightarrow> paging_state \<Rightarrow> bool" where
  "pt_inv L s \<longleftrightarrow> tree_inv L (mem s) (pt_base s) \<and> allocate_set s \<and> distinct (free_tables s) \<and>
     (\<forall>t \<in> set (free_tables s). fresh_table L (mem s) t)"

definition pt_wf :: "paging_state \<Rightarrow> bool" where
  "pt_wf s \<longleftrightarrow> (\<exists>L. pt_inv L s)"

lemma tree_invD:
  assumes "tree_inv L m b"
  shows "L b = 4" "\<And>t. L t \<noteq> 0 \<Longrightarrow> aligned t" "\<And>t. L t \<noteq> 0 \<Longrightarrow> t \<noteq> 0" "\<And>t. L t \<le> 4"
    "\<And>t i. 2 \<le> L t \<Longrightarrow> i < 512 \<Longrightarrow> m (slot t i) \<noteq> 0 \<Longrightarrow> bit (m (slot t i)) 0"
    "\<And>t i. 2 \<le> L t \<Longrightarrow> i < 512 \<Longrightarrow> m (slot t i) \<noteq> 0 \<Longrightarrow> m (slot t i) AND NOT PREFIX_MASK \<noteq> 0"
    "\<And>t i. 2 \<le> L t \<Longrightarrow> i < 512 \<Longrightarrow> m (slot t i) \<noteq> 0 \<Longrightarrow> L (entry_table (m (slot t i))) = L t - 1"
    "\<And>t i t' i'. 2 \<le> L t \<Longrightarrow> 2 \<le> L t' \<Longrightarrow> i < 512 \<Longrightarrow> i' < 512 \<Longrightarrow> m (slot t i) \<noteq> 0 \<Longrightarrow>
       m (slot t' i') \<noteq> 0 \<Longrightarrow> entry_table (m (slot t i)) = entry_table (m (slot t' i')) \<Longrightarrow> t = t' \<and> i = i'"
proof -
  show "L t \<le> 4" for t using assms by (cases "L t = 0") (auto simp: tree_inv_def)
qed (use assms in \<open>auto simp: tree_inv_def\<close>)

lemma bit_0_neq_0: "bit e 0 \<Longrightarrow> e \<noteq> 0" for e :: u64
  by auto

lemma table_at_level:
  assumes "tree_inv L m b" "valid_path p" "table_at m b p d = Some t" "d \<le> 3"
  shows "L t = 4 - d"
  using assms(3,4)
proof (induction d arbitrary: t)
  case 0
  then show ?case using tree_invD(1) [OF assms(1)] by simp
next
  case (Suc d)
  then obtain u where u: "table_at m b p d = Some u" "bit (m (slot u (p ! (3 - d)))) 0"
      "t = entry_table (m (slot u (p ! (3 - d))))"
    by (auto simp: Let_def split: option.splits if_splits)
  then have "L u = 4 - d" using Suc by simp
  moreover have "p ! (3 - d) < 512" using assms(2) by (simp add: valid_path_def)
  ultimately show ?case
    using tree_invD(7) [OF assms(1), of u "p ! (3 - d)"] u Suc.prems(2) bit_0_neq_0 by auto
qed

text \<open>Different walks end in different tables.\<close>

lemma table_at_inj:
  assumes "tree_inv L m b" "valid_path p" "valid_path q"
    "table_at m b p d = Some t" "table_at m b q d = Some t" "d \<le> 3"
  shows "\<forall>k. 4 - d \<le> k \<longrightarrow> k < 4 \<longrightarrow> p ! k = q ! k"
  using assms(4,5,6)
proof (induction d arbitrary: t)
  case 0
  then show ?case by simp
next
  case (Suc d)
  obtain u u' where u: "table_at m b p d = Some u" "bit (m (slot u (p ! (3 - d)))) 0"
      "t = entry_table (m (slot u (p ! (3 - d))))"
    and u': "table_at m b q d = Some u'" "bit (m (slot u' (q ! (3 - d)))) 0"
      "t = entry_table (m (slot u' (q ! (3 - d))))"
    using Suc.prems by (auto simp: Let_def split: option.splits if_splits)
  have "L u = 4 - d" "L u' = 4 - d"
    using table_at_level [OF assms(1)] assms(2,3) u u' Suc.prems by auto
  moreover have "p ! (3 - d) < 512" "q ! (3 - d) < 512" using assms(2,3) by (auto simp: valid_path_def)
  ultimately have eq: "u = u'" "p ! (3 - d) = q ! (3 - d)"
    using tree_invD(8) [OF assms(1), of u u' "p ! (3 - d)" "q ! (3 - d)"] u u' Suc.prems(3) bit_0_neq_0
    by auto
  then have IH: "\<forall>k. 4 - d \<le> k \<longrightarrow> k < 4 \<longrightarrow> p ! k = q ! k"
    using Suc u(1) u'(1) by auto
  show ?case
  proof (intro allI impI)
    fix k assume "4 - Suc d \<le> k" "k < 4"
    then have "k = 3 - d \<or> 4 - d \<le> k" by linarith
    then show "p ! k = q ! k" using IH eq(2) \<open>k < 4\<close> by auto
  qed
qed

lemma pte_slot_inj:
  assumes "tree_inv L (mem s) (pt_base s)" "valid_path p" "valid_path q"
    "pte_slot s p = Some a" "pte_slot s q = Some a"
  shows "p = q"
proof -
  obtain t t' where t: "table_at (mem s) (pt_base s) p 3 = Some t" "a = slot t (p ! 0)"
    and t': "table_at (mem s) (pt_base s) q 3 = Some t'" "a = slot t' (q ! 0)"
    using assms(4,5) by (auto simp: pte_slot_def)
  have "L t = 1" "L t' = 1" using table_at_level [OF assms(1)] assms(2,3) t t' by auto
  then have "aligned t" "aligned t'" using tree_invD(2) [OF assms(1)] by auto
  moreover have "p ! 0 < 512" "q ! 0 < 512" using assms(2,3) by (auto simp: valid_path_def)
  ultimately have "t = t'" "p ! 0 = q ! 0" using t t' slot_eq_iff by auto
  then have "\<forall>k < 4. p ! k = q ! k"
    using table_at_inj [OF assms(1-3), of 3 t] t t' by (auto simp: Suc_le_eq) (metis gr0I)
  then show ?thesis using assms(2,3) by (auto simp: valid_path_def intro: nth_equalityI)
qed

subsection \<open>Cursors\<close>

text \<open>An iterator whose tables are those of the walk along its indices.\<close>

definition cursor :: "memory \<Rightarrow> u64 \<Rightarrow> page_iter \<Rightarrow> bool" where
  "cursor m b it \<longleftrightarrow> length (it_tables it) = 4 \<and> valid_path (it_indices it) \<and> it_level it \<le> 3 \<and>
     (\<forall>d \<le> 3 - it_level it. table_at m b (it_indices it) d = Some (it_tables it ! (3 - d)))"

lemma cursor_iter_at: "cursor m b (iter_at b va)"
  using valid_path_of [of va]
  by (simp add: cursor_def iter_at_def iter_base_def path_of_def)

lemma iter_at_indices [simp]: "it_indices (iter_at b va) = path_of va" "it_level (iter_at b va) = 3"
  by (simp_all add: iter_at_def iter_base_def path_of_def)

lemma cursor_index: "cursor m b it \<Longrightarrow> it_indices it ! it_level it < 512"
  by (simp add: cursor_def valid_path_def)

lemma cursor_table:
  assumes "cursor m b it"
  shows "table_at m b (it_indices it) (3 - it_level it) = Some (it_tables it ! it_level it)"
  using assms unfolding cursor_def by (metis diff_diff_cancel order_refl)

lemma cursor_level:
  assumes "cursor m b it" "tree_inv L m b"
  shows "L (it_tables it ! it_level it) = Suc (it_level it)"
    "aligned (it_tables it ! it_level it)" "it_tables it ! it_level it \<noteq> 0"
proof -
  have "valid_path (it_indices it)" "it_level it \<le> 3" using assms(1) by (auto simp: cursor_def)
  then show *: "L (it_tables it ! it_level it) = Suc (it_level it)"
    using table_at_level [OF assms(2) _ cursor_table [OF assms(1)]] by auto
  show "aligned (it_tables it ! it_level it)" "it_tables it ! it_level it \<noteq> 0"
    using * tree_invD(2,3) [OF assms(2)] by auto
qed

definition cur_slot :: "page_iter \<Rightarrow> u64" where
  "cur_slot it = slot (it_tables it ! it_level it) (it_indices it ! it_level it)"

lemma cursor_ops:
  assumes "cursor m b it" "tree_inv L m b"
  shows "iter_exists it" "entry_ref it = Inr (cur_slot it)" "entry_val m' it = Inr (m' (cur_slot it))"
    "iter_present m' it = Inr (bit (m' (cur_slot it)) 0)"
  using cursor_level [OF assms] cursor_index [OF assms(1)]
  by (simp_all add: iter_exists_def entry_ref_def entry_val_def iter_present_def and_PRESENT
    NUM_PAGE_TABLE_ENTRIES_def Let_def cur_slot_def)

lemma cursor_enter:
  assumes "cursor m b it" "0 < it_level it" "table_at m b (it_indices it) (4 - it_level it) = Some t"
  shows "cursor m b (enter_table it t)"
proof -
  have len: "length (it_tables it) = 4" "it_level it \<le> 3" using assms(1) by (auto simp: cursor_def)
  have "table_at m b (it_indices it) d = Some ((it_tables it)[it_level it - 1 := t] ! (3 - d))"
    if "d \<le> 3 - (it_level it - 1)" for d
  proof (cases "d = 4 - it_level it")
    case True
    then show ?thesis using assms len by simp
  next
    case False
    then have "d \<le> 3 - it_level it" "3 - d \<noteq> it_level it - 1" using that assms(2) len by auto
    then show ?thesis using assms(1) by (simp add: cursor_def)
  qed
  then show ?thesis using assms(1) len unfolding cursor_def enter_table_def by simp
qed

lemma table_at_next:
  assumes "cursor m b it" "0 < it_level it"
  shows "table_at m b (it_indices it) (4 - it_level it) =
    (if bit (m (cur_slot it)) 0 then Some (entry_table (m (cur_slot it))) else None)"
proof -
  have "it_level it \<le> 3" using assms(1) by (simp add: cursor_def)
  then have "4 - it_level it = Suc (3 - it_level it)" "3 - (3 - it_level it) = it_level it"
    using assms(2) by auto
  then show ?thesis using cursor_table [OF assms(1)] by (simp add: Let_def cur_slot_def)
qed

lemma table_at_None_mono: "table_at m b p d = None \<Longrightarrow> d \<le> d' \<Longrightarrow> table_at m b p d' = None"
  by (induction d') (auto simp: le_Suc_eq)

lemma descend_cursor:
  assumes "cursor m b it" "tree_inv L m b" "0 < it_level it"
  shows "descend m it = (case table_at m b (it_indices it) (4 - it_level it) of
    None \<Rightarrow> Inr (False, it) | Some t \<Rightarrow> Inr (True, enter_table it t))"
  using cursor_ops [OF assms(1,2)] cursor_index [OF assms(1)] assms(3) table_at_next [OF assms(1,3)]
  by (simp add: descend_def level_def NUM_PAGE_TABLE_ENTRIES_def)

lemma descend_loop_cursor:
  assumes "cursor m b it" "tree_inv L m b"
  shows "\<exists>it'. descend_loop m it = Inr it' \<and> it_indices it' = it_indices it \<and>
    (case table_at m b (it_indices it) 3 of None \<Rightarrow> it_level it' \<noteq> 0
     | Some t \<Rightarrow> it_level it' = 0 \<and> cursor m b it')"
  using assms
proof (induction "it_level it" arbitrary: it)
  case 0
  then have "descend m it = Inr (False, it)" by (simp add: descend_def level_def)
  then show ?case
    using 0 cursor_table [OF "0.prems"(1)] by (simp add: descend_loop.simps [of m it])
next
  case (Suc n)
  then have pos: "0 < it_level it" by simp
  show ?case
  proof (cases "table_at m b (it_indices it) (4 - it_level it)")
    case None
    then have "table_at m b (it_indices it) 3 = None" using pos by (auto elim: table_at_None_mono)
    then show ?thesis
      using None pos descend_cursor [OF Suc.prems pos] by (simp add: descend_loop.simps [of m it])
  next
    case (Some t)
    have "n = it_level (enter_table it t)" using Suc.hyps(2) by (simp add: enter_table_def)
    from Suc.hyps(1) [OF this cursor_enter [OF Suc.prems(1) pos Some] Suc.prems(2)] show ?thesis
      using Some descend_cursor [OF Suc.prems pos]
      by (simp add: descend_loop.simps [of m it] enter_table_def)
  qed
qed

lemma cursor_pte:
  assumes "cursor (mem s) (pt_base s) it" "it_level it = 0"
  shows "pte_slot s (it_indices it) = Some (cur_slot it)"
  using cursor_table [OF assms(1)] assms(2) by (simp add: pte_slot_def cur_slot_def)

lemma iter_eq_end: "iter_eq (iter_end 4) (iter_end 4)" "it_level it = 0 \<Longrightarrow> \<not> iter_eq it (iter_end 4)"
  by (simp_all add: iter_eq_def iter_end_def)

text \<open>\<^verbatim>\<open>find\<close>: the end iterator when the walk is cut short, otherwise an iterator at the
  level-1 entry.\<close>

lemma pt_find_cases:
  assumes "tree_inv L (mem s) (pt_base s)"
  obtains (missing) "pte_slot s (path_of va) = None" "pt_find s va = Inr (iter_end 4)"
  | (found) it where "pt_find s va = Inr it" "it_level it = 0" "cursor (mem s) (pt_base s) it"
      "it_indices it = path_of va" "pte_slot s (path_of va) = Some (cur_slot it)"
proof -
  obtain it' where it': "descend_loop (mem s) (iter_at (pt_base s) va) = Inr it'"
      "it_indices it' = path_of va"
      "case table_at (mem s) (pt_base s) (path_of va) 3 of None \<Rightarrow> it_level it' \<noteq> 0
       | Some t \<Rightarrow> it_level it' = 0 \<and> cursor (mem s) (pt_base s) it'"
    using descend_loop_cursor [OF cursor_iter_at assms, of va] by auto
  show ?thesis
  proof (cases "table_at (mem s) (pt_base s) (path_of va) 3")
    case None
    then show ?thesis using it' missing by (simp add: pt_find_def level_def pte_slot_def)
  next
    case (Some t)
    then show ?thesis
      using it' found cursor_pte [of s it'] by (simp add: pt_find_def level_def)
  qed
qed

subsection \<open>Allocating tables\<close>

text \<open>A step that leaves every table a walk reaches where it is, and the number of tables
  a walk along a path lacks.\<close>

definition keeps_tables :: "paging_state \<Rightarrow> paging_state \<Rightarrow> bool" where
  "keeps_tables s s' \<longleftrightarrow> (\<forall>p d t. valid_path p \<longrightarrow> d \<le> 3 \<longrightarrow> table_at (mem s) (pt_base s) p d = Some t \<longrightarrow>
     table_at (mem s') (pt_base s') p d = Some t)"

definition lacking :: "paging_state \<Rightarrow> nat list \<Rightarrow> nat" where
  "lacking s p = card {d. d \<le> 3 \<and> table_at (mem s) (pt_base s) p d = None}"

lemma keeps_tables_refl [intro, simp]: "keeps_tables s s"
  by (simp add: keeps_tables_def)

lemma keeps_tables_trans: "keeps_tables s1 s2 \<Longrightarrow> keeps_tables s2 s3 \<Longrightarrow> keeps_tables s1 s3"
  by (auto simp: keeps_tables_def)

lemma lacking_keeps: "keeps_tables s s' \<Longrightarrow> valid_path p \<Longrightarrow> lacking s' p \<le> lacking s p"
  unfolding lacking_def keeps_tables_def by (rule card_mono) force+

lemma lacking_le:
  assumes "table_at (mem s) (pt_base s) p d \<noteq> None" "d \<le> 3"
  shows "lacking s p \<le> 3 - d"
proof -
  have "{k. k \<le> 3 \<and> table_at (mem s) (pt_base s) p k = None} \<subseteq> {d<..3}"
    using assms table_at_None_mono [of "mem s" "pt_base s" p] by (auto simp: not_le [symmetric])
  then show ?thesis using card_mono [of "{d<..3}"] by (force simp: lacking_def)
qed

lemma lacking_3: "lacking s p \<le> 3"
  using lacking_le [of s p 0] by simp

lemma lacking_eq:
  assumes "table_at (mem s) (pt_base s) p d = None" "d \<le> 3"
  shows "4 - d \<le> lacking s p"
proof -
  have "{d..3} \<subseteq> {k. k \<le> 3 \<and> table_at (mem s) (pt_base s) p k = None}"
    using assms table_at_None_mono [of "mem s" "pt_base s" p] by auto
  then show ?thesis using card_mono [of "{k. k \<le> 3 \<and> table_at (mem s) (pt_base s) p k = None}" "{d..3}"]
    by (simp add: lacking_def)
qed

text \<open>Growing the tree: no entry a walk reached is changed, and a walk that was cut short
  is still cut short or ends in an empty entry. Nothing else of the state changes but the
  table pools.\<close>

definition grows :: "paging_state \<Rightarrow> paging_state \<Rightarrow> bool" where
  "grows s s' \<longleftrightarrow> pt_base s' = pt_base s \<and> syms s' = syms s \<and> allocate_set s' = allocate_set s \<and>
     dynamic_tables s' = dynamic_tables s \<and> invalidated s' = invalidated s \<and> keeps_tables s s' \<and>
     (\<forall>p. valid_path p \<longrightarrow> (case pte s p of
        Some e \<Rightarrow> pte s' p = Some e | None \<Rightarrow> pte s' p = None \<or> pte s' p = Some 0))"

lemma grows_refl [intro]: "grows s s"
  by (auto simp: grows_def split: option.split)

lemma grows_trans: "grows s1 s2 \<Longrightarrow> grows s2 s3 \<Longrightarrow> grows s1 s3"
  unfolding grows_def using keeps_tables_trans [of s1 s2 s3] by (fastforce split: option.splits)

text \<open>Linking an empty table below entry \<open>i\<close> of table \<open>t\<close>.\<close>

lemma table_at_link:
  assumes inv: "tree_inv L m b" and t: "2 \<le> L t" "i < 512" "m (slot t i) = 0"
    and v: "bit v 0" "fresh_table L m (entry_table v)" and q: "valid_path q" and d: "d \<le> 3"
  shows "case table_at m b q d of Some u \<Rightarrow> table_at (m(slot t i := v)) b q d = Some u
    | None \<Rightarrow> table_at (m(slot t i := v)) b q d = None \<or>
        table_at (m(slot t i := v)) b q d = Some (entry_table v)"
  using d
proof (induction d)
  case 0
  then show ?case by simp
next
  case (Suc d)
  let ?m = "m(slot t i := v)" and ?j = "q ! (3 - d)"
  have j: "?j < 512" using q by (simp add: valid_path_def)
  have al: "aligned t" using t(1) tree_invD(2) [OF inv] by (metis not_numeral_le_zero)
  have zero: "?m (slot (entry_table v) ?j) = 0"
  proof -
    have "slot (entry_table v) ?j \<noteq> slot t i"
      using v(2) t j al slot_eq_iff [of "entry_table v" t] by (auto simp: fresh_table_def)
    then show ?thesis using v(2) j by (simp add: fresh_table_def)
  qed
  show ?case
  proof (cases "table_at m b q d")
    case None
    then have "table_at ?m b q d = None \<or> table_at ?m b q d = Some (entry_table v)"
      using Suc by simp
    then have "table_at ?m b q (Suc d) = None" using zero by (auto simp: Let_def simp del: fun_upd_apply)
    then show ?thesis using None by simp
  next
    case (Some u)
    then have u: "table_at ?m b q d = Some u" using Suc by simp
    have lu: "L u = 4 - d" using table_at_level [OF inv q Some] Suc.prems by simp
    show ?thesis
    proof (cases "bit (m (slot u ?j)) 0")
      case True
      then have "slot u ?j \<noteq> slot t i" using t(3) by auto
      then show ?thesis using Some u True by (simp add: Let_def)
    next
      case False
      moreover have "2 \<le> L u" using lu Suc.prems by linarith
      ultimately have "m (slot u ?j) = 0" using tree_invD(5) [OF inv, of u ?j] j by auto
      then show ?thesis using Some u by (auto simp: Let_def)
    qed
  qed
qed

lemma tree_inv_link:
  assumes inv: "tree_inv L m b" and t: "2 \<le> L t" "i < 512" "m (slot t i) = 0"
    and v: "bit v 0" "v AND NOT PREFIX_MASK \<noteq> 0" "fresh_table L m (entry_table v)"
  shows "tree_inv (L(entry_table v := L t - 1)) (m(slot t i := v)) b"
proof -
  let ?m = "m(slot t i := v)" and ?t = "entry_table v" and ?L = "L(entry_table v := L t - 1)"
  note D = tree_invD [OF inv]
  have fr: "L ?t = 0" "aligned ?t" "?t \<noteq> 0" using v(3) by (auto simp: fresh_table_def)
  have other: "u \<noteq> ?t \<and> (u = t \<and> j = i \<or> ?m (slot u j) = m (slot u j)) \<and> 2 \<le> L u"
    if "2 \<le> ?L u" "j < 512" "?m (slot u j) \<noteq> 0" for u j
  proof -
    have ne: "t \<noteq> ?t" using t(1) fr(1) by auto
    have al: "aligned t" using D(2) [of t] t(1) by simp
    have "u \<noteq> ?t"
    proof
      assume "u = ?t"
      then have "slot u j \<noteq> slot t i" using slot_eq_iff [of u t j i] al fr that t ne by auto
      then show False using that \<open>u = ?t\<close> v(3) by (simp add: fresh_table_def)
    qed
    moreover from this have "2 \<le> L u" using that(1) by simp
    moreover from this have "aligned u" using D(2) [of u] by simp
    ultimately show ?thesis using slot_eq_iff [of u t j i] al that t by auto
  qed
  have child: "m (slot u j) \<noteq> 0 \<Longrightarrow> 2 \<le> L u \<Longrightarrow> j < 512 \<Longrightarrow> entry_table (m (slot u j)) \<noteq> ?t" for u j
    using D(7) [of u j] fr(1) by auto
  show ?thesis
    unfolding tree_inv_def
  proof (intro conjI allI impI)
    show "?L b = 4" using D(1) fr(1) by auto
    fix u assume "?L u \<noteq> 0"
    then show "aligned u" "u \<noteq> 0" "?L u \<le> 4" using D(2,3,4) [of u] D(4) [of t] fr by (auto split: if_splits)
  next
    fix u j assume u: "2 \<le> ?L u" "j < 512" "?m (slot u j) \<noteq> 0"
    note o = other [OF u]
    show "bit (?m (slot u j)) 0" "?m (slot u j) AND NOT PREFIX_MASK \<noteq> 0"
      "?L (entry_table (?m (slot u j))) = ?L u - 1"
      using o u v(1,2) t(3) D(5,6,7) [of u j] child [of u j] by (cases "slot u j = slot t i"; auto)+
  next
    fix u j u' j' assume u: "2 \<le> ?L u" "2 \<le> ?L u'" "j < 512" "j' < 512" "?m (slot u j) \<noteq> 0"
      "?m (slot u' j') \<noteq> 0" "entry_table (?m (slot u j)) = entry_table (?m (slot u' j'))"
    note o = other [OF u(1,3,5)] other [OF u(2,4,6)]
    have "u = u' \<and> j = j'"
      using o u t(3) D(8) [of u u' j j'] child [of u j] child [of u' j']
      by (cases "slot u j = slot t i"; cases "slot u' j' = slot t i") auto
    then show "u = u'" "j = j'" by simp_all
  qed
qed

lemma fresh_table_link:
  assumes "fresh_table L m u" "u \<noteq> entry_table v" "L t \<noteq> 0" "aligned t" "i < 512"
  shows "fresh_table (L(entry_table v := n)) (m(slot t i := v)) u"
  using assms slot_eq_iff [of u t _ i] by (auto simp: fresh_table_def)

text \<open>\<^verbatim>\<open>allocate_page_level\<close> pops the list of free tables.\<close>

lemma allocate_page_level_Cons:
  assumes "free_tables s = t # ts"
  shows "\<exists>s'. allocate_page_level s = Inr (t - KERNEL_VMA_OFFSET, s') \<and> free_tables s' = ts \<and>
    mem s' = mem s \<and> pt_base s' = pt_base s \<and> syms s' = syms s \<and> allocate_set s' = allocate_set s \<and>
    dynamic_tables s' = dynamic_tables s \<and> invalidated s' = invalidated s"
proof (cases "num_static_tables_left s")
  case 0
  then obtain n where "num_dynamic_tables_left s = Suc n" "dynamic_tables s \<noteq> 0"
    using assms by (cases "num_dynamic_tables_left s") (auto simp: free_tables_def split: if_splits)
  then show ?thesis using assms 0 by (auto simp: allocate_page_level_def free_tables_def Let_def)
next
  case (Suc n)
  then show ?thesis using assms by (auto simp: allocate_page_level_def free_tables_def Let_def)
qed

lemma allocate_page_level_Nil:
  assumes "free_tables s = []"
  shows "\<exists>f. allocate_page_level s = Inl f"
  using assms by (auto simp: allocate_page_level_def free_tables_def assert_that_def split: if_splits)

lemma pte_table: "pte s p = map_option (\<lambda>t. mem s (slot t (p ! 0))) (table_at (mem s) (pt_base s) p 3)"
  by (cases "table_at (mem s) (pt_base s) p 3") (simp_all add: pte_def pte_slot_def)

lemma free_tables_store [simp]: "free_tables (store a v s) = free_tables s"
  by (simp add: store_def free_tables_def)

lemma grows_link:
  assumes inv: "tree_inv L (mem s) (pt_base s)" and t: "2 \<le> L t" "i < 512" "mem s (slot t i) = 0"
    and v: "bit v 0" "fresh_table L (mem s) (entry_table v)"
    and s': "mem s' = (mem s)(slot t i := v)" "pt_base s' = pt_base s" "syms s' = syms s"
      "allocate_set s' = allocate_set s" "dynamic_tables s' = dynamic_tables s"
      "invalidated s' = invalidated s"
  shows "grows s s'"
proof -
  let ?m = "(mem s)(slot t i := v)"
  have al: "aligned t" using t(1) tree_invD(2) [OF inv, of t] by simp
  have "case pte s p of Some e \<Rightarrow> pte s' p = Some e | None \<Rightarrow> pte s' p = None \<or> pte s' p = Some 0"
    if p: "valid_path p" for p
  proof -
    have j: "p ! 0 < 512" using p by (simp add: valid_path_def)
    note walk = table_at_link [OF inv t v p, of 3]
    show ?thesis
    proof (cases "table_at (mem s) (pt_base s) p 3")
      case None
      have "slot (entry_table v) (p ! 0) \<noteq> slot t i"
        using v(2) t j al slot_eq_iff [of "entry_table v" t] by (auto simp: fresh_table_def)
      then have "?m (slot (entry_table v) (p ! 0)) = 0" using v(2) j by (simp add: fresh_table_def)
      then show ?thesis using None walk s' by (auto simp: pte_table simp del: fun_upd_apply)
    next
      case (Some u)
      have "L u = 1" using table_at_level [OF inv p Some] by simp
      then have "slot u (p ! 0) \<noteq> slot t i"
        using t j al slot_eq_iff [of u t] tree_invD(2) [OF inv, of u] by auto
      then show ?thesis using Some walk s' by (auto simp: pte_table)
    qed
  qed
  moreover have "keeps_tables s s'"
    unfolding keeps_tables_def using table_at_link [OF inv t v] s'(1,2) by (force split: option.splits)
  ultimately show ?thesis using s' by (simp add: grows_def)
qed

lemma allocate_and_descend_link:
  assumes inv: "pt_inv L s" and cur: "cursor (mem s) (pt_base s) it" and pos: "0 < it_level it"
    and empty: "mem s (cur_slot it) = 0" and free: "free_tables s = t # ts"
  shows "\<exists>s'. allocate_and_descend s it = Inr (enter_table it t, s') \<and> pt_wf s' \<and> grows s s' \<and>
    free_tables s' = ts \<and> cursor (mem s') (pt_base s') (enter_table it t)"
proof -
  let ?u = "it_tables it ! it_level it" and ?i = "it_indices it ! it_level it"
  let ?v = "link_entry (t - KERNEL_VMA_OFFSET)"
  have tree: "tree_inv L (mem s) (pt_base s)" and dist: "distinct (t # ts)"
    and fresh: "\<And>u. u \<in> set (t # ts) \<Longrightarrow> fresh_table L (mem s) u"
    using inv free by (auto simp: pt_inv_def)
  obtain s1 where s1: "allocate_page_level s = Inr (t - KERNEL_VMA_OFFSET, s1)" "free_tables s1 = ts"
      "mem s1 = mem s" "pt_base s1 = pt_base s" "syms s1 = syms s" "allocate_set s1 = allocate_set s"
      "dynamic_tables s1 = dynamic_tables s" "invalidated s1 = invalidated s"
    using allocate_page_level_Cons [OF free] by auto
  have ft: "fresh_table L (mem s) t" using fresh by simp
  have al: "aligned (t - KERNEL_VMA_OFFSET)" "t - KERNEL_VMA_OFFSET \<noteq> 0"
    using ft aligned_diff [of t KERNEL_VMA_OFFSET] by (auto simp: fresh_table_def)
  have tv: "entry_table ?v = t" using link_entry_table [OF al(1)] by simp
  note u = cursor_level [OF cur tree]
  have i: "?i < 512" by (rule cursor_index [OF cur])
  have lu: "2 \<le> L ?u" using u(1) pos by simp
  define s' where "s' = store (cur_slot it) ?v s1"
  have s'f: "mem s' = (mem s)(slot ?u ?i := ?v)" "pt_base s' = pt_base s" "syms s' = syms s"
      "allocate_set s' = allocate_set s" "dynamic_tables s' = dynamic_tables s"
      "invalidated s' = invalidated s"
    using s1 by (simp_all add: s'_def store_def cur_slot_def)
  have freef: "free_tables s' = ts" using s1(2) by (simp add: s'_def)
  have run: "allocate_and_descend s it = Inr (enter_table it t, s')"
    using cursor_ops [OF cur tree] i pos empty s1 al(1)
    by (simp add: allocate_and_descend_def level_def NUM_PAGE_TABLE_ENTRIES_def mod_PAGE_SIZE
      s'_def link_entry_def)
  note link = tree_inv_link [OF tree lu i empty [unfolded cur_slot_def] bit_link_entry, of "t - KERNEL_VMA_OFFSET"]
  have "tree_inv (L(t := L ?u - 1)) (mem s') (pt_base s')"
    using link al tv ft s'f by (simp add: link_entry_address)
  moreover have "fresh_table (L(t := L ?u - 1)) (mem s') w" if "w \<in> set ts" for w
    using fresh_table_link [of L "mem s" w ?v ?u ?i] fresh that dist tv u i s'f by auto
  ultimately have "pt_wf s'"
    using inv s'f freef dist by (auto simp: pt_wf_def pt_inv_def)
  moreover have "grows s s'"
    using grows_link [OF tree lu i empty [unfolded cur_slot_def] bit_link_entry _ s'f] tv ft by simp
  moreover have "cursor (mem s') (pt_base s') (enter_table it t)"
  proof (rule cursor_enter [OF _ pos])
    show cur': "cursor (mem s') (pt_base s') it"
      unfolding cursor_def
    proof (intro conjI allI impI)
      fix d assume d: "d \<le> 3 - it_level it"
      then have "table_at (mem s) (pt_base s) (it_indices it) d = Some (it_tables it ! (3 - d))"
        using cur by (simp add: cursor_def)
      moreover have "valid_path (it_indices it)" using cur by (simp add: cursor_def)
      ultimately show "table_at (mem s') (pt_base s') (it_indices it) d = Some (it_tables it ! (3 - d))"
        using table_at_link [OF tree lu i empty [unfolded cur_slot_def] bit_link_entry [of "t - KERNEL_VMA_OFFSET"], of "it_indices it" d]
          d ft tv s'f by simp
    qed (use cur in \<open>auto simp: cursor_def\<close>)
    show "table_at (mem s') (pt_base s') (it_indices it) (4 - it_level it) = Some t"
      using table_at_next [OF cur' pos] s'f tv by (simp add: cur_slot_def)
  qed
  ultimately show ?thesis using run freef by blast
qed

lemma allocate_and_descend_existing:
  assumes wf: "pt_wf s" and cur: "cursor (mem s) (pt_base s) it" and pos: "0 < it_level it"
    and linked: "mem s (cur_slot it) \<noteq> 0"
  shows "allocate_and_descend s it = Inr (enter_table it (entry_table (mem s (cur_slot it))), s)"
    "cursor (mem s) (pt_base s) (enter_table it (entry_table (mem s (cur_slot it))))"
proof -
  obtain L where "pt_inv L s" using wf by (auto simp: pt_wf_def)
  then have tree: "tree_inv L (mem s) (pt_base s)" by (simp add: pt_inv_def)
  let ?e = "mem s (cur_slot it)"
  note u = cursor_level [OF cur tree]
  have i: "it_indices it ! it_level it < 512" by (rule cursor_index [OF cur])
  have e: "bit ?e 0" "?e AND NOT PREFIX_MASK \<noteq> 0" "L (entry_table ?e) = it_level it"
    using tree_invD(5,6,7) [OF tree, of "it_tables it ! it_level it" "it_indices it ! it_level it"]
      linked u(1) i pos by (auto simp: cur_slot_def)
  have "aligned (entry_table ?e)" using e(3) pos tree_invD(2) [OF tree] by simp
  then have al: "aligned (?e AND NOT PREFIX_MASK)"
    using aligned_diff [of "entry_table ?e" KERNEL_VMA_OFFSET] by (simp add: entry_table_def)
  show "allocate_and_descend s it = Inr (enter_table it (entry_table ?e), s)"
    using cursor_ops [OF cur tree] i pos e(2) al
    by (simp add: allocate_and_descend_def level_def NUM_PAGE_TABLE_ENTRIES_def mod_PAGE_SIZE entry_table_def)
  show "cursor (mem s) (pt_base s) (enter_table it (entry_table ?e))"
    using cursor_enter [OF cur pos] table_at_next [OF cur pos] e(1) by simp
qed

text \<open>\<^verbatim>\<open>allocate_and_descend\<close> succeeds when a table is left or none is needed, and only
  grows the tree; without a table it ends in a fault.\<close>

lemma allocate_and_descend_cursor:
  assumes wf: "pt_wf s" and cur: "cursor (mem s) (pt_base s) it" and pos: "0 < it_level it"
    and free: "free_tables s \<noteq> []"
  shows "\<exists>it' s'. allocate_and_descend s it = Inr (it', s') \<and> pt_wf s' \<and> grows s s' \<and>
    cursor (mem s') (pt_base s') it' \<and> it_level it' = it_level it - 1 \<and> it_indices it' = it_indices it \<and>
    length (free_tables s) \<le> length (free_tables s') + 1"
proof -
  obtain L where inv: "pt_inv L s" using wf by (auto simp: pt_wf_def)
  then have tree: "tree_inv L (mem s) (pt_base s)" by (simp add: pt_inv_def)
  show ?thesis
  proof (cases "mem s (cur_slot it) = 0")
    case True
    obtain t ts where ts: "free_tables s = t # ts" using free by (cases "free_tables s") auto
    from allocate_and_descend_link [OF inv cur pos True ts] ts show ?thesis
      by (auto simp: enter_table_def)
  next
    case False
    then show ?thesis using allocate_and_descend_existing [OF wf cur pos] wf grows_refl by (simp add: enter_table_def)
  qed
qed

lemma step_down_loop_cursor:
  assumes "pt_wf s" "cursor (mem s) (pt_base s) it" "it_level it \<le> length (free_tables s)"
  shows "\<exists>it' s'. step_down_loop it s = Inr (it', s') \<and> pt_wf s' \<and> grows s s' \<and>
    cursor (mem s') (pt_base s') it' \<and> it_level it' = 0 \<and> it_indices it' = it_indices it \<and>
    length (free_tables s) \<le> length (free_tables s') + it_level it"
  using assms
proof (induction "it_level it" arbitrary: it s)
  case 0
  then show ?case using grows_refl by (simp add: step_down_loop.simps [of it] level_def)
next
  case (Suc n)
  then have "0 < it_level it" "free_tables s \<noteq> []" by auto
  from allocate_and_descend_cursor [OF Suc.prems(1,2) this] obtain it1 s1 where
    s1: "allocate_and_descend s it = Inr (it1, s1)" "pt_wf s1" "grows s s1"
      "cursor (mem s1) (pt_base s1) it1" "it_level it1 = it_level it - 1" "it_indices it1 = it_indices it"
      "length (free_tables s) \<le> length (free_tables s1) + 1" by auto
  have "n = it_level it1" "it_level it1 \<le> length (free_tables s1)" using Suc s1 by auto
  from Suc.hyps(1) [OF this(1) s1(2,4) this(2)] obtain it' s' where
    "step_down_loop it1 s1 = Inr (it', s')" "pt_wf s'" "grows s1 s'" "cursor (mem s') (pt_base s') it'"
    "it_level it' = 0" "it_indices it' = it_indices it1"
    "length (free_tables s1) \<le> length (free_tables s') + it_level it1" by auto
  then show ?case
    using s1 Suc.hyps(2) grows_trans [of s s1 s'] by (simp add: step_down_loop.simps [of it s] level_def)
qed

text \<open>Below a table that exists nothing is allocated, so the loop takes from the pool only the
  tables the path lacks.\<close>

lemma step_down_loop_lacking:
  assumes "pt_wf s" "cursor (mem s) (pt_base s) it" "it_level it = 0 \<or> lacking s (it_indices it) \<le> length (free_tables s)"
  shows "\<exists>it' s'. step_down_loop it s = Inr (it', s') \<and> pt_wf s' \<and> grows s s' \<and>
    cursor (mem s') (pt_base s') it' \<and> it_level it' = 0 \<and> it_indices it' = it_indices it \<and>
    length (free_tables s) \<le> length (free_tables s') + (if it_level it = 0 then 0 else lacking s (it_indices it))"
  using assms
proof (induction "it_level it" arbitrary: it)
  case 0
  then show ?case using step_down_loop_cursor [OF 0(2,3)] by simp
next
  case (Suc n)
  have pos: "0 < it_level it" and l3: "it_level it \<le> 3" using Suc by (auto simp: cursor_def)
  show ?case
  proof (cases "mem s (cur_slot it) = 0")
    case True
    then have "table_at (mem s) (pt_base s) (it_indices it) (4 - it_level it) = None"
      using table_at_next [OF Suc.prems(2) pos] by simp
    then have "it_level it \<le> lacking s (it_indices it)" using lacking_eq [of s _ "4 - it_level it"] l3 pos by fastforce
    then show ?thesis using step_down_loop_cursor [OF Suc.prems(1,2)] Suc.prems(3) pos by fastforce
  next
    case False
    note step = allocate_and_descend_existing [OF Suc.prems(1,2) pos False]
    let ?it = "enter_table it (entry_table (mem s (cur_slot it)))"
    have at: "n = it_level ?it" "it_indices ?it = it_indices it" using Suc.hyps(2) by (simp_all add: enter_table_def)
    have "it_level ?it = 0 \<or> lacking s (it_indices ?it) \<le> length (free_tables s)" using Suc.prems(3) pos at(2) by simp
    from Suc.hyps(1) [OF at(1) Suc.prems(1) step(2) this, unfolded at(2)] obtain it' s' where
      "step_down_loop ?it s = Inr (it', s')" "pt_wf s'" "grows s s'" "cursor (mem s') (pt_base s') it'"
      "it_level it' = 0" "it_indices it' = it_indices it"
      "length (free_tables s) \<le> length (free_tables s') + (if it_level ?it = 0 then 0 else lacking s (it_indices it))"
      by blast
    then show ?thesis using step(1) pos by (auto simp: step_down_loop.simps [of it s] level_def split: if_splits)
  qed
qed

text \<open>\<^verbatim>\<open>get\<close> is the loop run from the top.\<close>

lemma step_down_loop_steps:
  "it_level it = 0 \<Longrightarrow> step_down_loop it s = Inr (it, s)"
  "it_level it \<noteq> 0 \<Longrightarrow> step_down_loop it s =
     rbind (allocate_and_descend s it) (\<lambda>(it', s'). step_down_loop it' s')"
  by (simp_all add: step_down_loop.simps [of it s] level_def)

lemma pt_get_step_down:
  assumes "allocate_set s"
  shows "pt_get s va = step_down_loop (iter_at (pt_base s) va) s"
proof -
  have last: "rbind (allocate_and_descend s' it) (\<lambda>(c, s''). rbind (assert_that (level c = 1) msg) (\<lambda>_. Inr (c, s''))) =
      step_down_loop it s'" if "it_level it = 1" for it s' msg
    using that by (cases "allocate_and_descend s' it")
      (auto simp: step_down_loop_steps level_def dest!: allocate_and_descend_level)
  have down: "rbind (allocate_and_descend s' it) f = step_down_loop it s'"
    if "it_level it = Suc (Suc n)" "\<And>it' s''. it_level it' = Suc n \<Longrightarrow> f (it', s'') = step_down_loop it' s''"
    for it s' n f
    using that by (cases "allocate_and_descend s' it")
      (auto simp: step_down_loop_steps dest!: allocate_and_descend_level)
  have two: "rbind (allocate_and_descend s' it) (\<lambda>(c, s''). rbind (allocate_and_descend s'' c)
      (\<lambda>(c, s''). rbind (assert_that (level c = 1) msg) (\<lambda>_. Inr (c, s'')))) = step_down_loop it s'"
    if "it_level it = 2" for it s' msg
  proof (rule down [of _ 0])
    show "it_level it = Suc (Suc 0)" using that by simp
  qed (simp only: prod.case, rule last, simp)
  show ?thesis
    unfolding pt_get_def using assms by (simp only: assert_that_True rbind_Inr)
      (rule down [of _ 1], simp, simp only: prod.case, rule two, simp)
qed

lemma pt_get_cursor:
  assumes "pt_wf s" "lacking s (path_of va) \<le> length (free_tables s)"
  shows "\<exists>it s'. pt_get s va = Inr (it, s') \<and> pt_wf s' \<and> grows s s' \<and>
    cursor (mem s') (pt_base s') it \<and> it_level it = 0 \<and> it_indices it = path_of va \<and>
    length (free_tables s) \<le> length (free_tables s') + lacking s (path_of va)"
  using step_down_loop_lacking [OF assms(1) cursor_iter_at, of va] assms pt_get_step_down [of s va]
  by (auto simp: pt_wf_def pt_inv_def)

text \<open>The tables on the way to an entry the iterator stands on.\<close>

lemma lacking_cursor:
  assumes "cursor (mem s) (pt_base s) it" "it_level it = 0" "valid_path q" "\<forall>k \<in> {1, 2, 3}. q ! k = it_indices it ! k"
  shows "lacking s q = 0"
proof -
  have "table_at (mem s) (pt_base s) q d = table_at (mem s) (pt_base s) (it_indices it) d" if "d \<le> 3" for d
    using that
  proof (induction d)
    case (Suc d)
    then have "3 - d = 1 \<or> 3 - d = 2 \<or> 3 - d = 3" by linarith
    then have "q ! (3 - d) = it_indices it ! (3 - d)" using assms(4) by auto
    then show ?case using Suc by (simp add: Let_def split: option.split)
  qed simp
  then have "table_at (mem s) (pt_base s) q 3 \<noteq> None" using assms(1,2) by (simp add: cursor_def)
  then show ?thesis using lacking_le [of s q 3] by simp
qed

end
