(* ===== verification/Paging_Ops.thy ===== *)
theory Paging_Ops
  imports Paging_Tables
begin

text \<open>
  Correctness of the page-table operations over the tree of theory \<open>Paging_Tables\<close>:
  \<^verbatim>\<open>map_page\<close>, \<^verbatim>\<open>unmap_page\<close> and \<^verbatim>\<open>get_physical_address\<close> behave
  as update, removal and lookup in the map from pages to present entries, and
  \<^verbatim>\<open>map_range\<close> maps exactly the pages of its range.
\<close>

subsection \<open>Writing a level-1 entry\<close>

lemma table_at_store:
  assumes inv: "tree_inv L m b" and t: "L t = 1" "i < 512" and q: "valid_path q" and d: "d \<le> 3"
  shows "table_at (m(slot t i := v)) b q d = table_at m b q d"
  using d
proof (induction d)
  case 0
  then show ?case by simp
next
  case (Suc d)
  show ?case
  proof (cases "table_at m b q d")
    case None
    then show ?thesis using Suc by simp
  next
    case (Some u)
    have lu: "L u = 4 - d" using table_at_level [OF inv q Some] Suc.prems by simp
    then have "u \<noteq> t" "aligned u" "aligned t"
      using t Suc.prems tree_invD(2) [OF inv, of u] tree_invD(2) [OF inv, of t] by auto
    then have "slot u (q ! (3 - d)) \<noteq> slot t i"
      using slot_eq_iff t q by (simp add: valid_path_def)
    then show ?thesis using Suc Some by (simp add: Let_def)
  qed
qed

lemma tree_inv_store:
  assumes inv: "tree_inv L m b" and t: "L t = 1" "i < 512"
  shows "tree_inv L (m(slot t i := v)) b"
proof -
  have "slot u j \<noteq> slot t i" if "2 \<le> L u" "j < 512" for u j
    using that t slot_eq_iff [of u t j i] tree_invD(2) [OF inv, of u] tree_invD(2) [OF inv, of t] by auto
  then show ?thesis using inv unfolding tree_inv_def by simp
qed

lemma store_pte:
  assumes inv: "pt_inv L s" and p: "valid_path p" and a: "pte_slot s p = Some a"
  shows "pt_inv L (store a v s)"
    and "\<And>q. valid_path q \<Longrightarrow> pte (store a v s) q = (if q = p then Some v else pte s q)"
    and "\<And>q. valid_path q \<Longrightarrow> pte_slot (store a v s) q = pte_slot s q"
    and "cursor (mem s) (pt_base s) it \<Longrightarrow> cursor (mem (store a v s)) (pt_base s) it"
proof -
  have tree: "tree_inv L (mem s) (pt_base s)" using inv by (simp add: pt_inv_def)
  obtain t where t: "table_at (mem s) (pt_base s) p 3 = Some t" "a = slot t (p ! 0)"
    using a by (auto simp: pte_slot_def)
  have lt: "L t = 1" using table_at_level [OF tree p t(1)] by simp
  have i: "p ! 0 < 512" using p by (simp add: valid_path_def)
  have al: "aligned t" using lt tree_invD(2) [OF tree] by simp
  have "fresh_table L (mem (store a v s)) u" if "fresh_table L (mem s) u" for u
    using that lt i al slot_eq_iff [of u t _ "p ! 0"] by (auto simp: fresh_table_def store_def t(2))
  then show "pt_inv L (store a v s)"
    using inv tree_inv_store [OF tree lt i] by (simp add: pt_inv_def t(2)) (simp add: store_def)
  show slots: "pte_slot (store a v s) q = pte_slot s q" if "valid_path q" for q
    using table_at_store [OF tree lt i that, of 3 v] by (simp add: pte_slot_def store_def t(2))
  show "pte (store a v s) q = (if q = p then Some v else pte s q)" if q: "valid_path q" for q
  proof (cases "pte_slot s q")
    case None
    then show ?thesis using slots [OF q] a by (auto simp: pte_def)
  next
    case (Some a')
    have "a' = a \<longleftrightarrow> q = p" using pte_slot_inj [OF tree q p Some] Some a by auto
    then show ?thesis using Some slots [OF q] by (auto simp: pte_def store_def)
  qed
  show "cursor (mem (store a v s)) (pt_base s) it" if "cursor (mem s) (pt_base s) it"
    using that table_at_store [OF tree lt i] by (simp add: cursor_def store_def t(2))
qed

lemma store_keeps_tables:
  assumes "pt_inv L s" "valid_path p" "pte_slot s p = Some a"
  shows "keeps_tables s (store a v s)"
proof -
  have tree: "tree_inv L (mem s) (pt_base s)" using assms(1) by (simp add: pt_inv_def)
  obtain t where t: "table_at (mem s) (pt_base s) p 3 = Some t" "a = slot t (p ! 0)"
    using assms(3) by (auto simp: pte_slot_def)
  have "L t = 1" using table_at_level [OF tree assms(2) t(1)] by simp
  moreover have "p ! 0 < 512" using assms(2) by (simp add: valid_path_def)
  ultimately show ?thesis
    using table_at_store [OF tree] by (simp add: keeps_tables_def store_def t(2))
qed

lemma store_fields [simp]:
  "pt_base (store a v s) = pt_base s" "syms (store a v s) = syms s"
  "allocate_set (store a v s) = allocate_set s" "invalidated (store a v s) = invalidated s"
  by (simp_all add: store_def)

lemma invlpg_fields [simp]:
  "mem (invlpg a s) = mem s" "pt_base (invlpg a s) = pt_base s" "syms (invlpg a s) = syms s"
  "free_tables (invlpg a s) = free_tables s" "allocate_set (invlpg a s) = allocate_set s"
  "pte_slot (invlpg a s) = pte_slot s" "pte (invlpg a s) = pte s"
  by (simp_all add: invlpg_def free_tables_def pte_slot_def [abs_def] pte_def [abs_def])

lemma invlpg_tables [simp]: "keeps_tables s (invlpg a s') = keeps_tables s s'" "lacking (invlpg a s) = lacking s"
  by (simp_all add: keeps_tables_def lacking_def [abs_def])

lemma pt_inv_invlpg [simp]: "pt_inv L (invlpg a s) = pt_inv L s"
  by (simp add: pt_inv_def)

subsection \<open>The map of present pages\<close>

definition translation :: "paging_state \<Rightarrow> nat list \<Rightarrow> u64 option" where
  "translation s p = (case pte s p of Some e \<Rightarrow> if bit e 0 then Some e else None | None \<Rightarrow> None)"

lemma grows_translation: "grows s s' \<Longrightarrow> valid_path p \<Longrightarrow> translation s' p = translation s p"
  by (force simp: grows_def translation_def split: option.splits)

lemma translation_invlpg [simp]: "translation (invlpg a s) = translation s"
  by (simp add: translation_def [abs_def])

lemma store_translation:
  assumes "pt_inv L s" "valid_path p" "pte_slot s p = Some a" "valid_path q"
  shows "translation (store a v s) q =
    (if q = p then if bit v 0 then Some v else None else translation s q)"
  using store_pte(2) [OF assms(1-3) assms(4)] by (simp add: translation_def)

lemma map_page_at_cursor:
  assumes wf: "pt_wf s" and cur: "cursor (mem s) (pt_base s) it" "it_level it = 0"
    and al: "aligned p" "aligned (virtual_page_address it)"
  shows "map_page_at p it attrs s = (if translation s (it_indices it) \<noteq> None
      then Inl (Panicked ''Tried to map already-present page!'')
      else Inr (virtual_page_address it,
        invlpg (virtual_page_address it) (store (cur_slot it) (p OR attrs OR PRESENT) s)))"
proof -
  obtain L where "pt_inv L s" using wf by (auto simp: pt_wf_def)
  then have tree: "tree_inv L (mem s) (pt_base s)" by (simp add: pt_inv_def)
  have "translation s (it_indices it) \<noteq> None \<longleftrightarrow> bit (mem s (cur_slot it)) 0"
    using cursor_pte [OF cur] by (auto simp: translation_def pte_def)
  then show ?thesis
    using cursor_ops [OF cur(1) tree] cur(2) al iter_eq_end(2) [OF cur(2)]
    by (simp add: map_page_at_def Let_def mod_PAGE_SIZE level_def)
qed

lemma map_page_at_effect:
  assumes wf: "pt_wf s" and cur: "cursor (mem s) (pt_base s) it" "it_level it = 0"
  shows "let s' = invlpg v (store (cur_slot it) (e OR PRESENT) s) in
    pt_wf s' \<and> cursor (mem s') (pt_base s') it \<and> free_tables s' = free_tables s \<and> keeps_tables s s' \<and>
    (\<forall>q. valid_path q \<longrightarrow> translation s' q =
       (if q = it_indices it then Some (e OR PRESENT) else translation s q))"
proof -
  obtain L where inv: "pt_inv L s" using wf by (auto simp: pt_wf_def)
  have p: "valid_path (it_indices it)" using cur(1) by (simp add: cursor_def)
  note a = cursor_pte [OF cur]
  have "bit (e OR PRESENT) 0" by (simp add: bit_or_iff bit_PRESENT)
  then show ?thesis
    using store_pte(1,4) [OF inv p a] cur(1) store_translation [OF inv p a] store_keeps_tables [OF inv p a]
    by (auto simp: pt_wf_def Let_def)
qed

subsection \<open>Virtual addresses of paths\<close>

lemma bit_path_digit:
  assumes "k < 4"
  shows "bit (push_bit (12 + 9 * k) (of_nat (path_of va ! k) :: u64)) j \<longleftrightarrow>
    12 + 9 * k \<le> j \<and> j < 21 + 9 * k \<and> bit va j"
proof -
  have "(of_nat (path_of va ! k) :: u64) = take_bit 9 (drop_bit (12 + 9 * k) va)"
    using assms by (simp add: path_of_def and_PREFIX_MASK drop_bit_drop_bit add.commute)
  then show ?thesis
    using bit_imp_le_length [of va j] assms
    by (auto simp: bit_push_bit_iff bit_take_bit_iff bit_drop_bit_eq possible_bit_word)
qed

lemma virtual_page_address_path:
  assumes "it_indices it = path_of va" "aligned va"
  shows "virtual_page_address it = sign_extend va 42"
proof -
  let ?w = "push_bit 39 (of_nat (it_indices it ! 3)) OR push_bit 30 (of_nat (it_indices it ! 2)) OR
      push_bit 21 (of_nat (it_indices it ! 1)) OR push_bit 12 (of_nat (it_indices it ! 0)) :: u64"
  have w: "bit ?w j \<longleftrightarrow> bit va j" if "j < 48" for j
    using bit_path_digit [of 0 va j] bit_path_digit [of 1 va j] bit_path_digit [of 2 va j]
      bit_path_digit [of 3 va j] aligned_bit [OF assms(2), of j] that
    unfolding assms(1) bit_or_iff by (simp only: numeral_plus_numeral numeral_times_numeral) auto
  show ?thesis
    unfolding virtual_page_address_def
    by (rule bit_eqI) (simp add: bit_sign_extend possible_bit_word w del: One_nat_def)
qed

lemma aligned_sign_extend [simp]: "aligned va \<Longrightarrow> aligned (sign_extend va 42)"
  unfolding aligned_def
  by (rule bit_eqI) (auto simp: bit_take_bit_iff bit_sign_extend possible_bit_word
    dest: aligned_bit [unfolded aligned_def, rotated])

lemma path_of_next:
  assumes "aligned v" "valid_path q" "path_number q = path_number (path_of v) + 1"
  shows "q = path_of (v + PAGE_SIZE)"
proof (rule path_number_inj [OF assms(2) valid_path_of])
  obtain n where n: "unat v = 4096 * n" using assms(1) unfolding aligned_unat by (metis dvdE mod_eq_0_iff_dvd)
  then have lt: "n < 2 ^ 52" using unat_u64_lt [of v] by simp
  have num: "path_number (path_of v) = n mod 2 ^ 36" by (simp add: path_number_of n)
  have small: "n mod 2 ^ 36 + 1 < 2 ^ 36" using path_number_less [OF assms(2)] assms(3) num by simp
  have "n + 1 < 2 ^ 52"
  proof (rule ccontr)
    assume "\<not> n + 1 < 2 ^ 52"
    then have "n = 2 ^ 52 - 1" using lt by simp
    then show False using small by simp
  qed
  then have "unat (v + PAGE_SIZE) = 4096 * (n + 1)"
    using n by (simp add: unat_add_u64 PAGE_SIZE_def)
  then have "path_number (path_of (v + PAGE_SIZE)) = (n + 1) mod 2 ^ 36"
    unfolding path_number_of by simp
  also have "\<dots> = n mod 2 ^ 36 + 1" using small by (metis mod_add_left_eq mod_less)
  finally show "path_number q = path_number (path_of (v + PAGE_SIZE))" using assms(3) num by simp
qed

subsection \<open>Looking an address up\<close>

lemma minus_PAGE_SIZE: "- PAGE_SIZE = NOT (mask 12)"
  by (simp add: PAGE_SIZE_def mask_eq_exp_minus_1)

lemma page_offset:
  "va AND - PAGE_SIZE = push_bit 12 (drop_bit 12 va)"
  "va - (va AND - PAGE_SIZE) = take_bit 12 va"
proof -
  show eq: "va AND - PAGE_SIZE = push_bit 12 (drop_bit 12 va)"
    unfolding minus_PAGE_SIZE
    by (rule bit_eqI) (auto simp: bit_and_iff bit_not_iff bit_mask_iff bit_push_bit_iff bit_drop_bit_eq
      possible_bit_word)
  show "va - (va AND - PAGE_SIZE) = take_bit 12 va"
    unfolding eq using bits_ident [of 12 va] by (metis add_diff_cancel_left')
qed

lemma path_of_page: "path_of (va AND - PAGE_SIZE) = path_of va"
proof -
  have "drop_bit 12 (push_bit 12 (drop_bit 12 va)) = drop_bit 12 va"
    by (rule bit_eqI) (auto simp: bit_drop_bit_eq bit_push_bit_iff possible_bit_word dest: bit_u64_lt)
  then show ?thesis unfolding page_offset(1) path_of_def by (simp only:)
qed

lemma get_physical_address_eq:
  assumes "pt_wf s"
  shows "get_physical_address s va = (case pte s (path_of va) of
      None \<Rightarrow> Inl (Assert_failed ''couldn't find an entry for address!'')
    | Some e \<Rightarrow> if bit e 0 then Inr ((e AND ADDRESS_MASK) + take_bit 12 va)
        else Inl (Assert_failed ''entry not found!''))"
proof -
  obtain L where inv: "pt_inv L s" using assms by (auto simp: pt_wf_def)
  then have tree: "tree_inv L (mem s) (pt_base s)" by (simp add: pt_inv_def)
  from tree show ?thesis
  proof (cases rule: pt_find_cases [where va = "va AND - PAGE_SIZE"])
    case missing
    then show ?thesis
      by (simp add: get_physical_address_def Let_def path_of_page pte_def iter_eq_end)
  next
    case (found it)
    then show ?thesis
      using cursor_ops [OF found(3) tree] iter_eq_end(2) [OF found(2)]
      by (simp add: get_physical_address_def Let_def path_of_page pte_def page_offset(2)
        physical_page_address_def level_def)
  qed
qed

lemma get_physical_address_translation:
  "pt_wf s \<Longrightarrow> translation s (path_of va) = Some e \<Longrightarrow>
   get_physical_address s va = Inr ((e AND ADDRESS_MASK) + take_bit 12 va)"
  by (auto simp: get_physical_address_eq translation_def split: option.splits if_splits)

lemma get_physical_address_fault:
  "pt_wf s \<Longrightarrow> translation s (path_of va) = None \<Longrightarrow> \<exists>msg. get_physical_address s va = Inl (Assert_failed msg)"
  by (auto simp: get_physical_address_eq translation_def split: option.splits if_splits)

subsection \<open>Mapping and unmapping a page\<close>

lemma map_page_effect:
  assumes "pt_wf s" "lacking s (path_of va) \<le> length (free_tables s)" "aligned p" "aligned va"
    "translation s (path_of va) = None"
  shows "\<exists>s'. map_page p va attrs s = Inr (sign_extend va 42, s') \<and> pt_wf s' \<and>
    length (free_tables s) \<le> length (free_tables s') + lacking s (path_of va) \<and> keeps_tables s s' \<and>
    invalidated s' = invalidated s @ [sign_extend va 42] \<and>
    (\<forall>q. valid_path q \<longrightarrow> translation s' q =
       (if q = path_of va then Some (p OR attrs OR PRESENT) else translation s q))"
proof -
  obtain it s1 where s1: "pt_get s va = Inr (it, s1)" "pt_wf s1" "grows s s1"
      "cursor (mem s1) (pt_base s1) it" "it_level it = 0" "it_indices it = path_of va"
      "length (free_tables s) \<le> length (free_tables s1) + lacking s (path_of va)"
    using pt_get_cursor [OF assms(1,2)] by auto
  have v: "virtual_page_address it = sign_extend va 42"
    by (rule virtual_page_address_path [OF s1(6) assms(4)])
  have same: "valid_path q \<Longrightarrow> translation s1 q = translation s q" for q
    using grows_translation [OF s1(3)] .
  have "map_page p va attrs s = Inr (sign_extend va 42,
      invlpg (sign_extend va 42) (store (cur_slot it) (p OR attrs OR PRESENT) s1))"
    using s1(1) map_page_at_cursor [OF s1(2,4,5), of p attrs] assms(3-5) v same s1(6)
    by (simp add: map_page_def mod_PAGE_SIZE)
  moreover have "invalidated s1 = invalidated s" "keeps_tables s s1" using s1(3) by (simp_all add: grows_def)
  ultimately show ?thesis
    using map_page_at_effect [OF s1(2,4,5), of "sign_extend va 42" "p OR attrs"] s1(6,7) same keeps_tables_trans [of s s1]
    by (simp add: Let_def or.assoc) (simp add: invlpg_def)
qed

lemma map_page_present:
  assumes "pt_wf s" "lacking s (path_of va) \<le> length (free_tables s)" "aligned p" "aligned va"
    "translation s (path_of va) \<noteq> None"
  shows "map_page p va attrs s = Inl (Panicked ''Tried to map already-present page!'')"
proof -
  obtain it s1 where s1: "pt_get s va = Inr (it, s1)" "pt_wf s1" "grows s s1"
      "cursor (mem s1) (pt_base s1) it" "it_level it = 0" "it_indices it = path_of va"
    using pt_get_cursor [OF assms(1,2)] by auto
  have "virtual_page_address it = sign_extend va 42"
    by (rule virtual_page_address_path [OF s1(6) assms(4)])
  then show ?thesis
    using s1(1,6) map_page_at_cursor [OF s1(2,4,5), of p attrs] assms(3-5)
      grows_translation [OF s1(3), of "path_of va"]
    by (simp add: map_page_def mod_PAGE_SIZE)
qed

end
