(* ===== verification/Pma.thy ===== *)
theory Pma
  imports Bitmap Paging_Ops
begin

text \<open>
  The physical page allocator of src/kernel/pma.cpp. Its state is the bitmap at
  \<^verbatim>\<open>physical_page_map\<close> (one bit per page, set when the page is taken), the address it is
  mapped at, and the physical address of page 0. The contract of a page allocator is the
  locale \<open>page_allocator\<close>; the lemmas on sequences of allocations are proved from it.
\<close>

record pma_state =
  max_pages_total :: u64
  physical_page_base :: u64
  physical_page_map :: u64
  page_bits :: bitmap

subsection \<open>Operations\<close>

text \<open>\<^verbatim>\<open>bitmap::make\<close> on the object at an address: a byte of it on a page that the tables do not map
  is a page fault, whose handler panics.\<close>

definition bytes_mapped :: "paging_state \<Rightarrow> u64 \<Rightarrow> nat \<Rightarrow> bool" where
  "bytes_mapped ps a n \<longleftrightarrow> (\<forall>k < n. translation ps (path_of (a + of_nat k)) \<noteq> None)"

definition bm_make_at :: "paging_state \<Rightarrow> u64 \<Rightarrow> u64 \<Rightarrow> bitmap res" where
  "bm_make_at ps out num_bits =
     (let b = bm_make num_bits in
      if bytes_mapped ps out (bm_bytes b) then Inr b else Inl (Panicked ''page fault''))"

definition pma_early_init ::
  "memory_state \<Rightarrow> paging_state \<Rightarrow> pma_state \<Rightarrow> (pma_state \<times> paging_state) res" where
  "pma_early_init ms ps s =
     rbind (get_memory_map ms) (\<lambda>mmap.
       let e = mmap ! 0;
           max_total = entry_length e div PAGE_SIZE;
           map_page_addr = align_to (entry_base e) PAGE_SIZE;
           pages_needed = div_ceil (size_required max_total) PAGE_SIZE
       in rbind (identity_map_pages_into_kernel_space map_page_addr pages_needed (RW OR XD) ps)
            (\<lambda>(vaddr, ps').
         rbind (bm_make_at ps' vaddr max_total) (\<lambda>b.
         Inr (s\<lparr>max_pages_total := max_total, physical_page_map := vaddr, page_bits := b,
                physical_page_base := vaddr + pages_needed * PAGE_SIZE - KERNEL_VMA_OFFSET\<rparr>, ps'))))"

definition get_physical_page :: "pma_state \<Rightarrow> (u64 \<times> pma_state) res" where
  "get_physical_page s =
     rbind (find_first (page_bits s) False) (\<lambda>idx.
       if idx = -1 then Inl (Panicked ''Allocation failed, out of physical pages!'')
       else rbind (bm_set (page_bits s) idx) (\<lambda>b.
         let new_page = scast idx * PAGE_SIZE + physical_page_base s in
         rbind (assert_that (new_page \<noteq> 0) ''Top of page stack is null!'') (\<lambda>_.
           Inr (new_page, s\<lparr>page_bits := b\<rparr>))))"

fun set_run :: "nat \<Rightarrow> u32 \<Rightarrow> bitmap \<Rightarrow> bitmap res" where
  "set_run 0 idx b = Inr b"
| "set_run (Suc n) idx b = rbind (bm_set b idx) (\<lambda>b'. set_run n (idx + 1) b')"

text \<open>The parameter of \<^verbatim>\<open>find_first_n\<close> is an \<^verbatim>\<open>unsigned\<close>, so \<open>n\<close> is cut to 32
  bits on the way in.\<close>

definition get_contiguous_physical_pages :: "u64 \<Rightarrow> pma_state \<Rightarrow> (u64 \<times> pma_state) res" where
  "get_contiguous_physical_pages n s =
     rbind (find_first_n (page_bits s) False (unat (ucast n :: u32))) (\<lambda>idx.
       if idx = -1 then Inl (Panicked ''Allocation failed, can't find contiguous physical pages!'')
       else rbind (set_run (unat n) (of_int idx) (page_bits s)) (\<lambda>b.
         let new_pages = of_int idx * PAGE_SIZE + physical_page_base s in
         rbind (assert_that (new_pages \<noteq> 0) ''Top of page stack is null!'') (\<lambda>_.
           Inr (new_pages, s\<lparr>page_bits := b\<rparr>))))"

definition free_physical_page :: "u64 \<Rightarrow> pma_state \<Rightarrow> pma_state res" where
  "free_physical_page page s =
     rbind (assert_that (page \<noteq> 0) ''Page being freed is null!'') (\<lambda>_.
       let page_idx = (ucast ((page - physical_page_base s) div PAGE_SIZE) :: u32) in
       rbind (bm_test (page_bits s) page_idx) (\<lambda>t.
       rbind (assert_that t ''page being freed was never allocated!'') (\<lambda>_.
       rbind (bm_reset (page_bits s) page_idx) (\<lambda>b. Inr (s\<lparr>page_bits := b\<rparr>)))))"

subsection \<open>The contract of a page allocator\<close>

text \<open>A client's run: \<open>Alloc\<close> takes a page, \<open>Free i\<close> gives back the \<open>i\<close>-th page it
  holds. The result is the list of pages held at the end.\<close>

datatype page_op = Alloc | Free nat

fun client_run :: "('s \<Rightarrow> (u64 \<times> 's) res) \<Rightarrow> (u64 \<Rightarrow> 's \<Rightarrow> 's res) \<Rightarrow> page_op list \<Rightarrow>
    u64 list \<Rightarrow> 's \<Rightarrow> (u64 list \<times> 's) res" where
  "client_run alloc release [] held s = Inr (held, s)"
| "client_run alloc release (Alloc # ops) held s =
     rbind (alloc s) (\<lambda>(p, s'). client_run alloc release ops (held @ [p]) s')"
| "client_run alloc release (Free i # ops) held s =
     (if i < length held then rbind (release (held ! i) s) (\<lambda>s'.
        client_run alloc release ops (take i held @ drop (Suc i) held) s')
      else client_run alloc release ops held s)"

locale page_allocator =
  fixes inv :: "'s \<Rightarrow> bool"
    and taken :: "'s \<Rightarrow> u64 set"
    and alloc :: "'s \<Rightarrow> (u64 \<times> 's) res"
    and release :: "u64 \<Rightarrow> 's \<Rightarrow> 's res"
  assumes alloc_fresh: "inv s \<Longrightarrow> alloc s = Inr (p, s') \<Longrightarrow>
      inv s' \<and> p \<notin> taken s \<and> taken s' = insert p (taken s)"
    and release_taken: "inv s \<Longrightarrow> p \<in> taken s \<Longrightarrow>
      \<exists>s'. release p s = Inr s' \<and> inv s' \<and> taken s' = taken s - {p}"
begin

lemma client_run_exclusive:
  assumes "inv s" "distinct held" "set held \<subseteq> taken s" "client_run alloc release ops held s = Inr (held', s')"
  shows "inv s' \<and> distinct held' \<and> set held' \<subseteq> taken s' \<and> taken s' - set held' = taken s - set held"
  using assms
proof (induction ops arbitrary: held s)
  case Nil
  then show ?case by auto
next
  case (Cons oper ops)
  show ?case
  proof (cases oper)
    case Alloc
    with Cons.prems obtain p s1 where s1: "alloc s = Inr (p, s1)"
        "client_run alloc release ops (held @ [p]) s1 = Inr (held', s')"
      by (auto simp: rbind_eq_Inr_iff)
    have "inv s1" "p \<notin> taken s" "taken s1 = insert p (taken s)"
      using alloc_fresh [OF Cons.prems(1) s1(1)] by auto
    then show ?thesis using Cons.IH [OF _ _ _ s1(2)] Cons.prems by auto
  next
    case (Free i)
    show ?thesis
    proof (cases "i < length held")
      case False
      then show ?thesis using Cons Free by simp
    next
      case True
      let ?rest = "take i held @ drop (Suc i) held"
      have split: "held = take i held @ held ! i # drop (Suc i) held" using True by (rule id_take_nth_drop)
      have "distinct (take i held @ held ! i # drop (Suc i) held)"
        "set held = set (take i held @ held ! i # drop (Suc i) held)"
        using Cons.prems(2) by (simp_all only: split [symmetric])
      then have rest: "set held = insert (held ! i) (set ?rest)" "held ! i \<notin> set ?rest" "distinct ?rest"
        by auto
      have "held ! i \<in> taken s" using True Cons.prems(3) by auto
      from release_taken [OF Cons.prems(1) this] obtain s1 where
        s1: "release (held ! i) s = Inr s1" "inv s1" "taken s1 = taken s - {held ! i}" by auto
      have "client_run alloc release ops ?rest s1 = Inr (held', s')"
        using Cons.prems(4) Free True s1(1) by simp
      moreover have "set ?rest \<subseteq> taken s1" using rest Cons.prems(3) s1(3) by blast
      ultimately have "inv s' \<and> distinct held' \<and> set held' \<subseteq> taken s' \<and>
          taken s' - set held' = taken s1 - set ?rest"
        using Cons.IH [OF s1(2) rest(3)] by blast
      moreover have "taken s1 - set ?rest = taken s - set held" using rest(1) s1(3) by blast
      ultimately show ?thesis by simp
    qed
  qed
qed

end

subsection \<open>The bitmap allocator meets the contract\<close>

definition page_addr :: "pma_state \<Rightarrow> nat \<Rightarrow> u64" where
  "page_addr s i = of_nat i * PAGE_SIZE + physical_page_base s"

definition taken_pages :: "pma_state \<Rightarrow> u64 set" where
  "taken_pages s = {page_addr s i | i. i < bm_bits (page_bits s) \<and> bm_bit (page_bits s) i}"

definition pma_inv :: "pma_state \<Rightarrow> bool" where
  "pma_inv s \<longleftrightarrow> bm_wf (page_bits s) \<and> physical_page_base s \<noteq> 0 \<and>
     unat (physical_page_base s) + 4096 * bm_bits (page_bits s) \<le> 2 ^ 64"

lemma unat_page_addr:
  assumes "pma_inv s" "i < bm_bits (page_bits s)"
  shows "unat (page_addr s i) = 4096 * i + unat (physical_page_base s)"
proof -
  have lt: "4096 * i + unat (physical_page_base s) < 2 ^ 64"
    using assms by (auto simp: pma_inv_def)
  then have "unat (of_nat i * PAGE_SIZE) = 4096 * i"
    by (simp add: PAGE_SIZE_def unat_word_ariths unat_of_nat)
  then show ?thesis using lt by (simp add: page_addr_def unat_add_u64)
qed

lemma page_addr_inj:
  assumes "pma_inv s" "i < bm_bits (page_bits s)" "j < bm_bits (page_bits s)" "page_addr s i = page_addr s j"
  shows "i = j"
proof -
  have "4096 * i + unat (physical_page_base s) = 4096 * j + unat (physical_page_base s)"
    unfolding unat_page_addr [OF assms(1,2), symmetric] unat_page_addr [OF assms(1,3), symmetric]
    by (simp only: assms(4))
  then show ?thesis by simp
qed

lemma page_addr_nonnull: "pma_inv s \<Longrightarrow> i < bm_bits (page_bits s) \<Longrightarrow> page_addr s i \<noteq> 0"
  using unat_page_addr [of s i] by (auto simp: pma_inv_def unat_eq_0)

lemma page_addr_taken_iff:
  "pma_inv s \<Longrightarrow> i < bm_bits (page_bits s) \<Longrightarrow> page_addr s i \<in> taken_pages s \<longleftrightarrow> bm_bit (page_bits s) i"
proof -
  assume a: "pma_inv s" "i < bm_bits (page_bits s)"
  show ?thesis
  proof
    assume "page_addr s i \<in> taken_pages s"
    then obtain j where "page_addr s i = page_addr s j" "j < bm_bits (page_bits s)" "bm_bit (page_bits s) j"
      unfolding taken_pages_def by blast
    then show "bm_bit (page_bits s) i" using page_addr_inj [OF a] by metis
  next
    assume "bm_bit (page_bits s) i"
    then show "page_addr s i \<in> taken_pages s" unfolding taken_pages_def using a(2) by blast
  qed
qed

lemma scast_index:
  assumes "unat (idx :: u32) < 2 ^ 31" shows "(scast idx :: u64) = of_nat (unat idx)"
proof -
  have "unat (take_bit 31 idx) = unat idx"
    unfolding unsigned_take_bit_eq using assms by (simp add: take_bit_nat_eq_self)
  then have "take_bit 31 idx = idx" by (rule unsigned_word_eqI)
  then have lt: "bit idx n \<Longrightarrow> n < 31" for n by (metis bit_take_bit_iff)
  have "(scast idx :: u64) = ucast idx"
    by (intro bit_eqI) (auto simp: bit_signed_iff bit_unsigned_iff possible_bit_word min_def
      dest: lt split: if_splits)
  then show ?thesis by simp
qed

text \<open>Changing one bit changes one page.\<close>

lemma taken_update:
  assumes inv: "pma_inv s" and i: "i < bm_bits (page_bits s)"
    and b: "bm_bits b = bm_bits (page_bits s)" "num_limbs b = num_limbs (page_bits s)"
      "total_size b = total_size (page_bits s)"
    and bits: "\<And>j. bm_bit b j = (if j = i then v else bm_bit (page_bits s) j)"
  shows "pma_inv (s\<lparr>page_bits := b\<rparr>)"
    "taken_pages (s\<lparr>page_bits := b\<rparr>) = (if v then insert (page_addr s i) (taken_pages s)
       else taken_pages s - {page_addr s i})"
proof -
  show "pma_inv (s\<lparr>page_bits := b\<rparr>)" using inv b by (simp add: pma_inv_def bm_wf_def bm_bits_def)
  have addr: "page_addr (s\<lparr>page_bits := b\<rparr>) = page_addr s" by (simp add: page_addr_def [abs_def])
  let ?S = "{j. j < bm_bits (page_bits s) \<and> bm_bit (page_bits s) j}"
  have img: "taken_pages s = page_addr s ` ?S" by (auto simp: taken_pages_def)
  have "inj_on (page_addr s) {..<bm_bits (page_bits s)}" using page_addr_inj [OF inv] by (auto intro: inj_onI)
  then have diff: "page_addr s ` (?S - {i}) = page_addr s ` ?S - page_addr s ` {i}"
    using i by (intro inj_on_image_set_diff) auto
  have "taken_pages (s\<lparr>page_bits := b\<rparr>) = page_addr s ` {j. j < bm_bits (page_bits s) \<and> bm_bit b j}"
    by (auto simp: taken_pages_def addr b(1))
  also have "{j. j < bm_bits (page_bits s) \<and> bm_bit b j} = (if v then insert i ?S else ?S - {i})"
    using i by (auto simp: bits)
  finally show "taken_pages (s\<lparr>page_bits := b\<rparr>) = (if v then insert (page_addr s i) (taken_pages s)
       else taken_pages s - {page_addr s i})"
    using diff by (simp add: img)
qed

lemma get_physical_page_fresh:
  assumes inv: "pma_inv s" and run: "get_physical_page s = Inr (p, s')"
  shows "pma_inv s' \<and> p \<notin> taken_pages s \<and> taken_pages s' = insert p (taken_pages s)"
proof -
  let ?b = "page_bits s"
  have wf: "bm_wf ?b" using inv by (simp add: pma_inv_def)
  from run obtain idx b where idx: "find_first ?b False = Inr idx" "idx \<noteq> -1" "bm_set ?b idx = Inr b"
      "p = scast idx * PAGE_SIZE + physical_page_base s" "s' = s\<lparr>page_bits := b\<rparr>"
    by (auto simp: get_physical_page_def rbind_eq_Inr_iff Let_def split: if_splits)
  have free: "unat idx < bm_bits ?b" "\<not> bm_bit ?b (unat idx)"
    using find_first_from_sound [of ?b 0 "unat (num_limbs ?b)" idx] idx(1,2) wf
    by (auto simp: find_first_def bm_wf_def bm_bits_def)
  then have "unat idx < 2 ^ 31" using wf by (simp add: bm_wf_def)
  then have p: "p = page_addr s (unat idx)" using idx(4) scast_index [of idx] by (simp add: page_addr_def)
  from bm_update_ok(1) [OF free(1)] idx(3) have b: "bm_bits b = bm_bits ?b" "num_limbs b = num_limbs ?b"
      "total_size b = total_size ?b" "\<And>j. bm_bit b j = (if j = unat idx then True else bm_bit ?b j)" by auto
  show ?thesis
    using taken_update [OF inv free(1) b] page_addr_taken_iff [OF inv free(1)] free(2) idx(5) p by auto
qed

text \<open>The page that is handed out is the one of the least clear bit, where the search reaches it.\<close>

lemma get_physical_page_found:
  assumes inv: "pma_inv s" and k: "k < bm_bits (page_bits s)" and run: "find_first (page_bits s) False = Inr (of_nat k)"
  shows "\<exists>b. get_physical_page s = Inr (page_addr s k, s\<lparr>page_bits := b\<rparr>) \<and> bm_bits b = bm_bits (page_bits s) \<and>
    (\<forall>j. bm_bit b j = (j = k \<or> bm_bit (page_bits s) j))"
proof -
  let ?b = "page_bits s"
  have "bm_wf ?b" using inv by (simp add: pma_inv_def)
  then have k31: "k < 2 ^ 31" using k by (simp add: bm_wf_def)
  then have u: "unat (of_nat k :: u32) = k" by (simp add: unat_of_nat_u32)
  have ne: "(of_nat k :: u32) \<noteq> -1"
  proof
    assume "(of_nat k :: u32) = -1"
    then have "unat (of_nat k :: u32) = unat (-1 :: u32)" by simp
    then have "unat (of_nat k :: u32) = 2 ^ 32 - 1" by simp
    then show False using u k31 by simp
  qed
  obtain b where b: "bm_set ?b (of_nat k) = Inr b" "bm_bits b = bm_bits ?b"
      "\<And>j. bm_bit b j = (if j = k then True else bm_bit ?b j)"
    using bm_update_ok(1) [of "of_nat k" ?b] u k by auto
  have "scast (of_nat k :: u32) * PAGE_SIZE + physical_page_base s = page_addr s k"
    using scast_index [of "of_nat k"] u k31 by (simp add: page_addr_def)
  then show ?thesis
    using run ne b page_addr_nonnull [OF inv k] by (intro exI [of _ b]) (simp add: get_physical_page_def Let_def)
qed

lemma get_physical_page_least:
  assumes "pma_inv s" "k < bm_bits (page_bits s)" "\<not> bm_bit (page_bits s) k"
    "\<forall>i < k. bm_bit (page_bits s) i" "k mod 64 < 31"
  shows "\<exists>b. get_physical_page s = Inr (page_addr s k, s\<lparr>page_bits := b\<rparr>) \<and> bm_bits b = bm_bits (page_bits s) \<and>
    (\<forall>j. bm_bit b j = (j = k \<or> bm_bit (page_bits s) j))"
proof (rule get_physical_page_found [OF assms(1,2)])
  have "bm_wf (page_bits s)" using assms(1) by (simp add: pma_inv_def)
  from find_first_least [OF this assms(2-4)] show "find_first (page_bits s) False = Inr (of_nat k)"
    by (rule trans) (simp only: assms(5) simp_thms if_True)
qed

text \<open>When the pages are taken in order the first 32 can be had; the next request is undefined.\<close>

definition taken_first :: "nat \<Rightarrow> pma_state \<Rightarrow> bool" where
  "taken_first m s \<longleftrightarrow> 64 \<le> bm_bits (page_bits s) \<and> (\<forall>j < bm_bits (page_bits s). bm_bit (page_bits s) j \<longleftrightarrow> j < m)"

lemma taken_first_find:
  assumes inv: "pma_inv s" and first: "taken_first m s" and m: "m < 64"
  shows "find_first (page_bits s) False =
    (if m < 32 then Inr (of_nat m) else Inl (Undefined_behaviour ''shift count exceeds the width of int''))"
proof -
  let ?b = "page_bits s"
  have wf: "bm_wf ?b" using inv by (simp add: pma_inv_def)
  have b: "64 \<le> bm_bits ?b" "\<And>j. j < bm_bits ?b \<Longrightarrow> bm_bit ?b j \<longleftrightarrow> j < m" using first by (auto simp: taken_first_def)
  have "bit (limbs ?b ! 0) j \<longleftrightarrow> j < m" if "j < 64" for j
    using b(2) [of j] that b(1) by (simp add: bm_bit_def)
  then have bits: "bit (limbs ?b ! 0) j \<longleftrightarrow> j < m" for j
    using m bit_imp_le_length [of "limbs ?b ! 0" j] by (cases "j < 64") auto
  have small: "m mod 64 = m" "m div 64 = 0" using m by simp_all
  have least: "m < bm_bits ?b" "\<not> bm_bit ?b m" "\<forall>i < m. bm_bit ?b i" using b m by auto
  have "m < 31 \<or> m = 31 \<and> (\<forall>j \<ge> 31. \<not> bit (limbs ?b ! 0) j) \<longleftrightarrow> m < 32" unfolding bits by auto
  with find_first_least [OF wf least] show ?thesis by (simp only: small)
qed

lemma get_physical_page_first:
  assumes inv: "pma_inv s" and first: "taken_first m s"
  shows "m < 32 \<Longrightarrow> \<exists>b. get_physical_page s = Inr (page_addr s m, s\<lparr>page_bits := b\<rparr>) \<and>
      taken_first (Suc m) (s\<lparr>page_bits := b\<rparr>)"
    "m = 32 \<Longrightarrow> get_physical_page s = Inl (Undefined_behaviour ''shift count exceeds the width of int'')"
proof -
  assume m: "m < 32"
  then have "find_first (page_bits s) False = Inr (of_nat m)" "m < bm_bits (page_bits s)"
    using taken_first_find [OF assms] first by (simp_all add: taken_first_def)
  from get_physical_page_found [OF inv this(2,1)] obtain b where
    b: "get_physical_page s = Inr (page_addr s m, s\<lparr>page_bits := b\<rparr>)" "bm_bits b = bm_bits (page_bits s)"
      "\<And>j. bm_bit b j = (j = m \<or> bm_bit (page_bits s) j)" by blast
  have "taken_first (Suc m) (s\<lparr>page_bits := b\<rparr>)"
    using first b(2,3) by (simp add: taken_first_def less_Suc_eq disj_commute)
  with b(1) show "\<exists>b. get_physical_page s = Inr (page_addr s m, s\<lparr>page_bits := b\<rparr>) \<and>
      taken_first (Suc m) (s\<lparr>page_bits := b\<rparr>)" by blast
next
  assume "m = 32"
  then show "get_physical_page s = Inl (Undefined_behaviour ''shift count exceeds the width of int'')"
    using taken_first_find [OF assms] by (simp add: get_physical_page_def)
qed

lemma page_index:
  assumes "pma_inv s" "i < bm_bits (page_bits s)"
  shows "unat (ucast ((page_addr s i - physical_page_base s) div PAGE_SIZE) :: u32) = i"
proof -
  have u: "unat (page_addr s i) = 4096 * i + unat (physical_page_base s)" by (rule unat_page_addr [OF assms])
  then have "unat (page_addr s i - physical_page_base s) = 4096 * i"
    by (subst unat_sub) (simp_all add: word_le_nat_alt)
  then have "unat ((page_addr s i - physical_page_base s) div PAGE_SIZE) = i"
    by (simp add: unat_div PAGE_SIZE_def)
  moreover have "i < 2 ^ 32" using assms by (simp add: pma_inv_def bm_wf_def)
  ultimately show ?thesis by (metis unat_ucast_u32)
qed

lemma free_physical_page_page:
  assumes inv: "pma_inv s" and i: "i < bm_bits (page_bits s)"
  shows "if bm_bit (page_bits s) i
    then \<exists>s'. free_physical_page (page_addr s i) s = Inr s' \<and> pma_inv s' \<and>
      taken_pages s' = taken_pages s - {page_addr s i}
    else free_physical_page (page_addr s i) s = Inl (Assert_failed ''page being freed was never allocated!'')"
proof -
  let ?b = "page_bits s" and ?idx = "ucast ((page_addr s i - physical_page_base s) div PAGE_SIZE) :: u32"
  have idx: "unat ?idx = i" by (rule page_index [OF assms])
  have test: "bm_test ?b ?idx = Inr (bm_bit ?b i)" using bm_test_eq [of ?idx ?b] idx i by simp
  obtain b where b: "bm_reset ?b ?idx = Inr b" "bm_bits b = bm_bits ?b" "num_limbs b = num_limbs ?b"
      "total_size b = total_size ?b" "\<And>j. bm_bit b j = (if j = i then False else bm_bit ?b j)"
    using bm_update_ok(2) [of ?idx ?b] idx i by auto
  show ?thesis
    using taken_update [OF inv i b(2-5)] b(1) test page_addr_nonnull [OF inv i]
    by (auto simp: free_physical_page_def Let_def)
qed

interpretation pma: page_allocator pma_inv taken_pages get_physical_page free_physical_page
proof
  fix s p s' assume "pma_inv s" "get_physical_page s = Inr (p, s')"
  then show "pma_inv s' \<and> p \<notin> taken_pages s \<and> taken_pages s' = insert p (taken_pages s)"
    by (rule get_physical_page_fresh)
next
  fix s p assume inv: "pma_inv s" and "p \<in> taken_pages s"
  then obtain i where "p = page_addr s i" "i < bm_bits (page_bits s)" "bm_bit (page_bits s) i"
    by (auto simp: taken_pages_def)
  then show "\<exists>s'. free_physical_page p s = Inr s' \<and> pma_inv s' \<and> taken_pages s' = taken_pages s - {p}"
    using free_physical_page_page [OF inv, of i] by simp
qed

subsection \<open>Initialisation\<close>

lemma align_to_page:
  assumes "unat a mod 4096 = 0" "unat a + 4096 \<le> 2 ^ 64"
  shows "align_to a PAGE_SIZE = a"
proof (rule unsigned_word_eqI)
  obtain q where q: "unat a = 4096 * q" using assms(1) by (metis dvdE mod_eq_0_iff_dvd)
  have "unat (align_to a PAGE_SIZE) = (unat a + 4096 - 1) div 4096 * 4096"
    using unat_align_to [of PAGE_SIZE a] assms(2) by (simp add: PAGE_SIZE_def)
  also have "(unat a + 4096 - 1) div 4096 = q" unfolding q by simp
  finally show "unat (align_to a PAGE_SIZE) = unat a" using q by simp
qed

lemma pma_early_init_runs:
  assumes "get_memory_map ms = Inr mmap"
    and "identity_map_pages_into_kernel_space (align_to (entry_base (mmap ! 0)) PAGE_SIZE)
      (div_ceil (size_required (entry_length (mmap ! 0) div PAGE_SIZE)) PAGE_SIZE) (RW OR XD) ps = Inr (v, ps')"
  shows "pma_early_init ms ps s =
    (if bytes_mapped ps' v (bm_bytes (bm_make (entry_length (mmap ! 0) div PAGE_SIZE)))
     then Inr (s\<lparr>max_pages_total := entry_length (mmap ! 0) div PAGE_SIZE,
      physical_page_map := v, page_bits := bm_make (entry_length (mmap ! 0) div PAGE_SIZE),
      physical_page_base := v + div_ceil (size_required (entry_length (mmap ! 0) div PAGE_SIZE)) PAGE_SIZE * PAGE_SIZE
        - KERNEL_VMA_OFFSET\<rparr>, ps') else Inl (Panicked ''page fault''))"
  using assms by (simp add: pma_early_init_def bm_make_at_def Let_def)

lemma bm_make_at_Inr: "bm_make_at ps a n = Inr b \<Longrightarrow> b = bm_make n"
  by (auto simp: bm_make_at_def Let_def split: if_splits)

text \<open>The address a successful identity mapping returns.\<close>

lemma identity_map_result:
  "identity_map_pages_into_kernel_space a n attrs ps = Inr (v, ps') \<Longrightarrow> v = a + KERNEL_VMA_OFFSET \<and> 0 < n"
  by (auto simp: identity_map_pages_into_kernel_space_def identity_map_page_range_into_kernel_space_def
    map_range_size_def map_range_def Let_def rbind_eq_Inr_iff)

lemma unat_div_PAGE_SIZE: "unat (x div PAGE_SIZE) = unat x div 4096"
  by (simp add: unat_div PAGE_SIZE_def)

text \<open>The state \<^verbatim>\<open>early_init\<close> leaves, for the first memory-map entry \<open>e\<close>.\<close>

lemma pma_early_init_state:
  assumes run: "pma_early_init ms ps s = Inr (s', ps')" and e: "get_memory_map ms = Inr mmap" "e = mmap ! 0"
    and al: "unat (entry_base e) mod 4096 = 0" and small: "unat (entry_base e) + unat (entry_length e) < 2 ^ 42"
  shows "page_bits s' = bm_make (entry_length e div PAGE_SIZE)"
    "unat (physical_page_base s') = unat (entry_base e) + 4096 * unat (div_ceil (size_required (entry_length e div PAGE_SIZE)) PAGE_SIZE)"
    "0 < div_ceil (size_required (entry_length e div PAGE_SIZE)) PAGE_SIZE"
    "unat (div_ceil (size_required (entry_length e div PAGE_SIZE)) PAGE_SIZE) \<le> 2 ^ 30"
proof -
  let ?m = "entry_length e div PAGE_SIZE"
  let ?pn = "div_ceil (size_required ?m) PAGE_SIZE"
  have align: "align_to (entry_base e) PAGE_SIZE = entry_base e" using al small by (intro align_to_page) simp_all
  from run obtain v where v: "identity_map_pages_into_kernel_space (entry_base e) ?pn (RW OR XD) ps = Inr (v, ps')"
      "page_bits s' = bm_make ?m" "physical_page_base s' = v + ?pn * PAGE_SIZE - KERNEL_VMA_OFFSET"
    using e align [unfolded e(2)] by (auto simp: pma_early_init_def Let_def rbind_eq_Inr_iff dest: bm_make_at_Inr)
  then show "page_bits s' = bm_make ?m" "0 < ?pn" using identity_map_result by auto
  have base: "physical_page_base s' = entry_base e + ?pn * PAGE_SIZE"
    using v(3) identity_map_result [OF v(1)] by simp
  have m: "unat ?m \<le> 2 ^ 30" using small div_le_mono [of "unat (entry_length e)" "2 ^ 42" 4096]
    by (simp add: unat_div_PAGE_SIZE)
  have limbs: "unat (div_ceil ?m 64) * 64 < unat ?m + 64" using div_ceil_covers(2) [of 64 ?m] by simp
  then have "unat (size_required ?m) = unat (div_ceil ?m 64) * 8"
    using m unfolding size_required_def by (subst unat_mult_u64) simp_all
  moreover have "unat ?pn * 4096 < unat (size_required ?m) + 4096"
    using div_ceil_covers(2) [of PAGE_SIZE "size_required ?m"] by (simp add: PAGE_SIZE_def)
  ultimately have pn: "unat ?pn * 4096 < 2 ^ 28" using limbs m by simp
  then show "unat ?pn \<le> 2 ^ 30" by simp
  have "unat (?pn * PAGE_SIZE) = unat ?pn * 4096"
    using pn by (subst unat_mult_u64) (simp_all add: PAGE_SIZE_def)
  then show "unat (physical_page_base s') = unat (entry_base e) + 4096 * unat ?pn"
    using base pn small by (simp add: unat_add_u64)
qed

subsection \<open>Runs of pages\<close>

lemma set_run_sets:
  assumes "unat idx + n \<le> bm_bits b" "bm_bits b \<le> 2 ^ 31"
  shows "\<exists>b'. set_run n idx b = Inr b' \<and> bm_bits b' = bm_bits b \<and> num_limbs b' = num_limbs b \<and>
    total_size b' = total_size b \<and>
    (\<forall>j. bm_bit b' j = (unat idx \<le> j \<and> j < unat idx + n \<or> bm_bit b j))"
  using assms
proof (induction n arbitrary: idx b)
  case 0
  then show ?case by auto
next
  case (Suc n)
  obtain b1 where b1: "bm_set b idx = Inr b1" "bm_bits b1 = bm_bits b" "num_limbs b1 = num_limbs b"
      "total_size b1 = total_size b" "\<And>j. bm_bit b1 j = (j = unat idx \<or> bm_bit b j)"
    using bm_update_ok(1) [of idx b] Suc.prems by auto
  have next_idx: "unat (idx + 1) = unat idx + 1"
    using Suc.prems by (simp add: unat_word_ariths)
  have "unat (idx + 1) + n \<le> bm_bits b1" "bm_bits b1 \<le> 2 ^ 31" using Suc.prems b1 next_idx by simp_all
  from Suc.IH [OF this] obtain b' where b': "set_run n (idx + 1) b1 = Inr b'" "bm_bits b' = bm_bits b1"
      "num_limbs b' = num_limbs b1" "total_size b' = total_size b1"
      "\<And>j. bm_bit b' j = (unat (idx + 1) \<le> j \<and> j < unat (idx + 1) + n \<or> bm_bit b1 j)" by blast
  have "bm_bit b' j = (unat idx \<le> j \<and> j < unat idx + Suc n \<or> bm_bit b j)" for j
    unfolding b'(5) b1(5) next_idx by (cases "j = unat idx") auto
  then show ?case using b1 b' by auto
qed

lemma bm_set_range: "bm_set b idx = Inr b' \<Longrightarrow> unat idx < bm_bits b"
  by (auto simp: bm_set_def limb_at_def rbind_eq_Inr_iff BITS_PER_LIMB_def bm_bits_def split: if_splits)

lemma set_run_range:
  assumes "set_run n idx b = Inr b'" "0 < n" "bm_bits b \<le> 2 ^ 31"
  shows "unat idx + n \<le> bm_bits b"
  using assms
proof (induction n arbitrary: idx b)
  case (Suc n)
  then obtain b1 where b1: "bm_set b idx = Inr b1" "set_run n (idx + 1) b1 = Inr b'"
    by (auto simp: rbind_eq_Inr_iff)
  have lt: "unat idx < bm_bits b" by (rule bm_set_range [OF b1(1)])
  then have "bm_bits b1 = bm_bits b" using bm_update_ok(1) [OF lt] b1(1) by auto
  moreover have "unat (idx + 1) = unat idx + 1" using lt Suc.prems(3) by (simp add: unat_word_ariths)
  ultimately show ?case using Suc.IH [OF b1(2)] Suc.prems(3) lt by (cases "n = 0") auto
qed simp

lemma taken_run:
  assumes inv: "pma_inv s" and r: "i + n \<le> bm_bits (page_bits s)"
    and b: "bm_bits b = bm_bits (page_bits s)" "num_limbs b = num_limbs (page_bits s)"
      "total_size b = total_size (page_bits s)"
    and bits: "\<And>j. bm_bit b j = (i \<le> j \<and> j < i + n \<or> bm_bit (page_bits s) j)"
  shows "pma_inv (s\<lparr>page_bits := b\<rparr>)"
    "taken_pages (s\<lparr>page_bits := b\<rparr>) = taken_pages s \<union> (\<lambda>k. page_addr s (i + k)) ` {..<n}"
proof -
  show "pma_inv (s\<lparr>page_bits := b\<rparr>)" using inv b by (simp add: pma_inv_def bm_wf_def bm_bits_def)
  have addr: "page_addr (s\<lparr>page_bits := b\<rparr>) = page_addr s" by (simp add: page_addr_def [abs_def])
  have img: "taken_pages s = page_addr s ` {j. j < bm_bits (page_bits s) \<and> bm_bit (page_bits s) j}"
    by (auto simp: taken_pages_def)
  have "taken_pages (s\<lparr>page_bits := b\<rparr>) = page_addr s ` {j. j < bm_bits (page_bits s) \<and> bm_bit b j}"
    by (auto simp: taken_pages_def addr b(1))
  also have "{j. j < bm_bits (page_bits s) \<and> bm_bit b j} =
      {j. j < bm_bits (page_bits s) \<and> bm_bit (page_bits s) j} \<union> (\<lambda>k. i + k) ` {..<n}"
    using r by (auto simp: bits image_iff Bex_def le_iff_add)
  finally show "taken_pages (s\<lparr>page_bits := b\<rparr>) = taken_pages s \<union> (\<lambda>k. page_addr s (i + k)) ` {..<n}"
    by (simp add: img image_Un image_image)
qed

lemma find_first_n_free:
  assumes "bm_wf b" "find_first_n b False n = Inr r" "r \<noteq> -1"
  shows "0 \<le> r" "r < 2 ^ 31" "k < n \<Longrightarrow> bm_bit b (nat r + k) \<Longrightarrow> r mod 64 = 63 \<and> 0 < k \<and> n \<le> k + 63"
  using find_first_n_loop_sound [of b False n 0 0 "-1" r] assms run_inv_reset bm_wf_size [OF assms(1)]
  by (auto simp: find_first_n_def run_found_def bm_wf_def)

subsection \<open>Properties\<close>

text \<open>
  C14. The physical page allocator never hands out a page that is held: in every run of
  \<^verbatim>\<open>get_physical_page\<close> and \<^verbatim>\<open>free_physical_page\<close> by a client that frees only pages it
  holds, the pages held are always distinct and exactly the pages taken since the start.
\<close>

theorem pma_pages_exclusive:
  assumes "pma_inv s" "client_run get_physical_page free_physical_page ops [] s = Inr (held, s')"
  shows "pma_inv s' \<and> distinct held \<and> set held \<inter> taken_pages s = {} \<and>
    taken_pages s' = taken_pages s \<union> set held"
proof -
  have run: "pma_inv s' \<and> distinct held \<and> set held \<subseteq> taken_pages s' \<and>
      taken_pages s' - set held = taken_pages s - set []"
    using pma.client_run_exclusive [of s "[]" ops held s'] assms by simp
  then show ?thesis by auto
qed

definition sample_pma :: pma_state where
  "sample_pma = \<lparr>max_pages_total = 64, physical_page_base = 0x400000, physical_page_map = 0,
     page_bits = \<lparr>num_limbs = 1, total_size = 8, limbs = [5]\<rparr>\<rparr>"

lemma sample_pma_inv: "pma_inv sample_pma"
  by (simp add: pma_inv_def sample_pma_def bm_wf_def bm_bits_def)

lemma sample_pma_get:
  "get_physical_page sample_pma = Inr (0x401000, sample_pma\<lparr>page_bits := \<lparr>num_limbs = 1, total_size = 8, limbs = [7]\<rparr>\<rparr>)"
proof -
  have "find_first (page_bits sample_pma) False = Inr 1"
    by (simp add: sample_pma_def find_first_def limb_at_def empty_limb_def BITS_PER_LIMB_def upt_conv_Cons int_one_shl_eq)
  moreover have "bm_set (page_bits sample_pma) 1 = Inr \<lparr>num_limbs = 1, total_size = 8, limbs = [7]\<rparr>"
    by (simp add: sample_pma_def bm_set_def limb_at_def BITS_PER_LIMB_def)
  ultimately show ?thesis by (simp add: get_physical_page_def Let_def PAGE_SIZE_def) (simp add: sample_pma_def)
qed

theorem pma_pages_exclusive_witness:
  "client_run get_physical_page free_physical_page [Alloc] [] sample_pma =
     Inr ([0x401000], sample_pma\<lparr>page_bits := \<lparr>num_limbs = 1, total_size = 8, limbs = [7]\<rparr>\<rparr>) \<and>
   0x401000 \<notin> taken_pages sample_pma"
proof -
  have run: "client_run get_physical_page free_physical_page [Alloc] [] sample_pma =
     Inr ([0x401000], sample_pma\<lparr>page_bits := \<lparr>num_limbs = 1, total_size = 8, limbs = [7]\<rparr>\<rparr>)"
    by (simp add: sample_pma_get)
  then show ?thesis using pma_pages_exclusive [OF sample_pma_inv run] by simp
qed

text \<open>
  Freeing: a page whose bit is set is given back and only that page changes; a page of
  the map that is not taken fails the assertion and nothing is changed.
\<close>

theorem free_physical_page_exact:
  assumes "pma_inv s" "i < bm_bits (page_bits s)"
  shows "if page_addr s i \<in> taken_pages s
    then \<exists>s'. free_physical_page (page_addr s i) s = Inr s' \<and> pma_inv s' \<and>
      taken_pages s' = taken_pages s - {page_addr s i}
    else free_physical_page (page_addr s i) s = Inl (Assert_failed ''page being freed was never allocated!'')"
  using free_physical_page_page [OF assms] page_addr_taken_iff [OF assms] by simp

theorem free_physical_page_exact_witness:
  "free_physical_page 0x401000 sample_pma = Inl (Assert_failed ''page being freed was never allocated!'')"
proof -
  have "page_addr sample_pma 1 = 0x401000" by (simp add: page_addr_def sample_pma_def PAGE_SIZE_def)
  moreover have "page_addr sample_pma 1 \<notin> taken_pages sample_pma"
    using page_addr_taken_iff [OF sample_pma_inv, of 1] by (simp add: sample_pma_def bm_bits_def bm_bit_def)
  ultimately show ?thesis
    using free_physical_page_exact [OF sample_pma_inv, of 1] by (simp add: sample_pma_def bm_bits_def)
qed

text \<open>
  C15. Exactly the pages of the run that \<^verbatim>\<open>get_contiguous_physical_pages\<close> returns are taken by the call, and
  a page of the run that somebody held already is one of its last 63 but not the first, in a run that starts
  at the last bit of a limb (the start index recorded for a run that begins with a whole free limb).
\<close>

theorem contiguous_pages_fresh:
  assumes "pma_inv s" "get_contiguous_physical_pages n s = Inr (p, s')" "0 < n" "unat n < 2 ^ 32"
  shows "pma_inv s' \<and>
    (\<forall>k < unat n. p + of_nat k * PAGE_SIZE \<in> taken_pages s \<longrightarrow>
       unat (p - physical_page_base s) div 4096 mod 64 = 63 \<and> 0 < k \<and> unat n \<le> k + 63) \<and>
    taken_pages s' = taken_pages s \<union> (\<lambda>k. p + of_nat k * PAGE_SIZE) ` {..<unat n}"
proof -
  let ?b = "page_bits s"
  have wf: "bm_wf ?b" "bm_bits ?b \<le> 2 ^ 31" using assms(1) by (auto simp: pma_inv_def bm_wf_def)
  have n: "unat (ucast n :: u32) = unat n" using assms(4) by (rule unat_ucast_u32)
  from assms(2) obtain r b where r: "find_first_n ?b False (unat n) = Inr r" "r \<noteq> -1"
      "set_run (unat n) (of_int r) ?b = Inr b" "p = of_int r * PAGE_SIZE + physical_page_base s"
      "s' = s\<lparr>page_bits := b\<rparr>"
    unfolding get_contiguous_physical_pages_def n
    by (auto simp: rbind_eq_Inr_iff Let_def split: if_splits)
  have pos: "0 < unat n" using assms(3) by (simp add: unat_gt_0)
  let ?i = "unat (of_int r :: u32)"
  have range: "?i + unat n \<le> bm_bits ?b" by (rule set_run_range [OF r(3) pos wf(2)])
  note free = find_first_n_free [OF wf(1) r(1,2)]
  define i where "i = nat r"
  have i: "r = int i" "i < 2 ^ 31" using free(1,2) by (auto simp: i_def)
  have "(of_int r :: u32) = of_nat i" by (simp add: i(1))
  then have ui: "?i = i" using i(2) by (simp only:) (rule unat_of_nat_u32, simp)
  have p: "p = page_addr s i" using r(4) i(1) by (simp add: page_addr_def)
  have lt: "i < bm_bits ?b" using range pos ui by linarith
  have "p - physical_page_base s = of_nat i * PAGE_SIZE" by (simp add: p page_addr_def)
  moreover have "unat (of_nat i * PAGE_SIZE) = 4096 * i"
    using i(2) by (simp add: PAGE_SIZE_def unat_word_ariths unat_of_nat)
  ultimately have idx: "unat (p - physical_page_base s) div 4096 = i" by simp
  have clear: "i mod 64 = 63 \<and> 0 < k \<and> unat n \<le> k + 63" if "k < unat n" "bm_bit ?b (i + k)" for k
  proof -
    have "int i mod 64 = 63 \<and> 0 < k \<and> unat n \<le> k + 63" using free(3) [OF that(1)] that(2) unfolding i(1) by simp
    then have "int (i mod 64) = 63" "0 < k \<and> unat n \<le> k + 63" by (simp_all add: zmod_int)
    then show ?thesis by linarith
  qed
  have addr: "p + of_nat k * PAGE_SIZE = page_addr s (i + k)" for k
    by (simp add: p page_addr_def algebra_simps)
  have r31: "i + unat n \<le> bm_bits ?b" using range ui by simp
  obtain b' where b': "set_run (unat n) (of_int r) ?b = Inr b'" "bm_bits b' = bm_bits ?b"
      "num_limbs b' = num_limbs ?b" "total_size b' = total_size ?b"
      "\<And>j. bm_bit b' j = (i \<le> j \<and> j < i + unat n \<or> bm_bit ?b j)"
    using set_run_sets [OF range wf(2)] unfolding ui by blast
  have "i mod 64 = 63 \<and> 0 < k \<and> unat n \<le> k + 63" if "k < unat n" "page_addr s (i + k) \<in> taken_pages s" for k
    using page_addr_taken_iff [OF assms(1), of "i + k"] clear that r31 by simp
  then show ?thesis
    using taken_run [OF assms(1) r31 b'(2-5)] b'(1) r(3,5) idx by (simp add: addr)
qed

theorem contiguous_pages_fresh_witness:
  "\<exists>s'. get_contiguous_physical_pages 2 (sample_pma\<lparr>page_bits := \<lparr>num_limbs = 8, total_size = 64, limbs = 3 # replicate 7 0\<rparr>\<rparr>) =
     Inr (0x402000, s') \<and> 0x403000 \<in> taken_pages s'"
proof -
  let ?b = "\<lparr>num_limbs = 8, total_size = 64, limbs = 3 # replicate 7 0\<rparr>"
  let ?s = "sample_pma\<lparr>page_bits := ?b\<rparr>"
  have find: "find_first_n ?b False 2 = Inr 2"
    by (simp add: find_first_n_def find_first_n_loop.simps bm_size_def limb_at_def Let_def
      empty_limb_def BITS_PER_LIMB_def upt_conv_Cons bm_test_def)
  have inv: "pma_inv ?s" by (simp add: pma_inv_def sample_pma_def bm_wf_def bm_bits_def)
  have "2 + 2 \<le> bm_bits ?b" by (simp add: bm_bits_def)
  then obtain b where b: "set_run 2 2 ?b = Inr b"
    using set_run_sets [of 2 2 ?b] by (auto simp: bm_bits_def)
  then have run: "get_contiguous_physical_pages 2 ?s = Inr (0x402000, ?s\<lparr>page_bits := b\<rparr>)"
    using find by (simp add: get_contiguous_physical_pages_def Let_def PAGE_SIZE_def) (simp add: sample_pma_def)
  have "taken_pages (?s\<lparr>page_bits := b\<rparr>) = taken_pages ?s \<union> (\<lambda>k. 0x402000 + of_nat k * PAGE_SIZE) ` {..<unat (2 :: u64)}"
    using contiguous_pages_fresh [OF inv run] by (simp add: sample_pma_def)
  moreover have "(0x403000 :: u64) = 0x402000 + of_nat 1 * PAGE_SIZE" by (simp add: PAGE_SIZE_def)
  moreover have "(1 :: nat) \<in> {..<unat (2 :: u64)}" by simp
  ultimately have "0x403000 \<in> taken_pages (?s\<lparr>page_bits := b\<rparr>)" by blast
  then show ?thesis using run by blast
qed

text \<open>
  Once the first 32 pages are taken, the next allocation does not return a page: the
  search for a free bit shifts the \<^verbatim>\<open>int\<close> 1 by 32.
\<close>

theorem get_physical_page_33:
  assumes "bm_wf (page_bits s)" "0 < length (limbs (page_bits s))" "limbs (page_bits s) ! 0 = mask 32"
  shows "get_physical_page s = Inl (Undefined_behaviour ''shift count exceeds the width of int'')"
proof -
  let ?b = "page_bits s"
  have "\<not> bit (mask 32 :: u64) 40" by (simp add: bit_mask_iff)
  then have "(mask 32 :: u64) \<noteq> -1" by auto
  moreover have "find_bit (mask 32) False [0..<64] =
      Inl (Undefined_behaviour ''shift count exceeds the width of int'')"
    by (rule find_bit_clear_faults) (auto simp: bit_mask_iff intro!: exI [of _ 31])
  moreover have "find_first_from ?b False [0..<length (limbs ?b)] =
      rbind (find_bit (limbs ?b ! 0) False [0..<64]) (\<lambda>r. case r of Some k \<Rightarrow> Inr (of_nat (64 * 0 + k))
        | None \<Rightarrow> find_first_from ?b False [Suc 0..<length (limbs ?b)])"
    using assms(2,3) calculation(1) by (intro find_first_from_skip) (auto simp: empty_limb_def)
  ultimately show ?thesis
    using assms by (simp add: get_physical_page_def find_first_def bm_wf_def)
qed

theorem get_physical_page_33_witness:
  "get_physical_page (sample_pma\<lparr>page_bits := \<lparr>num_limbs = 1, total_size = 8, limbs = [mask 32]\<rparr>\<rparr>) =
     Inl (Undefined_behaviour ''shift count exceeds the width of int'')"
  using get_physical_page_33 [of "sample_pma\<lparr>page_bits := \<lparr>num_limbs = 1, total_size = 8, limbs = [mask 32]\<rparr>\<rparr>"]
  by (simp add: bm_wf_def bm_bits_def)

end
