(* ===== verification/Vma.thy ===== *)
theory Vma
  imports Pma
begin

text \<open>
  The virtual address allocator of src/kernel/vma.cpp. The free list lives in one page as
  an array of nodes; a pointer to a node is its index, and a null pointer is \<open>None\<close>.
  A walk along \<^verbatim>\<open>next\<close> that does not end or leaves the page has no value. Addresses are
  64-bit words and a node's area is the set of addresses whose distance from the base is
  below the size, so areas that end at the top of the address space need no special case.
\<close>

record free_node =
  node_base :: u64
  node_size :: u64
  node_next :: "nat option"

record vma_state =
  virtual_free_list :: u64
  nodes :: "free_node list"
  free_list_size :: nat
  max_free_list_size :: nat

definition ACTIVE_BITS_IN_VIRTUAL_ADDR :: nat where
  "ACTIVE_BITS_IN_VIRTUAL_ADDR = 42"

definition MAX_POSITIVE_VIRTUAL_ADDR :: u64 where
  "MAX_POSITIVE_VIRTUAL_ADDR = push_bit ACTIVE_BITS_IN_VIRTUAL_ADDR 1 - 1"

definition MIN_NEGATIVE_VIRTUAL_ADDR :: u64 where
  "MIN_NEGATIVE_VIRTUAL_ADDR = - push_bit ACTIVE_BITS_IN_VIRTUAL_ADDR 1"

definition MAX_NEGATIVE_VIRTUAL_ADDR :: u64 where
  "MAX_NEGATIVE_VIRTUAL_ADDR = -1"

definition NODES_PER_PAGE :: nat where
  "NODES_PER_PAGE = 0x1000 div 24"

subsection \<open>Walking the list\<close>

partial_function (option) chain :: "free_node list \<Rightarrow> nat option \<Rightarrow> nat list option" where
  "chain ns p = (case p of None \<Rightarrow> Some []
     | Some i \<Rightarrow> if i < length ns
         then Option.bind (chain ns (node_next (ns ! i))) (\<lambda>is. Some (i # is))
         else None)"

definition list_head :: "vma_state \<Rightarrow> nat option" where
  "list_head s = (if virtual_free_list s = 0 then None else Some 0)"

definition walk_list :: "vma_state \<Rightarrow> nat list res" where
  "walk_list s = (case chain (nodes s) (list_head s) of Some is \<Rightarrow> Inr is
     | None \<Rightarrow> Inl (Undefined_behaviour ''free list walk leaves the page or does not end''))"

definition set_node :: "nat \<Rightarrow> free_node \<Rightarrow> vma_state \<Rightarrow> vma_state" where
  "set_node i n s = s\<lparr>nodes := (nodes s)[i := n]\<rparr>"

subsection \<open>Operations\<close>

text \<open>The loop of \<^verbatim>\<open>add_node_to_free_list\<close>: \<open>Inl\<close> when it merged the area into a
  node and returned, \<open>Inr\<close> with \<^verbatim>\<open>empty_node\<close> when it ran to the end.\<close>

fun merge_scan :: "free_node list \<Rightarrow> u64 \<Rightarrow> u64 \<Rightarrow> nat list \<Rightarrow> nat option \<Rightarrow>
    (nat \<times> free_node) + nat option" where
  "merge_scan ns b sz [] empty_node = Inr empty_node"
| "merge_scan ns b sz (i # is) empty_node =
     (let n = ns ! i in
      if empty_node = None \<and> node_size n = 0 then merge_scan ns b sz is (Some i)
      else let end_of_current_node = node_base n + node_size n - 1; end_of_new_node = b + sz - 1 in
        if node_base n - 1 = end_of_new_node then Inl (i, n\<lparr>node_base := b, node_size := node_size n + sz\<rparr>)
        else if b - 1 = end_of_current_node then Inl (i, n\<lparr>node_size := node_size n + sz\<rparr>)
        else merge_scan ns b sz is empty_node)"

definition add_node_to_free_list :: "u64 \<Rightarrow> u64 \<Rightarrow> vma_state \<Rightarrow> vma_state res" where
  "add_node_to_free_list b sz s =
     rbind (walk_list s) (\<lambda>is.
       case merge_scan (nodes s) b sz is None of
         Inl (i, n) \<Rightarrow> Inr (set_node i n s)
       | Inr (Some i) \<Rightarrow> Inr (set_node i \<lparr>node_base = b, node_size = sz, node_next = None\<rparr> s)
       | Inr None \<Rightarrow>
           if is = [] then Inl (Undefined_behaviour ''null free list'')
           else let l = last is;
                    s1 = set_node l ((nodes s ! l)\<lparr>node_next := Some (l + 1)\<rparr>) s;
                    s2 = s1\<lparr>free_list_size := free_list_size s1 + 1\<rparr>
                in rbind (assert_that (free_list_size s2 \<noteq> max_free_list_size s2) ''No more free nodes!'') (\<lambda>_.
                   if l + 1 < length (nodes s)
                   then Inr (set_node (l + 1) \<lparr>node_base = b, node_size = sz, node_next = None\<rparr> s2)
                   else Inl (Undefined_behaviour ''node outside the free list page'')))"

fun containing_node :: "free_node list \<Rightarrow> u64 \<Rightarrow> u64 \<Rightarrow> nat list \<Rightarrow> nat option" where
  "containing_node ns b sz [] = None"
| "containing_node ns b sz (i # is) =
     (let n = ns ! i; end_of_node = node_base n + node_size n - 1; end_of_area = b + sz - 1 in
      if b \<ge> node_base n \<and> end_of_area \<le> end_of_node then Some i else containing_node ns b sz is)"

definition remove_from_free_list :: "u64 \<Rightarrow> u64 \<Rightarrow> vma_state \<Rightarrow> vma_state res" where
  "remove_from_free_list b size0 s =
     rbind (assert_that (virtual_free_list s \<noteq> 0) ''free list is empty?'') (\<lambda>_.
       let sz = align_to size0 PAGE_SIZE in
       rbind (walk_list s) (\<lambda>is.
         case containing_node (nodes s) b sz is of
           None \<Rightarrow> Inl (Panicked ''couldn't find region in free list: was it already freed?'')
         | Some i \<Rightarrow>
             let n = nodes s ! i; end_of_node = node_base n + node_size n - 1; end_of_area = b + sz - 1
             in add_node_to_free_list (end_of_area + 1) (end_of_node - end_of_area)
                  (set_node i (n\<lparr>node_size := b - node_base n\<rparr>) s)))"

fun fitting_node :: "free_node list \<Rightarrow> u64 \<Rightarrow> nat list \<Rightarrow> nat option" where
  "fitting_node ns sz [] = None"
| "fitting_node ns sz (i # is) = (if node_size (ns ! i) \<ge> sz then Some i else fitting_node ns sz is)"

definition get_virtual_pages :: "u64 \<Rightarrow> vma_state \<Rightarrow> (u64 \<times> vma_state) res" where
  "get_virtual_pages sz s =
     rbind (assert_that (sz \<noteq> 0) ''Tried to allocate page of size 0!'') (\<lambda>_.
     rbind (assert_that (sz mod PAGE_SIZE = 0) ''size must be page-aligned!'') (\<lambda>_.
     rbind (walk_list s) (\<lambda>is.
       case fitting_node (nodes s) sz is of
         None \<Rightarrow> Inl (Panicked ''Allocation failed, out of virtual pages!'')
       | Some i \<Rightarrow> let n = nodes s ! i in
           Inr (node_base n, set_node i (n\<lparr>node_base := node_base n + sz, node_size := node_size n - sz\<rparr>) s))))"

definition free_virtual_pages :: "u64 \<Rightarrow> u64 \<Rightarrow> vma_state \<Rightarrow> vma_state res" where
  "free_virtual_pages address sz s =
     rbind (assert_that (address \<noteq> 0) ''Tried to free page at 0x0!'') (\<lambda>_.
     rbind (assert_that (sz \<noteq> 0) ''Tried to free page of size 0!'') (\<lambda>_.
       add_node_to_free_list address sz s))"

text \<open>The lambda of \<^verbatim>\<open>init\<close>; the comparison is signed.\<close>

definition mark_free_range :: "u64 \<Rightarrow> u64 \<Rightarrow> vma_state \<Rightarrow> vma_state res" where
  "mark_free_range start stop s =
     (if sint start < sint stop then add_node_to_free_list start (stop - start + 1) s
      else add_node_to_free_list stop (start - stop + 1) s)"

definition vma_init :: "vma_state \<Rightarrow> pma_state \<Rightarrow> paging_state \<Rightarrow> (vma_state \<times> pma_state \<times> paging_state) res" where
  "vma_init s ms ps =
     rbind (get_physical_page ms) (\<lambda>(page, ms').
     rbind (identity_map_page_into_kernel_space page (RW OR XD) ps) (\<lambda>(vaddr, ps').
       let s0 = s\<lparr>virtual_free_list := vaddr, max_free_list_size := NODES_PER_PAGE,
                  nodes := (nodes s)[0 := \<lparr>node_base = 0, node_size = 0, node_next = None\<rparr>]\<rparr>
       in rbind (mark_free_range 0x200000 MAX_POSITIVE_VIRTUAL_ADDR s0) (\<lambda>s1.
          rbind (mark_free_range MIN_NEGATIVE_VIRTUAL_ADDR (KERNEL_VMA_START - 1) s1) (\<lambda>s2.
          rbind (mark_free_range KERNEL_VMA_END MAX_NEGATIVE_VIRTUAL_ADDR s2) (\<lambda>s3.
          rbind (remove_from_free_list vaddr PAGE_SIZE s3) (\<lambda>s4.
            Inr (s4, ms', ps')))))))"

subsection \<open>Areas\<close>

definition area :: "u64 \<Rightarrow> u64 \<Rightarrow> u64 set" where
  "area b sz = {x. x - b < sz}"

lemma area_0 [simp]: "area b 0 = {}"
  by (simp add: area_def)

lemma diff_add_word: "x - (b + s) = (x - b) - (s :: u64)"
  by simp

lemma word_sub_less:
  assumes "s \<le> (n :: u64)"
  shows "y - s < n - s \<longleftrightarrow> s \<le> y \<and> y < n"
proof
  assume lt: "y - s < n - s"
  have ns: "unat (n - s) = unat n - unat s" using assms by (rule unat_sub)
  have sum: "unat (y - s) + unat s < unat n" using lt ns by (simp add: word_less_nat_alt)
  then have "unat ((y - s) + s) = unat (y - s) + unat s"
    by (intro unat_add_u64 less_trans [OF sum]) simp
  then have "unat y = unat (y - s) + unat s" by simp
  then show "s \<le> y \<and> y < n" using sum by (simp add: word_le_nat_alt word_less_nat_alt)
next
  assume y: "s \<le> y \<and> y < n"
  then have "unat (y - s) = unat y - unat s" "unat (n - s) = unat n - unat s"
    using assms by (auto intro: unat_sub)
  then show "y - s < n - s"
    using y by (simp only: word_le_nat_alt word_less_nat_alt) (blast intro: diff_less_mono)
qed

lemma area_append: "area b (s1 + s2) \<subseteq> area b s1 \<union> area (b + s1) s2"
proof (cases "s1 \<le> s1 + s2")
  case True
  have "x - b < s1 + s2 \<Longrightarrow> \<not> x - b < s1 \<Longrightarrow> x - (b + s1) < s2" for x
    unfolding diff_add_word using word_sub_less [OF True, of "x - b"] by (simp add: not_less)
  then show ?thesis by (auto simp: area_def)
next
  case False
  then show ?thesis by (auto simp: area_def)
qed

lemma area_split:
  assumes "s \<le> n"
  shows "area b n = area b s \<union> area (b + s) (n - s)" "area b s \<inter> area (b + s) (n - s) = {}"
proof -
  have iff: "x - (b + s) < n - s \<longleftrightarrow> s \<le> x - b \<and> x - b < n" for x
    unfolding diff_add_word by (rule word_sub_less [OF assms])
  have lt: "x - b < s \<Longrightarrow> x - b < n" for x using assms by (meson order_less_le_trans)
  show "area b n = area b s \<union> area (b + s) (n - s)"
    unfolding area_def using iff lt by (auto simp: not_less)
  show "area b s \<inter> area (b + s) (n - s) = {}"
    unfolding area_def using iff by (auto simp: not_less)
qed

subsection \<open>Chains\<close>

fun is_chain :: "free_node list \<Rightarrow> nat option \<Rightarrow> nat list \<Rightarrow> bool" where
  "is_chain ns p [] \<longleftrightarrow> p = None"
| "is_chain ns p (i # is) \<longleftrightarrow> p = Some i \<and> i < length ns \<and> is_chain ns (node_next (ns ! i)) is"

lemma chain_is_chain: "is_chain ns p is \<Longrightarrow> chain ns p = Some is"
  by (induction "is" arbitrary: p) (auto simp: chain.simps)

lemma is_chain_range: "is_chain ns p is \<Longrightarrow> i \<in> set is \<Longrightarrow> i < length ns"
  by (induction "is" arbitrary: p) auto

text \<open>Rewriting a node without touching its link keeps the chain; cutting it ends the chain
  there; linking the last node to a new one extends it.\<close>

lemma is_chain_update:
  assumes "is_chain ns p is" "node_next n = node_next (ns ! i)"
  shows "is_chain (ns[i := n]) p is"
  using assms(1)
proof (induction "is" arbitrary: p)
  case (Cons a "is")
  have "node_next (ns[i := n] ! a) = node_next (ns ! a)"
    using assms(2) by (cases "i < length ns") (auto simp: nth_list_update list_update_beyond)
  then show ?case using Cons by simp
qed simp

lemma is_chain_other:
  assumes "is_chain ns p is" "i \<notin> set is"
  shows "is_chain (ns[i := n]) p is"
  using assms by (induction "is" arbitrary: p) (auto simp: nth_list_update)

lemma is_chain_cut:
  assumes "is_chain ns p (xs @ i # ys)" "distinct (xs @ i # ys)" "node_next n = None"
  shows "is_chain (ns[i := n]) p (xs @ [i])"
  using assms by (induction xs arbitrary: p) (auto simp: nth_list_update)

lemma is_chain_extend:
  assumes "is_chain ns p (xs @ [l])" "distinct (xs @ [l])" "j \<notin> set (xs @ [l])" "j < length ns"
    "node_next n = Some j" "node_next n' = None"
  shows "is_chain (ns[l := n, j := n']) p (xs @ [l, j])"
  using assms by (induction xs arbitrary: p) (auto simp: nth_list_update)

subsection \<open>The invariant\<close>

definition node_area :: "free_node list \<Rightarrow> nat \<Rightarrow> u64 set" where
  "node_area ns i = area (node_base (ns ! i)) (node_size (ns ! i))"

definition free_of :: "free_node list \<Rightarrow> nat list \<Rightarrow> u64 set" where
  "free_of ns is = (\<Union>i \<in> set is. node_area ns i)"

definition list_ok :: "vma_state \<Rightarrow> nat list \<Rightarrow> bool" where
  "list_ok s is \<longleftrightarrow> virtual_free_list s \<noteq> 0 \<and> is \<noteq> [] \<and> is_chain (nodes s) (Some 0) is \<and>
     sorted_wrt (<) is \<and> last is \<le> free_list_size s \<and>
     free_list_size s < max_free_list_size s \<and> max_free_list_size s = length (nodes s) \<and>
     (\<forall>i \<in> set is. \<forall>j \<in> set is. i \<noteq> j \<longrightarrow> node_area (nodes s) i \<inter> node_area (nodes s) j = {})"

definition vma_inv :: "vma_state \<Rightarrow> bool" where
  "vma_inv s \<longleftrightarrow> (\<exists>is. list_ok s is)"

definition free_area :: "vma_state \<Rightarrow> u64 set" where
  "free_area s = (case walk_list s of Inr is \<Rightarrow> free_of (nodes s) is | Inl _ \<Rightarrow> {})"

lemma list_ok_walk: "list_ok s is \<Longrightarrow> walk_list s = Inr is"
  by (auto simp: list_ok_def walk_list_def list_head_def dest!: chain_is_chain)

lemma list_ok_free: "list_ok s is \<Longrightarrow> free_area s = free_of (nodes s) is"
  by (simp add: free_area_def list_ok_walk)

lemma list_ok_distinct: "list_ok s is \<Longrightarrow> distinct is"
  by (auto simp: list_ok_def strict_sorted_iff)

lemma free_of_update:
  assumes "i \<in> set is" "i < length ns"
  shows "free_of (ns[i := n]) is = area (node_base n) (node_size n) \<union> free_of ns (filter (\<lambda>j. j \<noteq> i) is)"
proof -
  have "node_area (ns[i := n]) j = (if j = i then area (node_base n) (node_size n) else node_area ns j)" for j
    using assms(2) by (simp add: node_area_def)
  then show ?thesis using assms(1) by (auto simp: free_of_def)
qed

text \<open>Replacing the area of one node by one that stays off the others keeps the list in
  order.\<close>

lemma list_ok_set_node:
  assumes ok: "list_ok s is" and i: "i \<in> set is" and link: "node_next n = node_next (nodes s ! i)"
    and off: "area (node_base n) (node_size n) \<inter> free_of (nodes s) (filter (\<lambda>j. j \<noteq> i) is) = {}"
  shows "list_ok (set_node i n s) is"
    "free_area (set_node i n s) = area (node_base n) (node_size n) \<union> free_of (nodes s) (filter (\<lambda>j. j \<noteq> i) is)"
proof -
  have len: "i < length (nodes s)" using ok i is_chain_range by (auto simp: list_ok_def)
  have na: "node_area ((nodes s)[i := n]) j = (if j = i then area (node_base n) (node_size n) else node_area (nodes s) j)" for j
    using len by (simp add: node_area_def)
  have "node_area ((nodes s)[i := n]) j \<inter> node_area ((nodes s)[i := n]) k = {}"
    if "j \<in> set is" "k \<in> set is" "j \<noteq> k" for j k
    using that ok off unfolding na list_ok_def free_of_def by auto
  then show ok': "list_ok (set_node i n s) is"
    using ok is_chain_update [of "nodes s" "Some 0" "is" n i] link
    by (simp add: list_ok_def set_node_def)
  show "free_area (set_node i n s) = area (node_base n) (node_size n) \<union> free_of (nodes s) (filter (\<lambda>j. j \<noteq> i) is)"
    using list_ok_free [OF ok'] free_of_update [OF i len] by (simp add: set_node_def)
qed

lemma free_of_split:
  assumes "list_ok s is" "i \<in> set is"
  shows "free_area s = node_area (nodes s) i \<union> free_of (nodes s) (filter (\<lambda>j. j \<noteq> i) is)"
    "node_area (nodes s) i \<inter> free_of (nodes s) (filter (\<lambda>j. j \<noteq> i) is) = {}"
  using assms list_ok_free [OF assms(1)] by (auto simp: free_of_def list_ok_def)

subsection \<open>Allocating an area\<close>

lemma fitting_node_Some:
  "fitting_node ns sz is = Some i \<Longrightarrow> i \<in> set is \<and> sz \<le> node_size (ns ! i)"
  by (induction "is") (auto split: if_splits)

lemma fitting_node_None: "fitting_node ns sz is = None \<longleftrightarrow> (\<forall>i \<in> set is. node_size (ns ! i) < sz)"
  by (induction "is") (auto simp: not_le)

lemma get_virtual_pages_area:
  assumes inv: "vma_inv s" and run: "get_virtual_pages sz s = Inr (p, s')"
  shows "vma_inv s'" "area p sz \<subseteq> free_area s" "free_area s' = free_area s - area p sz"
proof -
  obtain "is" where ok: "list_ok s is" using inv by (auto simp: vma_inv_def)
  let ?rest = "\<lambda>i. free_of (nodes s) (filter (\<lambda>j. j \<noteq> i) is)"
  from run obtain i where i: "fitting_node (nodes s) sz is = Some i" "p = node_base (nodes s ! i)"
      "s' = set_node i ((nodes s ! i)\<lparr>node_base := node_base (nodes s ! i) + sz,
         node_size := node_size (nodes s ! i) - sz\<rparr>) s"
    by (auto simp: get_virtual_pages_def rbind_eq_Inr_iff list_ok_walk [OF ok] Let_def split: option.splits)
  have mem: "i \<in> set is" and le: "sz \<le> node_size (nodes s ! i)" using fitting_node_Some [OF i(1)] by auto
  note split = area_split [OF le, of p]
  note fs = free_of_split [OF ok mem, unfolded node_area_def, folded i(2)]
  have off: "area (p + sz) (node_size (nodes s ! i) - sz) \<inter> ?rest i = {}" using fs(2) split(1) by auto
  then have new: "list_ok s' is" "free_area s' = area (p + sz) (node_size (nodes s ! i) - sz) \<union> ?rest i"
    using list_ok_set_node [OF ok mem, of "(nodes s ! i)\<lparr>node_base := node_base (nodes s ! i) + sz,
         node_size := node_size (nodes s ! i) - sz\<rparr>"] i(2,3) by auto
  then show "vma_inv s'" by (auto simp: vma_inv_def)
  show "area p sz \<subseteq> free_area s" using fs(1) split(1) by auto
  show "free_area s' = free_area s - area p sz" unfolding new(2) fs(1) using split fs(2) by auto
qed

subsection \<open>Adding an area\<close>

lemma merge_scan_cases:
  assumes "merge_scan ns b sz is e = r"
  shows "(\<exists>i n. r = Inl (i, n) \<and> i \<in> set is \<and> node_next n = node_next (ns ! i) \<and>
      area (node_base n) (node_size n) \<subseteq> area b sz \<union> node_area ns i) \<or>
    (\<exists>e'. r = Inr e' \<and> (\<forall>i. e' = Some i \<longrightarrow> e = Some i \<or> i \<in> set is \<and> node_size (ns ! i) = 0))"
  using assms
proof (induction "is" arbitrary: e)
  case Nil
  then show ?case by auto
next
  case (Cons i "is")
  let ?n = "ns ! i"
  have before: "area b (node_size ?n + sz) \<subseteq> area b sz \<union> node_area ns i" if "node_base ?n - 1 = b + sz - 1"
  proof -
    have "node_base ?n = b + sz" using that by simp
    then show ?thesis using area_append [of b sz "node_size ?n"] by (simp add: node_area_def add.commute)
  qed
  have after: "area (node_base ?n) (node_size ?n + sz) \<subseteq> area b sz \<union> node_area ns i"
    if "b - 1 = node_base ?n + node_size ?n - 1"
  proof -
    have "b = node_base ?n + node_size ?n" using that by simp
    then show ?thesis using area_append [of "node_base ?n" "node_size ?n" sz] by (auto simp: node_area_def)
  qed
  consider "e = None \<and> node_size ?n = 0" | "\<not> (e = None \<and> node_size ?n = 0)" "node_base ?n - 1 = b + sz - 1"
    | "\<not> (e = None \<and> node_size ?n = 0)" "node_base ?n - 1 \<noteq> b + sz - 1" "b - 1 = node_base ?n + node_size ?n - 1"
    | "\<not> (e = None \<and> node_size ?n = 0)" "node_base ?n - 1 \<noteq> b + sz - 1" "b - 1 \<noteq> node_base ?n + node_size ?n - 1"
    by blast
  then show ?case
  proof cases
    case 1
    then show ?thesis using Cons.IH [of "Some i"] Cons.prems by (auto simp: Let_def)
  next
    case 2
    then show ?thesis using Cons.prems before by (auto simp: Let_def)
  next
    case 3
    then show ?thesis using Cons.prems after by (auto simp: Let_def)
  next
    case 4
    then have "merge_scan ns b sz is e = r" using Cons.prems by (simp add: Let_def split: if_splits)
    from Cons.IH [OF this] show ?thesis by auto
  qed
qed

text \<open>Freeing the area just taken from the first node merges it back.\<close>

lemma take_give_first:
  assumes chain: "is_chain (nodes s) (Some 0) (0 # is)" and head: "virtual_free_list s \<noteq> 0"
    and sz: "sz \<noteq> 0" "sz mod PAGE_SIZE = 0" "sz < node_size (nodes s ! 0)" and base: "node_base (nodes s ! 0) \<noteq> 0"
  shows "\<exists>s'. get_virtual_pages sz s = Inr (node_base (nodes s ! 0), s') \<and>
    free_virtual_pages (node_base (nodes s ! 0)) sz s' = Inr s"
proof (intro exI conjI)
  let ?n = "nodes s ! 0"
  let ?n' = "?n\<lparr>node_base := node_base ?n + sz, node_size := node_size ?n - sz\<rparr>"
  let ?s' = "set_node 0 ?n' s"
  have len: "0 < length (nodes s)" using is_chain_range [OF chain, of 0] by simp
  have walk: "walk_list s = Inr (0 # is)" using chain_is_chain [OF chain] head by (simp add: walk_list_def list_head_def)
  show "get_virtual_pages sz s = Inr (node_base ?n, ?s')"
    using sz less_imp_le [OF sz(3)] by (simp add: get_virtual_pages_def walk Let_def)
  have "is_chain (nodes ?s') (Some 0) (0 # is)"
    unfolding set_node_def using chain by (simp add: is_chain_update del: is_chain.simps)
  then have walk': "walk_list ?s' = Inr (0 # is)"
    using chain_is_chain head by (simp add: walk_list_def list_head_def set_node_def del: is_chain.simps)
  have n': "nodes ?s' ! 0 = ?n'" using len by (simp add: set_node_def)
  have "node_size ?n - sz \<noteq> 0" using sz(3) by auto
  then have "merge_scan (nodes ?s') (node_base ?n) sz (0 # is) None = Inl (0, ?n)"
    by (simp add: n' Let_def)
  moreover have "set_node 0 ?n ?s' = s" by (simp add: set_node_def)
  ultimately show "free_virtual_pages (node_base ?n) sz ?s' = Inr s"
    using sz(1) base by (simp add: free_virtual_pages_def add_node_to_free_list_def walk' del: merge_scan.simps)
qed

lemma sorted_last_max: "sorted_wrt (<) (xs :: nat list) \<Longrightarrow> x \<in> set xs \<Longrightarrow> x \<le> last xs"
  by (induction xs) (auto simp: less_imp_le)

lemma free_of_mono: "set xs \<subseteq> set ys \<Longrightarrow> free_of ns xs \<subseteq> free_of ns ys"
  by (auto simp: free_of_def)

lemma add_merge:
  assumes ok: "list_ok s is" and off: "area b sz \<inter> free_area s = {}"
    and run: "merge_scan (nodes s) b sz is None = Inl (i, n)"
  shows "list_ok (set_node i n s) is" "free_area (set_node i n s) \<subseteq> free_area s \<union> area b sz"
proof -
  have m: "i \<in> set is" "node_next n = node_next (nodes s ! i)"
      "area (node_base n) (node_size n) \<subseteq> area b sz \<union> node_area (nodes s) i"
    using merge_scan_cases [OF run] by auto
  note fs = free_of_split [OF ok m(1)]
  have "area (node_base n) (node_size n) \<inter> free_of (nodes s) (filter (\<lambda>j. j \<noteq> i) is) = {}"
    using m(3) fs off by blast
  from list_ok_set_node [OF ok m(1,2) this] show "list_ok (set_node i n s) is"
    "free_area (set_node i n s) \<subseteq> free_area s \<union> area b sz"
    using m(3) fs(1) by auto
qed

text \<open>Re-using an empty node ends the list there.\<close>

lemma add_reuse:
  assumes ok: "list_ok s (xs @ i # ys)" and off: "area b sz \<inter> free_area s = {}"
  shows "list_ok (set_node i \<lparr>node_base = b, node_size = sz, node_next = None\<rparr> s) (xs @ [i])"
    "free_area (set_node i \<lparr>node_base = b, node_size = sz, node_next = None\<rparr> s) =
       free_of (nodes s) xs \<union> area b sz"
proof -
  let ?n = "\<lparr>node_base = b, node_size = sz, node_next = None\<rparr>" and ?ns = "nodes s"
  have dist: "distinct (xs @ i # ys)" by (rule list_ok_distinct [OF ok])
  have len: "i < length ?ns" using ok is_chain_range by (auto simp: list_ok_def)
  have na: "node_area (?ns[i := ?n]) j = (if j = i then area b sz else node_area ?ns j)" for j
    using len by (simp add: node_area_def)
  have chain: "is_chain (?ns[i := ?n]) (Some 0) (xs @ [i])"
    using ok dist by (intro is_chain_cut [of _ _ xs i ys]) (auto simp: list_ok_def)
  have "i \<le> last (xs @ i # ys)" using ok sorted_last_max [of "xs @ i # ys" i] by (auto simp: list_ok_def)
  then have lst: "i \<le> free_list_size s" using ok by (auto simp: list_ok_def)
  have srt: "sorted_wrt (<) (xs @ [i])" using ok by (auto simp: list_ok_def sorted_wrt_append)
  have offn: "area b sz \<inter> node_area ?ns j = {}" if "j \<in> set xs" for j
    using off that list_ok_free [OF ok] by (auto simp: free_of_def)
  have disj: "node_area ?ns j \<inter> node_area ?ns k = {}" if "j \<in> set xs" "k \<in> set xs" "j \<noteq> k" for j k
    using ok that by (auto simp: list_ok_def)
  have "node_area (?ns[i := ?n]) j \<inter> node_area (?ns[i := ?n]) k = {}"
    if "j \<in> set (xs @ [i])" "k \<in> set (xs @ [i])" "j \<noteq> k" for j k
    unfolding na using that disj [of j k] offn [of j] offn [of k] by auto
  then show ok': "list_ok (set_node i ?n s) (xs @ [i])"
    using ok chain lst srt by (simp add: list_ok_def set_node_def)
  show "free_area (set_node i ?n s) = free_of ?ns xs \<union> area b sz"
    using list_ok_free [OF ok'] dist by (auto simp: free_of_def set_node_def na)
qed

lemma add_append:
  assumes ok: "list_ok s is" and off: "area b sz \<inter> free_area s = {}"
    and room: "free_list_size s + 1 \<noteq> max_free_list_size s"
  defines "s' \<equiv> set_node (last is + 1) \<lparr>node_base = b, node_size = sz, node_next = None\<rparr>
      ((set_node (last is) ((nodes s ! last is)\<lparr>node_next := Some (last is + 1)\<rparr>) s)
        \<lparr>free_list_size := free_list_size s + 1\<rparr>)"
  shows "last is + 1 < length (nodes s)" "list_ok s' (is @ [last is + 1])"
    "free_area s' = free_area s \<union> area b sz"
proof -
  let ?l = "last is" and ?ns = "nodes s"
  let ?n = "\<lparr>node_base = b, node_size = sz, node_next = None\<rparr>"
  obtain xs where xs: "is = xs @ [?l]" using ok by (metis append_butlast_last_id list_ok_def)
  have dist: "distinct is" by (rule list_ok_distinct [OF ok])
  show len: "?l + 1 < length ?ns" using ok room by (auto simp: list_ok_def)
  have new: "?l + 1 \<notin> set is" using ok sorted_last_max [of "is" "?l + 1"] by (auto simp: list_ok_def)
  have ns': "nodes s' = ?ns[?l := (?ns ! ?l)\<lparr>node_next := Some (?l + 1)\<rparr>, ?l + 1 := ?n]"
    by (simp add: s'_def set_node_def)
  have na: "node_area (nodes s') j = (if j = ?l + 1 then area b sz else node_area ?ns j)" for j
    using len by (auto simp: ns' node_area_def nth_list_update)
  have "is_chain (nodes s') (Some 0) (xs @ [?l, ?l + 1])"
    unfolding ns' using ok xs dist new len
    by (intro is_chain_extend) (auto simp: list_ok_def)
  then have chain: "is_chain (nodes s') (Some 0) (is @ [?l + 1])" using xs by (metis append.assoc append_Cons append_Nil)
  have srt: "sorted_wrt (<) (is @ [?l + 1])"
    using ok sorted_last_max [of "is"] by (auto simp: list_ok_def sorted_wrt_append le_imp_less_Suc)
  have offn: "area b sz \<inter> node_area ?ns j = {}" if "j \<in> set is" for j
    using off that list_ok_free [OF ok] by (auto simp: free_of_def)
  have disj: "node_area ?ns j \<inter> node_area ?ns k = {}" if "j \<in> set is" "k \<in> set is" "j \<noteq> k" for j k
    using ok that by (auto simp: list_ok_def)
  have sep: "node_area (nodes s') j \<inter> node_area (nodes s') k = {}"
    if "j \<in> set (is @ [?l + 1])" "k \<in> set (is @ [?l + 1])" "j \<noteq> k" for j k
    unfolding na using that disj [of j k] offn [of j] offn [of k] by auto
  have fields: "virtual_free_list s' = virtual_free_list s" "free_list_size s' = free_list_size s + 1"
      "max_free_list_size s' = max_free_list_size s" "length (nodes s') = length ?ns"
    by (simp_all add: s'_def set_node_def)
  show ok': "list_ok s' (is @ [?l + 1])"
    using ok chain srt sep room by (simp add: list_ok_def fields)
  show "free_area s' = free_area s \<union> area b sz"
    using list_ok_free [OF ok'] list_ok_free [OF ok] new by (auto simp: free_of_def na)
qed

lemma add_node_effect:
  assumes inv: "vma_inv s" and off: "area b sz \<inter> free_area s = {}"
  shows "(\<exists>s'. add_node_to_free_list b sz s = Inr s' \<and> vma_inv s' \<and> free_area s' \<subseteq> free_area s \<union> area b sz) \<or>
    add_node_to_free_list b sz s = Inl (Assert_failed ''No more free nodes!'')"
proof -
  obtain "is" where ok: "list_ok s is" using inv by (auto simp: vma_inv_def)
  note walk = list_ok_walk [OF ok]
  have ne: "is \<noteq> []" using ok by (simp add: list_ok_def)
  consider (merge) i n where "merge_scan (nodes s) b sz is None = Inl (i, n)"
    | (reuse) i where "merge_scan (nodes s) b sz is None = Inr (Some i)"
    | (append) "merge_scan (nodes s) b sz is None = Inr None"
    by (metis old.sum.exhaust option.exhaust surj_pair)
  then show ?thesis
  proof cases
    case merge
    then have "add_node_to_free_list b sz s = Inr (set_node i n s)"
      by (simp add: add_node_to_free_list_def walk)
    then show ?thesis using add_merge [OF ok off merge] by (auto simp: vma_inv_def)
  next
    case reuse
    then have "i \<in> set is" using merge_scan_cases [OF reuse] by auto
    then obtain xs ys where xs: "is = xs @ i # ys" by (meson split_list)
    have "free_of (nodes s) xs \<subseteq> free_area s"
      unfolding list_ok_free [OF ok] using xs by (intro free_of_mono) auto
    moreover have "add_node_to_free_list b sz s =
        Inr (set_node i \<lparr>node_base = b, node_size = sz, node_next = None\<rparr> s)"
      using reuse by (simp add: add_node_to_free_list_def walk)
    ultimately show ?thesis using add_reuse [OF ok [unfolded xs] off] by (auto simp: vma_inv_def)
  next
    case append
    show ?thesis
    proof (cases "free_list_size s + 1 = max_free_list_size s")
      case True
      then show ?thesis using append ne
        by (simp add: add_node_to_free_list_def walk Let_def set_node_def)
    next
      case False
      note a = add_append [OF ok off False]
      have "add_node_to_free_list b sz s = Inr (set_node (last is + 1) \<lparr>node_base = b, node_size = sz, node_next = None\<rparr>
          ((set_node (last is) ((nodes s ! last is)\<lparr>node_next := Some (last is + 1)\<rparr>) s)
            \<lparr>free_list_size := free_list_size s + 1\<rparr>))"
        using append ne a(1) False by (simp add: add_node_to_free_list_def walk Let_def set_node_def)
      then show ?thesis using a(2,3) by (auto simp: vma_inv_def)
    qed
  qed
qed

lemma add_node_list_address:
  assumes "add_node_to_free_list b sz t = Inr t'"
  shows "virtual_free_list t' = virtual_free_list t"
proof -
  obtain "is" where w: "walk_list t = Inr is"
    using assms by (auto simp: add_node_to_free_list_def rbind_eq_Inr_iff)
  consider (merge) i n where "merge_scan (nodes t) b sz is None = Inl (i, n)"
    | (reuse) i where "merge_scan (nodes t) b sz is None = Inr (Some i)"
    | (append) "merge_scan (nodes t) b sz is None = Inr None"
    by (metis old.sum.exhaust option.exhaust surj_pair)
  then show ?thesis
    using assms w by cases
      (auto simp: add_node_to_free_list_def set_node_def Let_def rbind_eq_Inr_iff split: if_splits)
qed

subsection \<open>Removing an area\<close>

text \<open>A node with a proper area: not empty and not past the top of the address space.\<close>

definition proper_node :: "free_node \<Rightarrow> bool" where
  "proper_node n \<longleftrightarrow> node_size n \<noteq> 0 \<and> unat (node_base n) + unat (node_size n) \<le> 2 ^ 64"

lemma containing_node_Some:
  "containing_node ns b sz is = Some i \<Longrightarrow> i \<in> set is \<and> node_base (ns ! i) \<le> b \<and>
     b + sz - 1 \<le> node_base (ns ! i) + node_size (ns ! i) - 1"
  by (induction "is") (auto simp: Let_def split: if_splits)

lemma unat_last_byte:
  fixes b sz :: u64
  assumes "sz \<noteq> 0" "unat b + unat sz \<le> 2 ^ 64"
  shows "unat (b + sz - 1) = unat b + unat sz - 1"
proof -
  have pos: "0 < unat sz" using assms(1) by (simp add: unat_gt_0)
  then have one: "unat (sz - 1) = unat sz - 1" by (subst unat_sub) (simp_all add: word_le_nat_alt)
  then have "unat (b + (sz - 1)) = unat b + (unat sz - 1)" using assms(2) pos by (subst unat_add_u64) simp_all
  then show ?thesis using pos by (simp only: add_diff_eq)
qed

lemma area_inside:
  assumes n: "ns \<noteq> 0" "unat nb + unat ns \<le> 2 ^ 64" and a: "sz \<noteq> 0" "unat b + unat sz \<le> 2 ^ 64"
    and c: "nb \<le> b" "b + sz - 1 \<le> nb + ns - 1"
  shows "area nb ns = area nb (b - nb) \<union> (area b sz \<union> area (b + sz) (nb + ns - (b + sz)))"
    "area nb (b - nb) \<inter> (area b sz \<union> area (b + sz) (nb + ns - (b + sz))) = {}"
    "area b sz \<inter> area (b + sz) (nb + ns - (b + sz)) = {}"
proof -
  have le: "unat b + unat sz \<le> unat nb + unat ns"
  proof -
    have "0 < unat sz" "0 < unat ns" using a(1) n(1) by (simp_all add: unat_gt_0)
    moreover have "unat b + unat sz - 1 \<le> unat nb + unat ns - 1"
      using c(2) unfolding word_le_nat_alt unat_last_byte [OF n] unat_last_byte [OF a] .
    ultimately show ?thesis by linarith
  qed
  have f: "unat (b - nb) = unat b - unat nb" using c(1) by (rule unat_sub)
  have nbb: "unat nb \<le> unat b" using c(1) by (simp add: word_le_nat_alt)
  have f1: "b - nb \<le> ns" using le f nbb by (simp add: word_le_nat_alt)
  then have r: "unat (ns - (b - nb)) = unat ns - (unat b - unat nb)" using f by (simp add: unat_sub)
  have f2: "sz \<le> ns - (b - nb)" using le r nbb by (simp add: word_le_nat_alt)
  have eq: "nb + (b - nb) = b" "ns - (b - nb) - sz = nb + ns - (b + sz)" by simp_all
  note s1 = area_split [OF f1, of nb, unfolded eq(1)]
  note s2 = area_split [OF f2, of b, unfolded eq(2)]
  show "area nb ns = area nb (b - nb) \<union> (area b sz \<union> area (b + sz) (nb + ns - (b + sz)))"
    "area nb (b - nb) \<inter> (area b sz \<union> area (b + sz) (nb + ns - (b + sz))) = {}"
    using s1 unfolding s2(1) by auto
  show "area b sz \<inter> area (b + sz) (nb + ns - (b + sz)) = {}" by (rule s2(2))
qed

lemma remove_effect:
  assumes ok: "list_ok s is" and proper: "\<forall>i \<in> set is. proper_node (nodes s ! i)"
    and sz: "align_to size0 PAGE_SIZE = sz" "sz \<noteq> 0" "unat b + unat sz \<le> 2 ^ 64"
    and run: "remove_from_free_list b size0 s = Inr s'"
  shows "vma_inv s' \<and> area b sz \<subseteq> free_area s \<and> free_area s' \<subseteq> free_area s - area b sz"
proof -
  from run obtain i where i: "containing_node (nodes s) b sz is = Some i"
      and add: "add_node_to_free_list (b + sz - 1 + 1)
        (node_base (nodes s ! i) + node_size (nodes s ! i) - 1 - (b + sz - 1))
        (set_node i ((nodes s ! i)\<lparr>node_size := b - node_base (nodes s ! i)\<rparr>) s) = Inr s'"
    by (auto simp: remove_from_free_list_def list_ok_walk [OF ok] rbind_eq_Inr_iff Let_def sz(1) split: option.splits)
  let ?nb = "node_base (nodes s ! i)" and ?ns = "node_size (nodes s ! i)"
  let ?rest = "free_of (nodes s) (filter (\<lambda>j. j \<noteq> i) is)"
  have mem: "i \<in> set is" "?nb \<le> b" "b + sz - 1 \<le> ?nb + ?ns - 1" using containing_node_Some [OF i] by auto
  have pn: "?ns \<noteq> 0" "unat ?nb + unat ?ns \<le> 2 ^ 64" using proper mem(1) by (auto simp: proper_node_def)
  note parts = area_inside [OF pn sz(2,3) mem(2,3)]
  note fs = free_of_split [OF ok mem(1), unfolded node_area_def]
  define s1 where "s1 = set_node i ((nodes s ! i)\<lparr>node_size := b - ?nb\<rparr>) s"
  have "area ?nb (b - ?nb) \<inter> ?rest = {}" using fs(2) parts(1) by blast
  then have s1: "list_ok s1 is" "free_area s1 = area ?nb (b - ?nb) \<union> ?rest"
    using list_ok_set_node [OF ok mem(1), of "(nodes s ! i)\<lparr>node_size := b - ?nb\<rparr>"] by (auto simp: s1_def)
  have eq: "b + sz - 1 + 1 = b + sz" "?nb + ?ns - 1 - (b + sz - 1) = ?nb + ?ns - (b + sz)" by simp_all
  have run': "add_node_to_free_list (b + sz) (?nb + ?ns - (b + sz)) s1 = Inr s'"
    using add unfolding eq s1_def by simp
  have off: "area (b + sz) (?nb + ?ns - (b + sz)) \<inter> free_area s1 = {}"
    unfolding s1(2) using fs(2) parts by blast
  have "vma_inv s1" using s1(1) by (auto simp: vma_inv_def)
  from add_node_effect [OF this off] run' have "vma_inv s'"
      "free_area s' \<subseteq> free_area s1 \<union> area (b + sz) (?nb + ?ns - (b + sz))" by auto
  moreover have "free_area s1 \<union> area (b + sz) (?nb + ?ns - (b + sz)) \<subseteq> free_area s - area b sz"
    unfolding s1(2) fs(1) using parts fs(2) by blast
  moreover have "area b sz \<subseteq> free_area s" using parts(1) fs(1) by blast
  ultimately show ?thesis by blast
qed

subsection \<open>Initialisation\<close>

text \<open>The list after \<^verbatim>\<open>init\<close> has marked its three ranges free.\<close>

definition initial_nodes :: "free_node list \<Rightarrow> free_node list" where
  "initial_nodes ns = ns[0 := \<lparr>node_base = 0x200000, node_size = 0x3FFFFE00000, node_next = Some 1\<rparr>,
     1 := \<lparr>node_base = 0xFFFFFC0000000000, node_size = 0x3FF80100000, node_next = Some 2\<rparr>,
     2 := \<lparr>node_base = 0xFFFFFFFF80200000, node_size = 0x7FE00000, node_next = None\<rparr>]"

lemma initial_marks:
  assumes "length (nodes s) = NODES_PER_PAGE" "free_list_size s = 0" "virtual_free_list s \<noteq> 0"
    "max_free_list_size s = NODES_PER_PAGE" "nodes s ! 0 = \<lparr>node_base = 0, node_size = 0, node_next = None\<rparr>"
  shows "rbind (mark_free_range 0x200000 MAX_POSITIVE_VIRTUAL_ADDR s) (\<lambda>s1.
      rbind (mark_free_range MIN_NEGATIVE_VIRTUAL_ADDR (KERNEL_VMA_START - 1) s1) (\<lambda>s2.
      mark_free_range KERNEL_VMA_END MAX_NEGATIVE_VIRTUAL_ADDR s2)) =
    Inr (s\<lparr>nodes := initial_nodes (nodes s), free_list_size := 2\<rparr>)"
proof -
  have len: "2 < length (nodes s)" "0 < length (nodes s)" "1 < length (nodes s)" "Suc 0 < length (nodes s)"
      "nodes s \<noteq> []" using assms(1) by (auto simp: NODES_PER_PAGE_def)
  have k: "MAX_POSITIVE_VIRTUAL_ADDR = 0x3FFFFFFFFFF" "MIN_NEGATIVE_VIRTUAL_ADDR = 0xFFFFFC0000000000"
      "KERNEL_VMA_START = 0xFFFFFFFF80100000" "KERNEL_VMA_END = 0xFFFFFFFF80200000"
      "MAX_NEGATIVE_VIRTUAL_ADDR = 0xFFFFFFFFFFFFFFFF"
    by (simp_all add: MAX_POSITIVE_VIRTUAL_ADDR_def MIN_NEGATIVE_VIRTUAL_ADDR_def ACTIVE_BITS_IN_VIRTUAL_ADDR_def
      KERNEL_VMA_START_def KERNEL_VMA_END_def KERNEL_LMA_START_def KERNEL_VMA_OFFSET_def KERNEL_SIZE_def PAGE_SIZE_def
      MAX_NEGATIVE_VIRTUAL_ADDR_def)
  let ?n0 = "\<lparr>node_base = 0x200000, node_size = 0x3FFFFE00000, node_next = None\<rparr>"
  let ?n1 = "\<lparr>node_base = 0xFFFFFC0000000000, node_size = 0x3FF80100000, node_next = None\<rparr>"
  have m1: "mark_free_range 0x200000 MAX_POSITIVE_VIRTUAL_ADDR s = Inr (s\<lparr>nodes := (nodes s)[0 := ?n0]\<rparr>)"
    using assms len by (simp add: mark_free_range_def k add_node_to_free_list_def walk_list_def list_head_def
      chain.simps Let_def set_node_def)
  have m2: "mark_free_range MIN_NEGATIVE_VIRTUAL_ADDR (KERNEL_VMA_START - 1) (s\<lparr>nodes := (nodes s)[0 := ?n0]\<rparr>) =
      Inr (s\<lparr>nodes := (nodes s)[0 := ?n0\<lparr>node_next := Some 1\<rparr>, 1 := ?n1], free_list_size := 1\<rparr>)"
    using assms len by (simp add: mark_free_range_def k add_node_to_free_list_def walk_list_def list_head_def
      chain.simps Let_def set_node_def NODES_PER_PAGE_def)
  have m3: "mark_free_range KERNEL_VMA_END MAX_NEGATIVE_VIRTUAL_ADDR
      (s\<lparr>nodes := (nodes s)[0 := ?n0\<lparr>node_next := Some 1\<rparr>, 1 := ?n1], free_list_size := 1\<rparr>) =
      Inr (s\<lparr>nodes := initial_nodes (nodes s), free_list_size := 2\<rparr>)"
    using assms len by (simp add: mark_free_range_def k add_node_to_free_list_def walk_list_def list_head_def
      chain.simps Let_def set_node_def NODES_PER_PAGE_def initial_nodes_def numeral_2_eq_2 [symmetric])
  show ?thesis using m1 m2 m3 by simp
qed

text \<open>The addresses \<^verbatim>\<open>init\<close> makes free: two halves of 42 bits without the low two
  megabytes and the kernel image.\<close>

definition initial_free :: "u64 set" where
  "initial_free = area 0x200000 0x3FFFFE00000 \<union> area 0xFFFFFC0000000000 0x3FF80100000 \<union>
     area 0xFFFFFFFF80200000 0x7FE00000"

lemma area_disjoint_below:
  assumes "unat b + unat s \<le> unat b'" "unat b' + unat s' \<le> 2 ^ 64"
  shows "area b s \<inter> area b' s' = {}"
proof -
  have up: "unat (x - c) < unat d \<Longrightarrow> unat c + unat d \<le> 2 ^ 64 \<Longrightarrow> unat c \<le> unat x \<and> unat x < unat c + unat d"
    for x c d :: u64
  proof -
    assume lt: "unat (x - c) < unat d" and le: "unat c + unat d \<le> 2 ^ 64"
    have "unat ((x - c) + c) = unat (x - c) + unat c" using lt le by (intro unat_add_u64) simp
    then show ?thesis using lt by simp
  qed
  have "unat b + unat s \<le> 2 ^ 64" by (rule order_trans [OF assms(1)]) (simp add: less_imp_le)
  then show ?thesis
    using up [of _ b s] up [of _ b' s'] assms by (fastforce simp: area_def word_less_nat_alt)
qed

lemma initial_gaps:
  "area 0x200000 0x3FFFFE00000 \<inter> area 0xFFFFFC0000000000 0x3FF80100000 = {}"
  "area 0x200000 0x3FFFFE00000 \<inter> area 0xFFFFFFFF80200000 0x7FE00000 = {}"
  "area 0xFFFFFC0000000000 0x3FF80100000 \<inter> area 0xFFFFFFFF80200000 0x7FE00000 = {}"
  by (rule area_disjoint_below; simp)+

lemma initial_list_ok:
  assumes "length (nodes s) = NODES_PER_PAGE" "virtual_free_list s \<noteq> 0" "max_free_list_size s = NODES_PER_PAGE"
  shows "list_ok (s\<lparr>nodes := initial_nodes (nodes s), free_list_size := 2\<rparr>) [0, 1, 2]"
    "free_of (initial_nodes (nodes s)) [0, 1, 2] = initial_free"
    "\<forall>i \<in> set [0, 1, 2]. proper_node (initial_nodes (nodes s) ! i)"
proof -
  have len: "2 < length (nodes s)" "0 < length (nodes s)" "1 < length (nodes s)" "Suc 0 < length (nodes s)"
      "nodes s \<noteq> []" using assms(1) by (auto simp: NODES_PER_PAGE_def)
  have n: "initial_nodes (nodes s) ! 0 = \<lparr>node_base = 0x200000, node_size = 0x3FFFFE00000, node_next = Some 1\<rparr>"
      "initial_nodes (nodes s) ! 1 = \<lparr>node_base = 0xFFFFFC0000000000, node_size = 0x3FF80100000, node_next = Some 2\<rparr>"
      "initial_nodes (nodes s) ! 2 = \<lparr>node_base = 0xFFFFFFFF80200000, node_size = 0x7FE00000, node_next = None\<rparr>"
      "length (initial_nodes (nodes s)) = length (nodes s)"
    using len by (simp_all add: initial_nodes_def)
  have na: "node_area (initial_nodes (nodes s)) 0 = area 0x200000 0x3FFFFE00000"
      "node_area (initial_nodes (nodes s)) 1 = area 0xFFFFFC0000000000 0x3FF80100000"
      "node_area (initial_nodes (nodes s)) 2 = area 0xFFFFFFFF80200000 0x7FE00000"
    by (simp_all add: node_area_def n del: One_nat_def)
  have chain: "is_chain (initial_nodes (nodes s)) (Some 0) [0, 1, 2]"
    using len by (simp add: n del: One_nat_def)
  have dis: "node_area (initial_nodes (nodes s)) i \<inter> node_area (initial_nodes (nodes s)) j = {}"
    if "i \<in> set [0, 1, 2]" "j \<in> set [0, 1, 2]" "i \<noteq> j" for i j
    using that initial_gaps na by (auto simp del: One_nat_def)
  show "list_ok (s\<lparr>nodes := initial_nodes (nodes s), free_list_size := 2\<rparr>) [0, 1, 2]"
    unfolding list_ok_def using assms chain dis by (simp add: n(4) NODES_PER_PAGE_def del: One_nat_def is_chain.simps)
  show "free_of (initial_nodes (nodes s)) [0, 1, 2] = initial_free"
    by (simp add: free_of_def na initial_free_def Un_assoc del: One_nat_def)
  show "\<forall>i \<in> set [0, 1, 2]. proper_node (initial_nodes (nodes s) ! i)"
  proof -
    have "proper_node (initial_nodes (nodes s) ! 0)" "proper_node (initial_nodes (nodes s) ! 1)"
        "proper_node (initial_nodes (nodes s) ! 2)"
      unfolding n by (simp_all add: proper_node_def)
    then show ?thesis by simp
  qed
qed

subsection \<open>The contract of an address-space allocator\<close>

text \<open>
  What a client relies on: an area handed out was free and is free no longer; giving an
  area back never makes other addresses free.
\<close>

datatype area_op = Take u64 | Give nat

fun area_run :: "(u64 \<Rightarrow> 's \<Rightarrow> (u64 \<times> 's) res) \<Rightarrow> (u64 \<Rightarrow> u64 \<Rightarrow> 's \<Rightarrow> 's res) \<Rightarrow> area_op list \<Rightarrow>
    (u64 \<times> u64) list \<Rightarrow> 's \<Rightarrow> ((u64 \<times> u64) list \<times> 's) res" where
  "area_run get give [] held s = Inr (held, s)"
| "area_run get give (Take sz # ops) held s =
     rbind (get sz s) (\<lambda>(p, s'). area_run get give ops ((p, sz) # held) s')"
| "area_run get give (Give i # ops) held s =
     (if i < length held then rbind (give (fst (held ! i)) (snd (held ! i)) s) (\<lambda>s'.
        area_run get give ops (take i held @ drop (Suc i) held) s')
      else area_run get give ops held s)"

locale area_allocator =
  fixes inv :: "'s \<Rightarrow> bool"
    and avail :: "'s \<Rightarrow> u64 set"
    and take_area :: "u64 \<Rightarrow> 's \<Rightarrow> (u64 \<times> 's) res"
    and give_area :: "u64 \<Rightarrow> u64 \<Rightarrow> 's \<Rightarrow> 's res"
  assumes take_free: "inv s \<Longrightarrow> take_area sz s = Inr (p, s') \<Longrightarrow>
      inv s' \<and> area p sz \<subseteq> avail s \<and> avail s' = avail s - area p sz"
    and give_only: "inv s \<Longrightarrow> area p sz \<inter> avail s = {} \<Longrightarrow> give_area p sz s = Inr s' \<Longrightarrow>
      inv s' \<and> avail s' \<subseteq> avail s \<union> area p sz"
begin

text \<open>The areas a client holds are disjoint from each other and from the free addresses.\<close>

definition held_ok :: "(u64 \<times> u64) list \<Rightarrow> 's \<Rightarrow> bool" where
  "held_ok hs s \<longleftrightarrow> inv s \<and> (\<forall>(p, sz) \<in> set hs. area p sz \<inter> avail s = {}) \<and>
     sorted_wrt (\<lambda>(p, sz) (q, sz'). area p sz \<inter> area q sz' = {}) hs"

lemma take_held: "held_ok hs s \<Longrightarrow> take_area sz s = Inr (p, s') \<Longrightarrow> held_ok ((p, sz) # hs) s'"
  using take_free [of s sz p s'] by (fastforce simp: held_ok_def)

lemma give_held:
  assumes "held_ok ((p, sz) # hs) s" "give_area p sz s = Inr s'"
  shows "held_ok hs s'"
proof -
  have "inv s" "area p sz \<inter> avail s = {}" using assms(1) by (auto simp: held_ok_def)
  note g = give_only [OF this assms(2)]
  have "area q sz' \<inter> avail s' = {}" if "(q, sz') \<in> set hs" for q sz'
    using g assms(1) that unfolding held_ok_def by fastforce
  then show ?thesis using assms(1) g by (auto simp: held_ok_def)
qed

lemma give_held_at:
  assumes "held_ok (xs @ (p, sz) # ys) s" "give_area p sz s = Inr s'"
  shows "held_ok (xs @ ys) s'"
proof -
  have "held_ok ((p, sz) # xs @ ys) s"
    using assms(1) unfolding held_ok_def by (fastforce simp: sorted_wrt_append)
  then show ?thesis using give_held assms(2) by blast
qed

lemma area_run_held:
  "held_ok held s \<Longrightarrow> area_run take_area give_area ops held s = Inr (held', s') \<Longrightarrow> held_ok held' s'"
proof (induction ops arbitrary: held s)
  case Nil
  then show ?case by simp
next
  case (Cons oper ops)
  show ?case
  proof (cases oper)
    case (Take sz)
    with Cons.prems(2) obtain p s1 where "take_area sz s = Inr (p, s1)"
        "area_run take_area give_area ops ((p, sz) # held) s1 = Inr (held', s')"
      by (auto simp: rbind_eq_Inr_iff)
    then show ?thesis using Cons.IH take_held [OF Cons.prems(1)] by blast
  next
    case (Give i)
    show ?thesis
    proof (cases "i < length held")
      case False
      then show ?thesis using Cons Give by simp
    next
      case True
      with Cons.prems(2) Give obtain s1 where s1: "give_area (fst (held ! i)) (snd (held ! i)) s = Inr s1"
          "area_run take_area give_area ops (take i held @ drop (Suc i) held) s1 = Inr (held', s')"
        by (auto simp: rbind_eq_Inr_iff)
      have "held = take i held @ (fst (held ! i), snd (held ! i)) # drop (Suc i) held"
        using True by (simp add: id_take_nth_drop [symmetric])
      then have "held_ok (take i held @ (fst (held ! i), snd (held ! i)) # drop (Suc i) held) s"
        using Cons.prems(1) by simp
      from give_held_at [OF this s1(1)] show ?thesis using Cons.IH s1(2) by blast
    qed
  qed
qed

end

interpretation vma: area_allocator vma_inv free_area get_virtual_pages free_virtual_pages
proof
  fix s :: vma_state and sz p s' assume "vma_inv s" "get_virtual_pages sz s = Inr (p, s')"
  then show "vma_inv s' \<and> area p sz \<subseteq> free_area s \<and> free_area s' = free_area s - area p sz"
    using get_virtual_pages_area by blast
next
  fix s :: vma_state and p sz s'
  assume "vma_inv s" "area p sz \<inter> free_area s = {}" "free_virtual_pages p sz s = Inr s'"
  then show "vma_inv s' \<and> free_area s' \<subseteq> free_area s \<union> area p sz"
    using add_node_effect [of s p sz] by (auto simp: free_virtual_pages_def rbind_eq_Inr_iff)
qed

subsection \<open>Properties\<close>

text \<open>
  C16. Virtual areas handed out never overlap: in every run of
  \<^verbatim>\<open>get_virtual_pages\<close> and \<^verbatim>\<open>free_virtual_pages\<close> by clients that free only areas they
  hold, the areas held at the end are pairwise disjoint and disjoint from the free list.
\<close>

theorem vma_areas_disjoint:
  assumes "vma_inv s" "area_run get_virtual_pages free_virtual_pages ops [] s = Inr (held, s')"
  shows "vma_inv s' \<and> (\<forall>(p, sz) \<in> set held. area p sz \<inter> free_area s' = {}) \<and>
    sorted_wrt (\<lambda>(p, sz) (q, sz'). area p sz \<inter> area q sz' = {}) held"
proof -
  have "vma.held_ok [] s" using assms(1) by (simp add: vma.held_ok_def)
  from vma.area_run_held [OF this assms(2)] show ?thesis by (simp add: vma.held_ok_def)
qed

definition sample_vma :: vma_state where
  "sample_vma = \<lparr>virtual_free_list = 0x1000,
     nodes = [\<lparr>node_base = 0x200000, node_size = 0x3000, node_next = Some 1\<rparr>,
              \<lparr>node_base = 0x400000, node_size = 0x8000, node_next = None\<rparr>,
              \<lparr>node_base = 0, node_size = 0, node_next = None\<rparr>],
     free_list_size = 1, max_free_list_size = 3\<rparr>"

lemma sample_vma_ok: "list_ok sample_vma [0, 1]"
proof -
  have "area 0x200000 0x3000 \<inter> area 0x400000 0x8000 = {}" by (rule area_disjoint_below) simp_all
  then show ?thesis by (auto simp: list_ok_def sample_vma_def node_area_def)
qed

theorem vma_areas_disjoint_witness:
  "\<exists>held s'. area_run get_virtual_pages free_virtual_pages [Take 0x1000, Take 0x4000, Give 1] [] sample_vma = Inr (held, s') \<and>
     held = [(0x400000, 0x4000)] \<and> area 0x400000 0x4000 \<inter> free_area s' = {}"
proof -
  have inv: "vma_inv sample_vma" using sample_vma_ok by (auto simp: vma_inv_def)
  have "\<exists>s'. area_run get_virtual_pages free_virtual_pages [Take 0x1000, Take 0x4000, Give 1] [] sample_vma =
      Inr ([(0x400000, 0x4000)], s')"
    by (simp add: get_virtual_pages_def free_virtual_pages_def add_node_to_free_list_def walk_list_def
      list_head_def chain.simps sample_vma_def set_node_def PAGE_SIZE_def Let_def)
  then obtain s' where run: "area_run get_virtual_pages free_virtual_pages [Take 0x1000, Take 0x4000, Give 1] [] sample_vma =
      Inr ([(0x400000, 0x4000)], s')" by blast
  then show ?thesis using vma_areas_disjoint [OF inv run] by auto
qed

text \<open>
  \<^verbatim>\<open>get_virtual_pages\<close> is first fit: for a non-zero multiple of the page size it
  panics exactly when no node of the list is large enough, and otherwise returns the base of
  an area of the free list, which it removes and nothing else.
\<close>

theorem get_virtual_pages_first_fit:
  assumes "vma_inv s" "sz \<noteq> 0" "sz mod PAGE_SIZE = 0" "walk_list s = Inr is"
  shows "if \<forall>i \<in> set is. node_size (nodes s ! i) < sz
    then get_virtual_pages sz s = Inl (Panicked ''Allocation failed, out of virtual pages!'')
    else \<exists>p s'. get_virtual_pages sz s = Inr (p, s') \<and> vma_inv s' \<and> area p sz \<subseteq> free_area s \<and>
      free_area s' = free_area s - area p sz"
proof (cases "fitting_node (nodes s) sz is")
  case None
  then show ?thesis using assms fitting_node_None [of "nodes s" sz "is"] by (simp add: get_virtual_pages_def)
next
  case (Some i)
  then obtain p s' where run: "get_virtual_pages sz s = Inr (p, s')"
    using assms by (simp add: get_virtual_pages_def Let_def)
  have "\<not> (\<forall>i \<in> set is. node_size (nodes s ! i) < sz)"
    using Some fitting_node_None [of "nodes s" sz "is"] by auto
  then show ?thesis using run get_virtual_pages_area [OF assms(1) run] by auto
qed

theorem get_virtual_pages_first_fit_witness:
  "\<exists>p s'. get_virtual_pages 0x4000 sample_vma = Inr (p, s') \<and> area p 0x4000 \<subseteq> free_area sample_vma"
proof -
  have "vma_inv sample_vma" "walk_list sample_vma = Inr [0, 1]"
    using sample_vma_ok list_ok_walk by (auto simp: vma_inv_def)
  then have "if \<forall>i \<in> set [0, 1]. node_size (nodes sample_vma ! i) < 0x4000
    then get_virtual_pages 0x4000 sample_vma = Inl (Panicked ''Allocation failed, out of virtual pages!'')
    else \<exists>p s'. get_virtual_pages 0x4000 sample_vma = Inr (p, s') \<and> vma_inv s' \<and> area p 0x4000 \<subseteq> free_area sample_vma \<and>
      free_area s' = free_area sample_vma - area p 0x4000"
    by (intro get_virtual_pages_first_fit) (simp_all add: PAGE_SIZE_def)
  moreover have "\<not> (\<forall>i \<in> set [0, 1]. node_size (nodes sample_vma ! i) < 0x4000)"
    by (simp add: sample_vma_def)
  ultimately show ?thesis by auto
qed

text \<open>
  Giving an area back that merges with no node while the list has an empty node loses
  the rest of the list: the first empty node is re-used with a null \<^verbatim>\<open>next\<close>, so the nodes
  after it are no longer reachable.
\<close>

theorem reuse_drops_tail:
  assumes "list_ok s (xs @ i # ys)" "merge_scan (nodes s) b sz (xs @ i # ys) None = Inr (Some i)"
    "area b sz \<inter> free_area s = {}" "b \<noteq> 0" "sz \<noteq> 0"
  shows "\<exists>s'. free_virtual_pages b sz s = Inr s' \<and> walk_list s' = Inr (xs @ [i]) \<and>
    free_area s' = free_of (nodes s) xs \<union> area b sz"
proof -
  have "free_virtual_pages b sz s = Inr (set_node i \<lparr>node_base = b, node_size = sz, node_next = None\<rparr> s)"
    using assms(2,4,5) by (simp add: free_virtual_pages_def add_node_to_free_list_def list_ok_walk [OF assms(1)])
  then show ?thesis
    using add_reuse [OF assms(1,3)] list_ok_walk by blast
qed

theorem reuse_drops_tail_witness:
  "\<exists>s'. free_virtual_pages 0x900000 0x1000
       (sample_vma\<lparr>nodes := (nodes sample_vma)[0 := \<lparr>node_base = 0x203000, node_size = 0, node_next = Some 1\<rparr>]\<rparr>) = Inr s' \<and>
     walk_list s' = Inr [0] \<and> free_area s' = area 0x900000 0x1000"
proof -
  let ?n = "\<lparr>node_base = 0x203000, node_size = 0, node_next = Some 1\<rparr>"
  let ?s = "sample_vma\<lparr>nodes := (nodes sample_vma)[0 := ?n]\<rparr>"
  have ok: "list_ok ?s [0, 1]" by (auto simp: list_ok_def sample_vma_def node_area_def)
  have "area 0x400000 0x8000 \<inter> area 0x900000 0x1000 = {}" by (rule area_disjoint_below) simp_all
  then have off: "area 0x900000 0x1000 \<inter> free_area ?s = {}"
    using list_ok_free [OF ok] by (auto simp: free_of_def node_area_def sample_vma_def)
  have "merge_scan (nodes ?s) 0x900000 0x1000 ([] @ 0 # [1]) None = Inr (Some 0)"
    by (simp add: sample_vma_def Let_def)
  then show ?thesis
    using reuse_drops_tail [of ?s "[]" 0 "[1]" "0x900000" "0x1000"] ok off by (simp add: free_of_def)
qed

text \<open>
  \<^verbatim>\<open>remove_from_free_list\<close> on a list of proper nodes takes the (page-rounded) area out:
  when it returns, the area was free, no address of it is free any more, and no other
  address has become free.
\<close>

theorem remove_from_free_list_excludes:
  assumes "list_ok s is" "\<forall>i \<in> set is. proper_node (nodes s ! i)" "size0 \<noteq> 0"
    "unat b + unat size0 + 4096 \<le> 2 ^ 64" "remove_from_free_list b size0 s = Inr s'"
  shows "vma_inv s' \<and> area b (align_to size0 PAGE_SIZE) \<subseteq> free_area s \<and>
    free_area s' \<subseteq> free_area s - area b (align_to size0 PAGE_SIZE)"
proof -
  have P: "unat PAGE_SIZE = 4096" "PAGE_SIZE \<noteq> 0" by (simp_all add: PAGE_SIZE_def)
  have le: "unat size0 + unat PAGE_SIZE \<le> 2 ^ 64" using assms(4) P by simp
  note al = align_to_bounds [OF P(2) le]
  have "align_to size0 PAGE_SIZE \<noteq> 0"
  proof
    assume "align_to size0 PAGE_SIZE = 0"
    then have "unat size0 = 0" using al(2) by simp
    then show False using assms(3) by (simp add: unat_eq_0)
  qed
  moreover have "unat b + unat (align_to size0 PAGE_SIZE) \<le> 2 ^ 64" using al(3) assms(4) P by simp
  ultimately show ?thesis using remove_effect [OF assms(1,2) refl _ _ assms(5)] by blast
qed

theorem remove_from_free_list_excludes_witness:
  "\<exists>s'. remove_from_free_list 0x401000 0x1000 sample_vma = Inr s' \<and> area 0x401000 0x1000 \<inter> free_area s' = {}"
proof -
  have proper: "\<forall>i \<in> set [0, 1]. proper_node (nodes sample_vma ! i)"
    by (simp add: proper_node_def sample_vma_def)
  have al: "align_to 0x1000 PAGE_SIZE = 0x1000" by (simp add: align_to_def PAGE_SIZE_def)
  have "\<exists>s'. remove_from_free_list 0x401000 0x1000 sample_vma = Inr s'"
    by (simp add: remove_from_free_list_def al walk_list_def list_head_def chain.simps sample_vma_def Let_def
      add_node_to_free_list_def set_node_def)
  then obtain s' where run: "remove_from_free_list 0x401000 0x1000 sample_vma = Inr s'" by blast
  then show ?thesis
    using remove_from_free_list_excludes [OF sample_vma_ok proper _ _ run] al by auto
qed

end
