(* ===== verification/Mutex.thy ===== *)
theory Mutex
  imports Prelude
begin

text \<open>
  The lock of src/kernel/mutex.h: the compare-and-swap mutex, its guard, the handle on
  data managed by a mutex, and the waiting loops. A loop that waits is a function of the values other
  tasks leave in the mutex while it yields. The interleaving of tasks that take and give
  back one mutex is the step relation \<open>lock_step\<close>.
\<close>

record mutex =
  locked :: bool

definition new_mutex :: mutex where
  "new_mutex = \<lparr>locked = False\<rparr>"

definition try_acquire :: "mutex \<Rightarrow> bool \<times> mutex" where
  "try_acquire m = (if \<not> locked m then (True, m\<lparr>locked := True\<rparr>) else (False, m))"

definition release :: "mutex \<Rightarrow> mutex" where
  "release m = m\<lparr>locked := False\<rparr>"

text \<open>\<open>seen\<close> lists the values of the mutex after each \<^verbatim>\<open>scheduler::yield()\<close>; the
  result is \<open>None\<close> while the loop has not ended.\<close>

fun acquire :: "mutex list \<Rightarrow> mutex \<Rightarrow> mutex option" where
  "acquire [] m = (case try_acquire m of (True, m') \<Rightarrow> Some m' | (False, m') \<Rightarrow> None)"
| "acquire (m'' # seen) m = (case try_acquire m of (True, m') \<Rightarrow> Some m' | (False, m') \<Rightarrow> acquire seen m'')"

subsection \<open>Guards\<close>

text \<open>A guard is the pointer it holds: the name of a mutex, or null.\<close>

type_synonym guard = "nat option"
type_synonym mutexes = "nat \<Rightarrow> mutex"

definition guard_acquire :: "mutex list \<Rightarrow> nat \<Rightarrow> mutexes \<Rightarrow> (guard \<times> mutexes) option" where
  "guard_acquire seen i ms = map_option (\<lambda>m. (Some i, ms(i := m))) (acquire seen (ms i))"

definition guard_adopt :: "nat \<Rightarrow> guard" where
  "guard_adopt i = Some i"

text \<open>\<^verbatim>\<open>guard()\<close> and \<^verbatim>\<open>mutex::lock\<close>, which returns a guard on the mutex.\<close>

definition guard_null :: guard where
  "guard_null = None"

definition mutex_lock :: "mutex list \<Rightarrow> nat \<Rightarrow> mutexes \<Rightarrow> (guard \<times> mutexes) option" where
  "mutex_lock seen i ms = guard_acquire seen i ms"

definition guard_release :: "guard \<Rightarrow> mutexes \<Rightarrow> guard \<times> mutexes" where
  "guard_release g ms = (None, case g of Some i \<Rightarrow> ms(i := release (ms i)) | None \<Rightarrow> ms)"

text \<open>The move assignment swaps the two pointers; the move constructor does so with a null
  pointer on the left.\<close>

definition guard_assign :: "guard \<Rightarrow> guard \<Rightarrow> guard \<times> guard" where
  "guard_assign this other = (other, this)"

definition guard_move :: "guard \<Rightarrow> guard \<times> guard" where
  "guard_move other = guard_assign guard_null other"

subsection \<open>Handles\<close>

text \<open>A handle pairs a guard with the pointer to the data, which is null in a handle that
  was moved from or released.\<close>

record handle =
  h_lock :: guard
  h_data :: "nat option"

definition empty_handle :: handle where
  "empty_handle = \<lparr>h_lock = guard_null, h_data = None\<rparr>"

definition handle_move :: "handle \<Rightarrow> handle \<times> handle" where
  "handle_move other = (let (l, ol) = guard_move (h_lock other) in
     (\<lparr>h_lock = l, h_data = h_data other\<rparr>, other\<lparr>h_lock := ol, h_data := None\<rparr>))"

definition handle_assign :: "handle \<Rightarrow> handle \<Rightarrow> handle \<times> handle" where
  "handle_assign this other = (let (l, ol) = guard_assign (h_lock this) (h_lock other) in
     (this\<lparr>h_lock := l, h_data := h_data other\<rparr>, other\<lparr>h_lock := ol, h_data := None\<rparr>))"

definition handle_release :: "handle \<Rightarrow> mutexes \<Rightarrow> handle \<times> mutexes" where
  "handle_release h ms = (let (l, ms') = guard_release (h_lock h) ms in (\<lparr>h_lock = l, h_data = None\<rparr>, ms'))"

definition handle_has_data :: "handle \<Rightarrow> bool" where
  "handle_has_data h \<longleftrightarrow> h_data h \<noteq> None"

text \<open>\<^verbatim>\<open>managed_by_mutex\<close> number \<open>i\<close> keeps its mutex and its data under that
  name.\<close>

type_synonym 'a managed = "mutexes \<times> (nat \<Rightarrow> 'a)"

definition managed_new :: "nat \<Rightarrow> 'a \<Rightarrow> 'a managed \<Rightarrow> 'a managed" where
  "managed_new i v s = ((fst s)(i := new_mutex), (snd s)(i := v))"

definition handle_deref :: "handle \<Rightarrow> (nat \<Rightarrow> 'a) \<Rightarrow> 'a res" where
  "handle_deref h vals = (case h_data h of Some i \<Rightarrow> Inr (vals i)
     | None \<Rightarrow> Inl (Undefined_behaviour ''null dereference''))"

definition handle_write :: "handle \<Rightarrow> 'a \<Rightarrow> (nat \<Rightarrow> 'a) \<Rightarrow> (nat \<Rightarrow> 'a) res" where
  "handle_write h v vals = (case h_data h of Some i \<Rightarrow> Inr (vals(i := v))
     | None \<Rightarrow> Inl (Undefined_behaviour ''null dereference''))"

definition managed_lock :: "mutex list \<Rightarrow> nat \<Rightarrow> mutexes \<Rightarrow> (handle \<times> mutexes) option" where
  "managed_lock seen i ms =
     map_option (\<lambda>(g, ms'). (\<lparr>h_lock = g, h_data = Some i\<rparr>, ms')) (guard_acquire seen i ms)"

definition managed_try_lock :: "nat \<Rightarrow> mutexes \<Rightarrow> handle option \<times> mutexes" where
  "managed_try_lock i ms = (let (got, m) = try_acquire (ms i) in
     (if got then Some \<lparr>h_lock = guard_adopt i, h_data = Some i\<rparr> else None, ms(i := m)))"

text \<open>\<open>others\<close> is what the other tasks do to the mutexes during one
  \<^verbatim>\<open>busy_sleep(1_us)\<close>; the loop makes at most \<^verbatim>\<open>us.val\<close> attempts.\<close>

fun try_lock_for :: "(mutexes \<Rightarrow> mutexes) \<Rightarrow> nat \<Rightarrow> nat \<Rightarrow> mutexes \<Rightarrow> handle option \<times> mutexes" where
  "try_lock_for others 0 i ms = (None, ms)"
| "try_lock_for others (Suc us) i ms = (case managed_try_lock i ms of
     (Some h, ms') \<Rightarrow> (Some h, ms')
   | (None, ms') \<Rightarrow> try_lock_for others us i (others ms'))"

subsection \<open>An optional handle\<close>

text \<open>\<^verbatim>\<open>optional_storage<mutex_handle<T>>\<close> is the handle itself, empty exactly when its
  data pointer is null. Its \<^verbatim>\<open>destroy\<close> releases the handle and its \<^verbatim>\<open>set_value\<close> is the move
  assignment of handles; the move assignment of \<^verbatim>\<open>optional\<close> destroys the target first.\<close>

definition storage_new :: handle where
  "storage_new = empty_handle"

definition storage_of :: "handle \<Rightarrow> handle \<times> handle" where
  "storage_of h = handle_move h"

definition storage_destroy :: "handle \<Rightarrow> mutexes \<Rightarrow> handle \<times> mutexes" where
  "storage_destroy st ms = handle_release st ms"

definition storage_set_value :: "handle \<Rightarrow> handle \<Rightarrow> handle \<times> handle" where
  "storage_set_value st h = handle_assign st h"

definition storage_get :: "handle \<Rightarrow> handle" where
  "storage_get st = st"

definition optional_handle_assign :: "handle \<Rightarrow> handle \<Rightarrow> mutexes \<Rightarrow> (handle \<times> handle) \<times> mutexes" where
  "optional_handle_assign this other ms = (let (st, ms') = storage_destroy this ms in
     (if handle_has_data other then storage_set_value st (storage_get other) else (st, other), ms'))"

subsection \<open>Tasks on one mutex\<close>

datatype lock_pc = Idle | Acquiring | Critical

inductive lock_step :: "mutex \<times> (nat \<Rightarrow> lock_pc) \<Rightarrow> mutex \<times> (nat \<Rightarrow> lock_pc) \<Rightarrow> bool" where
  enter: "pc t = Idle \<Longrightarrow> lock_step (m, pc) (m, pc(t := Acquiring))"
| succeed: "pc t = Acquiring \<Longrightarrow> try_acquire m = (True, m') \<Longrightarrow> lock_step (m, pc) (m', pc(t := Critical))"
| retry: "pc t = Acquiring \<Longrightarrow> try_acquire m = (False, m') \<Longrightarrow> lock_step (m, pc) (m', pc)"
| leave: "pc t = Critical \<Longrightarrow> lock_step (m, pc) (release m, pc(t := Idle))"

inductive lock_reach :: "mutex \<times> (nat \<Rightarrow> lock_pc) \<Rightarrow> bool" where
  start: "lock_reach (new_mutex, \<lambda>_. Idle)"
| step: "lock_reach s \<Longrightarrow> lock_step s s' \<Longrightarrow> lock_reach s'"

lemma lock_invariant:
  "lock_reach s \<Longrightarrow> (case s of (m, pc) \<Rightarrow>
     (if locked m then \<exists>t. \<forall>u. pc u = Critical \<longleftrightarrow> u = t else \<forall>u. pc u \<noteq> Critical))"
proof (induction rule: lock_reach.induct)
  case start
  then show ?case by (simp add: new_mutex_def)
next
  case (step s s')
  obtain m pc where s: "s = (m, pc)" by (cases s)
  note inv = step(3) [unfolded s prod.case]
  from step(2) [unfolded s] show ?case
  proof (cases rule: lock_step.cases)
    case (enter t)
    then have "(pc(t := Acquiring)) u = Critical \<longleftrightarrow> pc u = Critical" for u by simp
    then show ?thesis using inv enter by (simp only: prod.case simp_thms)
  next
    case succeed
    then show ?thesis using inv by (auto simp: try_acquire_def split: if_splits)
  next
    case retry
    then show ?thesis using inv by (auto simp: try_acquire_def split: if_splits)
  next
    case leave
    then show ?thesis using inv by (auto simp: release_def split: if_splits)
  qed
qed

text \<open>
  C17. The mutex excludes: whatever order tasks take their steps in, at most one task is
  between a successful \<^verbatim>\<open>try_acquire\<close> and its \<^verbatim>\<open>release\<close>; the flag is set
  exactly while one is, and a waiting task's next attempt succeeds exactly when none is.
\<close>

theorem mutex_excludes:
  assumes "lock_reach (m, pc)"
  shows "(pc t = Critical \<and> pc u = Critical \<longrightarrow> t = u) \<and>
    (locked m \<longleftrightarrow> (\<exists>t. pc t = Critical)) \<and> (fst (try_acquire m) \<longleftrightarrow> (\<forall>t. pc t \<noteq> Critical))"
  using lock_invariant [OF assms] by (auto simp: try_acquire_def split: if_splits)

theorem mutex_excludes_witness:
  "\<exists>m pc. lock_reach (m, pc) \<and> pc 1 = Critical \<and> pc 2 = Acquiring \<and> locked m"
proof -
  let ?pc = "((\<lambda>_. Idle)(1 := Acquiring, 2 := Acquiring, 1 := Critical)) :: nat \<Rightarrow> lock_pc"
  have "lock_reach (new_mutex, (\<lambda>_. Idle)(1 := Acquiring))"
    by (rule lock_reach.step [OF lock_reach.start lock_step.enter]) simp
  then have "lock_reach (new_mutex, (\<lambda>_. Idle)(1 := Acquiring, 2 := Acquiring))"
    by (rule lock_reach.step [OF _ lock_step.enter]) simp
  then have r: "lock_reach (new_mutex\<lparr>locked := True\<rparr>, ?pc)"
    by (rule lock_reach.step [OF _ lock_step.succeed]) (simp_all add: try_acquire_def new_mutex_def)
  have "locked (new_mutex\<lparr>locked := True\<rparr>)"
    using mutex_excludes [OF r, of 1 1] by auto
  then show ?thesis using r by fastforce
qed

subsection \<open>Guards and handles\<close>

lemma acquire_Some: "acquire seen m = Some m' \<Longrightarrow> locked m'"
  by (induction seen m rule: acquire.induct)
    (auto simp: try_acquire_def split: if_splits)

lemma acquire_free: "\<not> locked m \<Longrightarrow> acquire seen m = Some (m\<lparr>locked := True\<rparr>)"
  by (cases seen) (simp_all add: try_acquire_def)

text \<open>
  The waiting loop ends at the first moment the mutex is free.
\<close>

lemma acquire_ends: "acquire seen m \<noteq> None \<longleftrightarrow> (\<exists>m' \<in> set (m # seen). \<not> locked m')"
proof (induction seen arbitrary: m)
  case Nil
  then show ?case by (simp add: try_acquire_def)
next
  case (Cons m'' seen)
  show ?case using Cons [of m''] by (cases "locked m") (simp_all add: try_acquire_def)
qed

text \<open>A moved handle keeps the lock, and the one it was moved from releases nothing.\<close>

lemma handle_move_keeps:
  "handle_move h = (h', old) \<Longrightarrow> h_lock h' = h_lock h \<and> h_data h' = h_data h \<and>
     old = empty_handle \<and> snd (handle_release old ms) = ms"
  by (auto simp: handle_move_def guard_move_def guard_assign_def empty_handle_def handle_release_def
    guard_release_def guard_null_def)

text \<open>Moving one optional handle into another releases what the target held and nothing else; the
  source is empty afterwards and its destruction releases nothing.\<close>

definition handle_wf :: "handle \<Rightarrow> bool" where
  "handle_wf h \<longleftrightarrow> h_lock h = h_data h"

lemma optional_handle_assign_moves:
  assumes "handle_wf this" "handle_wf other"
  shows "optional_handle_assign this other ms = ((other, empty_handle), snd (handle_release this ms))"
    "snd (storage_destroy (snd (fst (optional_handle_assign this other ms))) ms') = ms'"
proof -
  have "h_data other = None \<Longrightarrow> other = empty_handle"
    using assms(2) by (simp add: handle_wf_def empty_handle_def guard_null_def)
  then show eq: "optional_handle_assign this other ms = ((other, empty_handle), snd (handle_release this ms))"
    by (auto simp: optional_handle_assign_def storage_destroy_def storage_set_value_def storage_get_def handle_release_def
      guard_release_def handle_assign_def guard_assign_def handle_has_data_def empty_handle_def guard_null_def)
  show "snd (storage_destroy (snd (fst (optional_handle_assign this other ms))) ms') = ms'"
    unfolding eq by (simp add: storage_destroy_def handle_release_def guard_release_def empty_handle_def guard_null_def)
qed

text \<open>What is written through a handle is read by the next holder, and another object is not touched.\<close>

lemma managed_read_back:
  assumes "managed_try_lock i (fst (managed_new i v s)) = (Some h, ms)" "handle_write h w (snd (managed_new i v s)) = Inr vals"
    "managed_try_lock i (snd (handle_release h ms)) = (Some h', ms')"
  shows "handle_deref h (snd (managed_new i v s)) = Inr v" "handle_deref h' vals = Inr w" "j \<noteq> i \<Longrightarrow> vals j = snd s j"
  using assms
  by (auto simp: managed_try_lock_def try_acquire_def managed_new_def new_mutex_def handle_write_def handle_deref_def
    guard_adopt_def split: if_splits)

lemma try_lock_for_Some:
  "try_lock_for others us i ms = (Some h, ms') \<Longrightarrow> locked (ms' i) \<and> h_lock h = Some i \<and> h_data h = Some i"
  by (induction others us i ms rule: try_lock_for.induct)
    (auto simp: managed_try_lock_def try_acquire_def guard_adopt_def split: if_splits prod.splits option.splits)

text \<open>
  A handle brackets the lock: a successful \<^verbatim>\<open>try_lock\<close> or
  \<^verbatim>\<open>try_lock_for\<close> returns a handle on the data with the mutex taken, releasing the
  handle frees exactly that mutex, and the handle is left empty, so destroying it again does
  nothing.
\<close>

theorem handle_brackets:
  assumes "try_lock_for others us i ms = (Some h, ms')"
  shows "handle_has_data h \<and> locked (ms' i) \<and>
    handle_release h ms' = (empty_handle, ms'(i := \<lparr>locked = False\<rparr>)) \<and>
    snd (handle_release empty_handle ms'') = ms''"
  using try_lock_for_Some [OF assms]
  by (auto simp: handle_has_data_def handle_release_def guard_release_def empty_handle_def release_def guard_null_def)

theorem handle_brackets_witness:
  "\<exists>h ms'. try_lock_for (\<lambda>ms. ms(3 := \<lparr>locked = False\<rparr>)) 2 3 (\<lambda>_. \<lparr>locked = True\<rparr>) = (Some h, ms') \<and>
     handle_release h ms' = (empty_handle, ms'(3 := \<lparr>locked = False\<rparr>))"
proof -
  obtain h ms' where "try_lock_for (\<lambda>ms. ms(3 := \<lparr>locked = False\<rparr>)) 2 3 (\<lambda>_. \<lparr>locked = True\<rparr>) = (Some h, ms')"
    by (simp add: numeral_2_eq_2 managed_try_lock_def try_acquire_def)
  then show ?thesis using handle_brackets by blast
qed

end
