(* ===== verification/Paging_Ranges.thy ===== *)
theory Paging_Ranges
  imports Paging_Ops
begin

text \<open>
  Operations that rewrite one level-1 entry (\<^verbatim>\<open>unmap_page\<close> and the loop bodies of
  \<^verbatim>\<open>enable_kernel_page_protection\<close>) share the contract \<open>entry_update\<close>; the loops over
  pages are proved once from it. \<^verbatim>\<open>map_range\<close> is followed page by page, with the
  iterator's carry from one table to the next.
\<close>

subsection \<open>Runs of pages\<close>

definition page_at :: "u64 \<Rightarrow> nat \<Rightarrow> u64" where
  "page_at va k = va + of_nat k * PAGE_SIZE"

definition page_paths :: "u64 \<Rightarrow> nat \<Rightarrow> nat list set" where
  "page_paths va n = (\<lambda>k. path_of (page_at va k)) ` {..<n}"

lemma page_at_0 [simp]: "page_at va 0 = va"
  by (simp add: page_at_def)

lemma page_at_Suc: "page_at (va + PAGE_SIZE) k = page_at va (Suc k)"
  by (simp add: page_at_def algebra_simps)

lemma aligned_page_at [simp]: "aligned va \<Longrightarrow> aligned (page_at va k)"
  unfolding page_at_def by (induction k) (auto simp: algebra_simps intro!: aligned_add)

lemma path_number_page_at: "path_number (path_of (page_at va k)) = (path_number (path_of va) + k) mod 2 ^ 36"
proof -
  have "unat (page_at va k) = (unat va + 4096 * k) mod 2 ^ 64"
    unfolding page_at_def PAGE_SIZE_def
    by (simp add: unat_word_ariths unat_of_nat mod_simps mult.commute)
  moreover have "(unat va + 4096 * k) mod 2 ^ 64 div 4096 = (unat va div 4096 + k) mod 2 ^ 52"
  proof -
    have "x mod (4096 * 2 ^ 52) div 4096 = x div 4096 mod 2 ^ 52" for x :: nat
      unfolding mod_mult2_eq by simp
    moreover have "(4096 * 2 ^ 52 :: nat) = 2 ^ 64" by simp
    moreover have "(unat va + 4096 * k) div 4096 = unat va div 4096 + k" by simp
    ultimately show ?thesis by metis
  qed
  moreover have "x mod 2 ^ 52 mod 2 ^ 36 = x mod (2 ^ 36 :: nat)" for x
    by (rule mod_mod_cancel) (simp add: le_imp_power_dvd)
  ultimately show ?thesis by (simp add: path_number_of mod_simps)
qed

lemma add_mod_inj:
  fixes i j m n :: nat
  assumes "(n + i) mod m = (n + j) mod m" "i < m" "j < m"
  shows "i = j"
proof -
  have le: "a = b" if "a \<le> b" "(n + b) mod m = (n + a) mod m" "b < m" for a b
  proof -
    have "m dvd (n + b) - (n + a)" using that mod_eq_dvd_iff_nat [of "n + a" "n + b" m] by simp
    moreover have "b - a < m" using that(3) by simp
    ultimately have "\<not> 0 < b - a" using nat_dvd_not_less [of "b - a" m] by auto
    then show ?thesis using that(1) by simp
  qed
  show ?thesis using le [of i j] le [of j i] assms by (cases "i \<le> j") auto
qed

lemma page_at_inj:
  assumes "n \<le> 2 ^ 36"
  shows "inj_on (\<lambda>k. path_of (page_at va k)) {..<n}"
proof (rule inj_onI)
  fix i j assume ij: "i \<in> {..<n}" "j \<in> {..<n}" "path_of (page_at va i) = path_of (page_at va j)"
  let ?N = "path_number (path_of va)"
  have eq: "(?N + i) mod 2 ^ 36 = (?N + j) mod 2 ^ 36" using ij(3) path_number_page_at by metis
  have lt: "i < 2 ^ 36" "j < 2 ^ 36" using ij assms by auto
  show "i = j" by (rule add_mod_inj [OF eq lt])
qed

lemma page_paths_0 [simp]: "page_paths va 0 = {}"
  by (simp add: page_paths_def)

lemma page_paths_Suc: "page_paths va (Suc n) = insert (path_of va) (page_paths (va + PAGE_SIZE) n)"
  by (auto simp: page_paths_def page_at_Suc lessThan_Suc_eq_insert_0 image_image)

lemma path_not_later:
  assumes "Suc n \<le> 2 ^ 36"
  shows "path_of va \<notin> page_paths (va + PAGE_SIZE) n"
proof
  assume "path_of va \<in> page_paths (va + PAGE_SIZE) n"
  then obtain k where "k < n" "path_of (page_at va 0) = path_of (page_at va (Suc k))"
    by (auto simp: page_paths_def page_at_Suc)
  then show False using inj_onD [OF page_at_inj [OF assms, of va], of 0 "Suc k"] by auto
qed

lemma page_paths_valid: "q \<in> page_paths va n \<Longrightarrow> valid_path q"
  by (auto simp: page_paths_def)

text \<open>A loop that compares for equality stops at a page-aligned end.\<close>

lemma pages_until_eq:
  assumes "n < 2 ^ 52"
  shows "pages_until f c (page_at c n) s = Some (for_pages f n c s)"
  using assms
proof (induction n arbitrary: c s)
  case 0
  then show ?case by (simp add: pages_until.simps)
next
  case (Suc n)
  have "unat (of_nat (Suc n) * PAGE_SIZE) = Suc n * 4096"
    using Suc.prems by (simp add: PAGE_SIZE_def unat_word_ariths unat_of_nat)
  then have "of_nat (Suc n) * PAGE_SIZE \<noteq> 0" by (metis mult_is_0 nat.distinct(1) unat_0 zero_neq_numeral)
  then have "c \<noteq> page_at c (Suc n)" by (simp add: page_at_def)
  then show ?case
    using Suc by (simp add: pages_until.simps [of f c] page_at_Suc [symmetric] rbind_def split: sum.split)
qed

subsection \<open>Operations that rewrite one entry\<close>

locale entry_update =
  fixes oper :: "u64 \<Rightarrow> paging_state \<Rightarrow> paging_state res"
    and accepts :: "u64 option \<Rightarrow> bool"
    and rewrite :: "u64 \<Rightarrow> u64"
  assumes succeeds: "pt_wf s \<Longrightarrow> aligned va \<Longrightarrow> accepts (pte s (path_of va)) \<Longrightarrow>
      \<exists>s'. oper va s = Inr s' \<and> pt_wf s' \<and> syms s' = syms s \<and> free_tables s' = free_tables s \<and> keeps_tables s s' \<and>
        (\<forall>q. valid_path q \<longrightarrow> pte s' q =
           (if q = path_of va then map_option rewrite (pte s q) else pte s q))"
    and fails: "pt_wf s \<Longrightarrow> aligned va \<Longrightarrow> \<not> accepts (pte s (path_of va)) \<Longrightarrow> \<exists>e. oper va s = Inl e"
begin

lemma for_pages_total:
  assumes "pt_wf s" "aligned va" "n \<le> 2 ^ 36" "\<forall>q \<in> page_paths va n. accepts (pte s q)"
  shows "\<exists>s'. for_pages oper n va s = Inr s' \<and> pt_wf s' \<and> syms s' = syms s \<and>
    free_tables s' = free_tables s \<and> keeps_tables s s' \<and>
    (\<forall>q. valid_path q \<longrightarrow> pte s' q =
       (if q \<in> page_paths va n then map_option rewrite (pte s q) else pte s q))"
  using assms
proof (induction n arbitrary: va s)
  case 0
  then show ?case by simp
next
  case (Suc n)
  obtain s1 where s1: "oper va s = Inr s1" "pt_wf s1" "syms s1 = syms s" "free_tables s1 = free_tables s" "keeps_tables s s1"
      "\<And>q. valid_path q \<Longrightarrow> pte s1 q = (if q = path_of va then map_option rewrite (pte s q) else pte s q)"
    using succeeds [OF Suc.prems(1,2)] Suc.prems(4) by (auto simp: page_paths_Suc)
  have new: "path_of va \<notin> page_paths (va + PAGE_SIZE) n" by (rule path_not_later [OF Suc.prems(3)])
  have "accepts (pte s1 q)" if "q \<in> page_paths (va + PAGE_SIZE) n" for q
    using that s1(6) [OF page_paths_valid [OF that]] new Suc.prems(4) by (auto simp: page_paths_Suc)
  moreover have "aligned (va + PAGE_SIZE)" using Suc.prems(2) by (simp add: aligned_add)
  ultimately obtain s' where "for_pages oper n (va + PAGE_SIZE) s1 = Inr s'" "pt_wf s'" "syms s' = syms s1"
      "free_tables s' = free_tables s1" "keeps_tables s1 s'"
      "\<And>q. valid_path q \<Longrightarrow> pte s' q =
         (if q \<in> page_paths (va + PAGE_SIZE) n then map_option rewrite (pte s1 q) else pte s1 q)"
    using Suc.IH [OF s1(2), of "va + PAGE_SIZE"] Suc.prems(3) by auto
  then show ?case using s1 new keeps_tables_trans [of s s1 s'] by (auto simp: page_paths_Suc)
qed

text \<open>A page the operation does not accept stops the loop.\<close>

lemma for_pages_fails:
  assumes "pt_wf s" "aligned va" "n \<le> 2 ^ 36" "q \<in> page_paths va n" "\<not> accepts (pte s q)"
  shows "\<exists>e. for_pages oper n va s = Inl e"
  using assms
proof (induction n arbitrary: va s)
  case 0
  then show ?case by simp
next
  case (Suc n)
  show ?case
  proof (cases "accepts (pte s (path_of va))")
    case False
    then show ?thesis using fails [OF Suc.prems(1,2)] by auto
  next
    case True
    obtain s1 where s1: "oper va s = Inr s1" "pt_wf s1"
        "\<And>q. valid_path q \<Longrightarrow> pte s1 q = (if q = path_of va then map_option rewrite (pte s q) else pte s q)"
      using succeeds [OF Suc.prems(1,2) True] by auto
    have q: "q \<in> page_paths (va + PAGE_SIZE) n" using Suc.prems(4,5) True by (auto simp: page_paths_Suc)
    then have "q \<noteq> path_of va" using path_not_later [OF Suc.prems(3)] by auto
    then have "\<not> accepts (pte s1 q)" using s1(3) page_paths_valid [OF q] Suc.prems(5) by simp
    moreover have "aligned (va + PAGE_SIZE)" using Suc.prems(2) by (simp add: aligned_add)
    ultimately show ?thesis using Suc.IH [OF s1(2) _ _ q] Suc.prems(3) s1(1) by auto
  qed
qed

lemma pages_until_Inr:
  assumes "pt_wf s" "aligned va" "n \<le> 2 ^ 36" "pages_until oper va (page_at va n) s = Some (Inr s')"
  shows "pt_wf s'" "syms s' = syms s" "free_tables s' = free_tables s" "keeps_tables s s'"
    "\<forall>q \<in> page_paths va n. accepts (pte s q)"
    "\<And>q. valid_path q \<Longrightarrow> pte s' q =
       (if q \<in> page_paths va n then map_option rewrite (pte s q) else pte s q)"
proof -
  have run: "for_pages oper n va s = Inr s'" using assms(3,4) by (simp add: pages_until_eq)
  then show ok: "\<forall>q \<in> page_paths va n. accepts (pte s q)"
    using for_pages_fails [OF assms(1-3)] by force
  then show "pt_wf s'" "syms s' = syms s" "free_tables s' = free_tables s" "keeps_tables s s'" "\<And>q. valid_path q \<Longrightarrow> pte s' q =
       (if q \<in> page_paths va n then map_option rewrite (pte s q) else pte s q)"
    using for_pages_total [OF assms(1-3)] run by auto
qed

lemma pages_until_total:
  assumes "pt_wf s" "aligned va" "n \<le> 2 ^ 36" "\<forall>q \<in> page_paths va n. accepts (pte s q)"
  shows "\<exists>s'. pages_until oper va (page_at va n) s = Some (Inr s') \<and> pt_wf s' \<and> syms s' = syms s \<and>
    free_tables s' = free_tables s \<and> keeps_tables s s' \<and>
    (\<forall>q. valid_path q \<longrightarrow> pte s' q =
       (if q \<in> page_paths va n then map_option rewrite (pte s q) else pte s q))"
  using for_pages_total [OF assms] assms(3) by (auto simp: pages_until_eq)

end

definition present_entry :: "u64 option \<Rightarrow> bool" where
  "present_entry e = (case e of Some v \<Rightarrow> bit v 0 | None \<Rightarrow> False)"

lemma store_update:
  assumes "pt_inv L s" "pte_slot s (path_of va) = Some a"
  shows "pt_wf (store a (f (mem s a)) s)" "keeps_tables s (store a (f (mem s a)) s)"
    "valid_path q \<Longrightarrow> pte (store a (f (mem s a)) s) q =
       (if q = path_of va then map_option f (pte s q) else pte s q)"
  using store_pte(1,2) [OF assms(1) valid_path_of assms(2)] store_keeps_tables [OF assms(1) valid_path_of assms(2)] assms(2)
  by (auto simp: pt_wf_def pte_def)

interpretation unmap: entry_update unmap_page present_entry "\<lambda>e. e AND NOT PRESENT"
proof
  fix s :: paging_state and va
  assume wf: "pt_wf s" and al: "aligned va"
  then obtain L where inv: "pt_inv L s" by (auto simp: pt_wf_def)
  then have tree: "tree_inv L (mem s) (pt_base s)" by (simp add: pt_inv_def)
  show "\<exists>s'. unmap_page va s = Inr s' \<and> pt_wf s' \<and> syms s' = syms s \<and> free_tables s' = free_tables s \<and> keeps_tables s s' \<and>
      (\<forall>q. valid_path q \<longrightarrow> pte s' q =
        (if q = path_of va then map_option (\<lambda>e. e AND NOT PRESENT) (pte s q) else pte s q))"
    if ok: "present_entry (pte s (path_of va))"
    using tree
  proof (cases rule: pt_find_cases [where va = va])
    case missing
    then show ?thesis using ok by (simp add: present_entry_def pte_def)
  next
    case (found it)
    note up = store_update [OF inv found(5), where f = "\<lambda>e. e AND NOT PRESENT"]
    have "unmap_page va s = Inr (invlpg va (store (cur_slot it) (mem s (cur_slot it) AND NOT PRESENT) s))"
      using found cursor_ops [OF found(3) tree] iter_eq_end(2) [OF found(2)] ok al
      by (simp add: unmap_page_def mod_PAGE_SIZE present_entry_def pte_def)
    then show ?thesis using up by (auto simp: pt_wf_def)
  qed
  show "\<exists>e. unmap_page va s = Inl e" if bad: "\<not> present_entry (pte s (path_of va))"
    using tree
  proof (cases rule: pt_find_cases [where va = va])
    case missing
    then show ?thesis using al by (simp add: unmap_page_def mod_PAGE_SIZE iter_eq_end)
  next
    case (found it)
    then show ?thesis
      using cursor_ops [OF found(3) tree] iter_eq_end(2) [OF found(2)] bad al
      by (simp add: unmap_page_def mod_PAGE_SIZE present_entry_def pte_def)
  qed
qed

lemma protect_entry_update:
  "entry_update (protect_entry ex True what f) present_entry f" (is ?A)
  "entry_update (protect_entry ex False what f) (\<lambda>e. e \<noteq> None) f" (is ?B)
proof -
  have step: "(if (need \<longrightarrow> present_entry (pte s (path_of va))) \<and> pte s (path_of va) \<noteq> None
     then \<exists>s'. protect_entry ex need what f va s = Inr s' \<and> pt_wf s' \<and> syms s' = syms s \<and>
       free_tables s' = free_tables s \<and> keeps_tables s s' \<and>
       (\<forall>q. valid_path q \<longrightarrow> pte s' q = (if q = path_of va then map_option f (pte s q) else pte s q))
     else \<exists>e. protect_entry ex need what f va s = Inl e)"
    if wf: "pt_wf s" for s va need
  proof -
    obtain L where inv: "pt_inv L s" using wf by (auto simp: pt_wf_def)
    then have tree: "tree_inv L (mem s) (pt_base s)" by (simp add: pt_inv_def)
    then show ?thesis
    proof (cases rule: pt_find_cases [where va = va])
      case missing
      then show ?thesis by (simp add: protect_entry_def iter_eq_end pte_def)
    next
      case (found it)
      note up = store_update [OF inv found(5), where f = f]
      show ?thesis
        using found cursor_ops [OF found(3) tree] iter_eq_end(2) [OF found(2)] up
        by (auto simp: protect_entry_def present_entry_def pte_def)
    qed
  qed
  have some: "present_entry e \<Longrightarrow> e \<noteq> None" for e by (cases e) (simp_all add: present_entry_def)
  show ?A
  proof
    fix s :: paging_state and va assume "pt_wf s"
    from step [OF this, of True va] show
      "present_entry (pte s (path_of va)) \<Longrightarrow> \<exists>s'. protect_entry ex True what f va s = Inr s' \<and> pt_wf s' \<and>
        syms s' = syms s \<and> free_tables s' = free_tables s \<and> keeps_tables s s' \<and>
        (\<forall>q. valid_path q \<longrightarrow> pte s' q = (if q = path_of va then map_option f (pte s q) else pte s q))"
      "\<not> present_entry (pte s (path_of va)) \<Longrightarrow> \<exists>e. protect_entry ex True what f va s = Inl e"
      by (simp_all add: some)
  qed
  show ?B
  proof
    fix s :: paging_state and va assume "pt_wf s"
    from step [OF this, of False va] show
      "pte s (path_of va) \<noteq> None \<Longrightarrow> \<exists>s'. protect_entry ex False what f va s = Inr s' \<and> pt_wf s' \<and>
        syms s' = syms s \<and> free_tables s' = free_tables s \<and> keeps_tables s s' \<and>
        (\<forall>q. valid_path q \<longrightarrow> pte s' q = (if q = path_of va then map_option f (pte s q) else pte s q))"
      "\<not> pte s (path_of va) \<noteq> None \<Longrightarrow> \<exists>e. protect_entry ex False what f va s = Inl e"
      by (auto split: if_splits)
  qed
qed

interpretation text_pages: entry_update protect_text present_entry "\<lambda>e. e AND NOT (XD OR RW)"
  unfolding protect_text_def by (rule protect_entry_update)

interpretation rodata_pages: entry_update protect_rodata present_entry "\<lambda>e. (e OR XD) AND NOT RW"
  unfolding protect_rodata_def by (rule protect_entry_update)

interpretation data_pages: entry_update protect_data present_entry "\<lambda>e. e OR XD OR RW"
  unfolding protect_data_def by (rule protect_entry_update)

interpretation bss_pages: entry_update protect_bss present_entry "\<lambda>e. e OR XD OR RW"
  unfolding protect_bss_def by (rule protect_entry_update)

interpretation stack_pages: entry_update protect_stack "\<lambda>e. e \<noteq> None" "\<lambda>e. e OR XD OR RW OR PRESENT"
  unfolding protect_stack_def by (rule protect_entry_update)

interpretation guard_page: entry_update protect_guard present_entry "\<lambda>e. e AND NOT PRESENT"
  unfolding protect_guard_def by (rule protect_entry_update)

subsection \<open>The iterator's step to the next page\<close>

lemma iter_eq_table_end:
  "it_level it \<le> 3 \<Longrightarrow> iter_eq it (iter_end (level it)) \<longleftrightarrow> it_indices it ! it_level it = 512"
proof -
  assume "it_level it \<le> 3"
  then have "[0, 0, 0, 0][it_level it := 512] ! it_level it = (512 :: nat)"
    by (intro nth_list_update_eq) simp
  then show ?thesis
    unfolding iter_eq_def iter_end_def level_def NUM_PAGE_TABLE_ENTRIES_def
    by (simp del: list_update_code)
qed

lemma step_up_loop_digits:
  assumes "it_level it = 0" "it_indices it = [a, b, c, d]" "a < 512" "b < 512" "c < 512" "d < 512"
  shows "step_up_loop it =
    (if a < 511 then Inr (it\<lparr>it_indices := [a + 1, b, c, d]\<rparr>)
     else if b < 511 then Inr (it\<lparr>it_indices := [0, b + 1, c, d], it_level := 1\<rparr>)
     else if c < 511 then Inr (it\<lparr>it_indices := [0, 0, c + 1, d], it_level := 2\<rparr>)
     else if d < 511 then Inr (it\<lparr>it_indices := [0, 0, 0, d + 1], it_level := 3\<rparr>)
     else Inl (Assert_failed ''can't ascend from level 4 page iterator''))"
proof -
  have up: "step_up_loop j = (let xs = it_indices j; l = it_level j in
      if xs ! l < 511 then Inr (j\<lparr>it_indices := xs[l := xs ! l + 1]\<rparr>)
      else if l < 3 then step_up_loop (j\<lparr>it_indices := xs[l := 0], it_level := l + 1\<rparr>)
      else Inl (Assert_failed ''can't ascend from level 4 page iterator''))"
    if "it_level j \<le> 3" "it_indices j ! it_level j < 512" "length (it_indices j) = 4" for j
  proof -
    let ?j = "j\<lparr>it_indices := (it_indices j)[it_level j := it_indices j ! it_level j + 1]\<rparr>"
    have "advance 1 j = Inr ?j" using that by (simp add: advance_def NUM_PAGE_TABLE_ENTRIES_def)
    moreover have "iter_eq ?j (iter_end (level ?j)) \<longleftrightarrow> it_indices j ! it_level j + 1 = 512"
      using iter_eq_table_end [of ?j] that by simp
    moreover have "ascend ?j = (if it_level j < 3
        then Inr (j\<lparr>it_indices := (it_indices j)[it_level j := 0], it_level := it_level j + 1\<rparr>)
        else Inl (Assert_failed ''can't ascend from level 4 page iterator''))"
      by (simp add: ascend_def level_def)
    ultimately show ?thesis
      unfolding step_up_loop.simps [of j] using that by (simp add: Let_def)
  qed
  show ?thesis
    using assms up [of it] up [of "it\<lparr>it_indices := [0, b, c, d], it_level := 1\<rparr>"]
      up [of "it\<lparr>it_indices := [0, 0, c, d], it_level := 2\<rparr>"]
      up [of "it\<lparr>it_indices := [0, 0, 0, d], it_level := 3\<rparr>"]
    by (simp add: Let_def numeral_eq_Suc)
qed

lemma all_less_4: "(\<forall>k < (4 :: nat). P k) \<longleftrightarrow> P 0 \<and> P 1 \<and> P 2 \<and> P 3"
  by (auto simp: less_Suc_eq numeral_eq_Suc)

lemma length_4_conv: "length xs = 4 \<longleftrightarrow> (\<exists>a b c d. xs = [a, b, c, d])"
  by (auto simp: length_Suc_conv numeral_eq_Suc)

lemma table_at_cong:
  assumes "\<forall>k. 4 - d \<le> k \<longrightarrow> k < 4 \<longrightarrow> p ! k = q ! k" "d \<le> 3"
  shows "table_at m b p d = table_at m b q d"
  using assms
proof (induction d)
  case (Suc d)
  then have "table_at m b p d = table_at m b q d" "p ! (3 - d) = q ! (3 - d)" by auto
  then show ?case by (simp split: option.split)
qed simp

text \<open>Stepping up from a level-1 cursor: the number of the page grows by one, the cursor
  keeps the tables above, and it leaves level 1 only at the end of a level-1 table.\<close>

lemma step_up_loop_cursor:
  assumes cur: "cursor m b it" "it_level it = 0" and num: "path_number (it_indices it) + 1 < 2 ^ 36"
  shows "\<exists>it'. step_up_loop it = Inr it' \<and> cursor m b it' \<and>
    path_number (it_indices it') = path_number (it_indices it) + 1 \<and>
    (it_level it' \<noteq> 0 \<longrightarrow> path_number (it_indices it) mod 512 = 511)"
proof -
  have v: "valid_path (it_indices it)" using cur(1) by (simp add: cursor_def)
  then obtain x0 x1 x2 x3 where ix: "it_indices it = [x0, x1, x2, x3]"
    by (auto simp: valid_path_def length_4_conv)
  have lt: "x0 < 512" "x1 < 512" "x2 < 512" "x3 < 512"
    using v ix by (simp_all add: valid_path_def all_less_4)
  have tabs: "table_at m b q d = Some (it_tables it ! (3 - d))"
    if "\<forall>k. 4 - d \<le> k \<longrightarrow> k < 4 \<longrightarrow> q ! k = it_indices it ! k" "d \<le> 3" for q d
    using table_at_cong [of d q "it_indices it" m b] that cur by (simp add: cursor_def)
  have cur': "cursor m b (it\<lparr>it_indices := q, it_level := l\<rparr>)"
    if "valid_path q" "l \<le> 3" "\<forall>k. l < k \<longrightarrow> k < 4 \<longrightarrow> q ! k = it_indices it ! k" for q l
    unfolding cursor_def using that cur(1) by (auto simp: cursor_def intro!: tabs)
  have mod: "path_number (it_indices it) mod 512 = x0"
  proof -
    have "(x0 + 512 * y) mod 512 = x0" for y using lt by simp
    then show ?thesis by (simp only: path_number_def ix nth_Cons_0)
  qed
  have valid: "valid_path [y0, y1, y2, y3]" if "y0 < 512" "y1 < 512" "y2 < 512" "y3 < 512" for y0 y1 y2 y3
    using that by (simp add: valid_path_def all_less_4)
  note up = step_up_loop_digits [OF cur(2) ix lt]
  consider "x0 < 511" | "x0 = 511" "x1 < 511" | "x0 = 511" "x1 = 511" "x2 < 511"
    | "x0 = 511" "x1 = 511" "x2 = 511" "x3 < 511"
  proof -
    have "\<not> (x0 = 511 \<and> x1 = 511 \<and> x2 = 511 \<and> x3 = 511)" using num by (auto simp: path_number_def ix)
    moreover have "x0 = 511 \<or> x0 < 511" "x1 = 511 \<or> x1 < 511" "x2 = 511 \<or> x2 < 511" "x3 = 511 \<or> x3 < 511"
      using lt by auto
    ultimately show ?thesis using that by blast
  qed
  then show ?thesis
  proof cases
    case 1
    have "cursor m b (it\<lparr>it_indices := [x0 + 1, x1, x2, x3], it_level := 0\<rparr>)"
      using 1 lt by (intro cur' valid) (auto simp: ix nth_Cons')
    then have "cursor m b (it\<lparr>it_indices := [x0 + 1, x1, x2, x3]\<rparr>)"
      using cur(2) by (simp add: cursor_def)
    then show ?thesis using 1 up cur(2) by (simp add: path_number_def ix)
  next
    case 2
    have "cursor m b (it\<lparr>it_indices := [0, x1 + 1, x2, x3], it_level := 1\<rparr>)"
      using 2 lt by (intro cur' valid) (auto simp: ix nth_Cons')
    then show ?thesis using 2 up mod by (simp add: path_number_def ix)
  next
    case 3
    have "cursor m b (it\<lparr>it_indices := [0, 0, x2 + 1, x3], it_level := 2\<rparr>)"
      using 3 lt by (intro cur' valid) (auto simp: ix nth_Cons')
    then show ?thesis using 3 up mod by (simp add: path_number_def ix)
  next
    case 4
    have "cursor m b (it\<lparr>it_indices := [0, 0, 0, x3 + 1], it_level := 3\<rparr>)"
      using 4 lt by (intro cur' valid) (auto simp: ix nth_Cons')
    then show ?thesis using 4 up mod by (simp add: path_number_def ix)
  qed
qed

subsection \<open>Mapping a range\<close>

text \<open>The pages of a range, and the tables a range can need after its first page: three
  at each boundary between level-1 tables.\<close>

definition in_range :: "nat \<Rightarrow> nat \<Rightarrow> nat list \<Rightarrow> bool" where
  "in_range N n q \<longleftrightarrow> N \<le> path_number q \<and> path_number q < N + n"

definition crossings :: "nat \<Rightarrow> nat \<Rightarrow> nat" where
  "crossings N n = (N + n) div 512 - N div 512"

definition range_entry :: "u64 \<Rightarrow> nat \<Rightarrow> u64 \<Rightarrow> nat list \<Rightarrow> u64" where
  "range_entry p N attrs q = (p + of_nat (path_number q - N) * PAGE_SIZE OR attrs OR PRESENT)"

lemma crossings_Suc: "crossings N (Suc n) = crossings (Suc N) n + (if N mod 512 = 511 then 1 else 0)"
proof -
  have "Suc N div 512 = N div 512 + (if N mod 512 = 511 then 1 else 0)"
    by (simp add: div_Suc mod_Suc)
  moreover have "Suc N div 512 \<le> (Suc N + n) div 512" by (rule div_le_mono) simp
  ultimately show ?thesis by (auto simp: crossings_def)
qed

lemma in_range_Suc: "in_range N (Suc n) q \<longleftrightarrow> path_number q = N \<or> in_range (Suc N) n q"
  by (auto simp: in_range_def)

lemma range_entry_Suc:
  assumes "in_range (Suc N) n q"
  shows "range_entry (p + PAGE_SIZE) (Suc N) attrs q = range_entry p N attrs q"
proof -
  obtain d where "path_number q - N = Suc d" "path_number q - Suc N = d"
    using assms by (cases "path_number q - N") (auto simp: in_range_def)
  then show ?thesis by (simp add: range_entry_def algebra_simps)
qed

text \<open>One round of the loop: the page is mapped, and the iterator moves on to the next page,
  for which tables are taken only where the range enters a new level-1 table.\<close>

lemma map_range_step:
  assumes wf: "pt_wf s" and cur: "cursor (mem s) (pt_base s) it" "it_level it = 0" "it_indices it = path_of v"
    and al: "aligned p" "aligned v" and canon: "sign_extend v 42 = v" and N: "N = path_number (path_of v)" "N + 1 < 2 ^ 36"
    and none: "translation s (path_of v) = None"
    and lack: "\<And>q. valid_path q \<Longrightarrow> path_number q = Suc N \<Longrightarrow> lacking s q \<le> c"
    and free: "N mod 512 = 511 \<longrightarrow> c \<le> length (free_tables s)"
  shows "\<exists>s1 it1 it2 s2. virtual_page_address it = v \<and> map_page_at p it attrs s = Inr (v, s1) \<and> step_up_loop it = Inr it1 \<and>
    step_down_loop it1 s1 = Inr (it2, s2) \<and> pt_wf s2 \<and> keeps_tables s s2 \<and> cursor (mem s2) (pt_base s2) it2 \<and>
    it_level it2 = 0 \<and> it_indices it2 = path_of (v + PAGE_SIZE) \<and> path_number (path_of (v + PAGE_SIZE)) = Suc N \<and>
    length (free_tables s) \<le> length (free_tables s2) + (if N mod 512 = 511 then c else 0) \<and>
    (\<forall>q. valid_path q \<longrightarrow> translation s2 q = (if path_number q = N then Some (p OR attrs OR PRESENT) else translation s q))"
proof -
  have sync: "virtual_page_address it = v" using virtual_page_address_path [OF cur(3) al(2)] canon by simp
  define s1 where "s1 = invlpg v (store (cur_slot it) (p OR attrs OR PRESENT) s)"
  have run1: "map_page_at p it attrs s = Inr (v, s1)"
    using map_page_at_cursor [OF wf cur(1,2) al(1), of attrs] sync none cur(3) al(2) by (simp add: s1_def)
  have s1: "pt_wf s1" "cursor (mem s1) (pt_base s1) it" "free_tables s1 = free_tables s" "keeps_tables s s1"
      "\<And>q. valid_path q \<Longrightarrow> translation s1 q = (if q = path_of v then Some (p OR attrs OR PRESENT) else translation s q)"
    using map_page_at_effect [OF wf cur(1,2), of v "p OR attrs"] cur(3) by (auto simp: s1_def Let_def or.assoc)
  obtain it1 where it1: "step_up_loop it = Inr it1" "cursor (mem s1) (pt_base s1) it1"
      "path_number (it_indices it1) = Suc N" "it_level it1 \<noteq> 0 \<longrightarrow> N mod 512 = 511"
    using step_up_loop_cursor [OF s1(2) cur(2)] cur(3) N by auto
  have v1: "valid_path (it_indices it1)" using it1(2) by (simp add: cursor_def)
  have lack1: "lacking s1 (it_indices it1) \<le> c" using lacking_keeps [OF s1(4) v1] lack [OF v1 it1(3)] by simp
  then have "it_level it1 = 0 \<or> lacking s1 (it_indices it1) \<le> length (free_tables s1)" using it1(4) s1(3) free by auto
  from step_down_loop_lacking [OF s1(1) it1(2) this] obtain it2 s2 where
    s2: "step_down_loop it1 s1 = Inr (it2, s2)" "pt_wf s2" "grows s1 s2" "cursor (mem s2) (pt_base s2) it2"
      "it_level it2 = 0" "it_indices it2 = it_indices it1"
      "length (free_tables s1) \<le> length (free_tables s2) + (if it_level it1 = 0 then 0 else lacking s1 (it_indices it1))"
    by auto
  have "it_indices it2 = path_of (v + PAGE_SIZE)"
    using path_of_next [OF al(2), of "it_indices it1"] v1 it1(3) s2(6) N(1) by simp
  moreover have "translation s2 q = (if path_number q = N then Some (p OR attrs OR PRESENT) else translation s q)"
    if "valid_path q" for q
    using grows_translation [OF s2(3) that] s1(5) [OF that] path_number_inj [OF that valid_path_of] N(1) by auto
  moreover have "length (free_tables s) \<le> length (free_tables s2) + (if N mod 512 = 511 then c else 0)"
    using s2(7) s1(3) it1(4) lack1 by (auto split: if_splits)
  moreover have "keeps_tables s s2" using s1(4) s2(3) keeps_tables_trans by (auto simp: grows_def)
  ultimately show ?thesis using sync run1 it1(1,3) s2(1,2,4,5,6) by auto
qed

lemma map_range_loop_maps:
  assumes "pt_wf s" "cursor (mem s) (pt_base s) it" "it_level it = 0" "it_indices it = path_of v"
    "aligned p" "aligned v" "path_number (path_of v) + n < 2 ^ 36"
    "\<forall>k < n. sign_extend (page_at v k) 42 = page_at v k"
    "\<forall>q. valid_path q \<longrightarrow> in_range (path_number (path_of v)) n q \<longrightarrow> translation s q = None"
    "\<forall>q. valid_path q \<longrightarrow> in_range (path_number (path_of v)) (Suc n) q \<longrightarrow> lacking s q \<le> c"
    "c * crossings (path_number (path_of v)) n \<le> length (free_tables s)"
  shows "\<exists>s'. map_range_loop n p v attrs it s = Inr s' \<and> pt_wf s' \<and> keeps_tables s s' \<and>
    length (free_tables s) \<le> length (free_tables s') + c * crossings (path_number (path_of v)) n \<and>
    (\<forall>q. valid_path q \<longrightarrow> translation s' q =
       (if in_range (path_number (path_of v)) n q
        then Some (range_entry p (path_number (path_of v)) attrs q) else translation s q))"
  using assms
proof (induction n arbitrary: s it p v)
  case 0
  have "\<not> in_range N 0 q" for N q by (simp add: in_range_def)
  then show ?case using 0 by simp
next
  case (Suc n)
  let ?N = "path_number (path_of v)" and ?v = "v + PAGE_SIZE"
  have canon: "sign_extend v 42 = v" using Suc.prems(8) [rule_format, of 0] by simp
  have top: "?N + 1 < 2 ^ 36" "translation s (path_of v) = None" "?N mod 512 = 511 \<longrightarrow> c \<le> length (free_tables s)"
    using Suc.prems(7,9,11) by (auto simp: in_range_Suc crossings_Suc)
  have next_lack: "lacking s q \<le> c" if "valid_path q" "path_number q = Suc ?N" for q
    using Suc.prems(10) that by (simp add: in_range_def)
  from map_range_step [OF Suc.prems(1-6) canon refl top(1,2) next_lack top(3), of attrs] obtain s1 it1 it2 s2 where
      r: "virtual_page_address it = v" "map_page_at p it attrs s = Inr (v, s1)" "step_up_loop it = Inr it1"
      "step_down_loop it1 s1 = Inr (it2, s2)" and s2: "pt_wf s2" "keeps_tables s s2" "cursor (mem s2) (pt_base s2) it2"
      "it_level it2 = 0" "it_indices it2 = path_of ?v" and N: "path_number (path_of ?v) = Suc ?N"
      and used: "length (free_tables s) \<le> length (free_tables s2) + (if ?N mod 512 = 511 then c else 0)"
      and tr2: "\<forall>q. valid_path q \<longrightarrow> translation s2 q = (if path_number q = ?N then Some (p OR attrs OR PRESENT) else translation s q)"
    by blast
  have free: "c * crossings (Suc ?N) n \<le> length (free_tables s2)"
      "length (free_tables s) + c * crossings (Suc ?N) n \<le> length (free_tables s2) + c * crossings ?N (Suc n)"
    using used Suc.prems(11) by (auto simp: crossings_Suc split: if_splits)
  have pages: "aligned (p + PAGE_SIZE)" "aligned ?v" "path_number (path_of ?v) + n < 2 ^ 36"
      "\<forall>k < n. sign_extend (page_at ?v k) 42 = page_at ?v k"
    using Suc.prems(5-8) N by (auto simp: aligned_add page_at_Suc)
  have unmapped: "\<forall>q. valid_path q \<longrightarrow> in_range (path_number (path_of ?v)) n q \<longrightarrow> translation s2 q = None"
    using tr2 Suc.prems(9) N by (auto simp: in_range_def)
  have lack: "\<forall>q. valid_path q \<longrightarrow> in_range (path_number (path_of ?v)) (Suc n) q \<longrightarrow> lacking s2 q \<le> c"
    using Suc.prems(10) lacking_keeps [OF s2(2)] N by (fastforce simp: in_range_Suc)
  obtain s' where s': "map_range_loop n (p + PAGE_SIZE) ?v attrs it2 s2 = Inr s'" "pt_wf s'" "keeps_tables s2 s'"
      "length (free_tables s2) \<le> length (free_tables s') + c * crossings (Suc ?N) n"
      "\<And>q. valid_path q \<Longrightarrow> translation s' q = (if in_range (Suc ?N) n q
        then Some (range_entry (p + PAGE_SIZE) (Suc ?N) attrs q) else translation s2 q)"
    using Suc.IH [OF s2(1,3,4,5) pages unmapped lack] free(1) N by auto
  have "map_range_loop (Suc n) p v attrs it s = Inr s'" using r s'(1) by simp
  moreover have "translation s' q = (if in_range ?N (Suc n) q then Some (range_entry p ?N attrs q) else translation s q)"
    if q: "valid_path q" for q
    using s'(5) [OF q] tr2 q range_entry_Suc [of ?N n q p attrs]
    by (auto simp: in_range_Suc) (auto simp: range_entry_def in_range_def)
  ultimately show ?case using s'(2,4) free(2) keeps_tables_trans [OF s2(2) s'(3)] by auto
qed

lemma unat_pages:
  assumes "aligned a" "aligned b" "a < b"
  shows "b = page_at a (pages_between a b)" "unat b = unat a + 4096 * pages_between a b"
proof -
  have diff: "unat (b - a) = unat b - unat a" using assms(3) by (intro unat_sub) simp
  obtain x y where xy: "unat a = 4096 * x" "unat b = 4096 * y"
    using assms(1,2) unfolding aligned_unat by (metis dvdE mod_eq_0_iff_dvd)
  have "unat a < unat b" using assms(3) by (simp add: word_less_nat_alt)
  then have n: "pages_between a b = y - x" "x < y"
    using xy diff assms(3) by (simp_all add: pages_between_def diff_mult_distrib2 [symmetric])
  then show b: "unat b = unat a + 4096 * pages_between a b" using xy by (simp add: diff_mult_distrib2)
  have "b = of_nat (unat a + 4096 * pages_between a b)" unfolding b [symmetric] by simp
  then show "b = page_at a (pages_between a b)"
    by (simp add: page_at_def PAGE_SIZE_def mult.commute)
qed

lemma map_range_maps:
  assumes wf: "pt_wf s" and al: "aligned p" "aligned v" and n: "p + of_nat n * PAGE_SIZE = stop" "unat p + 4096 * n < 2 ^ 64"
    and top: "path_number (path_of v) + n < 2 ^ 36"
    and canon: "\<forall>k < n. sign_extend (page_at v k) 42 = page_at v k"
    and unmapped: "\<forall>q. valid_path q \<longrightarrow> in_range (path_number (path_of v)) n q \<longrightarrow> translation s q = None"
    and lack: "\<forall>q. valid_path q \<longrightarrow> in_range (path_number (path_of v)) (Suc n) q \<longrightarrow> lacking s q \<le> c"
    and free: "c + c * crossings (path_number (path_of v)) n \<le> length (free_tables s)"
  shows "\<exists>s'. map_range p stop v (v + of_nat n * PAGE_SIZE) attrs s = Inr (v, s') \<and> pt_wf s' \<and> keeps_tables s s' \<and>
    length (free_tables s) \<le> length (free_tables s') + (c + c * crossings (path_number (path_of v)) n) \<and>
    (\<forall>q. valid_path q \<longrightarrow> translation s' q =
       (if in_range (path_number (path_of v)) n q
        then Some (range_entry p (path_number (path_of v)) attrs q) else translation s q))"
proof -
  have al': "aligned stop" "aligned (v + of_nat n * PAGE_SIZE)"
    using aligned_page_at [OF al(1), of n] aligned_page_at [OF al(2), of n] n(1)
    by (simp_all add: page_at_def)
  have "unat (of_nat n * PAGE_SIZE) = 4096 * n"
    using n(2) by (simp add: PAGE_SIZE_def unat_word_ariths unat_of_nat)
  then have stop: "unat stop = unat p + 4096 * n" unfolding n(1) [symmetric] using n(2) by (simp add: unat_add_u64)
  have "pages_between p stop = n"
  proof (cases "n = 0")
    case True
    then show ?thesis using n(1) by (simp add: pages_between_def)
  next
    case False
    then have "p < stop" using stop by (simp add: word_less_nat_alt)
    then show ?thesis using unat_pages(2) [OF al(1) al'(1)] stop by simp
  qed
  moreover have "lacking s (path_of v) \<le> c" using lack by (simp add: in_range_def)
  moreover from this obtain it s1 where s1: "pt_get s v = Inr (it, s1)" "pt_wf s1" "grows s s1"
      "cursor (mem s1) (pt_base s1) it" "it_level it = 0" "it_indices it = path_of v"
      "length (free_tables s) \<le> length (free_tables s1) + lacking s (path_of v)"
    using pt_get_cursor [OF wf, of v] free by fastforce
  note tr = grows_translation [OF s1(3)]
  have kept: "keeps_tables s s1" using s1(3) by (simp add: grows_def)
  have lack1: "\<forall>q. valid_path q \<longrightarrow> in_range (path_number (path_of v)) (Suc n) q \<longrightarrow> lacking s1 q \<le> c"
    using lack lacking_keeps [OF kept] by fastforce
  obtain s' where s': "map_range_loop n p v attrs it s1 = Inr s'" "pt_wf s'" "keeps_tables s1 s'"
      "length (free_tables s1) \<le> length (free_tables s') + c * crossings (path_number (path_of v)) n"
      "\<And>q. valid_path q \<Longrightarrow> translation s' q = (if in_range (path_number (path_of v)) n q
        then Some (range_entry p (path_number (path_of v)) attrs q) else translation s1 q)"
    using map_range_loop_maps [OF s1(2,4,5,6) al top canon _ lack1, of attrs] unmapped free s1(7) tr
      \<open>lacking s (path_of v) \<le> c\<close> by auto
  moreover have "stop - p = of_nat n * PAGE_SIZE" using n(1) by auto
  ultimately show ?thesis
    using s1(1,7) al al' tr keeps_tables_trans [OF kept s'(3)] by (simp add: map_range_def mod_PAGE_SIZE)
qed

end
