(* ===== verification/Paging_Init.thy ===== *)
theory Paging_Init
  imports Paging_Ranges
begin

text \<open>
  The state after \<^verbatim>\<open>paging::early_init\<close> (the tables form a tree, the kernel's megabyte
  and the low two megabytes are mapped), the effect of
  \<^verbatim>\<open>enable_kernel_page_protection\<close>, and the properties of the paging component.
\<close>

subsection \<open>Initial tables\<close>

definition init_tables :: "symbols \<Rightarrow> u64 list" where
  "init_tables y = [kernel_pml4 y, kernel_pml3 y, kernel_pml2 y, kernel_pml1 y,
     identity_pml3 y, identity_pml2 y, identity_pml1 y]"

definition static_list :: "symbols \<Rightarrow> u64 list" where
  "static_list y = map (\<lambda>k. static_tables y + 0x1000 * of_nat k) (rev [0..<MAX_STATIC_TABLES])"

text \<open>What the linker and the zeroed \<^verbatim>\<open>.bss\<close> provide: distinct page-aligned tables in
  the kernel image, all empty.\<close>

definition boot_ok :: "paging_state \<Rightarrow> bool" where
  "boot_ok s \<longleftrightarrow> distinct (init_tables (syms s) @ static_list (syms s)) \<and>
     (\<forall>t \<in> set (init_tables (syms s) @ static_list (syms s)).
        aligned t \<and> t \<noteq> 0 \<and> t \<noteq> KERNEL_VMA_OFFSET \<and> (\<forall>i < 512. mem s (slot t i) = 0)) \<and>
     num_static_tables_left s = MAX_STATIC_TABLES \<and> dynamic_tables s = 0"

definition page_entry :: "nat \<Rightarrow> u64" where
  "page_entry i = (of_nat i * PAGE_SIZE OR XD OR PRESENT)"

definition init_level :: "symbols \<Rightarrow> u64 \<Rightarrow> nat" where
  "init_level y t = (if t = kernel_pml4 y then 4
     else if t = kernel_pml3 y \<or> t = identity_pml3 y then 3
     else if t = kernel_pml2 y \<or> t = identity_pml2 y then 2
     else if t = kernel_pml1 y \<or> t = identity_pml1 y then 1 else 0)"

lemma store_all_append: "store_all (xs @ ys) m = store_all ys (store_all xs m)"
  by (induction xs arbitrary: m) auto

lemma store_all_other: "a \<notin> fst ` set xs \<Longrightarrow> store_all xs m a = m a"
  by (induction xs arbitrary: m) auto

lemma store_all_slots:
  assumes "aligned t" "\<forall>i \<in> set is. i < 512" "distinct is" "aligned u" "j < 512"
  shows "store_all (map (\<lambda>i. (slot t i, f i)) is) m (slot u j) =
    (if u = t \<and> j \<in> set is then f j else m (slot u j))"
  using assms(2,3)
proof (induction "is" arbitrary: m)
  case (Cons i "is")
  then show ?case using assms(1,4,5) slot_eq_iff [of u t j i] by auto
qed simp

text \<open>The entries after \<^verbatim>\<open>early_init\<close>, table by table.\<close>

lemma early_init_mem:
  assumes "boot_ok s" "t \<in> set (init_tables (syms s) @ static_list (syms s))" "i < 512"
  shows "mem (paging_early_init s) (slot t i) =
    (let y = syms s in
     if t = kernel_pml4 y \<and> i = 0x1FF then link_entry (kernel_pml3 y - KERNEL_VMA_OFFSET)
     else if t = kernel_pml3 y \<and> i = 0x1FE then link_entry (kernel_pml2 y - KERNEL_VMA_OFFSET)
     else if t = kernel_pml2 y \<and> i = 0 then link_entry (kernel_pml1 y - KERNEL_VMA_OFFSET)
     else if t = kernel_pml1 y \<and> 0x100 \<le> i then page_entry i
     else if t = kernel_pml4 y \<and> i = 0 then link_entry (identity_pml3 y - KERNEL_VMA_OFFSET)
     else if t = identity_pml3 y \<and> i = 0 then link_entry (identity_pml2 y - KERNEL_VMA_OFFSET)
     else if t = identity_pml2 y \<and> i = 0 then link_entry (identity_pml1 y - KERNEL_VMA_OFFSET)
     else if t = identity_pml1 y \<and> 1 \<le> i then page_entry i
     else 0)"
proof -
  let ?y = "syms s"
  have al: "aligned u" if "u \<in> set (init_tables ?y)" for u
    using assms(1) that by (auto simp: boot_ok_def)
  have t: "aligned t" "mem s (slot t i) = 0" using assms by (auto simp: boot_ok_def)
  have eq: "slot t i = slot u j \<longleftrightarrow> t = u \<and> i = j" if "u \<in> set (init_tables ?y)" "j < 512" for u j
    using slot_eq_iff [OF t(1) al [OF that(1)] assms(3) that(2)] .
  have range: "store_all (map (\<lambda>i. (slot u i, page_entry i)) [a..<512]) m (slot t i) =
      (if t = u \<and> a \<le> i then page_entry i else m (slot t i))" if "u \<in> set (init_tables ?y)" for u a m
    using store_all_slots [OF al [OF that] _ _ t(1) assms(3), of "[a..<512]" page_entry m] assms(3) by auto
  have dist: "distinct (init_tables ?y)" using assms(1) by (simp add: boot_ok_def)
  have r1: "store_all (map (\<lambda>i. (slot (kernel_pml1 ?y) i, page_entry i)) [0x100..<0x200]) m (slot t i) =
      (if t = kernel_pml1 ?y \<and> 0x100 \<le> i then page_entry i else m (slot t i))" for m
    by (rule range) (simp add: init_tables_def)
  have r2: "store_all (map (\<lambda>i. (slot (identity_pml1 ?y) i, page_entry i)) [1..<0x200]) m (slot t i) =
      (if t = identity_pml1 ?y \<and> 1 \<le> i then page_entry i else m (slot t i))" for m
    by (rule range) (simp add: init_tables_def)
  have m: "mem (paging_early_init s) =
      store_all (map (\<lambda>i. (slot (identity_pml1 ?y) i, page_entry i)) [1..<0x200])
      (store_all [(slot (kernel_pml4 ?y) 0, link_entry (identity_pml3 ?y - KERNEL_VMA_OFFSET)),
         (slot (identity_pml3 ?y) 0, link_entry (identity_pml2 ?y - KERNEL_VMA_OFFSET)),
         (slot (identity_pml2 ?y) 0, link_entry (identity_pml1 ?y - KERNEL_VMA_OFFSET)),
         (slot (identity_pml1 ?y) 0, 0)]
      (store_all (map (\<lambda>i. (slot (kernel_pml1 ?y) i, page_entry i)) [0x100..<0x200])
      (store_all [(slot (kernel_pml4 ?y) 0x1FF, link_entry (kernel_pml3 ?y - KERNEL_VMA_OFFSET)),
         (slot (kernel_pml3 ?y) 0x1FE, link_entry (kernel_pml2 ?y - KERNEL_VMA_OFFSET)),
         (slot (kernel_pml2 ?y) 0, link_entry (kernel_pml1 ?y - KERNEL_VMA_OFFSET))] (mem s))))"
    unfolding paging_early_init_def Let_def store_all_append [symmetric] page_entry_def link_entry_def
    by (simp del: upt_rec_numeral store_all.simps)
  have eqs: "slot t i = slot (kernel_pml4 ?y) j \<longleftrightarrow> t = kernel_pml4 ?y \<and> i = j"
    "slot t i = slot (kernel_pml3 ?y) j \<longleftrightarrow> t = kernel_pml3 ?y \<and> i = j"
    "slot t i = slot (kernel_pml2 ?y) j \<longleftrightarrow> t = kernel_pml2 ?y \<and> i = j"
    "slot t i = slot (identity_pml3 ?y) j \<longleftrightarrow> t = identity_pml3 ?y \<and> i = j"
    "slot t i = slot (identity_pml2 ?y) j \<longleftrightarrow> t = identity_pml2 ?y \<and> i = j"
    "slot t i = slot (identity_pml1 ?y) j \<longleftrightarrow> t = identity_pml1 ?y \<and> i = j"
    if "j < 512" for j using eq [OF _ that] by (auto simp: init_tables_def)
  have mem: "mem (paging_early_init s) (slot t i) =
    (if t = identity_pml1 ?y \<and> 1 \<le> i then page_entry i
     else if t = identity_pml1 ?y \<and> i = 0 then 0
     else if t = identity_pml2 ?y \<and> i = 0 then link_entry (identity_pml1 ?y - KERNEL_VMA_OFFSET)
     else if t = identity_pml3 ?y \<and> i = 0 then link_entry (identity_pml2 ?y - KERNEL_VMA_OFFSET)
     else if t = kernel_pml4 ?y \<and> i = 0 then link_entry (identity_pml3 ?y - KERNEL_VMA_OFFSET)
     else if t = kernel_pml1 ?y \<and> 0x100 \<le> i then page_entry i
     else if t = kernel_pml2 ?y \<and> i = 0 then link_entry (kernel_pml1 ?y - KERNEL_VMA_OFFSET)
     else if t = kernel_pml3 ?y \<and> i = 0x1FE then link_entry (kernel_pml2 ?y - KERNEL_VMA_OFFSET)
     else if t = kernel_pml4 ?y \<and> i = 0x1FF then link_entry (kernel_pml3 ?y - KERNEL_VMA_OFFSET)
     else 0)"
    unfolding m
    by (simp only: r1 r2 store_all.simps fun_upd_apply eqs [of 0, simplified] eqs [of 511, simplified]
      eqs [of 510, simplified] t(2) if_cancel)
  show ?thesis
    unfolding mem Let_def using dist by (auto simp: init_tables_def)
qed

lemma early_init_fields [simp]:
  "pt_base (paging_early_init s) = kernel_pml4 (syms s)" "syms (paging_early_init s) = syms s"
  "allocate_set (paging_early_init s)" "free_tables (paging_early_init s) = free_tables s"
  by (simp_all add: paging_early_init_def Let_def free_tables_def del: upt_rec_numeral)

lemma boot_free_tables: "boot_ok s \<Longrightarrow> free_tables s = static_list (syms s)"
  by (simp add: boot_ok_def free_tables_def static_list_def)

lemma init_level_cases:
  assumes "boot_ok s" "init_level (syms s) t \<noteq> 0"
  shows "t \<in> set (init_tables (syms s))"
  using assms by (auto simp: init_level_def init_tables_def split: if_splits)

lemma init_level_simps:
  assumes "boot_ok s"
  shows "init_level (syms s) (kernel_pml4 (syms s)) = 4"
    "init_level (syms s) (kernel_pml3 (syms s)) = 3" "init_level (syms s) (identity_pml3 (syms s)) = 3"
    "init_level (syms s) (kernel_pml2 (syms s)) = 2" "init_level (syms s) (identity_pml2 (syms s)) = 2"
    "init_level (syms s) (kernel_pml1 (syms s)) = 1" "init_level (syms s) (identity_pml1 (syms s)) = 1"
  using assms by (auto simp: boot_ok_def init_level_def init_tables_def)

text \<open>The links of the initial tree: parent table, index, child table.\<close>

definition init_links :: "symbols \<Rightarrow> (u64 \<times> nat \<times> u64) list" where
  "init_links y = [(kernel_pml4 y, 0x1FF, kernel_pml3 y), (kernel_pml3 y, 0x1FE, kernel_pml2 y),
     (kernel_pml2 y, 0, kernel_pml1 y), (kernel_pml4 y, 0, identity_pml3 y),
     (identity_pml3 y, 0, identity_pml2 y), (identity_pml2 y, 0, identity_pml1 y)]"

lemma early_init_links:
  assumes "boot_ok s" "2 \<le> init_level (syms s) t" "i < 512" "mem (paging_early_init s) (slot t i) \<noteq> 0"
  obtains u where "(t, i, u) \<in> set (init_links (syms s))"
    "mem (paging_early_init s) (slot t i) = link_entry (u - KERNEL_VMA_OFFSET)"
proof -
  have mem: "t \<in> set (init_tables (syms s) @ static_list (syms s))"
    using init_level_cases [OF assms(1)] assms(2) by auto
  have "t \<noteq> kernel_pml1 (syms s)" "t \<noteq> identity_pml1 (syms s)"
    using assms(2) init_level_simps [OF assms(1)] by auto
  then show ?thesis
    using assms(4) that unfolding early_init_mem [OF assms(1) mem assms(3)] Let_def
    by (auto simp: init_links_def split: if_splits)
qed

lemma init_links_levels:
  assumes "boot_ok s" "(t, i, u) \<in> set (init_links (syms s))"
  shows "u \<in> set (init_tables (syms s))" "Suc (init_level (syms s) u) = init_level (syms s) t"
    "i < 512" "t \<in> set (init_tables (syms s))"
  using assms(2) init_level_simps [OF assms(1)]
  by (auto simp: init_links_def init_tables_def)

lemma init_links_unique:
  assumes "boot_ok s" "(t, i, u) \<in> set (init_links (syms s))" "(t', i', u) \<in> set (init_links (syms s))"
  shows "t = t' \<and> i = i'"
proof -
  have "distinct (init_tables (syms s))" using assms(1) by (simp add: boot_ok_def)
  then show ?thesis using assms(2,3) by (auto simp: init_links_def init_tables_def)
qed

lemma boot_tableD:
  assumes "boot_ok s" "t \<in> set (init_tables (syms s)) \<or> t \<in> set (static_list (syms s))"
  shows "aligned t" "t \<noteq> 0" "t \<noteq> KERNEL_VMA_OFFSET"
  using assms by (auto simp: boot_ok_def)

lemma link_entry_of_table:
  assumes "boot_ok s" "u \<in> set (init_tables (syms s))"
  shows "entry_table (link_entry (u - KERNEL_VMA_OFFSET)) = u"
    "link_entry (u - KERNEL_VMA_OFFSET) AND NOT PREFIX_MASK \<noteq> 0"
proof -
  have al: "aligned (u - KERNEL_VMA_OFFSET)"
    using boot_tableD(1) [of s u] assms by (auto intro: aligned_diff)
  show "entry_table (link_entry (u - KERNEL_VMA_OFFSET)) = u" by (simp add: link_entry_table [OF al])
  show "link_entry (u - KERNEL_VMA_OFFSET) AND NOT PREFIX_MASK \<noteq> 0"
    using boot_tableD(3) [of s u] assms by (simp add: link_entry_address [OF al])
qed

lemma early_init_tree:
  assumes "boot_ok s"
  shows "tree_inv (init_level (syms s)) (mem (paging_early_init s)) (kernel_pml4 (syms s))"
  unfolding tree_inv_def
proof (intro conjI allI impI)
  show "init_level (syms s) (kernel_pml4 (syms s)) = 4" by (rule init_level_simps(1) [OF assms])
  fix t assume "init_level (syms s) t \<noteq> 0"
  then have "t \<in> set (init_tables (syms s))" by (rule init_level_cases [OF assms])
  then show "aligned t" "t \<noteq> 0" using boot_tableD [OF assms] by auto
  show "init_level (syms s) t \<le> 4" by (simp add: init_level_def)
next
  fix t i assume t: "2 \<le> init_level (syms s) t" "i < 512" "mem (paging_early_init s) (slot t i) \<noteq> 0"
  from early_init_links [OF assms t] obtain u where u: "(t, i, u) \<in> set (init_links (syms s))"
    "mem (paging_early_init s) (slot t i) = link_entry (u - KERNEL_VMA_OFFSET)" .
  note l = init_links_levels [OF assms u(1)] link_entry_of_table [OF assms init_links_levels(1) [OF assms u(1)]]
  show "bit (mem (paging_early_init s) (slot t i)) 0"
    "mem (paging_early_init s) (slot t i) AND NOT PREFIX_MASK \<noteq> 0"
    "init_level (syms s) (entry_table (mem (paging_early_init s) (slot t i))) = init_level (syms s) t - 1"
    using l u(2) by auto
next
  fix t i t' i'
  assume t: "2 \<le> init_level (syms s) t" "2 \<le> init_level (syms s) t'" "i < 512" "i' < 512"
    "mem (paging_early_init s) (slot t i) \<noteq> 0" "mem (paging_early_init s) (slot t' i') \<noteq> 0"
    "entry_table (mem (paging_early_init s) (slot t i)) = entry_table (mem (paging_early_init s) (slot t' i'))"
  from early_init_links [OF assms t(1,3,5)] obtain u where u: "(t, i, u) \<in> set (init_links (syms s))"
    "mem (paging_early_init s) (slot t i) = link_entry (u - KERNEL_VMA_OFFSET)" .
  from early_init_links [OF assms t(2,4,6)] obtain u' where u': "(t', i', u') \<in> set (init_links (syms s))"
    "mem (paging_early_init s) (slot t' i') = link_entry (u' - KERNEL_VMA_OFFSET)" .
  have "u = u'"
    using t(7) u u' link_entry_of_table(1) [OF assms] init_links_levels(1) [OF assms] by metis
  then show "t = t'" "i = i'" using init_links_unique [OF assms] u(1) u'(1) by auto
qed

lemma early_init_wf:
  assumes "boot_ok s"
  shows "pt_wf (paging_early_init s)"
proof -
  have free: "free_tables (paging_early_init s) = static_list (syms s)" by (simp add: boot_free_tables [OF assms])
  have dist: "distinct (init_tables (syms s) @ static_list (syms s))" using assms by (simp add: boot_ok_def)
  have "fresh_table (init_level (syms s)) (mem (paging_early_init s)) t" if t: "t \<in> set (static_list (syms s))" for t
  proof -
    have new: "t \<notin> set (init_tables (syms s))" using dist t by auto
    then have "init_level (syms s) t = 0" using init_level_cases [OF assms] by blast
    moreover have "mem (paging_early_init s) (slot t i) = 0" if "i < 512" for i
      using early_init_mem [OF assms, of t i] t that new by (auto simp: init_tables_def Let_def)
    ultimately show ?thesis using boot_tableD [OF assms] t by (auto simp: fresh_table_def)
  qed
  then show ?thesis
    using early_init_tree [OF assms] free dist by (auto simp: pt_wf_def pt_inv_def)
qed

subsection \<open>Initial mappings\<close>

lemma early_init_kernel_pte:
  assumes "boot_ok s" "i < 512"
  shows "pte (paging_early_init s) [i, 0, 0x1FE, 0x1FF] = Some (if 0x100 \<le> i then page_entry i else 0)"
proof -
  let ?y = "syms s" and ?m = "mem (paging_early_init s)"
  have dist: "distinct (init_tables ?y)" "distinct (rev (init_tables ?y))"
    using assms(1) by (simp_all only: boot_ok_def distinct_append distinct_rev)
  have tabs: "kernel_pml4 ?y \<in> set (init_tables ?y)" "kernel_pml3 ?y \<in> set (init_tables ?y)"
    "kernel_pml2 ?y \<in> set (init_tables ?y)" "kernel_pml1 ?y \<in> set (init_tables ?y)"
    by (simp_all add: init_tables_def)
  have e: "?m (slot (kernel_pml4 ?y) 0x1FF) = link_entry (kernel_pml3 ?y - KERNEL_VMA_OFFSET)"
    "?m (slot (kernel_pml3 ?y) 0x1FE) = link_entry (kernel_pml2 ?y - KERNEL_VMA_OFFSET)"
    "?m (slot (kernel_pml2 ?y) 0) = link_entry (kernel_pml1 ?y - KERNEL_VMA_OFFSET)"
    "?m (slot (kernel_pml1 ?y) i) = (if 0x100 \<le> i then page_entry i else 0)"
    using dist assms(2) tabs by (simp_all add: early_init_mem [OF assms(1)] init_tables_def Let_def)
  have "table_at ?m (kernel_pml4 ?y) [i, 0, 0x1FE, 0x1FF] 3 = Some (kernel_pml1 ?y)"
    using e link_entry_of_table(1) [OF assms(1)] tabs by (simp add: numeral_3_eq_3 Let_def)
  then show ?thesis using e(4) by (simp add: pte_table)
qed

lemma early_init_identity_pte:
  assumes "boot_ok s" "i < 512"
  shows "pte (paging_early_init s) [i, 0, 0, 0] = Some (if 1 \<le> i then page_entry i else 0)"
proof -
  let ?y = "syms s" and ?m = "mem (paging_early_init s)"
  have dist: "distinct (init_tables ?y)" "distinct (rev (init_tables ?y))"
    using assms(1) by (simp_all only: boot_ok_def distinct_append distinct_rev)
  have tabs: "kernel_pml4 ?y \<in> set (init_tables ?y)" "identity_pml3 ?y \<in> set (init_tables ?y)"
    "identity_pml2 ?y \<in> set (init_tables ?y)" "identity_pml1 ?y \<in> set (init_tables ?y)"
    by (simp_all add: init_tables_def)
  have e: "?m (slot (kernel_pml4 ?y) 0) = link_entry (identity_pml3 ?y - KERNEL_VMA_OFFSET)"
    "?m (slot (identity_pml3 ?y) 0) = link_entry (identity_pml2 ?y - KERNEL_VMA_OFFSET)"
    "?m (slot (identity_pml2 ?y) 0) = link_entry (identity_pml1 ?y - KERNEL_VMA_OFFSET)"
    "?m (slot (identity_pml1 ?y) i) = (if 1 \<le> i then page_entry i else 0)"
    using dist assms(2) tabs by (simp_all add: early_init_mem [OF assms(1)] init_tables_def Let_def)
  have "table_at ?m (kernel_pml4 ?y) [i, 0, 0, 0] 3 = Some (identity_pml1 ?y)"
    using e link_entry_of_table(1) [OF assms(1)] tabs by (simp add: numeral_3_eq_3 Let_def)
  then show ?thesis using e(4) by (simp add: pte_table)
qed

lemma path_of_digits: "path_of va = [unat va div 4096 mod 512, unat va div 2097152 mod 512,
    unat va div 1073741824 mod 512, unat va div 549755813888 mod 512]"
proof (rule nth_equalityI)
  fix k assume "k < length (path_of va)"
  then have "k = 0 \<or> k = 1 \<or> k = 2 \<or> k = 3" by auto
  then show "path_of va ! k = [unat va div 4096 mod 512, unat va div 2097152 mod 512,
    unat va div 1073741824 mod 512, unat va div 549755813888 mod 512] ! k"
    by (elim disjE) (simp_all add: path_of_nth)
qed simp

lemma path_of_kernel:
  assumes "x < 0x200000"
  shows "path_of (KERNEL_VMA_OFFSET + of_nat x) = [x div 4096, 0, 0x1FE, 0x1FF]"
proof -
  have u: "unat (KERNEL_VMA_OFFSET + of_nat x) = 0xFFFFFFFF80000000 + x"
    using assms by (simp add: KERNEL_VMA_OFFSET_def unat_add_u64 unat_of_nat)
  have "x div 4096 < 512" using assms by (simp add: less_mult_imp_div_less)
  have split: "(a * b + x) div b = a + x div b" if "0 < b" for a b :: nat using that by simp
  have d: "(0xFFFFFFFF80000000 + x) div 4096 = 0xFFFFFFFF80000 + x div 4096"
    "(0xFFFFFFFF80000000 + x) div 2097152 = 0x7FFFFFFFC00"
    "(0xFFFFFFFF80000000 + x) div 1073741824 = 0x3FFFFFFFE"
    "(0xFFFFFFFF80000000 + x) div 549755813888 = 0x1FFFFFF"
    using assms by auto
  have "(0xFFFFFFFF80000 + x div 4096) mod 512 = x div 4096"
    using \<open>x div 4096 < 512\<close> by (simp add: mod_add_eq [of "0xFFFFFFFF80000" 512, symmetric])
  then show ?thesis unfolding path_of_digits u d by simp
qed

lemma path_of_identity:
  assumes "x < 0x200000"
  shows "path_of (of_nat x) = [x div 4096, 0, 0, 0]"
proof -
  have u: "unat (of_nat x :: u64) = x" using assms by (simp add: unat_of_nat)
  have "x div 4096 < 512" using assms by (simp add: less_mult_imp_div_less)
  then show ?thesis unfolding path_of_digits u using assms by simp
qed

lemma bit_XD: "bit XD k \<longleftrightarrow> k = 63"
proof -
  have eq: "XD = push_bit 63 1" by (simp add: XD_def)
  show ?thesis unfolding eq bit_push_bit_iff bit_1_iff by (auto simp: possible_bit_word)
qed

lemma ADDRESS_MASK_eq: "ADDRESS_MASK = mask 52 AND NOT (mask 12)"
  by (simp add: ADDRESS_MASK_def mask_eq_exp_minus_1)

lemma bit_ADDRESS_MASK: "bit ADDRESS_MASK k \<longleftrightarrow> 12 \<le> k \<and> k < 52"
  unfolding ADDRESS_MASK_eq by (auto simp: bit_and_iff bit_not_iff bit_mask_iff possible_bit_word)

lemma and_ADDRESS_MASK:
  assumes "aligned p" "unat p < 2 ^ 52"
  shows "p AND ADDRESS_MASK = p"
proof (rule bit_eqI)
  fix k
  have "unat (take_bit 52 p) = unat p"
    unfolding unsigned_take_bit_eq using assms(2) by (simp add: take_bit_nat_eq_self)
  then have "take_bit 52 p = p" by (rule unsigned_word_eqI)
  then have "bit p k \<Longrightarrow> k < 52" by (metis bit_take_bit_iff)
  then show "bit (p AND ADDRESS_MASK) k = bit p k"
    using aligned_bit [OF assms(1), of k] by (cases "k < 12") (auto simp: bit_and_iff bit_ADDRESS_MASK)
qed

lemma entry_address:
  assumes "aligned p" "unat p < 2 ^ 52" "attrs AND ADDRESS_MASK = 0"
  shows "(p OR attrs OR PRESENT) AND ADDRESS_MASK = p"
proof -
  have "PRESENT AND ADDRESS_MASK = 0"
    by (rule bit_eqI) (simp add: bit_and_iff bit_PRESENT bit_ADDRESS_MASK)
  then show ?thesis
    using and_ADDRESS_MASK [OF assms(1,2)] assms(3) by (simp add: bit.conj_disj_distrib2)
qed

lemma page_entry_address:
  assumes "i < 512"
  shows "page_entry i AND ADDRESS_MASK = of_nat i * PAGE_SIZE" "bit (page_entry i) 0"
proof -
  have "aligned (page_at 0 i)" by (rule aligned_page_at) (simp add: aligned_def)
  then have al: "aligned (of_nat i * PAGE_SIZE)" by (simp add: page_at_def)
  have "unat (of_nat i * PAGE_SIZE) = i * 4096"
    using assms by (simp add: PAGE_SIZE_def unat_word_ariths unat_of_nat)
  moreover have "XD AND ADDRESS_MASK = 0"
    by (rule bit_eqI) (auto simp: bit_and_iff bit_XD bit_ADDRESS_MASK)
  ultimately show "page_entry i AND ADDRESS_MASK = of_nat i * PAGE_SIZE"
    unfolding page_entry_def using assms by (intro entry_address [OF al]) simp_all
  show "bit (page_entry i) 0" by (simp add: page_entry_def bit_or_iff bit_PRESENT)
qed

lemma page_plus_offset:
  assumes "x < 0x200000"
  shows "of_nat (x div 4096) * PAGE_SIZE + take_bit 12 (of_nat x) = (of_nat x :: u64)"
    "take_bit 12 (KERNEL_VMA_OFFSET + of_nat x) = take_bit 12 (of_nat x)"
proof -
  have t: "take_bit 12 (of_nat x :: u64) = of_nat (x mod 4096)"
  proof -
    have "take_bit 12 (of_nat x :: u64) = of_nat (take_bit 12 x)" by (simp only: of_nat_take_bit)
    moreover have "take_bit 12 x = x mod 4096" by (simp add: take_bit_eq_mod)
    ultimately show ?thesis by simp
  qed
  have "of_nat (x div 4096) * PAGE_SIZE + of_nat (x mod 4096) = (of_nat (x div 4096 * 4096 + x mod 4096) :: u64)"
    by (simp only: PAGE_SIZE_def of_nat_add of_nat_mult of_nat_numeral)
  then show "of_nat (x div 4096) * PAGE_SIZE + take_bit 12 (of_nat x) = (of_nat x :: u64)"
    unfolding t by (simp only: div_mult_mod_eq)
  have low: "unat (take_bit 12 w) = unat w mod 4096" for w :: u64
    unfolding unsigned_take_bit_eq by (simp add: take_bit_eq_mod)
  have "unat (KERNEL_VMA_OFFSET + of_nat x) = 4096 * 0xFFFFFFFF80000 + x" "unat (of_nat x :: u64) = x"
    using assms by (simp_all add: KERNEL_VMA_OFFSET_def unat_add_u64 unat_of_nat)
  then have "unat (take_bit 12 (KERNEL_VMA_OFFSET + of_nat x)) = unat (take_bit 12 (of_nat x :: u64))"
    unfolding low by (metis mod_mult_self4)
  then show "take_bit 12 (KERNEL_VMA_OFFSET + of_nat x) = take_bit 12 (of_nat x)"
    by (rule unsigned_word_eqI)
qed

subsection \<open>Page protection\<close>

text \<open>The entry of a page after \<^verbatim>\<open>enable_kernel_page_protection\<close>, by the sections the
  page belongs to (the number of pages of each section is an argument).\<close>

definition section_pages :: "u64 \<Rightarrow> u64 \<Rightarrow> nat" where
  "section_pages start stop = unat (stop - start) div 4096"

definition section_ok :: "u64 \<Rightarrow> u64 \<Rightarrow> bool" where
  "section_ok start stop \<longleftrightarrow> aligned start \<and> aligned stop \<and> unat (stop - start) \<le> 2 ^ 48"

definition section_paths :: "u64 \<Rightarrow> u64 \<Rightarrow> nat list set" where
  "section_paths start stop = page_paths start (section_pages start stop)"

definition kernel_sections :: "symbols \<Rightarrow> (u64 \<times> u64) list" where
  "kernel_sections y = [(text_start y, text_end y), (rodata_start y, rodata_end y),
     (data_start y, data_end y), (bss_start y, bss_end y)]"

lemma section_end:
  assumes "section_ok start stop"
  shows "stop = page_at start (section_pages start stop)" "section_pages start stop \<le> 2 ^ 36"
proof -
  have "aligned (stop - start)" using assms by (simp add: section_ok_def aligned_diff)
  then have "unat (stop - start) = section_pages start stop * 4096"
    unfolding aligned_unat section_pages_def by (metis add.right_neutral div_mult_mod_eq)
  then have "stop - start = of_nat (section_pages start stop * 4096)" by (metis of_nat_unat ucast_id)
  then show "stop = page_at start (section_pages start stop)"
    by (simp add: page_at_def PAGE_SIZE_def algebra_simps)
  show "section_pages start stop \<le> 2 ^ 36" 
    using assms div_le_mono [of "unat (stop - start)" "2 ^ 48" 4096]
    by (simp add: section_ok_def section_pages_def)
qed

lemma then_pages_Some_Inr:
  "then_pages r k = Some (Inr s') \<longleftrightarrow> (\<exists>s. r = Some (Inr s) \<and> k s = Some (Inr s'))"
  by (auto simp: then_pages_def split: option.splits sum.splits)

lemma lookups_ok_state: "lookups_ok as s = Inr s' \<Longrightarrow> s' = s"
  by (induction "as") (auto simp: rbind_eq_Inr_iff)

lemma present_entry_Some: "present_entry e \<Longrightarrow> e \<noteq> None"
  by (cases e) (simp_all add: present_entry_def)

text \<open>One loop of the protection pass: the entries of the section are rewritten, others are kept.\<close>

lemma protect_loop:
  assumes "entry_update f acc g" "pt_wf s" "section_ok a b" "pages_until f a b s = Some (Inr s')"
  shows "pt_wf s'" "syms s' = syms s" "q \<in> section_paths a b \<Longrightarrow> acc (pte s q)"
    "valid_path q \<Longrightarrow> pte s' q = (if q \<in> section_paths a b then map_option g (pte s q) else pte s q)"
proof -
  note e = section_end [OF assms(3)]
  have run: "pages_until f a (page_at a (section_pages a b)) s = Some (Inr s')" using assms(4) e(1) by simp
  have al: "aligned a" using assms(3) by (simp add: section_ok_def)
  note up = entry_update.pages_until_Inr [OF assms(1,2) al e(2) run]
  show "pt_wf s'" "syms s' = syms s" using up(1,2) by simp_all
  show "q \<in> section_paths a b \<Longrightarrow> acc (pte s q)" using up(5) by (auto simp: section_paths_def)
  show "valid_path q \<Longrightarrow> pte s' q = (if q \<in> section_paths a b then map_option g (pte s q) else pte s q)"
    using up(6) by (simp add: section_paths_def)
qed

lemma section_paths_valid: "q \<in> section_paths a b \<Longrightarrow> valid_path q"
  unfolding section_paths_def by (rule page_paths_valid)

lemma KERNEL_STACK_section:
  assumes "aligned kernel_stack_base"
  shows "section_ok (kernel_stack_base - KERNEL_STACK_SIZE) kernel_stack_base"
    "aligned (kernel_stack_base - KERNEL_STACK_SIZE - PAGE_SIZE)"
proof -
  have "aligned KERNEL_STACK_SIZE" by (simp add: aligned_def KERNEL_STACK_SIZE_def PAGE_SIZE_def)
  then have top: "aligned (kernel_stack_base - KERNEL_STACK_SIZE)" using assms by (intro aligned_diff)
  then show "aligned (kernel_stack_base - KERNEL_STACK_SIZE - PAGE_SIZE)"
    by (rule aligned_diff) simp
  show "section_ok (kernel_stack_base - KERNEL_STACK_SIZE) kernel_stack_base"
    using top assms by (simp add: section_ok_def) (simp add: KERNEL_STACK_SIZE_def PAGE_SIZE_def)
qed

text \<open>
  The rights that the entry of a page gives kernel code: without write protection in \<^verbatim>\<open>CR0\<close> the kernel writes
  any page that is present, and without the bit in \<^verbatim>\<open>EFER\<close> the execute-disable bit has no effect. (The
  entries above, which \<^verbatim>\<open>allocate_and_descend\<close> and \<^verbatim>\<open>early_init\<close> write, take no right away.)
\<close>

definition kernel_writable :: "cpu \<Rightarrow> u64 option \<Rightarrow> bool" where
  "kernel_writable c e \<longleftrightarrow> (case e of None \<Rightarrow> False | Some v \<Rightarrow> bit v 0 \<and> (bit v 1 \<or> \<not> write_protected c))"

definition kernel_executable :: "cpu \<Rightarrow> u64 option \<Rightarrow> bool" where
  "kernel_executable c e \<longleftrightarrow> (case e of None \<Rightarrow> False | Some v \<Rightarrow> bit v 0 \<and> \<not> (nx_enabled c \<and> bit v 63))"

text \<open>The entry a page is left with, by the sections it belongs to.\<close>

definition no_execute :: "u64 option \<Rightarrow> bool" where
  "no_execute e \<longleftrightarrow> (\<exists>v. e = Some v \<and> bit v 63)"

definition read_only :: "u64 option \<Rightarrow> bool" where
  "read_only e \<longleftrightarrow> (\<exists>v. e = Some v \<and> \<not> bit v 1)"

definition text_entry :: "u64 option \<Rightarrow> bool" where
  "text_entry e \<longleftrightarrow> (\<exists>v. e = Some v \<and> bit v 0 \<and> \<not> bit v 1 \<and> \<not> bit v 63)"

lemma entry_rewrites:
  "present_entry e \<Longrightarrow> text_entry (map_option (\<lambda>e. e AND NOT (XD OR RW)) e)"
  "e \<noteq> None \<Longrightarrow> no_execute (map_option (\<lambda>e. (e OR XD) AND NOT RW) e)"
  "e \<noteq> None \<Longrightarrow> no_execute (map_option (\<lambda>e. e OR XD OR RW) e)"
  "e \<noteq> None \<Longrightarrow> no_execute (map_option (\<lambda>e. e OR XD OR RW OR PRESENT) e)"
  "no_execute e \<Longrightarrow> no_execute (map_option (\<lambda>e. e AND NOT PRESENT) e)"
  "read_only e \<Longrightarrow> read_only (map_option (\<lambda>e. e AND NOT PRESENT) e)"
  by (cases e; auto simp: no_execute_def read_only_def text_entry_def present_entry_def bit_and_iff bit_or_iff
    bit_not_iff bit_XD bit_RW bit_PRESENT)+

lemma entry_rights:
  "no_execute e \<Longrightarrow> nx_enabled c \<Longrightarrow> \<not> kernel_executable c e"
  "read_only e \<Longrightarrow> write_protected c \<Longrightarrow> \<not> kernel_writable c e"
  "text_entry e \<Longrightarrow> kernel_executable c e" "text_entry e \<Longrightarrow> \<not> write_protected c \<Longrightarrow> kernel_writable c e"
  "text_entry e \<Longrightarrow> read_only e" "text_entry e \<Longrightarrow> e \<noteq> None" "no_execute e \<Longrightarrow> e \<noteq> None"
  by (auto simp: no_execute_def read_only_def text_entry_def kernel_executable_def kernel_writable_def)

text \<open>The pages of the sections that follow the text, with the stack.\<close>

definition data_paths :: "u64 \<Rightarrow> symbols \<Rightarrow> nat list set" where
  "data_paths kernel_stack_base y = section_paths (rodata_start y) (rodata_end y) \<union>
     section_paths (data_start y) (data_end y) \<union> section_paths (bss_start y) (bss_end y) \<union>
     section_paths (kernel_stack_base - KERNEL_STACK_SIZE) kernel_stack_base"

definition text_paths :: "symbols \<Rightarrow> nat list set" where
  "text_paths y = section_paths (text_start y) (text_end y)"

lemma protect_pages_effect:
  assumes wf: "pt_wf s" and run: "protect_kernel_pages kernel_stack_base s = Some (Inr s')"
    and ok: "\<forall>(a, b) \<in> set (kernel_sections (syms s)). section_ok a b" "aligned kernel_stack_base"
  shows "pt_wf s'" "syms s' = syms s" "translation s' (path_of (kernel_stack_base - KERNEL_STACK_SIZE - PAGE_SIZE)) = None"
    "q \<in> data_paths kernel_stack_base (syms s) \<Longrightarrow> no_execute (pte s' q)"
    "q \<in> text_paths (syms s) - data_paths kernel_stack_base (syms s) \<Longrightarrow> read_only (pte s' q) \<and>
      (q \<noteq> path_of (kernel_stack_base - KERNEL_STACK_SIZE - PAGE_SIZE) \<longrightarrow> text_entry (pte s' q))"
proof -
  let ?y = "syms s" and ?top = "kernel_stack_base - KERNEL_STACK_SIZE"
  let ?g = "kernel_stack_base - KERNEL_STACK_SIZE - PAGE_SIZE"
  from run obtain s1 s2 s3 s4 s6 s7 where
    s1: "pages_until protect_text (text_start ?y) (text_end ?y) s = Some (Inr s1)" and
    s2: "pages_until protect_rodata (rodata_start ?y) (rodata_end ?y) s1 = Some (Inr s2)" and
    s3: "pages_until protect_data (data_start ?y) (data_end ?y) s2 = Some (Inr s3)" and
    s4: "pages_until protect_bss (bss_start ?y) (bss_end ?y) s3 = Some (Inr s4)" and
    s6: "pages_until protect_stack ?top kernel_stack_base s4 = Some (Inr s6)" and
    s7: "protect_guard ?g s6 = Inr s7" "s' = s7"
    unfolding protect_kernel_pages_def Let_def then_pages_Some_Inr
    by (auto simp: rbind_eq_Inr_iff dest!: lookups_ok_state)
  have sec: "section_ok (text_start ?y) (text_end ?y)" "section_ok (rodata_start ?y) (rodata_end ?y)"
      "section_ok (data_start ?y) (data_end ?y)" "section_ok (bss_start ?y) (bss_end ?y)"
    using ok(1) by (auto simp: kernel_sections_def)
  note k1 = protect_loop [OF text_pages.entry_update_axioms wf sec(1) s1]
  note k2 = protect_loop [OF rodata_pages.entry_update_axioms k1(1) sec(2) s2]
  note k3 = protect_loop [OF data_pages.entry_update_axioms k2(1) sec(3) s3]
  note k4 = protect_loop [OF bss_pages.entry_update_axioms k3(1) sec(4) s4]
  note k6 = protect_loop [OF stack_pages.entry_update_axioms k4(1) KERNEL_STACK_section(1) [OF ok(2)] s6]
  have g: "pt_wf s7" "syms s7 = syms s6" "\<And>q. valid_path q \<Longrightarrow> pte s7 q =
      (if q = path_of ?g then map_option (\<lambda>e. e AND NOT PRESENT) (pte s6 q) else pte s6 q)"
    using guard_page.succeeds [OF k6(1) KERNEL_STACK_section(2) [OF ok(2)]]
      guard_page.fails [OF k6(1) KERNEL_STACK_section(2) [OF ok(2)]] s7(1)
    by (cases "present_entry (pte s6 (path_of ?g))"; force)+
  show "pt_wf s'" "syms s' = syms s" using g(1,2) s7(2) k1(2) k2(2) k3(2) k4(2) k6(2) by simp_all
  show "translation s' (path_of ?g) = None"
    using g(3) [of "path_of ?g"] s7(2)
    by (auto simp: translation_def bit_and_iff bit_not_iff bit_PRESENT split: option.splits)
  note acc = present_entry_Some [OF k2(3)] present_entry_Some [OF k3(3)] present_entry_Some [OF k4(3)] k6(3)
  show "no_execute (pte s' q)" if q: "q \<in> data_paths kernel_stack_base ?y"
  proof -
    have v: "valid_path q" using q unfolding data_paths_def by (auto intro: section_paths_valid)
    have 2: "q \<in> section_paths (rodata_start ?y) (rodata_end ?y) \<Longrightarrow> no_execute (pte s2 q)"
      using k2(4) [OF v] acc(1) entry_rewrites(2) by simp
    have 3: "q \<in> section_paths (data_start ?y) (data_end ?y) \<or> no_execute (pte s2 q) \<Longrightarrow> no_execute (pte s3 q)"
      using k3(4) [OF v] acc(2) entry_rewrites(3) by (auto split: if_splits)
    have 4: "q \<in> section_paths (bss_start ?y) (bss_end ?y) \<or> no_execute (pte s3 q) \<Longrightarrow> no_execute (pte s4 q)"
      using k4(4) [OF v] acc(3) entry_rewrites(3) by (auto split: if_splits)
    have 6: "q \<in> section_paths ?top kernel_stack_base \<or> no_execute (pte s4 q) \<Longrightarrow> no_execute (pte s6 q)"
      using k6(4) [OF v] acc(4) entry_rewrites(4) by (auto split: if_splits)
    have "no_execute (pte s6 q)" using q 2 3 4 6 by (auto simp: data_paths_def)
    then show ?thesis using g(3) [OF v] entry_rewrites(5) [of "pte s6 q"] s7(2) by (auto split: if_splits)
  qed
  show "read_only (pte s' q) \<and> (q \<noteq> path_of ?g \<longrightarrow> text_entry (pte s' q))"
    if q: "q \<in> text_paths ?y - data_paths kernel_stack_base ?y"
  proof -
    have v: "valid_path q" using q by (auto simp: text_paths_def intro: section_paths_valid)
    have q': "q \<in> section_paths (text_start ?y) (text_end ?y)" "q \<notin> section_paths (rodata_start ?y) (rodata_end ?y)"
      "q \<notin> section_paths (data_start ?y) (data_end ?y)" "q \<notin> section_paths (bss_start ?y) (bss_end ?y)"
      "q \<notin> section_paths ?top kernel_stack_base" using q by (simp_all add: text_paths_def data_paths_def)
    have "text_entry (pte s1 q)" using k1(4) [OF v] k1(3) [OF q'(1)] entry_rewrites(1) q'(1) by simp
    then have t: "text_entry (pte s6 q)" using k2(4) [OF v] k3(4) [OF v] k4(4) [OF v] k6(4) [OF v] q' by simp
    then show ?thesis using g(3) [OF v] entry_rewrites(6) [OF entry_rights(5) [OF t]] entry_rights(5) [OF t] s7(2) by (auto split: if_splits)
  qed
qed

text \<open>The registers, the tables and \<^verbatim>\<open>CR3\<close> after the whole function.\<close>

lemma enable_protection_Inr:
  "enable_kernel_page_protection b (c, s) = Some (Inr (c', s')) \<longleftrightarrow> protect_kernel_pages b s = Some (Inr s') \<and>
     c' = (enable_write_protection (enable_execute_disable c))\<lparr>cr3 := kernel_pml4 (syms s') - KERNEL_VMA_OFFSET\<rparr>"
  by (auto simp: enable_kernel_page_protection_def Let_def rbind_eq_Inr_iff split: option.splits)

lemma protection_registers:
  "nx_enabled ((enable_write_protection (enable_execute_disable c))\<lparr>cr3 := x\<rparr>)"
  "cr0 ((enable_write_protection (enable_execute_disable c))\<lparr>cr3 := x\<rparr>) = cr0 c"
  by (simp_all add: nx_enabled_def enable_write_protection_def execute_disable_set Let_def)
    (simp add: enable_execute_disable_def writesmr_value Let_def)

subsection \<open>The protection pass on the initial tables\<close>

lemma valid_path_digits: "valid_path [a, b, c, d] \<longleftrightarrow> a < 512 \<and> b < 512 \<and> c < 512 \<and> d < 512"
  unfolding valid_path_def all_less_4 by simp

definition kernel_paths :: "nat list set" where
  "kernel_paths = (\<lambda>i. [i, 0, 0x1FE, 0x1FF]) ` {0x100..<0x200}"

definition kernel_range :: "u64 \<Rightarrow> nat \<Rightarrow> nat \<Rightarrow> bool" where
  "kernel_range a x n \<longleftrightarrow> a = KERNEL_VMA_OFFSET + of_nat x \<and> x mod 4096 = 0 \<and>
     0x100000 \<le> x \<and> x + 4096 * n \<le> 0x200000"

lemma kernel_range_path:
  assumes "kernel_range a x n" "k < n"
  shows "path_of (page_at a k) = [x div 4096 + k, 0, 0x1FE, 0x1FF]" "path_of (page_at a k) \<in> kernel_paths"
proof -
  have "page_at a k = KERNEL_VMA_OFFSET + of_nat (x + 4096 * k)"
    using assms(1) by (simp add: page_at_def kernel_range_def PAGE_SIZE_def)
  moreover have lt: "x + 4096 * k < 0x200000" using assms by (simp add: kernel_range_def)
  ultimately show p: "path_of (page_at a k) = [x div 4096 + k, 0, 0x1FE, 0x1FF]"
    using path_of_kernel [OF lt] by simp
  have "0x100 \<le> x div 4096" using assms(1) div_le_mono [of "0x100000" x 4096] by (simp add: kernel_range_def)
  moreover have "x div 4096 + k < 0x200" using lt by simp
  ultimately show "path_of (page_at a k) \<in> kernel_paths" unfolding p kernel_paths_def by auto
qed

lemma kernel_range_aligned:
  assumes "kernel_range a x n" shows "aligned a"
proof -
  have "unat a = 4096 * 0xFFFFFFFF80000 + x" if "x < 0x200000"
    using assms that by (simp add: kernel_range_def KERNEL_VMA_OFFSET_def unat_add_u64 unat_of_nat)
  moreover have "aligned a" if "x = 0x200000"
    using assms that by (simp add: kernel_range_def KERNEL_VMA_OFFSET_def aligned_def)
  moreover have "x \<le> 0x200000" using assms by (simp add: kernel_range_def)
  ultimately show ?thesis
    using assms unfolding aligned_unat by (cases "x = 0x200000") (auto simp: kernel_range_def)
qed

definition keeps_present :: "(u64 \<Rightarrow> u64) \<Rightarrow> bool" where
  "keeps_present g \<longleftrightarrow> (\<forall>e. bit e 0 \<longrightarrow> bit (g e) 0)"

lemma keeps_present_rewrites:
  "keeps_present (\<lambda>e. e AND NOT (XD OR RW))" "keeps_present (\<lambda>e. (e OR XD) AND NOT RW)"
  "keeps_present (\<lambda>e. e OR XD OR RW)" "keeps_present (\<lambda>e. e OR XD OR RW OR PRESENT)"
  by (auto simp: keeps_present_def bit_and_iff bit_or_iff bit_not_iff bit_XD bit_RW bit_PRESENT)

lemma present_entry_map: "keeps_present g \<Longrightarrow> present_entry e \<Longrightarrow> present_entry (map_option g e)"
  by (cases e) (auto simp: present_entry_def keeps_present_def)

lemma protect_loop_runs:
  assumes "entry_update f acc g" "keeps_present g" "\<And>e. present_entry e \<Longrightarrow> acc e"
    and "pt_wf s" "kernel_range a x n" "\<forall>q \<in> kernel_paths. present_entry (pte s q)"
  shows "\<exists>s'. pages_until f a (page_at a n) s = Some (Inr s') \<and> pt_wf s' \<and> syms s' = syms s \<and>
    (\<forall>q \<in> kernel_paths. present_entry (pte s' q))"
proof -
  have sub: "page_paths a n \<subseteq> kernel_paths"
    using kernel_range_path(2) [OF assms(5)] by (auto simp: page_paths_def)
  have n: "n \<le> 2 ^ 36" using assms(5) by (simp add: kernel_range_def)
  have "\<forall>q \<in> page_paths a n. acc (pte s q)" using sub assms(3,6) by blast
  from entry_update.pages_until_total [OF assms(1,4) kernel_range_aligned [OF assms(5)] n this]
  obtain s' where s': "pages_until f a (page_at a n) s = Some (Inr s')" "pt_wf s'" "syms s' = syms s"
    "\<And>q. valid_path q \<Longrightarrow> pte s' q = (if q \<in> page_paths a n then map_option g (pte s q) else pte s q)"
    by auto
  have "valid_path q" if "q \<in> kernel_paths" for q
    using that by (auto simp: kernel_paths_def valid_path_def all_less_4)
  then have "present_entry (pte s' q)" if "q \<in> kernel_paths" for q
    using s'(4) that assms(6) present_entry_map [OF assms(2)] by simp
  then show ?thesis using s' by blast
qed

lemma lookups_ok_run:
  assumes "pt_wf s" "\<forall>a \<in> set as. present_entry (pte s (path_of a))"
  shows "lookups_ok as s = Inr s"
  using assms(2)
proof (induction "as")
  case (Cons a "as")
  then obtain e where "pte s (path_of a) = Some e" "bit e 0"
    by (auto simp: present_entry_def split: option.splits)
  then show ?case using Cons by (simp add: get_physical_address_eq [OF assms(1)])
qed simp

lemma early_init_kernel_present:
  assumes "boot_ok s" "q \<in> kernel_paths"
  shows "present_entry (pte (paging_early_init s) q)"
  using assms page_entry_address(2) early_init_kernel_pte [OF assms(1)]
  by (auto simp: kernel_paths_def present_entry_def)

lemma enable_protection_runs:
  assumes boot: "boot_ok s"
    and sec: "kernel_range (text_start (syms s)) xt nt" "text_end (syms s) = page_at (text_start (syms s)) nt"
      "kernel_range (rodata_start (syms s)) xr nr" "rodata_end (syms s) = page_at (rodata_start (syms s)) nr"
      "kernel_range (data_start (syms s)) xd nd" "data_end (syms s) = page_at (data_start (syms s)) nd"
      "kernel_range (bss_start (syms s)) xb nb" "bss_end (syms s) = page_at (bss_start (syms s)) nb"
    and stack: "kernel_range guard xg 17" "bss_end (syms s) < page_at guard 1"
    and ends: "\<forall>a \<in> set [text_start (syms s), text_end (syms s), rodata_start (syms s), rodata_end (syms s),
        data_start (syms s), data_end (syms s), bss_start (syms s), bss_end (syms s)].
        path_of a \<in> kernel_paths \<and> path_of a \<noteq> path_of guard"
  shows "\<exists>s'. protect_kernel_pages (page_at guard 17) (paging_early_init s) = Some (Inr s')"
proof -
  let ?y = "syms s" and ?s = "paging_early_init s"
  note wf = early_init_wf [OF boot]
  have all: "\<forall>q \<in> kernel_paths. present_entry (pte ?s q)" using early_init_kernel_present [OF boot] by blast
  obtain s1 where s1: "pages_until protect_text (text_start ?y) (text_end ?y) ?s = Some (Inr s1)" "pt_wf s1"
      "syms s1 = ?y" "\<forall>q \<in> kernel_paths. present_entry (pte s1 q)"
    using protect_loop_runs [OF text_pages.entry_update_axioms keeps_present_rewrites(1) _ wf sec(1) all] sec(2) by auto
  obtain s2 where s2: "pages_until protect_rodata (rodata_start ?y) (rodata_end ?y) s1 = Some (Inr s2)" "pt_wf s2"
      "syms s2 = ?y" "\<forall>q \<in> kernel_paths. present_entry (pte s2 q)"
    using protect_loop_runs [OF rodata_pages.entry_update_axioms keeps_present_rewrites(2) _ s1(2) sec(3) s1(4)] sec(4) s1(3) by auto
  obtain s3 where s3: "pages_until protect_data (data_start ?y) (data_end ?y) s2 = Some (Inr s3)" "pt_wf s3"
      "syms s3 = ?y" "\<forall>q \<in> kernel_paths. present_entry (pte s3 q)"
    using protect_loop_runs [OF data_pages.entry_update_axioms keeps_present_rewrites(3) _ s2(2) sec(5) s2(4)] sec(6) s2(3) by auto
  obtain s4 where s4: "pages_until protect_bss (bss_start ?y) (bss_end ?y) s3 = Some (Inr s4)" "pt_wf s4"
      "syms s4 = ?y" "\<forall>q \<in> kernel_paths. present_entry (pte s4 q)"
    using protect_loop_runs [OF bss_pages.entry_update_axioms keeps_present_rewrites(3) _ s3(2) sec(7) s3(4)] sec(8) s3(3) by auto
  have kr: "kernel_range (page_at guard 1) (xg + 4096) 16"
    using stack(1) by (simp add: kernel_range_def page_at_def PAGE_SIZE_def)
  have top: "page_at guard 17 - KERNEL_STACK_SIZE = page_at guard 1" "page_at (page_at guard 1) 16 = page_at guard 17"
      "page_at guard 1 - PAGE_SIZE = guard"
    by (simp_all add: page_at_def KERNEL_STACK_SIZE_def PAGE_SIZE_def)
  obtain s6 where s6: "pages_until protect_stack (page_at guard 1) (page_at guard 17) s4 = Some (Inr s6)" "pt_wf s6"
      "\<forall>q \<in> kernel_paths. present_entry (pte s6 q)"
    using protect_loop_runs [OF stack_pages.entry_update_axioms keeps_present_rewrites(4) _ s4(2) kr s4(4)]
      present_entry_Some top(2) by auto
  have gp: "path_of guard \<in> kernel_paths" using kernel_range_path(2) [OF stack(1), of 0] by simp
  obtain s7 where s7: "protect_guard guard s6 = Inr s7" "pt_wf s7"
      "\<And>q. valid_path q \<Longrightarrow> q \<noteq> path_of guard \<Longrightarrow> pte s7 q = pte s6 q"
    using guard_page.succeeds [OF s6(2) kernel_range_aligned [OF stack(1)]] gp s6(3) by auto
  have "lookups_ok [text_start ?y, text_end ?y, rodata_start ?y, rodata_end ?y, data_start ?y, data_end ?y,
      bss_start ?y, bss_end ?y] s7 = Inr s7"
  proof (rule lookups_ok_run [OF s7(2)], intro ballI)
    fix a assume a: "a \<in> set [text_start ?y, text_end ?y, rodata_start ?y, rodata_end ?y, data_start ?y, data_end ?y,
      bss_start ?y, bss_end ?y]"
    then have "path_of a \<in> kernel_paths" "path_of a \<noteq> path_of guard" using ends by blast+
    then show "present_entry (pte s7 (path_of a))" using s7(3) [of "path_of a"] s6(3) by simp
  qed
  then show ?thesis
    unfolding protect_kernel_pages_def Let_def top
    using s1(1) s2(1) s3(1) s4(1) s6(1) s7(1) stack(2)
    by (simp add: then_pages_def del: One_nat_def lookups_ok.simps)
qed

subsection \<open>Addresses inside a page\<close>

lemma page_offset_path:
  assumes "aligned va" "unat off < 4096"
  shows "path_of (va + off) = path_of va" "take_bit 12 (va + off) = off"
proof -
  obtain n where n: "unat va = 4096 * n" using assms(1) unfolding aligned_unat by (metis dvdE mod_eq_0_iff_dvd)
  then have "4096 * n + unat off < 2 ^ 64" using unat_u64_lt [of va] assms(2) by simp
  then have u: "unat (va + off) = unat off + 4096 * n" using n by (simp add: unat_add_u64)
  have div: "(unat off + 4096 * n) div (4096 * k) = 4096 * n div (4096 * k)" for k
    using assms(2) by (simp add: div_mult2_eq)
  show "path_of (va + off) = path_of va"
    unfolding path_of_digits u n using div [of 1] div [of 512] div [of "262144"] div [of "134217728"] by simp
  have "unat (take_bit 12 (va + off)) = unat off"
    unfolding unsigned_take_bit_eq u using assms(2) by (simp add: take_bit_eq_mod)
  then show "take_bit 12 (va + off) = off" by (rule unsigned_word_eqI)
qed

subsection \<open>A concrete boot state\<close>

definition sample_symbols :: symbols where
  "sample_symbols = \<lparr>kernel_pml4 = 0xFFFFFFFF80101000, kernel_pml3 = 0xFFFFFFFF80102000,
     kernel_pml2 = 0xFFFFFFFF80103000, kernel_pml1 = 0xFFFFFFFF80104000,
     identity_pml3 = 0xFFFFFFFF80105000, identity_pml2 = 0xFFFFFFFF80106000,
     identity_pml1 = 0xFFFFFFFF80107000, static_tables = 0xFFFFFFFF80108000,
     text_start = 0xFFFFFFFF80110000, text_end = 0xFFFFFFFF80111000,
     rodata_start = 0xFFFFFFFF80111000, rodata_end = 0xFFFFFFFF80112000,
     data_start = 0xFFFFFFFF80112000, data_end = 0xFFFFFFFF80113000,
     bss_start = 0xFFFFFFFF80113000, bss_end = 0xFFFFFFFF80114000\<rparr>"

definition sample_boot :: paging_state where
  "sample_boot = \<lparr>mem = (\<lambda>_. 0), syms = sample_symbols, pt_base = 0, allocate_set = False,
     num_static_tables_left = MAX_STATIC_TABLES, dynamic_tables = 0, num_dynamic_tables_left = 0,
     invalidated = []\<rparr>"

lemma static_list_sample:
  "static_list sample_symbols = [0xFFFFFFFF8010F000, 0xFFFFFFFF8010E000, 0xFFFFFFFF8010D000,
     0xFFFFFFFF8010C000, 0xFFFFFFFF8010B000, 0xFFFFFFFF8010A000, 0xFFFFFFFF80109000, 0xFFFFFFFF80108000]"
  by (simp add: static_list_def sample_symbols_def MAX_STATIC_TABLES_def upt_conv_Cons)

lemma sample_boot_ok: "boot_ok sample_boot"
proof -
  have f: "syms sample_boot = sample_symbols" "mem sample_boot = (\<lambda>_. 0)"
      "num_static_tables_left sample_boot = MAX_STATIC_TABLES" "dynamic_tables sample_boot = 0"
    by (simp_all add: sample_boot_def)
  have i: "init_tables sample_symbols = [0xFFFFFFFF80101000, 0xFFFFFFFF80102000, 0xFFFFFFFF80103000,
      0xFFFFFFFF80104000, 0xFFFFFFFF80105000, 0xFFFFFFFF80106000, 0xFFFFFFFF80107000]"
    by (simp add: init_tables_def sample_symbols_def)
  show ?thesis
    unfolding boot_ok_def f i static_list_sample
    by (simp add: aligned_def KERNEL_VMA_OFFSET_def)
qed

lemma sample_free: "length (free_tables sample_boot) = 8"
proof -
  have "syms sample_boot = sample_symbols" by (simp add: sample_boot_def)
  then show ?thesis using boot_free_tables [OF sample_boot_ok] static_list_sample by simp
qed

lemmas sample_wf = early_init_wf [OF sample_boot_ok]

lemma sample_lacking: "lacking (paging_early_init sample_boot) p \<le> length (free_tables (paging_early_init sample_boot))"
  using lacking_3 [of "paging_early_init sample_boot" p] by (simp add: sample_free)

lemma sample_unmapped: "translation (paging_early_init sample_boot) [a, 2, 0, 0] = None"
proof -
  have m: "identity_pml2 sample_symbols \<in> set (init_tables sample_symbols @ static_list sample_symbols)"
    "identity_pml3 sample_symbols \<in> set (init_tables sample_symbols @ static_list sample_symbols)"
    "kernel_pml4 sample_symbols \<in> set (init_tables sample_symbols @ static_list sample_symbols)"
    by (simp_all add: init_tables_def)
  have y: "syms sample_boot = sample_symbols" by (simp add: sample_boot_def)
  note e = early_init_mem [OF sample_boot_ok, unfolded y]
  show ?thesis
    using link_entry_of_table(1) [OF sample_boot_ok, unfolded y]
    unfolding translation_def pte_table
    by (simp add: numeral_3_eq_3 y e m Let_def init_tables_def sample_symbols_def)
qed

subsection \<open>Properties\<close>

text \<open>
  C1. Mapping a page and looking an address up are inverse: after
  \<^verbatim>\<open>map_page(physical, virtual, attrs)\<close> on well-formed tables with a spare table for each
  level the address lacks, every
  address of the page translates to the physical page plus its offset, the tables are
  well-formed, and no other page's translation has changed.
\<close>

theorem map_page_lookup:
  assumes "pt_wf s" "lacking s (path_of va) \<le> length (free_tables s)" "p mod PAGE_SIZE = 0" "va mod PAGE_SIZE = 0"
    "unat p < 2 ^ 52" "attrs AND ADDRESS_MASK = 0" "translation s (path_of va) = None"
  shows "\<exists>s'. map_page p va attrs s = Inr (sign_extend va 42, s') \<and> pt_wf s' \<and>
    (\<forall>off. unat off < 4096 \<longrightarrow> get_physical_address s' (va + off) = Inr (p + off)) \<and>
    (\<forall>w. path_of w \<noteq> path_of va \<longrightarrow> translation s' (path_of w) = translation s (path_of w))"
proof -
  have al: "aligned p" "aligned va" using assms(3,4) by (simp_all add: mod_PAGE_SIZE)
  obtain s' where s': "map_page p va attrs s = Inr (sign_extend va 42, s')" "pt_wf s'"
      "\<forall>q. valid_path q \<longrightarrow> translation s' q =
         (if q = path_of va then Some (p OR attrs OR PRESENT) else translation s q)"
    using map_page_effect [OF assms(1,2) al assms(7), of attrs] by auto
  have "get_physical_address s' (va + off) = Inr (p + off)" if "unat off < 4096" for off
    using get_physical_address_translation [OF s'(2), of "va + off"] s'(3) page_offset_path [OF al(2) that]
      entry_address [OF al(1) assms(5,6)] by simp
  then show ?thesis using s' by auto
qed

theorem map_page_lookup_witness:
  "\<exists>s'. map_page 0x5000 0x400000 3 (paging_early_init sample_boot) = Inr (sign_extend 0x400000 42, s') \<and>
     get_physical_address s' (0x400000 + 0x123) = Inr (0x5000 + 0x123)"
proof -
  have none: "translation (paging_early_init sample_boot) (path_of 0x400000) = None"
    by (simp add: path_of_digits sample_unmapped)
  have "(3 :: u64) AND ADDRESS_MASK = 0" by (simp add: ADDRESS_MASK_def)
  then obtain s' where s': "map_page 0x5000 0x400000 3 (paging_early_init sample_boot) = Inr (sign_extend 0x400000 42, s')"
      "\<forall>off. unat off < 4096 \<longrightarrow> get_physical_address s' (0x400000 + off) = Inr (0x5000 + off)"
    using map_page_lookup [OF sample_wf, of "0x400000" "0x5000" 3] none sample_lacking
    by (auto simp: PAGE_SIZE_def)
  then show ?thesis using s'(2) [rule_format, of "0x123"] by auto
qed

text \<open>
  \<^verbatim>\<open>map_page\<close> never replaces a mapping: on a page that is already present it panics.
\<close>

theorem map_page_twice:
  assumes "pt_wf s" "lacking s (path_of va) \<le> length (free_tables s)" "p mod PAGE_SIZE = 0" "va mod PAGE_SIZE = 0"
    "translation s (path_of va) \<noteq> None"
  shows "map_page p va attrs s = Inl (Panicked ''Tried to map already-present page!'')"
  using assms by (intro map_page_present) (simp_all add: mod_PAGE_SIZE)

theorem map_page_twice_witness:
  "map_page 0x5000 0x1000 3 (paging_early_init sample_boot) =
     Inl (Panicked ''Tried to map already-present page!'')"
proof -
  have "path_of 0x1000 = [1, 0, 0, 0]" by (simp add: path_of_digits)
  then have "translation (paging_early_init sample_boot) (path_of 0x1000) = Some (page_entry 1)"
    using early_init_identity_pte [OF sample_boot_ok, of 1] page_entry_address(2) [of 1]
    by (simp add: translation_def)
  then show ?thesis
    using map_page_twice [OF sample_wf sample_lacking, of "0x5000" "0x1000" 3] by (simp add: PAGE_SIZE_def)
qed

text \<open>
  C10. \<^verbatim>\<open>unmap_page\<close> removes exactly one translation: it succeeds if and only if the page
  is present, afterwards looking the page up fails its assertion, and every other page
  keeps its translation.
\<close>

theorem unmap_page_removes:
  assumes "pt_wf s" "va mod PAGE_SIZE = 0"
  shows "if translation s (path_of va) = None then \<exists>e. unmap_page va s = Inl e
    else \<exists>s'. unmap_page va s = Inr s' \<and> pt_wf s' \<and>
      (\<exists>msg. get_physical_address s' va = Inl (Assert_failed msg)) \<and>
      (\<forall>w. path_of w \<noteq> path_of va \<longrightarrow> translation s' (path_of w) = translation s (path_of w))"
proof -
  have al: "aligned va" using assms(2) by (simp add: mod_PAGE_SIZE)
  have pres: "present_entry (pte s (path_of va)) \<longleftrightarrow> translation s (path_of va) \<noteq> None"
    by (auto simp: present_entry_def translation_def split: option.split)
  show ?thesis
  proof (cases "present_entry (pte s (path_of va))")
    case False
    then show ?thesis using unmap.fails [OF assms(1) al] pres by simp
  next
    case True
    obtain s' where s': "unmap_page va s = Inr s'" "pt_wf s'"
      "\<And>q. valid_path q \<Longrightarrow> pte s' q =
         (if q = path_of va then map_option (\<lambda>e. e AND NOT PRESENT) (pte s q) else pte s q)"
      using unmap.succeeds [OF assms(1) al True] by auto
    have "translation s' (path_of va) = None"
      using s'(3) [of "path_of va"]
      by (auto simp: translation_def bit_and_iff bit_not_iff bit_PRESENT split: option.split)
    moreover have "translation s' (path_of w) = translation s (path_of w)" if "path_of w \<noteq> path_of va" for w
      using s'(3) [of "path_of w"] that by (simp add: translation_def)
    ultimately show ?thesis
      using s'(1,2) True pres get_physical_address_fault [OF s'(2), of va] by auto
  qed
qed

theorem unmap_page_removes_witness:
  "\<exists>s' msg. unmap_page 0x1000 (paging_early_init sample_boot) = Inr s' \<and>
     get_physical_address s' 0x1000 = Inl (Assert_failed msg)"
proof -
  have "path_of 0x1000 = [1, 0, 0, 0]" by (simp add: path_of_digits)
  then have "translation (paging_early_init sample_boot) (path_of 0x1000) = Some (page_entry 1)"
    using early_init_identity_pte [OF sample_boot_ok, of 1] page_entry_address(2) [of 1]
    by (simp add: translation_def)
  then show ?thesis using unmap_page_removes [OF sample_wf, of "0x1000"] by (auto simp: PAGE_SIZE_def)
qed

text \<open>
  C11. \<^verbatim>\<open>early_init\<close> builds well-formed tables in which the kernel's megabyte at
  \<^verbatim>\<open>KERNEL_VMA_OFFSET + 0x100000\<close> and the low two megabytes above the null page are
  mapped to the physical addresses they stand for, and the null page is not mapped.
\<close>

theorem early_init_maps:
  assumes "boot_ok s"
  shows "pt_wf (paging_early_init s) \<and>
    (\<forall>x. 0x100000 \<le> x \<and> x < 0x200000 \<longrightarrow>
       get_physical_address (paging_early_init s) (KERNEL_VMA_OFFSET + of_nat x) = Inr (of_nat x)) \<and>
    (\<forall>x. 0x1000 \<le> x \<and> x < 0x200000 \<longrightarrow>
       get_physical_address (paging_early_init s) (of_nat x) = Inr (of_nat x)) \<and>
    (\<forall>x < 0x1000. get_physical_address (paging_early_init s) (of_nat x) =
       Inl (Assert_failed ''entry not found!''))"
proof (intro conjI allI impI)
  show wf: "pt_wf (paging_early_init s)" by (rule early_init_wf [OF assms])
  {
    fix x :: nat assume x: "0x100000 \<le> x \<and> x < 0x200000"
    then have i: "x div 4096 < 512" "0x100 \<le> x div 4096" by (auto simp: less_mult_imp_div_less)
    then show "get_physical_address (paging_early_init s) (KERNEL_VMA_OFFSET + of_nat x) = Inr (of_nat x)"
      using path_of_kernel [of x] early_init_kernel_pte [OF assms i(1)] page_entry_address [OF i(1)]
        page_plus_offset [of x] x by (simp add: get_physical_address_eq [OF wf])
  }
  {
    fix x :: nat assume x: "0x1000 \<le> x \<and> x < 0x200000"
    then have i: "x div 4096 < 512" "1 \<le> x div 4096" by (auto simp: less_mult_imp_div_less)
    then show "get_physical_address (paging_early_init s) (of_nat x) = Inr (of_nat x)"
      using path_of_identity [of x] early_init_identity_pte [OF assms i(1)] page_entry_address [OF i(1)]
        page_plus_offset [of x] x by (simp add: get_physical_address_eq [OF wf])
  }
  fix x :: nat assume "x < 0x1000"
  then show "get_physical_address (paging_early_init s) (of_nat x) = Inl (Assert_failed ''entry not found!'')"
    using path_of_identity [of x] early_init_identity_pte [OF assms, of 0]
    by (simp add: get_physical_address_eq [OF wf])
qed

theorem early_init_maps_witness:
  "get_physical_address (paging_early_init sample_boot) (KERNEL_VMA_OFFSET + of_nat 0x123456) = Inr (of_nat 0x123456)"
proof -
  have "0x100000 \<le> (0x123456 :: nat) \<and> 0x123456 < (0x200000 :: nat)" by simp
  then show ?thesis using early_init_maps [OF sample_boot_ok] by blast
qed

text \<open>
  C2. \<^verbatim>\<open>map_range\<close> maps a run of \<open>n\<close> pages: when the virtual pages are in the
  addresses the iterator can name, none of them is present, the run does not include the
  last page of the address space, and there are tables for what the first page and each
  level-1 table the run enters lack (at most \<open>c\<close> each), it succeeds; page \<open>k\<close> of the run then translates to
  physical page \<open>k\<close>, and pages outside the run keep their translation.
\<close>

theorem map_range_lookup:
  assumes "pt_wf s" "p mod PAGE_SIZE = 0" "v mod PAGE_SIZE = 0" "unat p + 4096 * n < 2 ^ 52"
    "attrs AND ADDRESS_MASK = 0" "path_number (path_of v) + n < 2 ^ 36"
    "\<forall>k < n. sign_extend (page_at v k) 42 = page_at v k"
    "\<forall>q. valid_path q \<longrightarrow> in_range (path_number (path_of v)) n q \<longrightarrow> translation s q = None"
    "\<forall>q. valid_path q \<longrightarrow> in_range (path_number (path_of v)) (Suc n) q \<longrightarrow> lacking s q \<le> c"
    "c + c * crossings (path_number (path_of v)) n \<le> length (free_tables s)"
  shows "\<exists>s'. map_range p (page_at p n) v (page_at v n) attrs s = Inr (v, s') \<and> pt_wf s' \<and>
    (\<forall>k off. k < n \<and> unat off < 4096 \<longrightarrow>
       get_physical_address s' (page_at v k + off) = Inr (page_at p k + off)) \<and>
    (\<forall>q. valid_path q \<and> \<not> in_range (path_number (path_of v)) n q \<longrightarrow> translation s' q = translation s q)"
proof -
  let ?N = "path_number (path_of v)"
  have al: "aligned p" "aligned v" using assms(2,3) by (simp_all add: mod_PAGE_SIZE)
  obtain s' where s': "map_range p (page_at p n) v (page_at v n) attrs s = Inr (v, s')" "pt_wf s'"
      "\<And>q. valid_path q \<Longrightarrow> translation s' q =
         (if in_range ?N n q then Some (range_entry p ?N attrs q) else translation s q)"
    using map_range_maps [OF assms(1) al refl _ assms(6,7,8,9,10), of attrs] assms(4)
    by (auto simp: page_at_def)
  have "get_physical_address s' (page_at v k + off) = Inr (page_at p k + off)"
    if "k < n" "unat off < 4096" for k off
  proof -
    have num: "path_number (path_of (page_at v k)) = ?N + k"
      using assms(6) that(1) by (simp add: path_number_page_at)
    then have "in_range ?N n (path_of (page_at v k))" using that(1) by (simp add: in_range_def)
    then have tr: "translation s' (path_of (page_at v k)) = Some (page_at p k OR attrs OR PRESENT)"
      using s'(3) [of "path_of (page_at v k)"] num by (simp add: range_entry_def page_at_def)
    have "unat (of_nat k * PAGE_SIZE) = 4096 * k"
      using assms(4) that(1) by (simp add: PAGE_SIZE_def unat_word_ariths unat_of_nat)
    then have "unat (page_at p k) < 2 ^ 52"
      using assms(4) that(1) unfolding page_at_def by (simp add: unat_add_u64)
    then have "(page_at p k OR attrs OR PRESENT) AND ADDRESS_MASK = page_at p k"
      by (intro entry_address aligned_page_at al assms(5))
    then show ?thesis
      using get_physical_address_translation [OF s'(2), of "page_at v k + off"] tr
        page_offset_path [OF aligned_page_at [OF al(2), of k] that(2)] by simp
  qed
  then show ?thesis using s' by auto
qed

theorem map_range_lookup_witness:
  "\<exists>s'. map_range 0x5000 (page_at 0x5000 2) 0x400000 (page_at 0x400000 2) 3 (paging_early_init sample_boot) =
       Inr (0x400000, s') \<and> get_physical_address s' (page_at 0x400000 1 + 8) = Inr (page_at 0x5000 1 + 8)"
proof -
  let ?s = "paging_early_init sample_boot"
  have num: "path_number (path_of 0x400000) = 1024" by (simp add: path_number_of)
  have none: "translation ?s q = None" if "valid_path q" "in_range 1024 2 q" for q
  proof -
    have "path_number q = 1024 \<or> path_number q = 1025" using that(2) by (auto simp: in_range_def)
    then have "q = path_of 0x400000 \<or> q = path_of 0x401000"
      using path_number_inj [OF that(1) valid_path_of, of "0x400000"]
        path_number_inj [OF that(1) valid_path_of, of "0x401000"] by (auto simp: path_number_of)
    then obtain a where "q = [a, 2, 0, 0]" by (auto simp: path_of_digits)
    then show ?thesis by (simp add: sample_unmapped)
  qed
  have canon: "sign_extend (page_at 0x400000 k) 42 = page_at 0x400000 k" if "k < 2" for k
  proof -
    have "k = 0 \<or> k = 1" using that by auto
    then show ?thesis by (auto simp: page_at_def PAGE_SIZE_def sign_extend_def)
  qed
  have attrs: "(3 :: u64) AND ADDRESS_MASK = 0" by (simp add: ADDRESS_MASK_def)
  obtain s' where "map_range 0x5000 (page_at 0x5000 2) 0x400000 (page_at 0x400000 2) 3 ?s = Inr (0x400000, s')"
      "\<forall>k off. k < 2 \<and> unat off < 4096 \<longrightarrow>
         get_physical_address s' (page_at 0x400000 k + off) = Inr (page_at 0x5000 k + off)"
    using map_range_lookup [OF sample_wf, of "0x5000" "0x400000" 2 3 3] none canon attrs lacking_3
    by (auto simp: num sample_free PAGE_SIZE_def crossings_def)
  moreover have "1 < (2 :: nat) \<and> unat (8 :: u64) < 4096" by simp
  ultimately show ?thesis by blast
qed

text \<open>
  The iterator names only addresses that are sign extensions of 42 bits:
  \<^verbatim>\<open>map_range\<close> over at least one page ends in its synchronisation assertion for any other
  page-aligned start, although the walk uses 48 bits of the address.
\<close>

theorem map_range_42_bits:
  assumes "pt_wf s" "lacking s (path_of v) \<le> length (free_tables s)" "p mod PAGE_SIZE = 0" "v mod PAGE_SIZE = 0"
    "0 < n" "unat p + 4096 * n < 2 ^ 64" "sign_extend v 42 \<noteq> v"
  shows "map_range p (page_at p n) v (page_at v n) attrs s =
    Inl (Assert_failed ''iterator and virtual address out of sync!'')"
proof -
  have al: "aligned p" "aligned v" using assms(3,4) by (simp_all add: mod_PAGE_SIZE)
  obtain it s1 where s1: "pt_get s v = Inr (it, s1)" "it_indices it = path_of v"
    using pt_get_cursor [OF assms(1,2)] by auto
  have "virtual_page_address it \<noteq> v" using virtual_page_address_path [OF s1(2) al(2)] assms(7) by simp
  moreover have "unat (of_nat n * PAGE_SIZE) = 4096 * n"
    using assms(6) by (simp add: PAGE_SIZE_def unat_word_ariths unat_of_nat)
  then have stop: "unat (page_at p n) = unat p + 4096 * n"
    unfolding page_at_def using assms(6) by (simp add: unat_add_u64)
  then have lt: "p < page_at p n" using assms(5) by (simp add: word_less_nat_alt)
  have "pages_between p (page_at p n) = n"
    using unat_pages(2) [OF al(1) aligned_page_at [OF al(1)] lt] stop by simp
  then obtain m where "pages_between p (page_at p n) = Suc m" using assms(5) by (cases n) auto
  ultimately show ?thesis
    using s1(1) aligned_page_at [OF al(1), of n] aligned_page_at [OF al(2), of n] al
    by (simp add: map_range_def mod_PAGE_SIZE) (simp add: page_at_def)
qed

theorem map_range_42_bits_witness:
  "map_range 0x5000 (page_at 0x5000 1) 0x20000000000 (page_at 0x20000000000 1) 3 (paging_early_init sample_boot) =
     Inl (Assert_failed ''iterator and virtual address out of sync!'')"
proof -
  have "bit (sign_extend 0x20000000000 42) 63" by (simp add: bit_sign_extend)
  moreover have "\<not> bit (0x20000000000 :: u64) 63" by simp
  ultimately have "sign_extend 0x20000000000 42 \<noteq> 0x20000000000" by metis
  then show ?thesis
    using map_range_42_bits [OF sample_wf sample_lacking, of "0x5000" "0x20000000000" 1 3] by (simp add: PAGE_SIZE_def)
qed

lemma sample_protection_runs:
  "\<exists>s'. protect_kernel_pages 0xFFFFFFFF80150000 (paging_early_init sample_boot) = Some (Inr s')"
proof -
  have y: "syms sample_boot = sample_symbols" by (simp add: sample_boot_def)
  have kr: "kernel_range 0xFFFFFFFF80110000 0x110000 1" "kernel_range 0xFFFFFFFF80111000 0x111000 1"
      "kernel_range 0xFFFFFFFF80112000 0x112000 1" "kernel_range 0xFFFFFFFF80113000 0x113000 1"
      "kernel_range 0xFFFFFFFF80114000 0x114000 1" "kernel_range 0xFFFFFFFF8013F000 0x13F000 17"
    by (simp_all add: kernel_range_def KERNEL_VMA_OFFSET_def)
  have paths: "path_of 0xFFFFFFFF80110000 = [0x110, 0, 0x1FE, 0x1FF]" "path_of 0xFFFFFFFF80111000 = [0x111, 0, 0x1FE, 0x1FF]"
      "path_of 0xFFFFFFFF80112000 = [0x112, 0, 0x1FE, 0x1FF]" "path_of 0xFFFFFFFF80113000 = [0x113, 0, 0x1FE, 0x1FF]"
      "path_of 0xFFFFFFFF80114000 = [0x114, 0, 0x1FE, 0x1FF]" "path_of 0xFFFFFFFF8013F000 = [0x13F, 0, 0x1FE, 0x1FF]"
    using kernel_range_path(1) [OF kr(1), of 0] kernel_range_path(1) [OF kr(2), of 0] kernel_range_path(1) [OF kr(3), of 0]
      kernel_range_path(1) [OF kr(4), of 0] kernel_range_path(1) [OF kr(5), of 0] kernel_range_path(1) [OF kr(6), of 0]
    by simp_all
  have in_kernel: "[i, 0, 0x1FE, 0x1FF] \<in> kernel_paths \<longleftrightarrow> 0x100 \<le> i \<and> i < 0x200" for i
    by (auto simp: kernel_paths_def)
  have base: "page_at 0xFFFFFFFF8013F000 17 = 0xFFFFFFFF80150000"
    by (simp add: page_at_def PAGE_SIZE_def)
  have "\<exists>s'. protect_kernel_pages (page_at 0xFFFFFFFF8013F000 17) (paging_early_init sample_boot) = Some (Inr s')"
    by (rule enable_protection_runs [OF sample_boot_ok, where xt = "0x110000" and nt = 1 and xr = "0x111000" and nr = 1
        and xd = "0x112000" and nd = 1 and xb = "0x113000" and nb = 1 and xg = "0x13F000"])
      (simp_all add: y sample_symbols_def kr paths in_kernel del: One_nat_def,
       simp_all add: page_at_def PAGE_SIZE_def)
  then show ?thesis unfolding base .
qed

lemma sample_sections_ok: "\<forall>(a, b) \<in> set (kernel_sections (syms sample_boot)). section_ok a b"
proof -
  have y: "syms sample_boot = sample_symbols" by (simp add: sample_boot_def)
  show ?thesis by (simp add: y kernel_sections_def sample_symbols_def section_ok_def aligned_def)
qed

lemma sample_enables:
  "\<exists>c' s'. enable_kernel_page_protection 0xFFFFFFFF80150000 (c, paging_early_init sample_boot) = Some (Inr (c', s'))"
  using sample_protection_runs by (auto simp: enable_protection_Inr)

text \<open>
  C3. What \<^verbatim>\<open>enable_kernel_page_protection\<close> gives when it returns: the execute-disable bit is in force, and no page
  of the read-only data, data, bss and stack ranges is executable for the kernel; the guard page below the stack
  is not present; the new tables are loaded. \<^verbatim>\<open>CR0\<close> keeps its value, so the text pages (those of no other range) are
  read-only only if write protection was on before: then no page of any of the ranges is both writable and
  executable, and otherwise every text page stays both writable and executable for the kernel.
\<close>

theorem protection_rights:
  assumes "pt_wf s" "enable_kernel_page_protection kernel_stack_base (c, s) = Some (Inr (c', s'))"
    "\<forall>(a, b) \<in> set (kernel_sections (syms s)). section_ok a b" "kernel_stack_base mod PAGE_SIZE = 0"
  shows "pt_wf s' \<and> nx_enabled c' \<and> cr0 c' = cr0 c \<and> cr3 c' = kernel_pml4 (syms s) - KERNEL_VMA_OFFSET \<and>
    (\<forall>q \<in> data_paths kernel_stack_base (syms s). \<not> kernel_executable c' (pte s' q)) \<and>
    translation s' (path_of (kernel_stack_base - KERNEL_STACK_SIZE - PAGE_SIZE)) = None \<and>
    (if write_protected c
     then \<forall>q \<in> text_paths (syms s) \<union> data_paths kernel_stack_base (syms s).
        \<not> (kernel_writable c' (pte s' q) \<and> kernel_executable c' (pte s' q))
     else \<forall>q \<in> text_paths (syms s) - data_paths kernel_stack_base (syms s).
        q \<noteq> path_of (kernel_stack_base - KERNEL_STACK_SIZE - PAGE_SIZE) \<longrightarrow>
        kernel_writable c' (pte s' q) \<and> kernel_executable c' (pte s' q))"
proof -
  have run: "protect_kernel_pages kernel_stack_base s = Some (Inr s')"
    and c': "c' = (enable_write_protection (enable_execute_disable c))\<lparr>cr3 := kernel_pml4 (syms s') - KERNEL_VMA_OFFSET\<rparr>"
    using assms(2) by (simp_all add: enable_protection_Inr)
  note eff = protect_pages_effect [OF assms(1) run assms(3) assms(4) [unfolded mod_PAGE_SIZE]]
  have nx: "nx_enabled c'" and cr0: "cr0 c' = cr0 c" unfolding c' by (rule protection_registers)+
  have wp: "write_protected c' = write_protected c" by (simp add: write_protected_def cr0)
  have x: "\<not> kernel_executable c' (pte s' q)" if "q \<in> data_paths kernel_stack_base (syms s)" for q
    using entry_rights(1) [OF eff(4) [OF that] nx] .
  have t: "\<not> (kernel_writable c' (pte s' q) \<and> kernel_executable c' (pte s' q))"
    if "q \<in> text_paths (syms s) \<union> data_paths kernel_stack_base (syms s)" "write_protected c" for q
    using that x [of q] eff(5) [of q] entry_rights(2) [of "pte s' q" c'] wp by blast
  have u: "kernel_writable c' (pte s' q) \<and> kernel_executable c' (pte s' q)"
    if "q \<in> text_paths (syms s) - data_paths kernel_stack_base (syms s)" "\<not> write_protected c"
      "q \<noteq> path_of (kernel_stack_base - KERNEL_STACK_SIZE - PAGE_SIZE)" for q
    using eff(5) [OF that(1)] that(2,3) entry_rights(3,4) [of "pte s' q" c'] wp by blast
  have "cr3 c' = kernel_pml4 (syms s) - KERNEL_VMA_OFFSET" by (simp add: c' eff(2))
  then show ?thesis using eff(1,3) nx cr0 x t u by simp
qed

text \<open>Both cases at the tables of \<^verbatim>\<open>early_init\<close>, with the value of \<^verbatim>\<open>CR0\<close> the boot code leaves (protection,
  paging and the monitor of the coprocessor) and with write protection added.\<close>

definition sample_cpu :: "u64 \<Rightarrow> cpu" where
  "sample_cpu r = \<lparr>cr0 = r, cr3 = 0, msrs = (\<lambda>_. 0x500), flags_register = 2, quadword = (\<lambda>_. 0)\<rparr>"

lemma sample_text_path:
  "[0x110, 0, 0x1FE, 0x1FF] \<in> text_paths sample_symbols - data_paths 0xFFFFFFFF80150000 sample_symbols"
  "path_of 0xFFFFFFFF8013F000 = [0x13F, 0, 0x1FE, 0x1FF]"
proof -
  have one: "section_pages a (a + 0x1000) = 1" for a by (simp add: section_pages_def)
  have kr: "kernel_range 0xFFFFFFFF80110000 0x110000 1" "kernel_range 0xFFFFFFFF80111000 0x111000 1"
      "kernel_range 0xFFFFFFFF80112000 0x112000 1" "kernel_range 0xFFFFFFFF80113000 0x113000 1"
      "kernel_range 0xFFFFFFFF80140000 0x140000 16" "kernel_range 0xFFFFFFFF8013F000 0x13F000 1"
    by (simp_all add: kernel_range_def KERNEL_VMA_OFFSET_def)
  note sec = text_paths_def data_paths_def section_paths_def section_pages_def page_paths_def sample_symbols_def
  have top: "(0xFFFFFFFF80150000 :: u64) - KERNEL_STACK_SIZE = 0xFFFFFFFF80140000"
    by (simp add: KERNEL_STACK_SIZE_def PAGE_SIZE_def)
  show "path_of 0xFFFFFFFF8013F000 = [0x13F, 0, 0x1FE, 0x1FF]" using kernel_range_path(1) [OF kr(6), of 0] by simp
  have "[0x110, 0, 0x1FE, 0x1FF] \<in> text_paths sample_symbols"
    using kernel_range_path(1) [OF kr(1), of 0] by (simp add: sec)
  moreover have "[0x110, 0, 0x1FE, 0x1FF] \<notin> data_paths 0xFFFFFFFF80150000 sample_symbols"
    using kernel_range_path(1) [OF kr(2), of 0] kernel_range_path(1) [OF kr(3), of 0] kernel_range_path(1) [OF kr(4), of 0]
      kernel_range_path(1) [OF kr(5)] by (auto simp: sec top)
  ultimately show "[0x110, 0, 0x1FE, 0x1FF] \<in> text_paths sample_symbols - data_paths 0xFFFFFFFF80150000 sample_symbols" by blast
qed

theorem protection_rights_witness:
  "(\<exists>c' s'. enable_kernel_page_protection 0xFFFFFFFF80150000 (sample_cpu 0x80000013, paging_early_init sample_boot) = Some (Inr (c', s')) \<and>
     kernel_writable c' (pte s' [0x110, 0, 0x1FE, 0x1FF]) \<and> kernel_executable c' (pte s' [0x110, 0, 0x1FE, 0x1FF])) \<and>
   (\<exists>c' s'. enable_kernel_page_protection 0xFFFFFFFF80150000 (sample_cpu 0x80010013, paging_early_init sample_boot) = Some (Inr (c', s')) \<and>
     \<not> (kernel_writable c' (pte s' [0x110, 0, 0x1FE, 0x1FF]) \<and> kernel_executable c' (pte s' [0x110, 0, 0x1FE, 0x1FF])))"
proof -
  have y: "syms (paging_early_init sample_boot) = sample_symbols"
    by (simp add: paging_early_init_def Let_def sample_boot_def)
  have wp: "\<not> write_protected (sample_cpu 0x80000013)" "write_protected (sample_cpu 0x80010013)"
    by (simp_all add: write_protected_def sample_cpu_def)
  have ok: "\<forall>(a, b) \<in> set (kernel_sections (syms (paging_early_init sample_boot))). section_ok a b"
    "(0xFFFFFFFF80150000 :: u64) mod PAGE_SIZE = 0" using sample_sections_ok by (simp_all add: PAGE_SIZE_def)
  have g: "(0xFFFFFFFF80150000 :: u64) - KERNEL_STACK_SIZE - PAGE_SIZE = 0xFFFFFFFF8013F000"
    by (simp add: KERNEL_STACK_SIZE_def PAGE_SIZE_def)
  obtain c1 s1 where r1: "enable_kernel_page_protection 0xFFFFFFFF80150000 (sample_cpu 0x80000013, paging_early_init sample_boot) = Some (Inr (c1, s1))"
    using sample_enables by blast
  obtain c2 s2 where r2: "enable_kernel_page_protection 0xFFFFFFFF80150000 (sample_cpu 0x80010013, paging_early_init sample_boot) = Some (Inr (c2, s2))"
    using sample_enables by blast
  show ?thesis
    using protection_rights [OF sample_wf r1 ok] protection_rights [OF sample_wf r2 ok] r1 r2 wp sample_text_path y g by auto
qed

end
