(* ===== verification/Alloc.thy ===== *)
theory Alloc
  imports Vma Mutex Paging_Init
begin

text \<open>
  The kernel heap of src/kernel/alloc.cpp. An allocation is a run of virtual pages from
  \<open>Vma\<close>, each backed by a page of \<open>Pma\<close> that \<open>Paging\<close> maps; a node of the allocation
  list records the pages. Nodes, headers and alignment words are 8-byte cells of
  \<open>heap\<close>, indexed by virtual address: a node at \<open>a\<close> has \<^verbatim>\<open>next\<close> at \<open>a\<close>,
  \<^verbatim>\<open>size\<close> at \<open>a + 8\<close>, \<^verbatim>\<open>physical_page_list_size\<close> at \<open>a + 16\<close> and
  \<^verbatim>\<open>physical_pages_used[i]\<close> at \<open>a + 24 + 8 * i\<close>. A cell is read and
  written only while its page is mapped, so page faults are not modelled here; a misaligned access, a division by zero
  and a walk that does not end are undefined.
\<close>

datatype protection = READ_ONLY | READ_WRITE | EXEC

record alloc_state =
  first_allocation :: u64
  malloc_lock :: mutex
  heap :: memory
  kvma :: vma_state
  kpma :: pma_state
  kpaging :: paging_state

definition ALLOCATION_SIZE :: u64 where
  "ALLOCATION_SIZE = 24"

subsection \<open>Cells\<close>

definition node_next_of :: "memory \<Rightarrow> u64 \<Rightarrow> u64" where
  "node_next_of h a = h a"

definition node_size_of :: "memory \<Rightarrow> u64 \<Rightarrow> u64" where
  "node_size_of h a = h (a + 8)"

definition node_pages_of :: "memory \<Rightarrow> u64 \<Rightarrow> u64" where
  "node_pages_of h a = h (a + 16)"

definition page_cell :: "u64 \<Rightarrow> nat \<Rightarrow> u64" where
  "page_cell a i = a + ALLOCATION_SIZE + 8 * of_nat i"

definition cell_read :: "u64 \<Rightarrow> alloc_state \<Rightarrow> u64 res" where
  "cell_read a s = (if a mod 8 = 0 then Inr (heap s a) else Inl (Undefined_behaviour ''misaligned access''))"

definition cell_write :: "u64 \<Rightarrow> u64 \<Rightarrow> alloc_state \<Rightarrow> alloc_state res" where
  "cell_write a v s = (if a mod 8 = 0 then Inr (s\<lparr>heap := (heap s)(a := v)\<rparr>)
     else Inl (Undefined_behaviour ''misaligned access''))"

fun zero_cells :: "nat \<Rightarrow> u64 \<Rightarrow> memory \<Rightarrow> memory" where
  "zero_cells 0 a h = h"
| "zero_cells (Suc n) a h = zero_cells n (a + 8) (h(a := 0))"

subsection \<open>Operations\<close>

text \<open>A physical page mapped at a fresh virtual page, as \<^verbatim>\<open>init\<close> and
  \<^verbatim>\<open>get_new_allocation\<close> get a page for the list.\<close>

definition new_list_page :: "alloc_state \<Rightarrow> (u64 \<times> alloc_state) res" where
  "new_list_page s =
     rbind (get_physical_page (kpma s)) (\<lambda>(physical_address, ms).
     rbind (get_virtual_pages PAGE_SIZE (kvma s)) (\<lambda>(virtual_address, vs).
     rbind (map_page physical_address virtual_address (RW OR XD) (kpaging s)) (\<lambda>(p, ps).
       Inr (p, s\<lparr>kpma := ms, kvma := vs, kpaging := ps\<rparr>))))"

definition alloc_init :: "alloc_state \<Rightarrow> alloc_state res" where
  "alloc_init s = rbind (new_list_page s) (\<lambda>(p, s').
     Inr (s'\<lparr>first_allocation := p, heap := (heap s')(p := 0, p + 8 := 0, p + 16 := 0)\<rparr>))"

text \<open>The search loop of \<^verbatim>\<open>get_new_allocation\<close>: the node it stops at, the bytes of
  the list up to and including it, and whether it is a killed node to re-use.\<close>

partial_function (option) find_node :: "memory \<Rightarrow> u64 \<Rightarrow> u64 \<Rightarrow> u64 \<Rightarrow> (u64 \<times> u64 \<times> bool) option" where
  "find_node h needed cur sz =
     (let sz' = sz + (ALLOCATION_SIZE + 8 * node_pages_of h cur) in
      if node_size_of h cur = 0 \<and> node_pages_of h cur = needed then Some (cur, sz', True)
      else if node_next_of h cur = 0 then Some (cur, sz', False)
      else find_node h needed (node_next_of h cur) sz')"

definition write_new_node :: "u64 \<Rightarrow> u64 \<Rightarrow> u64 \<Rightarrow> u64 \<Rightarrow> alloc_state \<Rightarrow> alloc_state" where
  "write_new_node a n needed cur s =
     (let h = zero_cells (unat (ALLOCATION_SIZE + 8 * needed) div 8) a (heap s) in
      s\<lparr>heap := h(a := 0, a + 8 := n, a + 16 := needed, cur := a)\<rparr>)"

definition get_new_allocation :: "u64 \<Rightarrow> alloc_state \<Rightarrow> (u64 \<times> alloc_state) res" where
  "get_new_allocation n s =
     rbind (assert_that (first_allocation s \<noteq> 0)
       ''Tried to get a new allocation, but allocation list is null'') (\<lambda>_.
     let needed = div_ceil n PAGE_SIZE in
     case find_node (heap s) needed (first_allocation s) 0 of
       None \<Rightarrow> Inl (Undefined_behaviour ''allocation list does not end'')
     | Some (cur, list_size, True) \<Rightarrow> Inr (cur, s\<lparr>heap := (heap s)(cur + 8 := n)\<rparr>)
     | Some (cur, list_size, False) \<Rightarrow>
         let new_size = ALLOCATION_SIZE + 8 * needed in
         rbind (if list_size div PAGE_SIZE \<noteq> (list_size + new_size) div PAGE_SIZE
                then rbind (assert_that (list_size + new_size \<le> PAGE_SIZE)
                       ''allocation node won't fit in one page!'') (\<lambda>_. new_list_page s)
                else Inr (cur + ALLOCATION_SIZE + 8 * node_pages_of (heap s) cur, s)) (\<lambda>(a, s').
           Inr (a, write_new_node a n needed cur s')))"

text \<open>The loop of \<^verbatim>\<open>remove_allocation\<close>.\<close>

partial_function (option) node_before :: "memory \<Rightarrow> u64 \<Rightarrow> u64 \<Rightarrow> u64 option" where
  "node_before h node cur =
     (if node_next_of h cur = 0 then Some cur
      else if node_next_of h cur = node then Some cur
      else node_before h node (node_next_of h cur))"

definition remove_allocation :: "u64 \<Rightarrow> alloc_state \<Rightarrow> alloc_state res" where
  "remove_allocation node s =
     rbind (assert_that (first_allocation s \<noteq> 0)
       ''Tried to remove an allocation, but allocation list is null'') (\<lambda>_.
     case node_before (heap s) node (first_allocation s) of
       None \<Rightarrow> Inl (Undefined_behaviour ''allocation list does not end'')
     | Some cur \<Rightarrow> Inr (s\<lparr>heap := (heap s)(cur + 8 := 0)\<rparr>))"

definition lock_heap :: "alloc_state \<Rightarrow> alloc_state res" where
  "lock_heap s = (case try_acquire (malloc_lock s) of
     (True, m) \<Rightarrow> Inr (s\<lparr>malloc_lock := m\<rparr>) | (False, m) \<Rightarrow> Inl (Blocked ''malloc_lock''))"

definition unlock_heap :: "alloc_state \<Rightarrow> alloc_state" where
  "unlock_heap s = s\<lparr>malloc_lock := release (malloc_lock s)\<rparr>"

text \<open>The switch has no \<^verbatim>\<open>break\<close> between its cases.\<close>

definition page_attrs :: "protection \<Rightarrow> u64" where
  "page_attrs p = (case p of READ_ONLY \<Rightarrow> XD OR RW | READ_WRITE \<Rightarrow> RW | EXEC \<Rightarrow> 0)"

fun back_pages :: "nat \<Rightarrow> nat \<Rightarrow> u64 \<Rightarrow> u64 \<Rightarrow> u64 \<Rightarrow> alloc_state \<Rightarrow> alloc_state res" where
  "back_pages 0 page vbase node attrs s = Inr s"
| "back_pages (Suc k) page vbase node attrs s =
     rbind (get_physical_page (kpma s)) (\<lambda>(physical_page, ms).
     rbind (map_page physical_page (vbase + of_nat page * PAGE_SIZE) attrs (kpaging s)) (\<lambda>(_, ps).
       back_pages k (Suc page) vbase node attrs (s\<lparr>kpma := ms, kpaging := ps,
         heap := (heap s)(page_cell node page := physical_page)\<rparr>)))"

text \<open>\<^verbatim>\<open>(int)n\<close> as the bound of a loop from 0.\<close>

definition int_count :: "u64 \<Rightarrow> nat" where
  "int_count n = nat (sint (ucast n :: u32))"

definition padded_header_size :: "u64 \<Rightarrow> u64" where
  "padded_header_size alignment = align_to (8 + 8) alignment"

definition alloc :: "u64 \<Rightarrow> u64 \<Rightarrow> protection \<Rightarrow> alloc_state \<Rightarrow> (u64 \<times> alloc_state) res" where
  "alloc n alignment p s =
     (if n = 0 then Inr (0, s) else
      rbind (lock_heap s) (\<lambda>s0.
      if alignment = 0 then Inl (Undefined_behaviour ''division by zero'') else
      let header_size = padded_header_size alignment;
          size_with_header = align_to (n + header_size) PAGE_SIZE
      in rbind (get_virtual_pages size_with_header (kvma s0)) (\<lambda>(vbase, vs).
         rbind (get_new_allocation size_with_header (s0\<lparr>kvma := vs\<rparr>)) (\<lambda>(node, s1).
         rbind (back_pages (int_count (node_pages_of (heap s1) node)) 0 vbase node (page_attrs p) s1) (\<lambda>s2.
         rbind (cell_write vbase node s2) (\<lambda>s3.
         rbind (cell_write (vbase + header_size - 8) alignment s3) (\<lambda>s4.
           Inr (vbase + header_size, unlock_heap s4))))))))"

fun release_pages :: "nat \<Rightarrow> nat \<Rightarrow> u64 \<Rightarrow> u64 \<Rightarrow> alloc_state \<Rightarrow> alloc_state res" where
  "release_pages 0 page vbase node s = Inr s"
| "release_pages (Suc k) page vbase node s =
     rbind (free_physical_page (heap s (page_cell node page)) (kpma s)) (\<lambda>ms.
     rbind (unmap_page (vbase + of_nat page * PAGE_SIZE) (kpaging s)) (\<lambda>ps.
       release_pages k (Suc page) vbase node (s\<lparr>kpma := ms, kpaging := ps\<rparr>)))"

definition alloc_free :: "u64 \<Rightarrow> alloc_state \<Rightarrow> alloc_state res" where
  "alloc_free p s =
     (if p = 0 then Inr s else
      rbind (lock_heap s) (\<lambda>s0.
      rbind (cell_read (p - 8) s0) (\<lambda>alignment.
      if alignment = 0 then Inl (Undefined_behaviour ''division by zero'') else
      let header = p - padded_header_size alignment in
      rbind (cell_read header s0) (\<lambda>node.
      rbind (assert_that (node \<noteq> 0) ''bad free: can't find the allocation!'') (\<lambda>_.
      rbind (free_virtual_pages header (node_size_of (heap s0) node) (kvma s0)) (\<lambda>vs.
      rbind (release_pages (int_count (node_pages_of (heap s0) node)) 0 header node (s0\<lparr>kvma := vs\<rparr>)) (\<lambda>s1.
      rbind (remove_allocation node s1) (\<lambda>s2.
        Inr (unlock_heap s2)))))))))"

text \<open>\<^verbatim>\<open>memset(a, 0, n)\<close> on cells: below 8 bytes it writes bytes, above it
  writes whole 8-byte words until \<open>n\<close> bytes are covered.\<close>

definition zero_bytes :: "u64 \<Rightarrow> u64 \<Rightarrow> memory \<Rightarrow> memory" where
  "zero_bytes n a h = (if n < 8 then h(a := h a AND NOT (mask (8 * unat n)))
     else zero_cells ((unat n + 7) div 8) a h)"

definition alloc_zeroed :: "u64 \<Rightarrow> u64 \<Rightarrow> protection \<Rightarrow> alloc_state \<Rightarrow> (u64 \<times> alloc_state) res" where
  "alloc_zeroed n alignment p s =
     rbind (assert_that (p \<noteq> READ_ONLY) ''can't zero-out read-only memory (add support?)'') (\<lambda>_.
     rbind (alloc n alignment p s) (\<lambda>(ret, s').
       Inr (ret, s'\<lparr>heap := zero_bytes n ret (heap s')\<rparr>)))"

subsection \<open>Backing an area with pages\<close>

text \<open>The physical pages are page-aligned and below \<open>2 ^ 52\<close>, so an entry holds them.\<close>

definition pages_ok :: "pma_state \<Rightarrow> bool" where
  "pages_ok s \<longleftrightarrow> pma_inv s \<and> aligned (physical_page_base s) \<and>
     unat (physical_page_base s) + 4096 * bm_bits (page_bits s) \<le> 2 ^ 52"

lemma page_addr_ok:
  assumes "pages_ok s" "i < bm_bits (page_bits s)"
  shows "aligned (page_addr s i)" "unat (page_addr s i) < 2 ^ 52"
proof -
  have u: "unat (page_addr s i) = 4096 * i + unat (physical_page_base s)"
    using assms by (intro unat_page_addr) (simp_all add: pages_ok_def)
  then show "aligned (page_addr s i)" using assms(1) by (simp add: aligned_unat pages_ok_def)
  show "unat (page_addr s i) < 2 ^ 52" using u assms by (simp add: pages_ok_def)
qed

lemma taken_page_ok: "pages_ok s \<Longrightarrow> p \<in> taken_pages s \<Longrightarrow> aligned p \<and> unat p < 2 ^ 52"
  using page_addr_ok by (auto simp: taken_pages_def)

lemma get_physical_page_ok:
  assumes ok: "pages_ok s" and run: "get_physical_page s = Inr (p, s')"
  shows "pages_ok s'" "p \<notin> taken_pages s" "taken_pages s' = insert p (taken_pages s)" "aligned p" "unat p < 2 ^ 52"
proof -
  have inv: "pma_inv s" using ok by (simp add: pages_ok_def)
  note f = get_physical_page_fresh [OF inv run]
  obtain idx b where b: "find_first (page_bits s) False = Inr idx" "idx \<noteq> -1" "bm_set (page_bits s) idx = Inr b"
      "s' = s\<lparr>page_bits := b\<rparr>"
    using run by (auto simp: get_physical_page_def rbind_eq_Inr_iff Let_def split: if_splits)
  have "unat idx < bm_bits (page_bits s)"
    using find_first_from_sound [of "page_bits s" 0 "unat (num_limbs (page_bits s))" idx] b(1,2) inv
    by (auto simp: find_first_def bm_wf_def bm_bits_def pma_inv_def)
  then have "bm_bits b = bm_bits (page_bits s)" using bm_update_ok(1) [of idx "page_bits s"] b(3) by auto
  then show ok': "pages_ok s'" using ok f b(4) by (simp add: pages_ok_def)
  show "p \<notin> taken_pages s" "taken_pages s' = insert p (taken_pages s)" using f by auto
  then show "aligned p" "unat p < 2 ^ 52" using taken_page_ok [OF ok', of p] by auto
qed

lemma map_page_Inr:
  assumes "pt_wf s" "3 \<le> length (free_tables s)" "aligned p" "aligned va" "map_page p va attrs s = Inr (v, s')"
  shows "translation s (path_of va) = None" "v = sign_extend va 42" "pt_wf s'"
    "length (free_tables s) \<le> length (free_tables s') + 3"
    "\<And>q. valid_path q \<Longrightarrow> translation s' q =
       (if q = path_of va then Some (p OR attrs OR PRESENT) else translation s q)"
proof -
  show none: "translation s (path_of va) = None"
    using map_page_present [OF assms(1) order_trans [OF lacking_3 assms(2)] assms(3,4), of attrs] assms(5) by (metis sum.distinct(1))
  show "v = sign_extend va 42" "pt_wf s'" "length (free_tables s) \<le> length (free_tables s') + 3"
    "\<And>q. valid_path q \<Longrightarrow> translation s' q =
       (if q = path_of va then Some (p OR attrs OR PRESENT) else translation s q)"
    using map_page_effect [OF assms(1) order_trans [OF lacking_3 assms(2)] assms(3,4) none, of attrs] assms(5)
      lacking_3 [of s "path_of va"] by auto
qed

lemma page_cell_inj:
  assumes "i < 2 ^ 61" "j < 2 ^ 61"
  shows "page_cell a i = page_cell a j \<longleftrightarrow> i = j"
proof
  assume "page_cell a i = page_cell a j"
  then have "(of_nat (8 * i) :: u64) = of_nat (8 * j)" by (simp add: page_cell_def)
  then have "unat (of_nat (8 * i) :: u64) = unat (of_nat (8 * j) :: u64)" by (simp only:)
  moreover have "8 * i < 2 ^ 64" "8 * j < 2 ^ 64" using assms by auto
  ultimately have "8 * i = 8 * j" by (simp only: unat_of_nat_u64)
  then show "i = j" by simp
qed simp

text \<open>What the loop of \<^verbatim>\<open>alloc\<close> does with \<open>k\<close> pages from page \<open>j\<close> on: the pages
  \<open>ps\<close> are fresh, recorded in the node, and mapped at the virtual pages, which were free.\<close>

definition backed :: "nat \<Rightarrow> nat \<Rightarrow> u64 \<Rightarrow> u64 \<Rightarrow> u64 \<Rightarrow> u64 list \<Rightarrow> alloc_state \<Rightarrow> alloc_state \<Rightarrow> bool" where
  "backed j k vbase node attrs ps s s' \<longleftrightarrow> length ps = k \<and> distinct ps \<and>
     set ps \<inter> taken_pages (kpma s) = {} \<and> taken_pages (kpma s') = taken_pages (kpma s) \<union> set ps \<and>
     pages_ok (kpma s') \<and> pt_wf (kpaging s') \<and> (\<forall>p \<in> set ps. aligned p \<and> unat p < 2 ^ 52) \<and>
     (\<forall>i<k. heap s' (page_cell node (j + i)) = ps ! i) \<and>
     (\<forall>a. (\<forall>i<k. a \<noteq> page_cell node (j + i)) \<longrightarrow> heap s' a = heap s a) \<and>
     (\<forall>i<k. translation (kpaging s') (path_of (page_at vbase (j + i))) = Some (ps ! i OR attrs OR PRESENT)) \<and>
     (\<forall>q. valid_path q \<and> q \<notin> page_paths (page_at vbase j) k \<longrightarrow>
        translation (kpaging s') q = translation (kpaging s) q) \<and>
     (\<forall>q \<in> page_paths (page_at vbase j) k. translation (kpaging s) q = None) \<and>
     kvma s' = kvma s \<and> first_allocation s' = first_allocation s \<and> malloc_lock s' = malloc_lock s"

lemma page_at_step: "page_at v j + PAGE_SIZE = page_at v (Suc j)"
  by (simp add: page_at_def algebra_simps)

text \<open>One round of the loop: page \<open>p\<close> is fresh and mapped at virtual page \<open>j\<close>.\<close>

lemma backed_step:
  assumes g: "p \<notin> taken_pages (kpma s)" "taken_pages ms = insert p (taken_pages (kpma s))" "aligned p" "unat p < 2 ^ 52"
    and m: "translation (kpaging s) (path_of (page_at vbase j)) = None"
      "\<And>q. valid_path q \<Longrightarrow> translation pgs q =
         (if q = path_of (page_at vbase j) then Some (p OR attrs OR PRESENT) else translation (kpaging s) q)"
    and j: "j + Suc k \<le> 2 ^ 36"
    and b: "backed (Suc j) k vbase node attrs ps (s\<lparr>kpma := ms, kpaging := pgs,
         heap := (heap s)(page_cell node j := p)\<rparr>) s'"
  shows "backed j (Suc k) vbase node attrs (p # ps) s s'"
proof -
  have new: "path_of (page_at vbase j) \<notin> page_paths (page_at vbase (Suc j)) k"
    using path_not_later [of k "page_at vbase j"] j by (simp add: page_at_step)
  have cell: "page_cell node j \<noteq> page_cell node (Suc j + i)" if "i < k" for i
    using that j by (subst page_cell_inj) auto
  have paths: "page_paths (page_at vbase j) (Suc k) =
      insert (path_of (page_at vbase j)) (page_paths (page_at vbase (Suc j)) k)"
    by (simp add: page_paths_Suc page_at_step)
  show ?thesis
    unfolding backed_def paths
  proof (intro conjI)
    show "\<forall>i<Suc k. heap s' (page_cell node (j + i)) = (p # ps) ! i"
      using b cell by (auto simp: backed_def All_less_Suc2 nth_Cons')
    show "\<forall>a. (\<forall>i<Suc k. a \<noteq> page_cell node (j + i)) \<longrightarrow> heap s' a = heap s a"
      using b by (auto simp: backed_def All_less_Suc2)
    show "\<forall>i<Suc k. translation (kpaging s') (path_of (page_at vbase (j + i))) =
        Some ((p # ps) ! i OR attrs OR PRESENT)"
      using b new m(2) by (auto simp: backed_def All_less_Suc2)
    show "\<forall>q. valid_path q \<and> q \<notin> insert (path_of (page_at vbase j)) (page_paths (page_at vbase (Suc j)) k) \<longrightarrow>
        translation (kpaging s') q = translation (kpaging s) q"
      using b m(2) by (auto simp: backed_def)
    show "\<forall>q \<in> insert (path_of (page_at vbase j)) (page_paths (page_at vbase (Suc j)) k).
        translation (kpaging s) q = None"
      using b m new page_paths_valid by (auto simp: backed_def split: if_splits)
  qed (use b g in \<open>auto simp: backed_def\<close>)
qed

lemma back_pages_backed:
  assumes "back_pages k j vbase node attrs s = Inr s'" "pages_ok (kpma s)" "pt_wf (kpaging s)"
    "3 * k \<le> length (free_tables (kpaging s))" "aligned vbase" "j + k \<le> 2 ^ 36"
  shows "\<exists>ps. backed j k vbase node attrs ps s s'"
  using assms
proof (induction k arbitrary: j s)
  case 0
  then show ?case by (auto simp: backed_def)
next
  case (Suc k)
  obtain p ms v pgs where run: "get_physical_page (kpma s) = Inr (p, ms)"
      "map_page p (page_at vbase j) attrs (kpaging s) = Inr (v, pgs)"
      "back_pages k (Suc j) vbase node attrs (s\<lparr>kpma := ms, kpaging := pgs,
         heap := (heap s)(page_cell node j := p)\<rparr>) = Inr s'"
    using Suc.prems(1) by (auto simp: rbind_eq_Inr_iff page_at_def mult.commute)
  note g = get_physical_page_ok [OF Suc.prems(2) run(1)]
  have al: "aligned (page_at vbase j)" by (rule aligned_page_at [OF Suc.prems(5)])
  have "3 \<le> length (free_tables (kpaging s))" using Suc.prems(4) by simp
  note m = map_page_Inr [OF Suc.prems(3) this g(4) al run(2)]
  obtain ps where "backed (Suc j) k vbase node attrs ps (s\<lparr>kpma := ms, kpaging := pgs,
         heap := (heap s)(page_cell node j := p)\<rparr>) s'"
    using Suc.IH [OF run(3)] g(1) m(3,4) Suc.prems(4-6) by auto
  from backed_step [OF g(2-5) m(1,5) Suc.prems(6) this] show ?case by blast
qed

text \<open>One round on an allocator whose first \<open>m < 32\<close> pages are taken, at virtual pages that are free and whose
  tables exist: it takes page \<open>m\<close>.\<close>

definition pages_backable :: "nat \<Rightarrow> u64 \<Rightarrow> paging_state \<Rightarrow> bool" where
  "pages_backable k v s \<longleftrightarrow> pt_wf s \<and> (\<forall>q \<in> page_paths v k. lacking s q = 0 \<and> translation s q = None)"

lemma back_pages_round:
  assumes ok: "pages_ok (kpma s)" "taken_first m (kpma s)" "m < 32" and al: "aligned vbase" and j: "j + Suc k \<le> 2 ^ 36"
    and tabs: "pages_backable (Suc k) (page_at vbase j) (kpaging s)"
  shows "\<exists>b pgs. let s1 = s\<lparr>kpma := kpma s\<lparr>page_bits := b\<rparr>, kpaging := pgs,
        heap := (heap s)(page_cell node j := page_addr (kpma s) m)\<rparr> in
      back_pages (Suc k) j vbase node attrs s = back_pages k (Suc j) vbase node attrs s1 \<and>
      pages_ok (kpma s1) \<and> taken_first (Suc m) (kpma s1) \<and> pages_backable k (page_at vbase (Suc j)) pgs \<and>
      (\<forall>ps s'. backed (Suc j) k vbase node attrs ps s1 s' \<longrightarrow> backed j (Suc k) vbase node attrs (page_addr (kpma s) m # ps) s s')"
proof -
  let ?p = "page_addr (kpma s) m" and ?va = "page_at vbase j"
  have inv: "pma_inv (kpma s)" using ok(1) by (simp add: pages_ok_def)
  obtain b where b: "get_physical_page (kpma s) = Inr (?p, kpma s\<lparr>page_bits := b\<rparr>)" "taken_first (Suc m) (kpma s\<lparr>page_bits := b\<rparr>)"
    using get_physical_page_first(1) [OF inv ok(2,3)] by blast
  note g = get_physical_page_ok [OF ok(1) b(1)]
  have paths: "page_paths ?va (Suc k) = insert (path_of ?va) (page_paths (page_at vbase (Suc j)) k)"
    by (simp add: page_paths_Suc page_at_step)
  have here: "pt_wf (kpaging s)" "lacking (kpaging s) (path_of ?va) \<le> length (free_tables (kpaging s))"
      "translation (kpaging s) (path_of ?va) = None"
    using tabs by (simp_all add: pages_backable_def paths)
  from map_page_effect [OF here(1,2) g(4) aligned_page_at [OF al] here(3), of attrs] obtain pgs where
    pgs: "map_page ?p ?va attrs (kpaging s) = Inr (sign_extend ?va 42, pgs)" "pt_wf pgs" "keeps_tables (kpaging s) pgs"
      "\<And>q. valid_path q \<Longrightarrow> translation pgs q = (if q = path_of ?va then Some (?p OR attrs OR PRESENT) else translation (kpaging s) q)"
    by blast
  have new: "path_of ?va \<notin> page_paths (page_at vbase (Suc j)) k"
    using path_not_later [of k ?va] j by (simp add: page_at_step)
  have "lacking pgs q = 0 \<and> translation pgs q = None" if "q \<in> page_paths (page_at vbase (Suc j)) k" for q
  proof -
    have "valid_path q" "q \<noteq> path_of ?va" "lacking (kpaging s) q = 0" "translation (kpaging s) q = None"
      using that new page_paths_valid [OF that] tabs by (auto simp: pages_backable_def paths)
    then show ?thesis using lacking_keeps [OF pgs(3), of q] pgs(4) [of q] by simp
  qed
  then have "pages_backable k (page_at vbase (Suc j)) pgs" using pgs(2) by (simp add: pages_backable_def)
  moreover have "back_pages (Suc k) j vbase node attrs s = back_pages k (Suc j) vbase node attrs
      (s\<lparr>kpma := kpma s\<lparr>page_bits := b\<rparr>, kpaging := pgs, heap := (heap s)(page_cell node j := ?p)\<rparr>)"
    using b(1) pgs(1) by (simp add: page_at_def mult.commute)
  ultimately show ?thesis
    using g(1) b(2) backed_step [OF g(2-5) here(3) pgs(4) j] by (intro exI [of _ b] exI [of _ pgs]) (simp add: Let_def)
qed

text \<open>So the loop backs the area with the pages from \<open>m\<close> on, up to page 31.\<close>

lemma back_pages_first:
  assumes "pages_ok (kpma s)" "taken_first m (kpma s)" "aligned vbase" "j + k \<le> 2 ^ 36" "m \<le> 32"
    "pages_backable k (page_at vbase j) (kpaging s)"
  shows "if m + k \<le> 32
    then \<exists>s'. back_pages k j vbase node attrs s = Inr s' \<and>
      backed j k vbase node attrs (map (page_addr (kpma s)) [m..<m + k]) s s'
    else back_pages k j vbase node attrs s = Inl (Undefined_behaviour ''shift count exceeds the width of int'')"
  using assms
proof (induction k arbitrary: j m s)
  case 0
  then show ?case by (auto simp: backed_def pages_backable_def)
next
  case (Suc k)
  show ?case
  proof (cases "m = 32")
    case True
    have "pma_inv (kpma s)" using Suc.prems(1) by (simp add: pages_ok_def)
    then show ?thesis using get_physical_page_first(2) [OF _ Suc.prems(2) True] True by simp
  next
    case False
    then have m: "m < 32" using Suc.prems(5) by simp
    from back_pages_round [OF Suc.prems(1,2) m Suc.prems(3,4,6), of node attrs] obtain b pgs s1 where
      s1: "s1 = s\<lparr>kpma := kpma s\<lparr>page_bits := b\<rparr>, kpaging := pgs, heap := (heap s)(page_cell node j := page_addr (kpma s) m)\<rparr>"
        "back_pages (Suc k) j vbase node attrs s = back_pages k (Suc j) vbase node attrs s1"
        "pages_ok (kpma s1)" "taken_first (Suc m) (kpma s1)" "pages_backable k (page_at vbase (Suc j)) (kpaging s1)"
        "\<And>ps s'. backed (Suc j) k vbase node attrs ps s1 s' \<Longrightarrow> backed j (Suc k) vbase node attrs (page_addr (kpma s) m # ps) s s'"
      by (auto simp: Let_def simp del: back_pages.simps)
    have addr: "page_addr (kpma s1) = page_addr (kpma s)" using s1(1) by (simp add: page_addr_def fun_eq_iff)
    have "Suc j + k \<le> 2 ^ 36" "Suc m \<le> 32" using Suc.prems(4) m by simp_all
    note ih = Suc.IH [OF s1(3,4) Suc.prems(3) this s1(5), unfolded addr]
    have "map (page_addr (kpma s)) [m..<m + Suc k] = page_addr (kpma s) m # map (page_addr (kpma s)) [Suc m..<Suc m + k]"
      by (simp add: upt_conv_Cons del: upt_Suc)
    then show ?thesis using ih s1(2,6) by (auto simp del: upt_Suc back_pages.simps)
  qed
qed

subsection \<open>Giving pages back\<close>

lemma free_physical_page_ok:
  assumes ok: "pages_ok s" and p: "p \<in> taken_pages s"
  shows "\<exists>s'. free_physical_page p s = Inr s' \<and> pages_ok s' \<and> taken_pages s' = taken_pages s - {p}"
proof -
  have inv: "pma_inv s" using ok by (simp add: pages_ok_def)
  obtain i where i: "p = page_addr s i" "i < bm_bits (page_bits s)" using p by (auto simp: taken_pages_def)
  obtain s' where s': "free_physical_page p s = Inr s'" "pma_inv s'" "taken_pages s' = taken_pages s - {p}"
    using pma.release_taken [OF inv p] by blast
  obtain b where b: "bm_reset (page_bits s) (ucast ((p - physical_page_base s) div PAGE_SIZE) :: u32) = Inr b"
      "s' = s\<lparr>page_bits := b\<rparr>"
    using s'(1) by (auto simp: free_physical_page_def rbind_eq_Inr_iff Let_def)
  have "bm_bits b = bm_bits (page_bits s)"
    using bm_update_ok(2) [of "ucast ((p - physical_page_base s) div PAGE_SIZE) :: u32" "page_bits s"] b(1)
      page_index [OF inv i(2)] i by auto
  then have "pages_ok s'" using ok s'(2) b(2) by (simp add: pages_ok_def)
  then show ?thesis using s' by blast
qed

lemma unmap_page_translation:
  assumes wf: "pt_wf s" and al: "aligned va" and some: "translation s (path_of va) \<noteq> None"
  shows "\<exists>s'. unmap_page va s = Inr s' \<and> pt_wf s' \<and>
    (\<forall>q. valid_path q \<longrightarrow> translation s' q = (if q = path_of va then None else translation s q))"
proof -
  have "present_entry (pte s (path_of va))"
    using some by (auto simp: present_entry_def translation_def split: option.splits if_splits)
  then obtain s' where s': "unmap_page va s = Inr s'" "pt_wf s'"
      "\<forall>q. valid_path q \<longrightarrow> pte s' q =
         (if q = path_of va then map_option (\<lambda>e. e AND NOT PRESENT) (pte s q) else pte s q)"
    using unmap.succeeds [OF wf al] by blast
  have "translation s' q = (if q = path_of va then None else translation s q)" if "valid_path q" for q
    using s'(3) that
    by (auto simp: translation_def bit_and_iff bit_not_iff bit_PRESENT split: option.splits)
  then show ?thesis using s' by blast
qed

lemma release_pages_effect:
  assumes "length ps = k" "distinct ps" "set ps \<subseteq> taken_pages (kpma s)" "pages_ok (kpma s)" "pt_wf (kpaging s)"
    "aligned vbase" "j + k \<le> 2 ^ 36" "\<forall>i<k. heap s (page_cell node (j + i)) = ps ! i"
    "\<forall>q \<in> page_paths (page_at vbase j) k. translation (kpaging s) q \<noteq> None"
  shows "\<exists>ms pgs. release_pages k j vbase node s = Inr (s\<lparr>kpma := ms, kpaging := pgs\<rparr>) \<and>
    pages_ok ms \<and> taken_pages ms = taken_pages (kpma s) - set ps \<and> pt_wf pgs \<and>
    (\<forall>q. valid_path q \<longrightarrow> translation pgs q =
       (if q \<in> page_paths (page_at vbase j) k then None else translation (kpaging s) q))"
  using assms
proof (induction k arbitrary: j s ps)
  case 0
  have "s = s\<lparr>kpma := kpma s, kpaging := kpaging s\<rparr>" by simp
  then show ?case using 0 by (intro exI [of _ "kpma s"] exI [of _ "kpaging s"]) simp
next
  case (Suc k)
  obtain p ps' where ps: "ps = p # ps'" using Suc.prems(1) by (cases ps) auto
  have p: "heap s (page_cell node j) = p" using Suc.prems(8) ps by auto
  obtain ms where ms: "free_physical_page p (kpma s) = Inr ms" "pages_ok ms"
      "taken_pages ms = taken_pages (kpma s) - {p}"
    using free_physical_page_ok [OF Suc.prems(4), of p] Suc.prems(3) ps by auto
  have paths: "page_paths (page_at vbase j) (Suc k) =
      insert (path_of (page_at vbase j)) (page_paths (page_at vbase (Suc j)) k)"
    by (simp add: page_paths_Suc page_at_step)
  obtain pgs where pgs: "unmap_page (page_at vbase j) (kpaging s) = Inr pgs" "pt_wf pgs"
      "\<And>q. valid_path q \<Longrightarrow> translation pgs q =
         (if q = path_of (page_at vbase j) then None else translation (kpaging s) q)"
    using unmap_page_translation [OF Suc.prems(5) aligned_page_at [OF Suc.prems(6)], of j] Suc.prems(9) paths
    by auto
  let ?s = "s\<lparr>kpma := ms, kpaging := pgs\<rparr>"
  have new: "path_of (page_at vbase j) \<notin> page_paths (page_at vbase (Suc j)) k"
    using path_not_later [of k "page_at vbase j"] Suc.prems(7) by (simp add: page_at_step)
  have cells: "\<forall>i<k. heap ?s (page_cell node (Suc j + i)) = ps' ! i"
    using Suc.prems(8) ps by (auto simp: All_less_Suc2)
  have trans: "\<forall>q \<in> page_paths (page_at vbase (Suc j)) k. translation (kpaging ?s) q \<noteq> None"
    using Suc.prems(9) pgs(3) new page_paths_valid by (auto simp: paths)
  have "\<exists>ms' pgs'. release_pages k (Suc j) vbase node ?s = Inr (?s\<lparr>kpma := ms', kpaging := pgs'\<rparr>) \<and>
    pages_ok ms' \<and> taken_pages ms' = taken_pages (kpma ?s) - set ps' \<and> pt_wf pgs' \<and>
    (\<forall>q. valid_path q \<longrightarrow> translation pgs' q =
       (if q \<in> page_paths (page_at vbase (Suc j)) k then None else translation (kpaging ?s) q))"
    using Suc.prems(1-3,6,7) ps ms pgs(2) cells trans by (intro Suc.IH) auto
  then obtain ms' pgs' where ih: "release_pages k (Suc j) vbase node ?s = Inr (s\<lparr>kpma := ms', kpaging := pgs'\<rparr>)"
    "pages_ok ms'" "taken_pages ms' = taken_pages ms - set ps'" "pt_wf pgs'"
    "\<forall>q. valid_path q \<longrightarrow> translation pgs' q =
       (if q \<in> page_paths (page_at vbase (Suc j)) k then None else translation pgs q)"
    by auto
  have "release_pages (Suc k) j vbase node s = Inr (s\<lparr>kpma := ms', kpaging := pgs'\<rparr>)"
    using ms(1) pgs(1) ih(1) p by (simp add: page_at_def)
  moreover have "taken_pages ms' = taken_pages (kpma s) - set ps" using ih(3) ms(3) ps by auto
  moreover have "translation pgs' q = (if q \<in> page_paths (page_at vbase j) (Suc k) then None
      else translation (kpaging s) q)" if "valid_path q" for q
    using that ih(5) pgs(3) by (simp add: paths)
  ultimately show ?case using ih(2,4) by blast
qed

subsection \<open>The allocation list\<close>

definition node_slot :: "memory \<Rightarrow> u64 \<Rightarrow> bool \<Rightarrow> u64" where
  "node_slot h cur reuse = (if reuse then cur else cur + ALLOCATION_SIZE + 8 * node_pages_of h cur)"

text \<open>The list has a killed node to re-use or room for a new one in the page of its last
  node, and the cells of the node are outside \<open>F\<close>, the free addresses.\<close>

definition list_room :: "u64 set \<Rightarrow> nat \<Rightarrow> alloc_state \<Rightarrow> bool" where
  "list_room F k s \<longleftrightarrow> first_allocation s \<noteq> 0 \<and>
     (\<exists>cur sz reuse. find_node (heap s) (of_nat k) (first_allocation s) 0 = Some (cur, sz, reuse) \<and>
        unat (node_pages_of (heap s) cur) < 2 ^ 40 \<and>
        (reuse \<or> sz div PAGE_SIZE = (sz + (ALLOCATION_SIZE + 8 * of_nat k)) div PAGE_SIZE) \<and>
        (\<forall>i < k + 3. node_slot (heap s) cur reuse + 8 * of_nat i \<notin> F))"

lemma find_node_stops:
  assumes "find_node h needed cur sz = Some r"
  shows "if snd (snd r) then node_pages_of h (fst r) = needed \<and> node_size_of h (fst r) = 0
    else node_next_of h (fst r) = 0"
proof (rule find_node.raw_induct [OF _ assms])
  fix f h needed cur sz r
  assume ih: "\<And>h needed cur sz r. f h needed cur sz = Some r \<Longrightarrow>
      if snd (snd r) then node_pages_of h (fst r) = needed \<and> node_size_of h (fst r) = 0
      else node_next_of h (fst r) = 0"
    and run: "(let sz' = sz + (ALLOCATION_SIZE + 8 * node_pages_of h cur) in
      if node_size_of h cur = 0 \<and> node_pages_of h cur = needed then Some (cur, sz', True)
      else if node_next_of h cur = 0 then Some (cur, sz', False)
      else f h needed (node_next_of h cur) sz') = Some r"
  show "if snd (snd r) then node_pages_of h (fst r) = needed \<and> node_size_of h (fst r) = 0
      else node_next_of h (fst r) = 0"
    using run ih [of h needed "node_next_of h cur"] by (auto simp: Let_def split: if_splits)
qed

lemma word_offset_neq: "0 < unat d \<Longrightarrow> (a :: u64) + d \<noteq> a"
  by (metis add_cancel_right_right not_gr_zero unsigned_0)

lemma node_gap:
  assumes "unat (c :: u64) < 2 ^ 40" "e \<le> 2 ^ 40" "0 < e"
  shows "a + ALLOCATION_SIZE + 8 * c + of_nat e \<noteq> (a :: u64)"
proof -
  have "unat (ALLOCATION_SIZE + 8 * c + of_nat e) = 24 + 8 * unat c + e"
    using assms by (simp add: ALLOCATION_SIZE_def unat_word_ariths unat_of_nat take_bit_nat_eq_self)
  then show ?thesis using word_offset_neq [of "ALLOCATION_SIZE + 8 * c + of_nat e" a] assms(3)
    by (simp add: add.assoc)
qed

lemma get_new_allocation_room:
  assumes room: "list_room F k s" and k: "div_ceil n PAGE_SIZE = of_nat k"
  shows "\<exists>node h. get_new_allocation n s = Inr (node, s\<lparr>heap := h\<rparr>) \<and> node_size_of h node = n \<and>
    node_pages_of h node = of_nat k \<and> (\<forall>i < k + 3. node + 8 * of_nat i \<notin> F) \<and>
    (\<forall>cur sz. find_node (heap s) (of_nat k) (first_allocation s) 0 = Some (cur, sz, False) \<longrightarrow>
       node_next_of h cur = node \<and> node = node_slot (heap s) cur False)"
proof -
  obtain cur sz reuse where f: "find_node (heap s) (of_nat k) (first_allocation s) 0 = Some (cur, sz, reuse)"
      "unat (node_pages_of (heap s) cur) < 2 ^ 40"
      "reuse \<or> sz div PAGE_SIZE = (sz + (ALLOCATION_SIZE + 8 * of_nat k)) div PAGE_SIZE"
      "\<forall>i < k + 3. node_slot (heap s) cur reuse + 8 * of_nat i \<notin> F"
    using room by (auto simp: list_room_def)
  have first: "first_allocation s \<noteq> 0" using room by (simp add: list_room_def)
  show ?thesis
  proof (cases reuse)
    case True
    have "node_pages_of (heap s) cur = of_nat k" using find_node_stops [OF f(1)] True by simp
    then show ?thesis using True f first k
      by (auto simp: get_new_allocation_def Let_def node_size_of_def node_pages_of_def node_slot_def
        add.assoc)
  next
    case False
    let ?a = "node_slot (heap s) cur False"
    have gaps: "?a + 8 \<noteq> cur" "?a + 16 \<noteq> cur"
      using node_gap [OF f(2), of 8 cur] node_gap [OF f(2), of 16 cur] by (simp_all add: node_slot_def)
    have "get_new_allocation n s = Inr (?a, write_new_node ?a n (of_nat k) cur s)"
      using False f(1,3) first k by (simp add: get_new_allocation_def Let_def node_slot_def)
    moreover have "\<forall>cur' sz'. find_node (heap s) (of_nat k) (first_allocation s) 0 = Some (cur', sz', False) \<longrightarrow> cur' = cur"
      using f(1) by simp
    ultimately show ?thesis using f(4) False gaps
      by (intro exI [of _ ?a] exI [of _ "heap (write_new_node ?a n (of_nat k) cur s)"])
        (auto simp: write_new_node_def Let_def node_size_of_def node_pages_of_def node_next_of_def)
  qed
qed

end
