(* ===== verification/Heap.thy ===== *)
theory Heap
  imports Alloc
begin

text \<open>
  What \<^verbatim>\<open>alloc\<close> and \<^verbatim>\<open>free\<close> of src/kernel/alloc.cpp guarantee: an allocation
  is an aligned run of addresses nobody holds, backed by fresh physical pages, and freeing it
  takes exactly these pages back; and what \<^verbatim>\<open>remove_allocation\<close> does to the
  neighbour of the node it removes.
\<close>

subsection \<open>Sizes\<close>

definition size_with_header :: "u64 \<Rightarrow> u64 \<Rightarrow> u64" where
  "size_with_header n alignment = align_to (n + padded_header_size alignment) PAGE_SIZE"

definition pages_for :: "u64 \<Rightarrow> u64 \<Rightarrow> nat" where
  "pages_for n alignment = unat (size_with_header n alignment) div 4096"

lemma alignment_word:
  assumes "e \<le> 12"
  shows "unat (2 ^ e :: u64) = 2 ^ e" "(2 ^ e :: u64) \<noteq> 0"
proof -
  have "(2 :: nat) ^ e < 2 ^ 64" using assms by (intro power_strict_increasing) auto
  then show u: "unat (2 ^ e :: u64) = 2 ^ e" using unat_of_nat_u64 [of "2 ^ e"] by simp
  then show "(2 ^ e :: u64) \<noteq> 0" by (metis unsigned_0 power_not_zero zero_neq_numeral)
qed

lemma header_bounds:
  assumes "e \<le> 12"
  shows "16 \<le> unat (padded_header_size (2 ^ e))" "unat (padded_header_size (2 ^ e)) < 16 + 4096"
    "take_bit e (padded_header_size (2 ^ e)) = 0"
proof -
  note u = alignment_word(1) [OF assms]
  have le: "(2 :: nat) ^ e \<le> 2 ^ 12" using assms by (intro power_increasing) auto
  note b = align_to_bounds [OF alignment_word(2) [OF assms], of 16]
  show "16 \<le> unat (padded_header_size (2 ^ e))" "unat (padded_header_size (2 ^ e)) < 16 + 4096"
    using b(2,3) u le by (auto simp: padded_header_size_def)
  have "unat (take_bit e (padded_header_size (2 ^ e))) = 0"
    unfolding unsigned_take_bit_eq using b(1) u le by (simp add: padded_header_size_def take_bit_eq_mod)
  then show "take_bit e (padded_header_size (2 ^ e)) = 0" by (simp add: unat_eq_0)
qed

lemma size_bounds:
  assumes "e \<le> 12" "unat n < 2 ^ 40"
  shows "unat n + unat (padded_header_size (2 ^ e)) \<le> unat (size_with_header n (2 ^ e))"
    "unat (size_with_header n (2 ^ e)) = 4096 * pages_for n (2 ^ e)" "pages_for n (2 ^ e) < 2 ^ 30"
    "0 < pages_for n (2 ^ e)"
proof -
  note h = header_bounds [OF assms(1)]
  have u: "unat (n + padded_header_size (2 ^ e)) = unat n + unat (padded_header_size (2 ^ e))"
    using h assms(2) by (intro unat_add_u64) simp
  have P: "PAGE_SIZE \<noteq> 0" "unat PAGE_SIZE = 4096" by (simp_all add: PAGE_SIZE_def)
  note b = align_to_bounds [OF P(1), of "n + padded_header_size (2 ^ e)", unfolded P(2) u]
  have bounds: "4096 dvd unat (size_with_header n (2 ^ e))"
    "unat n + unat (padded_header_size (2 ^ e)) \<le> unat (size_with_header n (2 ^ e))"
    "unat (size_with_header n (2 ^ e)) < unat n + unat (padded_header_size (2 ^ e)) + 4096"
    using b h assms(2) by (simp_all add: size_with_header_def)
  show "unat n + unat (padded_header_size (2 ^ e)) \<le> unat (size_with_header n (2 ^ e))" by (rule bounds(2))
  show eq: "unat (size_with_header n (2 ^ e)) = 4096 * pages_for n (2 ^ e)"
    using bounds(1) by (simp add: pages_for_def)
  show "pages_for n (2 ^ e) < 2 ^ 30" using eq bounds(3) h assms(2) by simp
  show "0 < pages_for n (2 ^ e)" using eq bounds(2) h(1) by simp
qed

lemma int_count_of_nat:
  assumes "k < 2 ^ 31" shows "int_count (of_nat k) = k"
proof -
  have "sint (of_nat k :: u32) = int k"
    using assms by (simp add: signed_of_nat signed_take_bit_int_eq_self)
  moreover have "(ucast (of_nat k :: u64) :: u32) = of_nat k"
  proof (rule unsigned_word_eqI)
    show "unat (ucast (of_nat k :: u64) :: u32) = unat (of_nat k :: u32)"
      using unat_of_nat_u64 [of k] unat_of_nat_u32 [of k] unat_ucast_u32 [of "of_nat k"] assms by simp
  qed
  ultimately show ?thesis by (simp add: int_count_def)
qed

lemma pages_needed:
  assumes "unat sz = 4096 * k" shows "div_ceil sz PAGE_SIZE = of_nat k"
proof (rule unsigned_word_eqI)
  have k: "k < 2 ^ 64" using unat_u64_lt [of sz] assms by simp
  have "unat (div_ceil sz PAGE_SIZE) = (4096 * k + 4096 - 1) div 4096"
    using unat_div_ceil [of PAGE_SIZE sz] assms by (simp add: PAGE_SIZE_def)
  also have "\<dots> = k" by simp
  finally show "unat (div_ceil sz PAGE_SIZE) = unat (of_nat k :: u64)" using unat_of_nat_u64 [OF k] by simp
qed

subsection \<open>One allocation\<close>

lemma word_diff_less:
  assumes "x - (b + h) < (n :: u64)" "unat n + unat h \<le> unat sz"
  shows "x - b < sz"
proof -
  have "unat (x - (b + h)) + unat h < unat sz" using assms by (simp add: word_less_nat_alt)
  moreover from less_trans [OF this unat_u64_lt] have "unat (x - (b + h)) + unat h < 2 ^ 64" by simp
  then have "unat ((x - (b + h)) + h) = unat (x - (b + h)) + unat h" by (rule unat_add_u64)
  ultimately show ?thesis by (simp add: word_less_nat_alt)
qed

text \<open>The state an allocation leaves: \<open>vbase\<close> is the base of its area, \<open>node\<close> its node and
  \<open>ps\<close> its physical pages.\<close>

definition allocated :: "u64 \<Rightarrow> u64 \<Rightarrow> protection \<Rightarrow> u64 \<Rightarrow> u64 \<Rightarrow> u64 list \<Rightarrow> alloc_state \<Rightarrow> alloc_state \<Rightarrow> bool" where
  "allocated n alignment p vbase node ps s s' \<longleftrightarrow>
     (let sz = size_with_header n alignment; k = pages_for n alignment in
      area vbase sz \<subseteq> free_area (kvma s) \<and> free_area (kvma s') = free_area (kvma s) - area vbase sz \<and>
      vma_inv (kvma s') \<and> \<not> locked (malloc_lock s') \<and> aligned vbase \<and>
      (\<exists>h s2. backed 0 k vbase node (page_attrs p) ps (s\<lparr>heap := h, kvma := kvma s', malloc_lock := malloc_lock s2\<rparr>) s2 \<and>
         node_size_of h node = sz \<and> node_pages_of h node = of_nat k \<and>
         (\<forall>i < k + 3. node + 8 * of_nat i \<notin> free_area (kvma s)) \<and>
         kpma s' = kpma s2 \<and> kpaging s' = kpaging s2 \<and> first_allocation s' = first_allocation s \<and>
         heap s' = (heap s2)(vbase := node, vbase + padded_header_size alignment - 8 := alignment)))"

definition bases_aligned :: "vma_state \<Rightarrow> bool" where
  "bases_aligned s \<longleftrightarrow> (case walk_list s of Inl _ \<Rightarrow> False | Inr is \<Rightarrow> \<forall>i \<in> set is. aligned (node_base (nodes s ! i)))"

lemma get_virtual_pages_aligned:
  assumes "bases_aligned s" "vma_inv s" "get_virtual_pages sz s = Inr (p, s')"
  shows "aligned p"
proof -
  obtain "is" where ok: "list_ok s is" using assms(2) by (auto simp: vma_inv_def)
  then obtain i where i: "fitting_node (nodes s) sz is = Some i" "p = node_base (nodes s ! i)"
    using assms(3) by (auto simp: get_virtual_pages_def rbind_eq_Inr_iff list_ok_walk Let_def split: option.splits)
  then show ?thesis using assms(1) fitting_node_Some [OF i(1)] by (auto simp: bases_aligned_def list_ok_walk [OF ok])
qed

text \<open>The header and the alignment word lie in the area.\<close>

lemma header_area:
  assumes e: "e \<le> 12" and n: "unat n < 2 ^ 40"
  shows "vbase \<in> area vbase (size_with_header n (2 ^ e))"
    "vbase + padded_header_size (2 ^ e) - 8 \<in> area vbase (size_with_header n (2 ^ e))"
proof -
  let ?hdr = "padded_header_size (2 ^ e)"
  note sb = size_bounds [OF e n] and hb = header_bounds [OF e]
  show "vbase \<in> area vbase (size_with_header n (2 ^ e))" using sb(2,4) by (auto simp: area_def word_less_nat_alt)
  have "unat (?hdr - 8) = unat ?hdr - 8" using hb(1) by (subst unat_sub) (simp_all add: word_le_nat_alt)
  moreover have "vbase + ?hdr - 8 - vbase = ?hdr - 8" by simp
  ultimately show "vbase + ?hdr - 8 \<in> area vbase (size_with_header n (2 ^ e))"
    using sb(1) hb(1) by (auto simp: area_def word_less_nat_alt)
qed

text \<open>Up to the pages: the lock is taken, the virtual area and the node are found.\<close>

lemma alloc_to_pages:
  assumes n: "n \<noteq> 0" "unat n < 2 ^ 40" and e: "e \<le> 12" and free: "\<not> locked (malloc_lock s)"
    and v: "get_virtual_pages (size_with_header n (2 ^ e)) (kvma s) = Inr (vbase, vs)"
    and room: "list_room (free_area (kvma s)) (pages_for n (2 ^ e)) s"
  shows "\<exists>node h. alloc n (2 ^ e) p s =
      rbind (back_pages (pages_for n (2 ^ e)) 0 vbase node (page_attrs p)
        (s\<lparr>malloc_lock := (malloc_lock s)\<lparr>locked := True\<rparr>, kvma := vs, heap := h\<rparr>)) (\<lambda>s2.
      rbind (cell_write vbase node s2) (\<lambda>s3.
      rbind (cell_write (vbase + padded_header_size (2 ^ e) - 8) (2 ^ e) s3) (\<lambda>s4.
        Inr (vbase + padded_header_size (2 ^ e), unlock_heap s4)))) \<and>
    node_size_of h node = size_with_header n (2 ^ e) \<and> node_pages_of h node = of_nat (pages_for n (2 ^ e)) \<and>
    (\<forall>i < pages_for n (2 ^ e) + 3. node + 8 * of_nat i \<notin> free_area (kvma s)) \<and>
    (\<forall>cur sz. find_node (heap s) (of_nat (pages_for n (2 ^ e))) (first_allocation s) 0 = Some (cur, sz, False) \<longrightarrow>
       node_next_of h cur = node \<and> node = node_slot (heap s) cur False)"
proof -
  let ?k = "pages_for n (2 ^ e)" and ?sz = "size_with_header n (2 ^ e)" and ?m = "(malloc_lock s)\<lparr>locked := True\<rparr>"
  note sb = size_bounds [OF e n(2)]
  have "list_room (free_area (kvma s)) ?k (s\<lparr>malloc_lock := ?m, kvma := vs\<rparr>)"
    using room by (simp add: list_room_def)
  from get_new_allocation_room [OF this pages_needed [OF sb(2)]] obtain node h where
    h: "get_new_allocation ?sz (s\<lparr>malloc_lock := ?m, kvma := vs\<rparr>) = Inr (node, s\<lparr>malloc_lock := ?m, kvma := vs, heap := h\<rparr>)"
      "node_size_of h node = ?sz" "node_pages_of h node = of_nat ?k" "\<forall>i < ?k + 3. node + 8 * of_nat i \<notin> free_area (kvma s)"
      "\<forall>cur sz. find_node (heap s) (of_nat ?k) (first_allocation s) 0 = Some (cur, sz, False) \<longrightarrow>
         node_next_of h cur = node \<and> node = node_slot (heap s) cur False"
    by auto
  note nz = alignment_word(2) [OF e]
  have "int_count (of_nat ?k) = ?k" using int_count_of_nat [of ?k] sb(3) by simp
  then show ?thesis
    using n(1) free v h nz
    by (intro exI [of _ node] exI [of _ h])
      (simp add: alloc_def lock_heap_def try_acquire_def Let_def size_with_header_def)
qed

lemma allocated_of_backed:
  assumes inv: "vma_inv (kvma s)" "bases_aligned (kvma s)" and v: "get_virtual_pages (size_with_header n (2 ^ e)) (kvma s) = Inr (vbase, vs)"
    and h: "node_size_of h node = size_with_header n (2 ^ e)" "node_pages_of h node = of_nat (pages_for n (2 ^ e))"
      "\<forall>i < pages_for n (2 ^ e) + 3. node + 8 * of_nat i \<notin> free_area (kvma s)"
    and ps: "backed 0 (pages_for n (2 ^ e)) vbase node (page_attrs p) ps (s\<lparr>malloc_lock := m, kvma := vs, heap := h\<rparr>) s2"
    and s': "s' = unlock_heap (s2\<lparr>heap := (heap s2)(vbase := node, vbase + padded_header_size (2 ^ e) - 8 := 2 ^ e)\<rparr>)"
  shows "allocated n (2 ^ e) p vbase node ps s s'"
proof -
  note area = vma.take_free [OF inv(1) v]
  have al: "aligned vbase" by (rule get_virtual_pages_aligned [OF inv(2,1) v])
  have frame: "kvma s2 = vs" "first_allocation s2 = first_allocation s" "malloc_lock s2 = m"
    using ps by (auto simp: backed_def)
  have s1: "s\<lparr>malloc_lock := m, kvma := vs, heap := h\<rparr> = s\<lparr>heap := h, kvma := kvma s', malloc_lock := malloc_lock s2\<rparr>"
    using frame s' by (simp add: unlock_heap_def)
  show ?thesis
    unfolding allocated_def Let_def
  proof (intro conjI exI)
    show "backed 0 (pages_for n (2 ^ e)) vbase node (page_attrs p) ps
        (s\<lparr>heap := h, kvma := kvma s', malloc_lock := malloc_lock s2\<rparr>) s2"
      using ps s1 by simp
  qed (use area al h frame s' in \<open>simp_all add: unlock_heap_def release_def\<close>)
qed

lemma alloc_allocated:
  assumes run: "alloc n (2 ^ e) p s = Inr (a, s')" and n: "n \<noteq> 0" "unat n < 2 ^ 40" and e: "e \<le> 12"
    and inv: "vma_inv (kvma s)" "bases_aligned (kvma s)" "pages_ok (kpma s)" "pt_wf (kpaging s)"
    and tabs: "3 * pages_for n (2 ^ e) \<le> length (free_tables (kpaging s))"
    and room: "list_room (free_area (kvma s)) (pages_for n (2 ^ e)) s"
  shows "\<exists>vbase node ps. a = vbase + padded_header_size (2 ^ e) \<and> allocated n (2 ^ e) p vbase node ps s s'"
proof -
  let ?k = "pages_for n (2 ^ e)"
  have free: "\<not> locked (malloc_lock s)" using run n(1) by (auto simp: alloc_def lock_heap_def try_acquire_def split: if_splits)
  then obtain vbase vs where v: "get_virtual_pages (size_with_header n (2 ^ e)) (kvma s) = Inr (vbase, vs)"
    using run n(1) by (auto simp: alloc_def lock_heap_def try_acquire_def Let_def rbind_eq_Inr_iff size_with_header_def split: if_splits)
  from alloc_to_pages [OF n e free v room, of p] obtain node h where
    h: "alloc n (2 ^ e) p s = rbind (back_pages ?k 0 vbase node (page_attrs p)
        (s\<lparr>malloc_lock := (malloc_lock s)\<lparr>locked := True\<rparr>, kvma := vs, heap := h\<rparr>)) (\<lambda>s2.
      rbind (cell_write vbase node s2) (\<lambda>s3.
      rbind (cell_write (vbase + padded_header_size (2 ^ e) - 8) (2 ^ e) s3) (\<lambda>s4.
        Inr (vbase + padded_header_size (2 ^ e), unlock_heap s4))))"
      "node_size_of h node = size_with_header n (2 ^ e)" "node_pages_of h node = of_nat ?k"
      "\<forall>i < ?k + 3. node + 8 * of_nat i \<notin> free_area (kvma s)" by blast
  obtain s2 where r: "back_pages ?k 0 vbase node (page_attrs p)
        (s\<lparr>malloc_lock := (malloc_lock s)\<lparr>locked := True\<rparr>, kvma := vs, heap := h\<rparr>) = Inr s2"
      "a = vbase + padded_header_size (2 ^ e)"
      "s' = unlock_heap (s2\<lparr>heap := (heap s2)(vbase := node, vbase + padded_header_size (2 ^ e) - 8 := 2 ^ e)\<rparr>)"
    using run unfolding h(1) by (auto simp: rbind_eq_Inr_iff cell_write_def split: if_splits)
  have al: "aligned vbase" by (rule get_virtual_pages_aligned [OF inv(2,1) v])
  from back_pages_backed [OF r(1)] inv(3,4) tabs al size_bounds(3) [OF e n(2)] obtain ps where
    "backed 0 ?k vbase node (page_attrs p) ps
       (s\<lparr>malloc_lock := (malloc_lock s)\<lparr>locked := True\<rparr>, kvma := vs, heap := h\<rparr>) s2" by auto
  from allocated_of_backed [OF inv(1,2) v h(2-4) this r(3)] show ?thesis using r(2) by blast
qed

lemma take_bit_zero_le: "take_bit m (x :: u64) = 0 \<Longrightarrow> n \<le> m \<Longrightarrow> take_bit n x = 0"
  by (metis min.absorb1 take_bit_of_0 take_bit_take_bit)

text \<open>The alignment word is 8-byte aligned, whatever the alignment.\<close>

lemma header_cell:
  assumes e: "e \<le> 12" and al: "aligned vbase"
  shows "vbase mod 8 = 0" "(vbase + padded_header_size (2 ^ e) - 8) mod 8 = 0"
proof -
  have eight: "(2 :: u64) ^ 3 = 8" by simp
  have "take_bit 3 (padded_header_size (2 ^ e)) = 0"
  proof (cases "3 \<le> e")
    case True
    then show ?thesis by (rule take_bit_zero_le [OF header_bounds(3) [OF e]])
  next
    case False
    then have "e = 0 \<or> e = 1 \<or> e = 2" by arith
    then show ?thesis by (elim disjE) (simp_all add: padded_header_size_def align_to_def)
  qed
  then have h: "8 dvd padded_header_size (2 ^ e)" unfolding take_bit_eq_0_iff eight .
  have "take_bit 3 vbase = 0" using al unfolding aligned_def by (rule take_bit_zero_le) simp
  then show "vbase mod 8 = 0" unfolding take_bit_eq_mod eight .
  have v: "8 dvd vbase" using \<open>take_bit 3 vbase = 0\<close> unfolding take_bit_eq_0_iff eight .
  have "8 dvd vbase + padded_header_size (2 ^ e) - 8" using v h by (rule dvd_diff [OF dvd_add dvd_refl])
  then have "take_bit 3 (vbase + padded_header_size (2 ^ e) - 8) = 0" unfolding take_bit_eq_0_iff eight .
  then show "(vbase + padded_header_size (2 ^ e) - 8) mod 8 = 0" unfolding take_bit_eq_mod eight .
qed

text \<open>Recording the pages of a node keeps the link to it.\<close>

lemma backed_link:
  assumes b: "backed 0 k vbase node attrs ps s s'" and "heap s cur = node" and slot: "node = node_slot h cur False"
    and c: "unat (node_pages_of h cur) < 2 ^ 40" and k: "k < 2 ^ 30"
  shows "heap s' cur = node"
proof -
  have "cur \<noteq> page_cell node i" if "i < k" for i
    using node_gap [OF c, of "24 + 8 * i" cur] that k slot
    by (auto simp: node_slot_def page_cell_def ALLOCATION_SIZE_def add.assoc)
  then show ?thesis using b assms(2) by (auto simp: backed_def)
qed

text \<open>With the first \<open>m\<close> physical pages taken and the virtual pages free below existing tables,
  \<^verbatim>\<open>alloc\<close> succeeds exactly when page 31 is not passed.\<close>

lemma alloc_first_pages:
  assumes n: "n \<noteq> 0" "unat n < 2 ^ 40" and e: "e \<le> 12" and free: "\<not> locked (malloc_lock s)"
    and inv: "vma_inv (kvma s)" "bases_aligned (kvma s)" "pages_ok (kpma s)"
    and v: "get_virtual_pages (size_with_header n (2 ^ e)) (kvma s) = Inr (vbase, vs)"
    and room: "list_room (free_area (kvma s)) (pages_for n (2 ^ e)) s"
    and first: "taken_first m (kpma s)" "m \<le> 32"
    and tabs: "pages_backable (pages_for n (2 ^ e)) vbase (kpaging s)"
  shows "if m + pages_for n (2 ^ e) \<le> 32
    then \<exists>node s'. alloc n (2 ^ e) p s = Inr (vbase + padded_header_size (2 ^ e), s') \<and>
      allocated n (2 ^ e) p vbase node (map (page_addr (kpma s)) [m..<m + pages_for n (2 ^ e)]) s s' \<and> kvma s' = vs \<and>
      (\<forall>cur sz. find_node (heap s) (of_nat (pages_for n (2 ^ e))) (first_allocation s) 0 = Some (cur, sz, False) \<longrightarrow>
         cur \<notin> free_area (kvma s) \<longrightarrow> unat (node_pages_of (heap s) cur) < 2 ^ 40 \<longrightarrow>
         node = node_slot (heap s) cur False \<and> node_next_of (heap s') cur = node)
    else alloc n (2 ^ e) p s = Inl (Undefined_behaviour ''shift count exceeds the width of int'')"
proof -
  let ?k = "pages_for n (2 ^ e)" and ?hdr = "padded_header_size (2 ^ e)"
  from alloc_to_pages [OF n e free v room, of p] obtain node h where
    h: "alloc n (2 ^ e) p s = rbind (back_pages ?k 0 vbase node (page_attrs p)
        (s\<lparr>malloc_lock := (malloc_lock s)\<lparr>locked := True\<rparr>, kvma := vs, heap := h\<rparr>)) (\<lambda>s2.
      rbind (cell_write vbase node s2) (\<lambda>s3.
      rbind (cell_write (vbase + ?hdr - 8) (2 ^ e) s3) (\<lambda>s4. Inr (vbase + ?hdr, unlock_heap s4))))"
      "node_size_of h node = size_with_header n (2 ^ e)" "node_pages_of h node = of_nat ?k"
      "\<forall>i < ?k + 3. node + 8 * of_nat i \<notin> free_area (kvma s)"
      "\<forall>cur sz. find_node (heap s) (of_nat ?k) (first_allocation s) 0 = Some (cur, sz, False) \<longrightarrow>
         node_next_of h cur = node \<and> node = node_slot (heap s) cur False" by blast
  let ?s1 = "s\<lparr>malloc_lock := (malloc_lock s)\<lparr>locked := True\<rparr>, kvma := vs, heap := h\<rparr>"
  have al: "aligned vbase" by (rule get_virtual_pages_aligned [OF inv(2,1) v])
  have prems: "pages_ok (kpma ?s1)" "taken_first m (kpma ?s1)" "pages_backable ?k (page_at vbase 0) (kpaging ?s1)" "kpma ?s1 = kpma s"
    using inv(3) first(1) tabs by simp_all
  have "0 + ?k \<le> 2 ^ 36" using size_bounds(3) [OF e n(2)] by simp
  then have pages: "if m + ?k \<le> 32
    then \<exists>s2. back_pages ?k 0 vbase node (page_attrs p) ?s1 = Inr s2 \<and>
      backed 0 ?k vbase node (page_attrs p) (map (page_addr (kpma s)) [m..<m + ?k]) ?s1 s2
    else back_pages ?k 0 vbase node (page_attrs p) ?s1 = Inl (Undefined_behaviour ''shift count exceeds the width of int'')"
    using back_pages_first [OF prems(1,2) al _ first(2) prems(3), of node "page_attrs p"] unfolding prems(4) by blast
  show ?thesis
  proof (cases "m + ?k \<le> 32")
    case True
    then obtain s2 where s2: "back_pages ?k 0 vbase node (page_attrs p) ?s1 = Inr s2"
        "backed 0 ?k vbase node (page_attrs p) (map (page_addr (kpma s)) [m..<m + ?k]) ?s1 s2" using pages by auto
    let ?s' = "unlock_heap (s2\<lparr>heap := (heap s2)(vbase := node, vbase + ?hdr - 8 := 2 ^ e)\<rparr>)"
    have "alloc n (2 ^ e) p s = Inr (vbase + ?hdr, ?s')"
      unfolding h(1) s2(1) by (simp add: cell_write_def header_cell [OF e al])
    moreover have "allocated n (2 ^ e) p vbase node (map (page_addr (kpma s)) [m..<m + ?k]) s ?s'"
      by (rule allocated_of_backed [OF inv(1,2) v h(2-4) s2(2) refl])
    moreover have "kvma ?s' = vs" using s2(2) by (simp add: backed_def unlock_heap_def)
    moreover have "node_next_of (heap ?s') cur = node" "node = node_slot (heap s) cur False"
      if c: "find_node (heap s) (of_nat ?k) (first_allocation s) 0 = Some (cur, sz, False)" "cur \<notin> free_area (kvma s)"
        "unat (node_pages_of (heap s) cur) < 2 ^ 40" for cur sz
    proof -
      show slot: "node = node_slot (heap s) cur False" using h(5) c(1) by blast
      have "h cur = node" using h(5) c(1) by (auto simp: node_next_of_def)
      then have "heap s2 cur = node" using backed_link [OF s2(2) _ slot c(3)] size_bounds(3) [OF e n(2)] by simp
      then show "node_next_of (heap ?s') cur = node"
        using header_area [OF e n(2), of vbase] vma.take_free [OF inv(1) v] c(2)
        by (auto simp: node_next_of_def unlock_heap_def)
    qed
    ultimately show ?thesis using True by auto
  next
    case False
    then show ?thesis using h(1) pages by simp
  qed
qed

subsection \<open>Reading an allocation back\<close>

lemma page_attrs_mask: "page_attrs p AND ADDRESS_MASK = 0"
  by (cases p) (simp_all add: page_attrs_def RW_def XD_def ADDRESS_MASK_def)

lemma page_cell_slot: "page_cell node i = node + 8 * of_nat (i + 3)"
  by (simp add: page_cell_def ALLOCATION_SIZE_def algebra_simps)

lemma page_cell_fields:
  assumes "i < 2 ^ 36"
  shows "page_cell node i \<noteq> node + 8" "page_cell node i \<noteq> node + 16"
proof -
  have u: "unat (16 + 8 * of_nat i :: u64) = 16 + 8 * i" "unat (8 + 8 * of_nat i :: u64) = 8 + 8 * i"
    using assms by (simp_all add: unat_word_ariths unat_of_nat take_bit_nat_eq_self)
  show "page_cell node i \<noteq> node + 8"
    using word_offset_neq [of "16 + 8 * of_nat i" "node + 8"] u(1)
    by (simp add: page_cell_def ALLOCATION_SIZE_def algebra_simps)
  show "page_cell node i \<noteq> node + 16"
    using word_offset_neq [of "8 + 8 * of_nat i" "node + 16"] u(2)
    by (simp add: page_cell_def ALLOCATION_SIZE_def algebra_simps)
qed

text \<open>The node lies outside the area.\<close>

lemma allocated_node: "allocated n (2 ^ e) p vbase node ps s s' \<Longrightarrow> node \<notin> free_area (kvma s)"
  unfolding allocated_def Let_def by (elim exE conjE) (drule spec [of _ 0], simp)

lemma allocated_cells:
  assumes al: "allocated n (2 ^ e) p vbase node ps s s'" and e: "e \<le> 12" and n: "unat n < 2 ^ 40"
  shows "heap s' vbase = node" "heap s' (vbase + padded_header_size (2 ^ e) - 8) = 2 ^ e"
    "node_size_of (heap s') node = size_with_header n (2 ^ e)"
    "node_pages_of (heap s') node = of_nat (pages_for n (2 ^ e))"
    "\<forall>i < pages_for n (2 ^ e). heap s' (page_cell node i) = ps ! i"
proof -
  let ?k = "pages_for n (2 ^ e)" and ?sz = "size_with_header n (2 ^ e)" and ?hdr = "padded_header_size (2 ^ e)"
  note sb = size_bounds [OF e n] and hb = header_bounds [OF e]
  obtain h s2 where a: "area vbase ?sz \<subseteq> free_area (kvma s)"
      "backed 0 ?k vbase node (page_attrs p) ps (s\<lparr>heap := h, kvma := kvma s', malloc_lock := malloc_lock s2\<rparr>) s2"
      "node_size_of h node = ?sz" "node_pages_of h node = of_nat ?k"
      "\<forall>i < ?k + 3. node + 8 * of_nat i \<notin> free_area (kvma s)"
      "heap s' = (heap s2)(vbase := node, vbase + ?hdr - 8 := 2 ^ e)"
    using al by (auto simp: allocated_def Let_def)
  have u8: "unat (?hdr - 8) = unat ?hdr - 8" using hb(1) by (subst unat_sub) (simp_all add: word_le_nat_alt)
  have in1: "vbase \<in> free_area (kvma s)" and in2: "vbase + ?hdr - 8 \<in> free_area (kvma s)"
    using a(1) header_area [OF e n, of vbase] by auto
  have off: "heap s' x = heap s2 x" if "x \<notin> free_area (kvma s)" for x
    using that in1 in2 a(6) by auto
  have slot: "node + 8 * of_nat i \<notin> free_area (kvma s)" if "i < ?k + 3" for i using a(5) that by blast
  have cell: "heap s2 x = h x" if "\<forall>i < ?k. x \<noteq> page_cell node i" for x
    using a(2) that by (auto simp: backed_def)
  have "unat (?hdr - 8) \<noteq> 0" using u8 hb(1) by simp
  then have "vbase + (?hdr - 8) \<noteq> vbase" using word_offset_neq [of "?hdr - 8" vbase] by simp
  then show "heap s' vbase = node" "heap s' (vbase + ?hdr - 8) = 2 ^ e" using a(6) by (auto simp: add_diff_eq)
  have i36: "i < ?k \<Longrightarrow> i < 2 ^ 36" for i using sb(3) by simp
  have "heap s' (node + 8) = h (node + 8)" "heap s' (node + 16) = h (node + 16)"
    using off [of "node + 8"] off [of "node + 16"] slot [of 1] slot [of 2] cell [of "node + 8"] cell [of "node + 16"]
      page_cell_fields [OF i36, THEN not_sym] by auto
  then show "node_size_of (heap s') node = ?sz" "node_pages_of (heap s') node = of_nat ?k"
    using a(3,4) by (simp_all add: node_size_of_def node_pages_of_def)
  show "\<forall>i < ?k. heap s' (page_cell node i) = ps ! i"
  proof (intro allI impI)
    fix i assume i: "i < ?k"
    then have "page_cell node i \<notin> free_area (kvma s)" unfolding page_cell_slot by (intro slot) simp
    moreover have "heap s2 (page_cell node i) = ps ! i" using a(2) i by (simp add: backed_def)
    ultimately show "heap s' (page_cell node i) = ps ! i" using off by simp
  qed
qed

lemma allocated_physical:
  assumes al: "allocated n (2 ^ e) p vbase node ps s s'" and e: "e \<le> 12" and n: "unat n < 2 ^ 40"
    and x: "x \<in> area vbase (size_with_header n (2 ^ e))"
  shows "get_physical_address (kpaging s') x =
    Inr (ps ! (unat (x - vbase) div 4096) + of_nat (unat (x - vbase) mod 4096))"
proof -
  let ?d = "unat (x - vbase)" and ?k = "pages_for n (2 ^ e)"
  let ?i = "?d div 4096" and ?off = "of_nat (?d mod 4096) :: u64"
  obtain h s2 where b: "backed 0 ?k vbase node (page_attrs p) ps
        (s\<lparr>heap := h, kvma := kvma s', malloc_lock := malloc_lock s2\<rparr>) s2" "kpaging s' = kpaging s2" "aligned vbase"
    using al by (auto simp: allocated_def Let_def)
  have i: "?i < ?k" using x size_bounds(2) [OF e n] by (simp add: area_def word_less_nat_alt)
  have "x - vbase = of_nat (?i * 4096 + ?d mod 4096)" by (simp only: div_mult_mod_eq) simp
  then have "x - vbase = of_nat ?i * PAGE_SIZE + ?off" by (simp only: of_nat_add of_nat_mult PAGE_SIZE_def) simp
  then have eq: "page_at vbase ?i + ?off = x" by (simp add: page_at_def algebra_simps)
  have off: "unat ?off < 4096" using unat_of_nat_u64 [of "?d mod 4096"] by simp
  have al': "aligned (page_at vbase ?i)" by (rule aligned_page_at [OF b(3)])
  have "ps ! ?i \<in> set ps" using b(1) i by (auto simp: backed_def)
  then have p: "aligned (ps ! ?i)" "unat (ps ! ?i) < 2 ^ 52" using b(1) by (auto simp: backed_def)
  have "translation (kpaging s') (path_of x) = Some (ps ! ?i OR page_attrs p OR PRESENT)"
    using b i page_offset_path(1) [OF al' off] unfolding eq by (auto simp: backed_def)
  moreover have "pt_wf (kpaging s')" using b(1,2) by (auto simp: backed_def)
  ultimately show ?thesis
    using get_physical_address_translation [of "kpaging s'" x] entry_address [OF p page_attrs_mask]
      page_offset_path(2) [OF al' off] unfolding eq by simp
qed

lemma release_allocated:
  assumes al: "allocated n (2 ^ e) p vbase node ps s s1" and e: "e \<le> 12" and n: "unat n < 2 ^ 40"
  shows "\<exists>ms pgs. release_pages (pages_for n (2 ^ e)) 0 vbase node (s1\<lparr>malloc_lock := m, kvma := vs\<rparr>) =
      Inr (s1\<lparr>malloc_lock := m, kvma := vs, kpma := ms, kpaging := pgs\<rparr>) \<and>
    taken_pages ms = taken_pages (kpma s) \<and>
    (\<forall>q. valid_path q \<longrightarrow> translation pgs q = translation (kpaging s) q)"
proof -
  let ?k = "pages_for n (2 ^ e)" and ?s = "s1\<lparr>malloc_lock := m, kvma := vs\<rparr>"
  obtain h s5 where b: "backed 0 ?k vbase node (page_attrs p) ps
        (s\<lparr>heap := h, kvma := kvma s1, malloc_lock := malloc_lock s5\<rparr>) s5"
      "kpma s1 = kpma s5" "kpaging s1 = kpaging s5" "aligned vbase"
    using al by (auto simp: allocated_def Let_def)
  have mapped: "translation (kpaging s1) q \<noteq> None" if "q \<in> page_paths vbase ?k" for q
    using that b(1,3) by (auto simp: backed_def page_paths_def)
  have "\<exists>ms pgs. release_pages ?k 0 vbase node ?s = Inr (?s\<lparr>kpma := ms, kpaging := pgs\<rparr>) \<and>
    pages_ok ms \<and> taken_pages ms = taken_pages (kpma ?s) - set ps \<and> pt_wf pgs \<and>
    (\<forall>q. valid_path q \<longrightarrow> translation pgs q =
       (if q \<in> page_paths (page_at vbase 0) ?k then None else translation (kpaging ?s) q))"
    using b allocated_cells(5) [OF al e n] size_bounds(3) [OF e n] mapped
    by (intro release_pages_effect) (auto simp: backed_def)
  then obtain ms pgs where f: "release_pages ?k 0 vbase node ?s = Inr (?s\<lparr>kpma := ms, kpaging := pgs\<rparr>)"
      "taken_pages ms = taken_pages (kpma s1) - set ps"
      "\<And>q. valid_path q \<Longrightarrow> translation pgs q = (if q \<in> page_paths vbase ?k then None else translation (kpaging s1) q)"
    by auto
  have "translation pgs q = translation (kpaging s) q" if "valid_path q" for q
    using f(3) [OF that] b(1,3) that by (auto simp: backed_def)
  moreover have "taken_pages ms = taken_pages (kpma s)" using f(2) b(1,2) by (auto simp: backed_def)
  ultimately show ?thesis using f(1) by auto
qed

text \<open>Freeing succeeds when the free list takes the area back and the node is found in the list.\<close>

lemma allocated_frees:
  assumes al: "allocated n (2 ^ e) p vbase node ps s s1" and e: "e \<le> 12" and n: "unat n < 2 ^ 40"
    and list: "first_allocation s1 \<noteq> 0" "node_before (heap s1) node (first_allocation s1) = Some cur" "node \<noteq> 0"
    and v: "vbase + padded_header_size (2 ^ e) \<noteq> 0" "free_virtual_pages vbase (size_with_header n (2 ^ e)) (kvma s1) = Inr vs"
  shows "\<exists>s2. alloc_free (vbase + padded_header_size (2 ^ e)) s1 = Inr s2 \<and> kvma s2 = vs \<and>
    taken_pages (kpma s2) = taken_pages (kpma s) \<and> heap s2 = (heap s1)(cur + 8 := 0) \<and>
    (\<forall>q. valid_path q \<longrightarrow> translation (kpaging s2) q = translation (kpaging s) q) \<and> \<not> locked (malloc_lock s2)"
proof -
  let ?k = "pages_for n (2 ^ e)" and ?hdr = "padded_header_size (2 ^ e)" and ?m = "(malloc_lock s1)\<lparr>locked := True\<rparr>"
  note cells = allocated_cells [OF al e n]
  have free: "\<not> locked (malloc_lock s1)" and vb: "aligned vbase" using al by (simp_all add: allocated_def Let_def)
  have k: "int_count (of_nat ?k) = ?k" using int_count_of_nat [of ?k] size_bounds(3) [OF e n] by simp
  note nz = alignment_word(2) [OF e]
  obtain ms pgs where r: "release_pages ?k 0 vbase node (s1\<lparr>malloc_lock := ?m, kvma := vs\<rparr>) =
        Inr (s1\<lparr>malloc_lock := ?m, kvma := vs, kpma := ms, kpaging := pgs\<rparr>)"
      "taken_pages ms = taken_pages (kpma s)" "\<forall>q. valid_path q \<longrightarrow> translation pgs q = translation (kpaging s) q"
    using release_allocated [OF al e n] by blast
  let ?s2 = "s1\<lparr>malloc_lock := release ?m, kvma := vs, kpma := ms, kpaging := pgs, heap := (heap s1)(cur + 8 := 0)\<rparr>"
  have "alloc_free (vbase + ?hdr) s1 = Inr ?s2"
    using free cells(1-4) list v r(1) k nz header_cell [OF e vb]
    by (simp add: alloc_free_def lock_heap_def try_acquire_def cell_read_def Let_def remove_allocation_def unlock_heap_def)
  then show ?thesis using r(2,3) by (intro exI [of _ ?s2]) (simp add: release_def)
qed

subsection \<open>Properties\<close>


lemma alloc_free_undoes:
  assumes "alloc n (2 ^ e) p s = Inr (a, s1)" "n \<noteq> 0" "unat n < 2 ^ 40" "e \<le> 12"
    "vma_inv (kvma s)" "bases_aligned (kvma s)" "pages_ok (kpma s)" "pt_wf (kpaging s)"
    "3 * pages_for n (2 ^ e) \<le> length (free_tables (kpaging s))"
    "list_room (free_area (kvma s)) (pages_for n (2 ^ e)) s" "a \<noteq> 0" "alloc_free a s1 = Inr s2"
  shows "taken_pages (kpma s2) = taken_pages (kpma s) \<and>
    (\<forall>va. translation (kpaging s2) (path_of va) = translation (kpaging s) (path_of va)) \<and>
    vma_inv (kvma s2) \<and> free_area (kvma s2) \<subseteq> free_area (kvma s) \<and> \<not> locked (malloc_lock s2)"
proof -
  let ?k = "pages_for n (2 ^ e)" and ?sz = "size_with_header n (2 ^ e)"
  obtain vbase node ps where a: "a = vbase + padded_header_size (2 ^ e)" "allocated n (2 ^ e) p vbase node ps s s1"
    using alloc_allocated [OF assms(1-10)] by blast
  note cells = allocated_cells [OF a(2) assms(4,3)]
  have k: "int_count (node_pages_of (heap s1) node) = ?k"
    using cells(4) int_count_of_nat [of ?k] size_bounds(3) [OF assms(4,3)] by simp
  obtain m vs s3 s4 where r: "free_virtual_pages vbase ?sz (kvma s1) = Inr vs"
      "release_pages ?k 0 vbase node (s1\<lparr>malloc_lock := m, kvma := vs\<rparr>) = Inr s3"
      "remove_allocation node s3 = Inr s4" "s2 = unlock_heap s4"
    using assms(11,12) cells(1-3) a(1) k
    by (auto simp: alloc_free_def lock_heap_def cell_read_def rbind_eq_Inr_iff Let_def
      split: if_splits prod.splits bool.splits)
  have areas: "area vbase ?sz \<subseteq> free_area (kvma s)" "free_area (kvma s1) = free_area (kvma s) - area vbase ?sz"
      "vma_inv (kvma s1)"
    using a(2) by (auto simp: allocated_def Let_def)
  have vfree: "vma_inv vs" "free_area vs \<subseteq> free_area (kvma s)"
    using vma.give_only [OF areas(3) _ r(1)] areas(1,2) by auto
  obtain ms pgs where f: "s3 = s1\<lparr>malloc_lock := m, kvma := vs, kpma := ms, kpaging := pgs\<rparr>"
      "taken_pages ms = taken_pages (kpma s)"
      "\<forall>q. valid_path q \<longrightarrow> translation pgs q = translation (kpaging s) q"
    using release_allocated [OF a(2) assms(4,3), where m = m and vs = vs] r(2) by auto
  have "kpma s2 = ms" "kpaging s2 = pgs" "kvma s2 = vs" "\<not> locked (malloc_lock s2)"
    using r(3,4) f(1)
    by (auto simp: remove_allocation_def rbind_eq_Inr_iff unlock_heap_def release_def split: option.splits)
  then show ?thesis using f(2,3) vfree by simp
qed

text \<open>
  C19. Freeing undoes an allocation: when \<^verbatim>\<open>free\<close> of the address \<^verbatim>\<open>alloc\<close> has just
  returned succeeds, exactly the physical pages taken are given back, every page of the address
  space is mapped as it was before the allocation, and no address is free that was not free
  then.
\<close>

theorem alloc_then_free:
  assumes "alloc n (2 ^ e) p s = Inr (a, s1)" "n \<noteq> 0" "unat n < 2 ^ 40" "e \<le> 12"
    "vma_inv (kvma s)" "bases_aligned (kvma s)" "pages_ok (kpma s)" "pt_wf (kpaging s)"
    "3 * pages_for n (2 ^ e) \<le> length (free_tables (kpaging s))"
    "list_room (free_area (kvma s)) (pages_for n (2 ^ e)) s" "a \<noteq> 0" "alloc_free a s1 = Inr s2"
  shows "taken_pages (kpma s2) = taken_pages (kpma s) \<and>
    (\<forall>va. translation (kpaging s2) (path_of va) = translation (kpaging s) (path_of va)) \<and>
    vma_inv (kvma s2) \<and> free_area (kvma s2) \<subseteq> free_area (kvma s) \<and> \<not> locked (malloc_lock s2)"
  by (rule alloc_free_undoes [OF assms])

subsection \<open>A sample heap\<close>

text \<open>An empty allocation list at \<^verbatim>\<open>0x1000\<close>, one free area at \<^verbatim>\<open>0x400000\<close> and
  the page tables after \<^verbatim>\<open>early_init\<close>.\<close>

definition heap_vma :: "u64 \<Rightarrow> u64 \<Rightarrow> vma_state" where
  "heap_vma b sz = \<lparr>virtual_free_list = 0x2000,
     nodes = [\<lparr>node_base = b, node_size = sz, node_next = None\<rparr>,
              \<lparr>node_base = 0, node_size = 0, node_next = None\<rparr>],
     free_list_size = 0, max_free_list_size = 2\<rparr>"

definition sample_heap :: alloc_state where
  "sample_heap = \<lparr>first_allocation = 0x1000, malloc_lock = new_mutex, heap = (\<lambda>_. 0),
     kvma = heap_vma 0x400000 0x8000, kpma = sample_pma, kpaging = paging_early_init sample_boot\<rparr>"

lemma sample_heap_vma: "list_ok (heap_vma 0x400000 0x8000) [0]"
  by (simp add: list_ok_def heap_vma_def)

lemma sample_heap_free: "free_area (kvma sample_heap) = area 0x400000 0x8000"
  using list_ok_free [OF sample_heap_vma] by (simp add: sample_heap_def heap_vma_def free_of_def node_area_def)

lemma sample_sizes:
  assumes "e \<le> 4"
  shows "padded_header_size (2 ^ e) = 16" "size_with_header 100 (2 ^ e) = 0x1000" "pages_for 100 (2 ^ e) = 1"
proof -
  have "e = 0 \<or> e = 1 \<or> e = 2 \<or> e = 3 \<or> e = 4" using assms by arith
  then show "padded_header_size (2 ^ e) = 16" "size_with_header 100 (2 ^ e) = 0x1000" "pages_for 100 (2 ^ e) = 1"
    by (auto simp: padded_header_size_def size_with_header_def pages_for_def align_to_def PAGE_SIZE_def)
qed

lemmas sample_heap_sizes = sample_sizes [of 4, OF order_refl]

lemma sample_heap_room: "list_room (free_area (kvma sample_heap)) 1 sample_heap"
proof -
  have f: "find_node (\<lambda>_. 0) 1 0x1000 0 = Some (0x1000, 24, False)"
    by (simp add: find_node.simps node_size_of_def node_pages_of_def node_next_of_def ALLOCATION_SIZE_def)
  have "0x1018 + 8 * of_nat i \<notin> area (0x400000 :: u64) 0x8000" if "i < 4" for i
  proof -
    have "i = 0 \<or> i = 1 \<or> i = 2 \<or> i = 3" using that by arith
    then show ?thesis by (auto simp: area_def)
  qed
  then show ?thesis
    using f unfolding list_room_def sample_heap_free
    by (auto simp: sample_heap_def node_slot_def node_pages_of_def ALLOCATION_SIZE_def PAGE_SIZE_def)
qed

lemma sample_heap_ok:
  "vma_inv (kvma sample_heap)" "bases_aligned (kvma sample_heap)" "pages_ok (kpma sample_heap)"
  "pt_wf (kpaging sample_heap)" "e \<le> 4 \<Longrightarrow> 3 * pages_for 100 (2 ^ e) \<le> length (free_tables (kpaging sample_heap))"
proof -
  show "vma_inv (kvma sample_heap)" using sample_heap_vma by (auto simp: sample_heap_def vma_inv_def)
  show "bases_aligned (kvma sample_heap)"
    using list_ok_walk [OF sample_heap_vma] by (simp add: bases_aligned_def sample_heap_def) (simp add: heap_vma_def aligned_unat)
  show "pages_ok (kpma sample_heap)"
    using sample_pma_inv by (simp add: pages_ok_def sample_heap_def sample_pma_def aligned_unat bm_bits_def)
  show "pt_wf (kpaging sample_heap)" using sample_wf by (simp add: sample_heap_def)
  show "e \<le> 4 \<Longrightarrow> 3 * pages_for 100 (2 ^ e) \<le> length (free_tables (kpaging sample_heap))"
    using sample_free sample_sizes(3) [of e] by (simp add: sample_heap_def)
qed

lemma sample_heap_map:
  "\<exists>pgs. map_page 0x401000 0x400000 RW (paging_early_init sample_boot) = Inr (0x400000, pgs)"
proof -
  have none: "translation (paging_early_init sample_boot) (path_of 0x400000) = None"
    by (simp add: path_of_digits sample_unmapped)
  have "sign_extend 0x400000 42 = 0x400000" by (simp add: sign_extend_def)
  then show ?thesis
    using map_page_effect [OF sample_wf sample_lacking _ _ none, of "0x401000" RW] by (auto simp: aligned_unat)
qed

lemma sample_heap_allocs:
  assumes e: "e \<le> 4"
  shows "\<exists>pgs h. alloc 100 (2 ^ e) READ_WRITE sample_heap = Inr (0x400010, \<lparr>first_allocation = 0x1000,
     malloc_lock = new_mutex, heap = h, kvma = heap_vma 0x401000 0x7000,
     kpma = sample_pma\<lparr>page_bits := \<lparr>num_limbs = 1, total_size = 8, limbs = [7]\<rparr>\<rparr>, kpaging = pgs\<rparr>) \<and>
     h 0x1000 = 0x1018 \<and> h 0x400000 = 0x1018"
proof -
  obtain pgs where m: "map_page 0x401000 0x400000 RW (paging_early_init sample_boot) = Inr (0x400000, pgs)"
    using sample_heap_map by blast
  have f: "find_node (\<lambda>_. 0) 1 0x1000 0 = Some (0x1000, 24, False)"
    by (simp add: find_node.simps node_size_of_def node_pages_of_def node_next_of_def ALLOCATION_SIZE_def)
  have v: "get_virtual_pages 0x1000 (heap_vma 0x400000 0x8000) = Inr (0x400000, heap_vma 0x401000 0x7000)"
    by (simp add: get_virtual_pages_def walk_list_def list_head_def chain.simps heap_vma_def set_node_def
      PAGE_SIZE_def Let_def)
  have d: "div_ceil 0x1000 PAGE_SIZE = 1" by (simp add: div_ceil_def PAGE_SIZE_def)
  have z: "zero_cells 4 a h = h(a := 0, a + 8 := 0, a + 8 + 8 := 0, a + 8 + 8 + 8 := 0)" for a h
    by (simp add: eval_nat_numeral)
  let ?h = "(\<lambda>_. 0)(0x1000 := 0x1018, 0x1018 := 0, 0x1020 := 0x1000, 0x1028 := 1) :: memory"
  have g: "get_new_allocation 0x1000 (sample_heap\<lparr>malloc_lock := \<lparr>locked = True\<rparr>, kvma := heap_vma 0x401000 0x7000\<rparr>) =
      Inr (0x1018, sample_heap\<lparr>malloc_lock := \<lparr>locked = True\<rparr>, kvma := heap_vma 0x401000 0x7000, heap := ?h\<rparr>)"
    using f d z by (auto simp: get_new_allocation_def sample_heap_def Let_def node_pages_of_def ALLOCATION_SIZE_def
      PAGE_SIZE_def write_new_node_def fun_eq_iff)
  have c: "int_count 1 = 1" using int_count_of_nat [of 1] by simp
  show ?thesis
    using m v g c sample_pma_get sample_sizes(1,2) [OF e] e
    by (simp add: alloc_def lock_heap_def try_acquire_def new_mutex_def size_with_header_def Let_def
      node_pages_of_def page_attrs_def cell_write_def unlock_heap_def release_def page_cell_def
      ALLOCATION_SIZE_def sample_heap_def)
qed

lemmas sample_heap_alloc = sample_heap_allocs [of 4, OF order_refl]


lemma sample_heap_free_runs:
  assumes e: "e \<le> 4" and run: "alloc 100 (2 ^ e) READ_WRITE sample_heap = Inr (a, s1)"
  shows "a = 0x400010" "\<exists>s2. alloc_free a s1 = Inr s2"
proof -
  obtain pgs h where s1: "a = 0x400010" "s1 = \<lparr>first_allocation = 0x1000,
     malloc_lock = new_mutex, heap = h, kvma = heap_vma 0x401000 0x7000,
     kpma = sample_pma\<lparr>page_bits := \<lparr>num_limbs = 1, total_size = 8, limbs = [7]\<rparr>\<rparr>, kpaging = pgs\<rparr>"
     "h 0x1000 = 0x1018" "h 0x400000 = 0x1018"
    using sample_heap_allocs [OF e] run by auto
  show a: "a = 0x400010" by (rule s1(1))
  obtain vbase node ps where vb: "a = vbase + padded_header_size (2 ^ e)"
      and al: "allocated 100 (2 ^ e) READ_WRITE vbase node ps sample_heap s1"
    using alloc_allocated [OF run _ _ _ sample_heap_ok(1-4) sample_heap_ok(5) [OF e]] sample_heap_room sample_sizes(3) [OF e] e by auto
  have "vbase = 0x400000" using s1(1) vb sample_sizes(1) [OF e] by simp
  moreover from this have "node = 0x1018" using allocated_cells(1) [OF al] s1(2,4) e by simp
  ultimately have al': "allocated 100 (2 ^ e) READ_WRITE 0x400000 0x1018 ps sample_heap s1" using al by simp
  have cells: "h 0x400008 = 2 ^ e" "node_size_of h 0x1018 = 0x1000" "node_pages_of h 0x1018 = 1"
    using allocated_cells(2-4) [OF al'] s1(2) sample_sizes [OF e] e by simp_all
  have "int_count 1 = 1" using int_count_of_nat [of 1] by simp
  moreover have "node_before h 0x1018 0x1000 = Some 0x1000"
    using s1(3) by (simp add: node_before.simps node_next_of_def)
  moreover obtain vs where "free_virtual_pages 0x400000 0x1000 (heap_vma 0x401000 0x7000) = Inr vs"
    by (simp add: free_virtual_pages_def add_node_to_free_list_def walk_list_def list_head_def chain.simps
      heap_vma_def set_node_def)
  ultimately show "\<exists>s2. alloc_free a s1 = Inr s2"
    using e cells s1(2,4) sample_sizes [OF e] release_allocated [OF al', where m = "\<lparr>locked = True\<rparr>" and vs = vs]
    by (auto simp: alloc_free_def a lock_heap_def try_acquire_def new_mutex_def cell_read_def Let_def
      remove_allocation_def unlock_heap_def)
qed

theorem alloc_then_free_witness:
  "\<exists>s1 s2. alloc 100 (2 ^ 4) READ_WRITE sample_heap = Inr (0x400010, s1) \<and> alloc_free 0x400010 s1 = Inr s2 \<and>
     taken_pages (kpma s2) = taken_pages (kpma sample_heap)"
proof -
  obtain s1 where run: "alloc 100 (2 ^ 4) READ_WRITE sample_heap = Inr (0x400010, s1)"
    using sample_heap_alloc by blast
  obtain s2 where free: "alloc_free 0x400010 s1 = Inr s2" using sample_heap_free_runs(2) [OF order_refl run] by blast
  have "taken_pages (kpma s2) = taken_pages (kpma sample_heap)"
    using alloc_then_free [OF run _ _ _ sample_heap_ok(1-4) sample_heap_ok(5) [of 4] _ _ free] sample_heap_room sample_heap_sizes(3) by simp
  then show ?thesis using run free by blast
qed

subsection \<open>The neighbour of a freed allocation\<close>

lemma release_pages_keeps:
  "release_pages k j vbase node s = Inr s' \<Longrightarrow>
     heap s' = heap s \<and> first_allocation s' = first_allocation s \<and> malloc_lock s' = malloc_lock s"
  by (induction k arbitrary: j s) (fastforce simp: rbind_eq_Inr_iff)+

text \<open>
  \<^verbatim>\<open>remove_allocation\<close> marks the wrong node: it clears the size of the node before
  the one it is given, so after an allocation is freed, freeing the allocation before it in
  the list fails the assertion of \<^verbatim>\<open>free_virtual_pages\<close> that the size is not zero.
\<close>

theorem free_kills_neighbour:
  assumes free: "alloc_free pb s = Inr s1" "pb \<noteq> 0"
    and b: "heap s (pb - 8) = alb" "heap s (pb - padded_header_size alb) = b"
    and before: "node_before (heap s) b (first_allocation s) = Some a" "a \<noteq> 0"
    and pa: "pa \<noteq> 0" "heap s (pa - 8) = ala" "ala \<noteq> 0" "heap s (pa - padded_header_size ala) = a"
      "(pa - 8) mod 8 = 0" "(pa - padded_header_size ala) mod 8 = 0" "pa - padded_header_size ala \<noteq> 0"
      "pa - 8 \<noteq> a + 8" "pa - padded_header_size ala \<noteq> a + 8"
  shows "alloc_free pa s1 = Inl (Assert_failed ''Tried to free page of size 0!'')"
proof -
  obtain m vs s3 s4 where r: "release_pages (int_count (node_pages_of (heap s) b)) 0 (pb - padded_header_size alb) b
        (s\<lparr>malloc_lock := m, kvma := vs\<rparr>) = Inr s3"
      "remove_allocation b s3 = Inr s4" "s1 = unlock_heap s4"
    using free b
    by (auto simp: alloc_free_def lock_heap_def cell_read_def rbind_eq_Inr_iff Let_def
      split: if_splits prod.splits bool.splits)
  have "heap s3 = heap s" "first_allocation s3 = first_allocation s" using release_pages_keeps [OF r(1)] by auto
  then have h: "heap s1 = (heap s)(a + 8 := 0)" "\<not> locked (malloc_lock s1)"
    using r(2,3) before(1)
    by (auto simp: remove_allocation_def rbind_eq_Inr_iff unlock_heap_def release_def)
  then have "heap s1 (pa - 8) = ala" "heap s1 (pa - padded_header_size ala) = a" "node_size_of (heap s1) a = 0"
    using pa by (auto simp: node_size_of_def)
  then show ?thesis
    using pa h(2) before(2)
    by (simp add: alloc_free_def lock_heap_def try_acquire_def cell_read_def Let_def free_virtual_pages_def)
qed

text \<open>Two one-page allocations at \<^verbatim>\<open>0x6000\<close> and \<^verbatim>\<open>0x5000\<close>, in this order in the
  list.\<close>

definition sample_two :: alloc_state where
  "sample_two = sample_heap\<lparr>heap := (\<lambda>_. 0)(0x1000 := 0x1020, 0x1008 := 0x1000, 0x1010 := 1, 0x1018 := 0x402000,
     0x1028 := 0x1000, 0x1030 := 1, 0x1038 := 0x400000, 0x5000 := 0x1020, 0x5008 := 16, 0x6000 := 0x1000, 0x6008 := 16)\<rparr>"

lemma sample_two_free: "\<exists>s1. alloc_free 0x5010 sample_two = Inr s1"
proof -
  have "path_of 0x5000 = [5, 0, 0, 0]" by (simp add: path_of_digits)
  then have "translation (paging_early_init sample_boot) (path_of 0x5000) = Some (page_entry 5)"
    using early_init_identity_pte [OF sample_boot_ok, of 5] page_entry_address(2) [of 5]
    by (simp add: translation_def)
  then obtain pgs where u: "unmap_page 0x5000 (paging_early_init sample_boot) = Inr pgs"
    using unmap_page_translation [OF sample_wf, of "0x5000"] by (auto simp: aligned_unat)
  have "page_addr sample_pma 0 = 0x400000" by (simp add: page_addr_def sample_pma_def)
  moreover have "page_addr sample_pma 0 \<in> taken_pages sample_pma"
    using page_addr_taken_iff [OF sample_pma_inv, of 0] by (simp add: sample_pma_def bm_bits_def bm_bit_def)
  ultimately obtain ms where p: "free_physical_page 0x400000 sample_pma = Inr ms"
    using free_physical_page_ok [OF sample_heap_ok(3), of "0x400000"] by (auto simp: sample_heap_def)
  have "node_before (heap sample_two) 0x1020 0x1000 = Some 0x1000"
    by (simp add: node_before.simps node_next_of_def sample_two_def)
  moreover have "int_count 1 = 1" using int_count_of_nat [of 1] by simp
  moreover obtain vs where "free_virtual_pages 0x5000 0x1000 (heap_vma 0x400000 0x8000) = Inr vs"
    by (simp add: free_virtual_pages_def add_node_to_free_list_def walk_list_def list_head_def chain.simps
      heap_vma_def set_node_def Let_def)
  moreover have "padded_header_size 16 = 16" using sample_heap_sizes(1) by simp
  ultimately show ?thesis
    using u p by (simp add: alloc_free_def lock_heap_def try_acquire_def new_mutex_def cell_read_def Let_def
      remove_allocation_def sample_two_def sample_heap_def node_size_of_def node_pages_of_def page_cell_def
      ALLOCATION_SIZE_def)
qed

theorem free_kills_neighbour_witness:
  "\<exists>s1. alloc_free 0x5010 sample_two = Inr s1 \<and>
     alloc_free 0x6010 s1 = Inl (Assert_failed ''Tried to free page of size 0!'')"
proof -
  obtain s1 where run: "alloc_free 0x5010 sample_two = Inr s1" using sample_two_free by blast
  have h: "padded_header_size 16 = 16" using sample_heap_sizes(1) by simp
  have "node_before (heap sample_two) 0x1020 (first_allocation sample_two) = Some 0x1000"
    by (simp add: node_before.simps node_next_of_def sample_two_def sample_heap_def)
  then have "alloc_free 0x6010 s1 = Inl (Assert_failed ''Tried to free page of size 0!'')"
    by (intro free_kills_neighbour [OF run, where alb = 16 and b = "0x1020" and a = "0x1000" and ala = 16])
      (simp_all add: h sample_two_def)
  then show ?thesis using run by blast
qed

end
