(* ===== verification/Port_IO.thy ===== *)
theory Port_IO
  imports Prelude
begin

text \<open>
  Port input and output (src/kernel/util/io.h) and the small devices driven through it: the
  interrupt controllers (pic.cpp), the interval timer (pit.cpp), the real-time clock
  (cmos.cpp) and the serial port (serial.cpp, debug.cpp). The hardware is a parameter: a
  function from the accesses made so far and a port to the byte a read of that port returns.
  The drivers extend the list of accesses. A loop that polls a device has a bound on the
  number of polls, beyond which the result is \<open>Blocked\<close>.
\<close>

datatype io_event = In u16 u8 | Out u16 u8

type_synonym trace = "io_event list"
type_synonym hardware = "trace \<Rightarrow> u16 \<Rightarrow> u8"

definition outb :: "u16 \<Rightarrow> u8 \<Rightarrow> trace \<Rightarrow> trace" where
  "outb port val t = t @ [Out port val]"

definition inb :: "hardware \<Rightarrow> u16 \<Rightarrow> trace \<Rightarrow> u8 \<times> trace" where
  "inb hw port t = (let v = hw t port in (v, t @ [In port v]))"

definition io_wait :: "trace \<Rightarrow> trace" where
  "io_wait t = outb 0x80 0 t"

subsection \<open>Interrupt controllers\<close>

datatype irq = PIT | KEYBOARD | CASCADE | COM2 | COM1 | LPT2 | FLOPPY | LPT1 | CMOS_RTC
  | PERIPHERAL_1 | PERIPHERAL_2 | PERIPHERAL_3 | PS2_MOUSE | FPU | PRIMARY_ATA | SECONDARY_ATA

definition irq_code :: "irq \<Rightarrow> nat" where
  "irq_code i = (case i of PIT \<Rightarrow> 0 | KEYBOARD \<Rightarrow> 1 | CASCADE \<Rightarrow> 2 | COM2 \<Rightarrow> 3 | COM1 \<Rightarrow> 4 | LPT2 \<Rightarrow> 5
     | FLOPPY \<Rightarrow> 6 | LPT1 \<Rightarrow> 7 | CMOS_RTC \<Rightarrow> 8 | PERIPHERAL_1 \<Rightarrow> 9 | PERIPHERAL_2 \<Rightarrow> 10
     | PERIPHERAL_3 \<Rightarrow> 11 | PS2_MOUSE \<Rightarrow> 12 | FPU \<Rightarrow> 13 | PRIMARY_ATA \<Rightarrow> 14 | SECONDARY_ATA \<Rightarrow> 15)"

definition PIC1_COMMAND :: u16 where "PIC1_COMMAND = 0x20"
definition PIC2_COMMAND :: u16 where "PIC2_COMMAND = 0xA0"
definition PIC1_DATA :: u16 where "PIC1_DATA = 0x21"
definition PIC2_DATA :: u16 where "PIC2_DATA = 0xA1"
definition END_OF_INTERRUPT :: u8 where "END_OF_INTERRUPT = 0x20"

definition irq_port :: "irq \<Rightarrow> u16" where
  "irq_port code = (if irq_code code < 8 then PIC1_DATA else PIC2_DATA)"

definition irq_mask :: "irq \<Rightarrow> u8" where
  "irq_mask code = (if irq_code code < 8 then push_bit (irq_code code) 1 else push_bit (irq_code code - 8) 1)"

definition mask_irq :: "hardware \<Rightarrow> irq \<Rightarrow> trace \<Rightarrow> trace" where
  "mask_irq hw code t = (let (v, t1) = inb hw (irq_port code) t in outb (irq_port code) (v OR irq_mask code) t1)"

definition unmask_irq :: "hardware \<Rightarrow> irq \<Rightarrow> trace \<Rightarrow> trace" where
  "unmask_irq hw code t = (let (v, t1) = inb hw (irq_port code) t in outb (irq_port code) (v AND NOT (irq_mask code)) t1)"

definition irq_is_masked :: "hardware \<Rightarrow> irq \<Rightarrow> trace \<Rightarrow> bool \<times> trace" where
  "irq_is_masked hw code t = (let (v, t1) = inb hw (irq_port code) t in (v AND irq_mask code \<noteq> 0, t1))"

definition signal_end_of_interrupt :: "irq \<Rightarrow> trace \<Rightarrow> trace" where
  "signal_end_of_interrupt code t =
     (let t1 = outb PIC1_COMMAND END_OF_INTERRUPT t in
      if irq_code code \<ge> 8 then outb PIC2_COMMAND END_OF_INTERRUPT t1 else t1)"

definition ICW1 :: u8 where
  "ICW1 = push_bit 4 1 OR push_bit 0 1"

definition out_wait :: "u16 \<Rightarrow> u8 \<Rightarrow> trace \<Rightarrow> trace" where
  "out_wait port v t = io_wait (outb port v t)"

definition remap_interrupts :: "hardware \<Rightarrow> trace \<Rightarrow> trace" where
  "remap_interrupts hw t0 =
     (let (pic1_value, t1) = inb hw PIC1_DATA t0;
          (pic2_value, t2) = inb hw PIC2_DATA t1;
          t3 = out_wait PIC2_COMMAND ICW1 (out_wait PIC1_COMMAND ICW1 t2);
          t4 = out_wait PIC2_DATA 0x28 (out_wait PIC1_DATA 0x20 t3);
          t5 = out_wait PIC2_DATA (push_bit 1 1) (out_wait PIC1_DATA (push_bit 2 1) t4);
          t6 = out_wait PIC2_DATA 1 (out_wait PIC1_DATA 1 t5);
          t7 = outb PIC2_DATA pic2_value (outb PIC1_DATA pic1_value t6)
      in unmask_irq hw CASCADE t7)"

subsection \<open>Timer and clock\<close>

definition init_pit :: "hardware \<Rightarrow> trace \<Rightarrow> trace" where
  "init_pit hw t = unmask_irq hw PIT
     (outb 0x40 0x01 (outb 0x40 0x00 (outb 0x43 (push_bit 6 0 OR push_bit 1 2 OR push_bit 4 3 OR 0) t)))"

definition cmos_init :: "hardware \<Rightarrow> trace \<Rightarrow> bool \<times> trace" where
  "cmos_init hw t0 =
     (let t1 = outb 0x70 (0x80 OR 0x0B) t0;
          (v, t2) = inb hw 0x71 t1;
          t3 = outb 0x71 (v OR push_bit 6 1) (outb 0x70 (0x80 OR 0x0B) t2);
          (_, t4) = inb hw 0x71 (outb 0x70 (0x80 OR 0x0C) t3)
      in (True, unmask_irq hw CMOS_RTC t4))"

subsection \<open>Serial port\<close>

definition serial_COM1 :: u16 where
  "serial_COM1 = 0x3F8"

text \<open>The register fields, one datatype per namespace of constants; an expression that joins
  constants with \<^verbatim>\<open>|\<close> is \<open>joined\<close> of their list.\<close>

datatype serial_interrupt = NO_INTERRUPTS | DATA_AVAILABLE | TRANSMITTER_EMPTY_INTERRUPT | ERROR_INTERRUPT | STATUS_CHANGE

fun interrupt_bits :: "serial_interrupt \<Rightarrow> u8" where
  "interrupt_bits NO_INTERRUPTS = 0"
| "interrupt_bits DATA_AVAILABLE = 1"
| "interrupt_bits TRANSMITTER_EMPTY_INTERRUPT = 2"
| "interrupt_bits ERROR_INTERRUPT = 4"
| "interrupt_bits STATUS_CHANGE = 8"

datatype line_status = DATA_READY | OVERRUN_ERROR | PARITY_ERROR | FRAMING_ERROR | BREAK_INDICATOR
  | TRANSMITTER_BUFFER_EMPTY | TRANSMITTER_EMPTY | IMPENDING_ERROR

fun status_bits :: "line_status \<Rightarrow> u8" where
  "status_bits DATA_READY = 0x01"
| "status_bits OVERRUN_ERROR = 0x02"
| "status_bits PARITY_ERROR = 0x04"
| "status_bits FRAMING_ERROR = 0x08"
| "status_bits BREAK_INDICATOR = 0x10"
| "status_bits TRANSMITTER_BUFFER_EMPTY = 0x20"
| "status_bits TRANSMITTER_EMPTY = 0x40"
| "status_bits IMPENDING_ERROR = 0x80"

datatype line_control = DATA_BITS_5 | DATA_BITS_6 | DATA_BITS_7 | DATA_BITS_8 | STOP_BITS_1 | STOP_BITS_2
  | PARITY_NONE | PARITY_ODD | PARITY_EVEN | PARITY_MARK | PARITY_SPACE | DATA_LATCH_ACCESS_BIT

fun control_bits :: "line_control \<Rightarrow> u8" where
  "control_bits DATA_BITS_5 = 0"
| "control_bits DATA_BITS_6 = 1"
| "control_bits DATA_BITS_7 = 2"
| "control_bits DATA_BITS_8 = 3"
| "control_bits STOP_BITS_1 = 0"
| "control_bits STOP_BITS_2 = 4"
| "control_bits PARITY_NONE = 0"
| "control_bits PARITY_ODD = 0x08"
| "control_bits PARITY_EVEN = 0x18"
| "control_bits PARITY_MARK = 0x28"
| "control_bits PARITY_SPACE = 0x28"
| "control_bits DATA_LATCH_ACCESS_BIT = 0x80"

datatype fifo_control = FIFO_ENABLE | CLEAR_RECEIVE | CLEAR_TRANSMIT | INTERRUPT_TRIGGER_14_BYTES

fun fifo_bits :: "fifo_control \<Rightarrow> u8" where
  "fifo_bits FIFO_ENABLE = 1"
| "fifo_bits CLEAR_RECEIVE = 2"
| "fifo_bits CLEAR_TRANSMIT = 4"
| "fifo_bits INTERRUPT_TRIGGER_14_BYTES = 0xC0"

datatype modem_control = FORCE_DATA_READY | FORCE_REQUEST_SEND | AUX_OUTPUT_1 | AUX_OUTPUT_2

fun modem_bits :: "modem_control \<Rightarrow> u8" where
  "modem_bits FORCE_DATA_READY = 1"
| "modem_bits FORCE_REQUEST_SEND = 2"
| "modem_bits AUX_OUTPUT_1 = 4"
| "modem_bits AUX_OUTPUT_2 = 8"

definition joined :: "('a \<Rightarrow> u8) \<Rightarrow> 'a list \<Rightarrow> u8" where
  "joined bits cs = fold (\<lambda>c v. v OR bits c) cs 0"

text \<open>The ports \<^verbatim>\<open>DEF_PORT\<close> defines, as offsets from the base.\<close>

datatype serial_register = DATA | BAUD_DIVISOR_LO | BAUD_DIVISOR_HI | INTERRUPT_ENABLE | FIFO_CONTROL | LINE_CONTROL
  | MODEM_CONTROL | LINE_STATUS

fun serial_port :: "serial_register \<Rightarrow> u16 \<Rightarrow> u16" where
  "serial_port DATA port = port + 0"
| "serial_port BAUD_DIVISOR_LO port = port + 0"
| "serial_port BAUD_DIVISOR_HI port = port + 1"
| "serial_port INTERRUPT_ENABLE port = port + 1"
| "serial_port FIFO_CONTROL port = port + 2"
| "serial_port LINE_CONTROL port = port + 3"
| "serial_port MODEM_CONTROL port = port + 4"
| "serial_port LINE_STATUS port = port + 5"

definition init_port :: "u16 \<Rightarrow> trace \<Rightarrow> trace" where
  "init_port port t =
     (let t1 = outb (serial_port INTERRUPT_ENABLE port) (interrupt_bits NO_INTERRUPTS) t;
          t2 = outb (serial_port LINE_CONTROL port) (control_bits DATA_LATCH_ACCESS_BIT) t1;
          t3 = outb (serial_port BAUD_DIVISOR_LO port) 3 t2;
          t4 = outb (serial_port BAUD_DIVISOR_HI port) 0 t3;
          t5 = outb (serial_port LINE_CONTROL port) (joined control_bits [DATA_BITS_8, PARITY_NONE, STOP_BITS_1]) t4;
          t6 = outb (serial_port FIFO_CONTROL port)
                 (joined fifo_bits [INTERRUPT_TRIGGER_14_BYTES, FIFO_ENABLE, CLEAR_TRANSMIT, CLEAR_RECEIVE]) t5
      in outb (serial_port MODEM_CONTROL port) (joined modem_bits [FORCE_DATA_READY, FORCE_REQUEST_SEND, AUX_OUTPUT_2]) t6)"

definition transmit_ready :: "hardware \<Rightarrow> u16 \<Rightarrow> trace \<Rightarrow> bool \<times> trace" where
  "transmit_ready hw port t = (let (v, t1) = inb hw (serial_port LINE_STATUS port) t in
     (v AND status_bits TRANSMITTER_BUFFER_EMPTY \<noteq> 0, t1))"

fun wait_transmit :: "nat \<Rightarrow> hardware \<Rightarrow> trace \<Rightarrow> trace res" where
  "wait_transmit 0 hw t = Inl (Blocked ''transmit'')"
| "wait_transmit (Suc polls) hw t =
     (case transmit_ready hw serial_COM1 t of (True, t1) \<Rightarrow> Inr t1 | (False, t1) \<Rightarrow> wait_transmit polls hw t1)"

text \<open>The port argument is not used: everything goes to COM1.\<close>

definition serial_send :: "nat \<Rightarrow> hardware \<Rightarrow> u16 \<Rightarrow> u8 \<Rightarrow> trace \<Rightarrow> trace res" where
  "serial_send polls hw port b t = rbind (wait_transmit polls hw t) (\<lambda>t1. Inr (outb (serial_port DATA serial_COM1) b t1))"

text \<open>A string is the list of its bytes before the terminator, a null pointer \<open>None\<close>.\<close>

fun send_all :: "nat \<Rightarrow> hardware \<Rightarrow> u8 list \<Rightarrow> trace \<Rightarrow> trace res" where
  "send_all polls hw [] t = Inr t"
| "send_all polls hw (c # cs) t = rbind (serial_send polls hw serial_COM1 c t) (\<lambda>t1. send_all polls hw cs t1)"

definition debug_puts :: "nat \<Rightarrow> hardware \<Rightarrow> u8 list option \<Rightarrow> trace \<Rightarrow> (bool \<times> trace) res" where
  "debug_puts polls hw str t = (case str of None \<Rightarrow> Inr (False, t)
     | Some cs \<Rightarrow> rbind (send_all polls hw cs t) (\<lambda>t1. Inr (True, t1)))"

subsection \<open>The masks\<close>

fun last_out :: "u16 \<Rightarrow> trace \<Rightarrow> u8 option" where
  "last_out p [] = None"
| "last_out p (e # t) = (case last_out p t of Some v \<Rightarrow> Some v
     | None \<Rightarrow> (case e of Out q v \<Rightarrow> if q = p then Some v else None | In _ _ \<Rightarrow> None))"

text \<open>A port that reads back the byte last written to it, as the mask register of an
  interrupt controller does.\<close>

definition reads_back :: "hardware \<Rightarrow> u16 \<Rightarrow> bool" where
  "reads_back hw p \<longleftrightarrow> (\<forall>t v. last_out p t = Some v \<longrightarrow> hw t p = v)"

lemma last_out_snoc [simp]:
  "last_out p (t @ [Out q v]) = (if q = p then Some v else last_out p t)"
  "last_out p (t @ [In q v]) = last_out p t"
  by (induction t) (auto split: option.splits)

lemma last_out_ops [simp]:
  "last_out p (outb q v t) = (if q = p then Some v else last_out p t)"
  "last_out p (snd (inb hw q t)) = last_out p t"
  by (simp_all add: outb_def inb_def Let_def)

lemma irq_ports [simp]: "PIC1_DATA \<noteq> PIC2_DATA" "PIC2_DATA \<noteq> PIC1_DATA"
  by (simp_all add: PIC1_DATA_def PIC2_DATA_def)

lemma bit_irq_mask: "bit (irq_mask code) k \<longleftrightarrow> k = irq_code code mod 8"
proof -
  have "irq_mask code = push_bit (irq_code code mod 8) 1"
    by (cases code) (simp_all add: irq_mask_def irq_code_def)
  moreover have "irq_code code mod 8 < 8" by simp
  ultimately show ?thesis
    by (auto simp: bit_push_bit_iff bit_1_iff possible_bit_word simp del: mod_less_divisor push_bit_of_1)
qed

lemma and_irq_mask: "v AND irq_mask code \<noteq> 0 \<longleftrightarrow> bit v (irq_code code mod 8)"
proof -
  have "v AND irq_mask code = 0 \<longleftrightarrow> \<not> bit v (irq_code code mod 8)"
  proof
    assume "v AND irq_mask code = 0"
    then have "\<not> bit (v AND irq_mask code) (irq_code code mod 8)" by simp
    then show "\<not> bit v (irq_code code mod 8)" by (simp add: bit_and_iff bit_irq_mask)
  next
    assume "\<not> bit v (irq_code code mod 8)"
    then show "v AND irq_mask code = 0" by (intro bit_eqI) (auto simp: bit_and_iff bit_irq_mask)
  qed
  then show ?thesis by simp
qed

lemma same_line:
  "irq_port a = irq_port b \<Longrightarrow> irq_code a mod 8 = irq_code b mod 8 \<Longrightarrow> a = b"
  by (cases a; cases b) (simp_all add: irq_port_def irq_code_def)

lemma irq_is_masked_eq:
  assumes "reads_back hw (irq_port code)" "last_out (irq_port code) t = Some v"
  shows "fst (irq_is_masked hw code t) \<longleftrightarrow> bit v (irq_code code mod 8)"
  using assms and_irq_mask [of v code] by (auto simp: irq_is_masked_def inb_def reads_back_def)

text \<open>
  Masking one interrupt line leaves the others alone: on controllers that read back their
  mask registers, once both have been written, \<^verbatim>\<open>mask_irq\<close> masks exactly the line it
  is given and \<^verbatim>\<open>unmask_irq\<close> unmasks exactly it; every other line of both controllers keeps
  its state.
\<close>

theorem pic_masks_one_line:
  assumes "reads_back hw PIC1_DATA" "reads_back hw PIC2_DATA"
    "last_out PIC1_DATA t = Some v1" "last_out PIC2_DATA t = Some v2"
  shows "(fst (irq_is_masked hw other (mask_irq hw code t)) \<longleftrightarrow>
      other = code \<or> fst (irq_is_masked hw other t)) \<and>
    (fst (irq_is_masked hw other (unmask_irq hw code t)) \<longleftrightarrow>
      other \<noteq> code \<and> fst (irq_is_masked hw other t))"
proof -
  have rb: "reads_back hw (irq_port i)" for i using assms(1,2) by (simp add: irq_port_def)
  define cur where "cur i = (if irq_port i = PIC1_DATA then v1 else v2)" for i
  have out: "last_out (irq_port i) t = Some (cur i)" for i
    using assms(3,4) by (auto simp: irq_port_def cur_def)
  then have hw: "hw t (irq_port i) = cur i" for i using rb by (simp add: reads_back_def)
  have same: "irq_port i = irq_port j \<Longrightarrow> cur i = cur j" for i j by (simp add: cur_def)
  have m: "last_out (irq_port other) (mask_irq hw code t) =
      Some (if irq_port other = irq_port code then cur code OR irq_mask code else cur other)"
    using out [of other] hw [of code] by (auto simp: mask_irq_def inb_def Let_def)
  have u: "last_out (irq_port other) (unmask_irq hw code t) =
      Some (if irq_port other = irq_port code then cur code AND NOT (irq_mask code) else cur other)"
    using out [of other] hw [of code] by (auto simp: unmask_irq_def inb_def Let_def)
  have lt: "irq_code other mod 8 < 8" by simp
  show ?thesis
    using irq_is_masked_eq [OF rb m] irq_is_masked_eq [OF rb u] irq_is_masked_eq [OF rb out, of other]
      same [of other code] same_line [of other code] lt
    by (auto simp: bit_or_iff bit_and_iff bit_not_iff bit_irq_mask possible_bit_word simp del: mod_less_divisor)
qed

theorem pic_masks_one_line_witness:
  "let hw = (\<lambda>t p. case last_out p t of Some v \<Rightarrow> v | None \<Rightarrow> 0); t = [Out PIC1_DATA 0xFF, Out PIC2_DATA 0xFF] in
   \<not> fst (irq_is_masked hw FLOPPY (unmask_irq hw FLOPPY t)) \<and> fst (irq_is_masked hw KEYBOARD (unmask_irq hw FLOPPY t))"
proof -
  define hw :: hardware where "hw = (\<lambda>t p. case last_out p t of Some v \<Rightarrow> v | None \<Rightarrow> 0)"
  define t where "t = [Out PIC1_DATA 0xFF, Out PIC2_DATA 0xFF]"
  have b: "reads_back hw PIC1_DATA" "reads_back hw PIC2_DATA" by (simp_all add: reads_back_def hw_def)
  have o: "last_out PIC1_DATA t = Some 0xFF" "last_out PIC2_DATA t = Some 0xFF" by (simp_all add: t_def)
  have "fst (irq_is_masked hw KEYBOARD t)"
    by (simp add: irq_is_masked_def inb_def hw_def t_def irq_port_def irq_mask_def irq_code_def Let_def)
  then show ?thesis
    using pic_masks_one_line [OF b o, of FLOPPY FLOPPY] pic_masks_one_line [OF b o, of KEYBOARD FLOPPY]
    by (simp add: hw_def t_def)
qed

subsection \<open>The serial line\<close>

text \<open>The chip on the other side of the port, a 16550: while the top bit of its line control register
  is set, the first two registers are the baud divisor instead of data and interrupt enable.\<close>

record uart =
  u_divisor_lo :: u8
  u_divisor_hi :: u8
  u_line :: u8
  u_sent :: "u8 list"

definition uart_step :: "u16 \<Rightarrow> io_event \<Rightarrow> uart \<Rightarrow> uart" where
  "uart_step port ev u = (case ev of In _ _ \<Rightarrow> u | Out p v \<Rightarrow>
     if p = port + 3 then u\<lparr>u_line := v\<rparr>
     else if p = port then (if bit (u_line u) 7 then u\<lparr>u_divisor_lo := v\<rparr> else u\<lparr>u_sent := u_sent u @ [v]\<rparr>)
     else if p = port + 1 \<and> bit (u_line u) 7 then u\<lparr>u_divisor_hi := v\<rparr> else u)"

definition uart_run :: "u16 \<Rightarrow> trace \<Rightarrow> uart \<Rightarrow> uart" where
  "uart_run port t u = fold (uart_step port) t u"

lemma uart_run_snoc: "uart_run port (t @ [ev]) u = uart_step port ev (uart_run port t u)"
  by (simp add: uart_run_def)

lemma wait_transmit_quiet: "wait_transmit polls hw t = Inr t1 \<Longrightarrow> uart_run port t1 u = uart_run port t u"
proof (induction polls arbitrary: t)
  case (Suc polls)
  then show ?case
    by (auto simp: transmit_ready_def inb_def Let_def uart_run_snoc uart_step_def split: bool.splits)
qed simp

lemma init_port_programs:
  "uart_run serial_COM1 (init_port serial_COM1 t) u =
     (uart_run serial_COM1 t u)\<lparr>u_divisor_lo := 3, u_divisor_hi := 0, u_line := 3\<rparr>"
  by (simp add: init_port_def outb_def Let_def uart_run_def uart_step_def serial_COM1_def joined_def)

lemma send_all_sends:
  assumes "send_all polls hw cs t = Inr t1" "\<not> bit (u_line (uart_run serial_COM1 t u)) 7"
  shows "uart_run serial_COM1 t1 u = (uart_run serial_COM1 t u)\<lparr>u_sent := u_sent (uart_run serial_COM1 t u) @ cs\<rparr>"
  using assms
proof (induction cs arbitrary: t)
  case (Cons c cs)
  obtain t0 where t0: "wait_transmit polls hw t = Inr t0" "send_all polls hw cs (t0 @ [Out serial_COM1 c]) = Inr t1"
    using Cons.prems(1) by (auto simp: serial_send_def rbind_eq_Inr_iff outb_def)
  have "serial_COM1 \<noteq> serial_COM1 + 3" by (simp add: serial_COM1_def)
  then have "uart_run serial_COM1 (t0 @ [Out serial_COM1 c]) u =
      (uart_run serial_COM1 t u)\<lparr>u_sent := u_sent (uart_run serial_COM1 t u) @ [c]\<rparr>"
    using wait_transmit_quiet [OF t0(1)] Cons.prems(2) by (simp add: uart_run_snoc uart_step_def)
  then show ?case using Cons.IH [OF t0(2)] Cons.prems(2) by simp
qed simp

subsection \<open>The polling ends\<close>

text \<open>The trace after a number of reads of the line status.\<close>

fun polled :: "hardware \<Rightarrow> nat \<Rightarrow> trace \<Rightarrow> trace" where
  "polled hw 0 t = t"
| "polled hw (Suc k) t = polled hw k (snd (inb hw (serial_port LINE_STATUS serial_COM1) t))"

definition becomes_ready :: "hardware \<Rightarrow> bool" where
  "becomes_ready hw \<longleftrightarrow> (\<forall>t. \<exists>k. bit (hw (polled hw k t) (serial_port LINE_STATUS serial_COM1)) 5)"

lemma wait_transmit_returns:
  "bit (hw (polled hw k t) (serial_port LINE_STATUS serial_COM1)) 5 \<Longrightarrow> \<exists>t1. wait_transmit (Suc k) hw t = Inr t1"
proof (induction k arbitrary: t)
  have nz: "(w AND 0x20 \<noteq> 0) \<longleftrightarrow> bit w 5" for w :: u8
  proof
    assume "bit w 5"
    then have "bit (w AND 0x20) 5" by (simp add: bit_and_iff)
    then show "w AND 0x20 \<noteq> 0" by auto
  next
    assume "w AND 0x20 \<noteq> 0"
    then obtain j where "bit (w AND 0x20) j" using bit_eqI [of "w AND 0x20" 0] by auto
    moreover have "(0x20 :: u8) = push_bit 5 1" by simp
    ultimately show "bit w 5" by (auto simp only: bit_and_iff bit_push_bit_iff bit_1_iff) (metis diff_is_0_eq le_antisym)
  qed
  {
    case 0
    then show ?case by (simp add: transmit_ready_def inb_def Let_def nz)
  next
    case (Suc k)
    show ?case
    proof (cases "transmit_ready hw serial_COM1 t")
      case (Pair b t1)
      then have t1: "t1 = snd (inb hw (serial_port LINE_STATUS serial_COM1) t)"
        by (auto simp: transmit_ready_def inb_def Let_def)
      show ?thesis using Suc.IH [of t1] Suc.prems Pair t1 by (cases b) simp_all
    qed
  }
qed

lemma wait_transmit_more: "wait_transmit polls hw t = Inr t1 \<Longrightarrow> polls \<le> q \<Longrightarrow> wait_transmit q hw t = Inr t1"
proof (induction polls arbitrary: t q)
  case (Suc polls)
  then obtain m where "q = Suc m" "polls \<le> m" by (cases q) auto
  then show ?case using Suc by (auto split: prod.splits bool.splits)
qed simp

lemma send_all_more: "send_all polls hw cs t = Inr t1 \<Longrightarrow> polls \<le> q \<Longrightarrow> send_all q hw cs t = Inr t1"
proof (induction cs arbitrary: t)
  case (Cons c cs)
  obtain t0 where "wait_transmit polls hw t = Inr t0" "send_all polls hw cs (outb (serial_port DATA serial_COM1) c t0) = Inr t1"
    using Cons.prems(1) by (auto simp: serial_send_def rbind_eq_Inr_iff)
  then show ?case using Cons.IH Cons.prems(2) wait_transmit_more [of polls hw t t0 q] by (simp add: serial_send_def)
qed simp

lemma send_all_append: "send_all polls hw (cs @ ds) t = rbind (send_all polls hw cs t) (send_all polls hw ds)"
proof (induction cs arbitrary: t)
  case (Cons c cs)
  show ?case
  proof (cases "serial_send polls hw serial_COM1 c t")
    case (Inr t1)
    then show ?thesis using Cons.IH by simp
  qed simp
qed simp

text \<open>A chip that becomes ready again and again takes every string.\<close>

lemma send_all_returns: "becomes_ready hw \<Longrightarrow> \<exists>polls t1. send_all polls hw cs t = Inr t1"
proof (induction cs arbitrary: t)
  case (Cons c cs)
  obtain k where "bit (hw (polled hw k t) (serial_port LINE_STATUS serial_COM1)) 5"
    using Cons.prems unfolding becomes_ready_def by blast
  then obtain t0 where t0: "wait_transmit (Suc k) hw t = Inr t0" by (rule wait_transmit_returns [THEN exE])
  let ?t = "outb (serial_port DATA serial_COM1) c t0"
  obtain p t1 where "send_all p hw cs ?t = Inr t1" using Cons.IH [OF Cons.prems] by blast
  then have "send_all (p + Suc k) hw cs ?t = Inr t1" by (rule send_all_more) simp
  moreover have "wait_transmit (p + Suc k) hw t = Inr t0" by (rule wait_transmit_more [OF t0]) simp
  ultimately have "send_all (p + Suc k) hw (c # cs) t = Inr t1" by (simp only: serial_send_def send_all.simps rbind_Inr)
  then show ?case by blast
qed simp

end
