(* ===== verification/Timing.thy ===== *)
theory Timing
  imports Port_IO
begin

text \<open>
  The clock of src/kernel/timing.cpp: the counters the timer interrupt advances and the waits
  that poll them.
\<close>

record timer =
  micros_since_start :: u64
  millis_since_start :: u64
  ticks_in_this_micro :: u32
  micros_in_this_milli :: u32

definition initial_timer :: timer where
  "initial_timer = \<lparr>micros_since_start = 0, millis_since_start = 0, ticks_in_this_micro = 0, micros_in_this_milli = 0\<rparr>"

definition ticks_per_second :: u64 where "ticks_per_second = 1193182"
definition millis_per_second :: u64 where "millis_per_second = 1000"
definition micros_per_milli :: u32 where "micros_per_milli = 1000"

definition ticks_per_micro :: u64 where
  "ticks_per_micro = ticks_per_second div millis_per_second div ucast micros_per_milli"

definition tick :: "timer \<Rightarrow> timer" where
  "tick s0 =
     (let s = s0\<lparr>ticks_in_this_micro := ticks_in_this_micro s0 + 1\<rparr> in
      if ucast (ticks_in_this_micro s) > ticks_per_micro then
        let s1 = s\<lparr>micros_since_start := micros_since_start s + 1, micros_in_this_milli := micros_in_this_milli s + 1\<rparr>;
            s2 = (if micros_in_this_milli s1 > micros_per_milli
                  then s1\<lparr>millis_since_start := millis_since_start s1 + 1,
                          micros_in_this_milli := micros_in_this_milli s1 - micros_per_milli\<rparr>
                  else s1)
        in s2\<lparr>ticks_in_this_micro := ticks_in_this_micro s2 - ucast ticks_per_micro\<rparr>
      else s)"

definition init_timer :: "hardware \<Rightarrow> trace \<Rightarrow> trace" where
  "init_timer hw t = init_pit hw t"

definition get_millis_since_start :: "timer \<Rightarrow> u64" where
  "get_millis_since_start s = millis_since_start s"

definition get_micros_since_start :: "timer \<Rightarrow> u64" where
  "get_micros_since_start s = micros_since_start s"

text \<open>A wait: each element of the list is the number of timer interrupts that arrive while the
  loop yields once. The loop that is still waiting at the end of the list is \<open>Blocked\<close>.\<close>

fun wait_until :: "(timer \<Rightarrow> u64) \<Rightarrow> u64 \<Rightarrow> u64 \<Rightarrow> nat list \<Rightarrow> timer \<Rightarrow> timer res" where
  "wait_until clock begin_time val arrivals s =
     (if clock s - begin_time < val then
        case arrivals of [] \<Rightarrow> Inl (Blocked ''busy_sleep'')
        | n # ns \<Rightarrow> wait_until clock begin_time val ns ((tick ^^ n) s)
      else Inr s)"

declare wait_until.simps [simp del]

definition busy_sleep_us :: "u64 \<Rightarrow> nat list \<Rightarrow> timer \<Rightarrow> timer res" where
  "busy_sleep_us us arrivals s = wait_until get_micros_since_start (get_micros_since_start s) us arrivals s"

definition busy_sleep_ms :: "u64 \<Rightarrow> nat list \<Rightarrow> timer \<Rightarrow> timer res" where
  "busy_sleep_ms ms arrivals s = wait_until get_millis_since_start (get_millis_since_start s) ms arrivals s"

subsection \<open>What the counters hold\<close>

lemma ticks_per_micro_eq: "ticks_per_micro = 1"
  by (simp add: ticks_per_micro_def ticks_per_second_def millis_per_second_def micros_per_milli_def)

lemma ticks_closed:
  assumes "n + 1 < 2 ^ 64"
  shows "(tick ^^ Suc n) initial_timer =
    \<lparr>micros_since_start = of_nat n, millis_since_start = of_nat ((n - 1) div 1000), ticks_in_this_micro = 1,
     micros_in_this_milli = (if n = 0 then 0 else of_nat ((n - 1) mod 1000 + 1))\<rparr>"
  using assms
proof (induction n)
  case 0
  show ?case by (simp add: tick_def initial_timer_def ticks_per_micro_eq)
next
  case (Suc n)
  define m :: u32 where "m = (if n = 0 then 0 else of_nat ((n - 1) mod 1000 + 1))"
  have IH: "(tick ^^ Suc n) initial_timer = \<lparr>micros_since_start = of_nat n, millis_since_start = of_nat ((n - 1) div 1000),
      ticks_in_this_micro = 1, micros_in_this_milli = m\<rparr>"
    using Suc unfolding m_def by simp
  have "(n - 1) mod 1000 < 1000" by simp
  then have m: "unat m = (if n = 0 then 0 else (n - 1) mod 1000 + 1)"
    by (simp add: m_def unat_of_nat_u32 del: of_nat_add of_nat_Suc)
  then have le: "unat m \<le> 1000" by auto
  then have m1: "unat (m + 1) = unat m + 1" by (simp add: unat_word_ariths)
  have wrap: "m + 1 > micros_per_milli \<longleftrightarrow> unat m = 1000"
    using le by (auto simp: word_less_nat_alt m1 micros_per_milli_def)
  have step: "(tick ^^ Suc (Suc n)) initial_timer = \<lparr>micros_since_start = of_nat n + 1,
      millis_since_start = of_nat ((n - 1) div 1000) + (if unat m = 1000 then 1 else 0), ticks_in_this_micro = 1,
      micros_in_this_milli = (if unat m = 1000 then m + 1 - micros_per_milli else m + 1)\<rparr>"
    by (subst funpow.simps(2), simp only: o_apply IH)
       (simp add: tick_def ticks_per_micro_eq wrap Let_def del: funpow.simps)
  show ?case
  proof (cases "unat m = 1000")
    case True
    then have n: "n \<noteq> 0" "(n - 1) mod 1000 = 999" using m by (auto split: if_splits)
    then obtain k where k: "n = Suc k" "k mod 1000 = 999" by (cases n) auto
    then have dv: "n div 1000 = (n - 1) div 1000 + 1" "n mod 1000 = 0" by (simp_all add: div_Suc mod_Suc)
    have "m = 1000" using True by (intro unsigned_word_eqI [where 'a = nat]) simp
    then show ?thesis using dv unfolding step by (simp add: True micros_per_milli_def)
  next
    case False
    then have "n div 1000 = (n - 1) div 1000 \<and> (n = 0 \<or> n mod 1000 = (n - 1) mod 1000 + 1)"
      using m mod_less_divisor [of 1000 "n - 1"] by (cases n) (auto simp: mod_Suc div_Suc simp del: mod_less_divisor)
    moreover have "m + 1 = of_nat (n mod 1000 + 1)"
      using calculation m by (auto simp: m_def)
    ultimately show ?thesis using False unfolding step by (simp add: algebra_simps)
  qed
qed

text \<open>
  What the clock counts: after $n + 1$ timer interrupts the microsecond counter holds $n$ and
  the millisecond counter $(n - 1) / 1000$. One interrupt counts as one microsecond, although
  \<^verbatim>\<open>init_pit\<close> programs one interrupt for 256 ticks of 1193182 a second; the
  first interrupt is not counted, and a millisecond is counted one microsecond late.
\<close>

theorem clock_counts_interrupts:
  assumes "n + 1 < 2 ^ 64"
  shows "get_micros_since_start ((tick ^^ Suc n) initial_timer) = of_nat n \<and>
    get_millis_since_start ((tick ^^ Suc n) initial_timer) = of_nat ((n - 1) div 1000)"
  using ticks_closed [OF assms] by (simp add: get_micros_since_start_def get_millis_since_start_def del: funpow.simps)

theorem clock_counts_interrupts_witness:
  "get_micros_since_start ((tick ^^ Suc 1000) initial_timer) = 1000 \<and>
   get_millis_since_start ((tick ^^ Suc 1000) initial_timer) = 0"
  using clock_counts_interrupts [of 1000] by (simp del: funpow.simps)

end
