(* ===== verification/Descriptors.thy ===== *)
theory Descriptors
  imports Port_IO
begin

text \<open>
  The descriptor tables: src/kernel/gdt.cpp and src/kernel/idt.cpp, and the table of handlers
  of src/kernel/interrupts.cpp. The addresses of the tables, of the task-state segment and of the
  handlers are parameters.
\<close>

subsection \<open>The global descriptor table\<close>

record GDT_Entry =
  limit_lo :: u16
  base_lo :: u16
  base_hi_lo :: u8
  gdt_access :: u8
  limit_hi :: "4 word"
  gdt_flags :: "4 word"
  base_hi_hi :: u8

definition GDT_PRESENT :: u8 where "GDT_PRESENT = push_bit 7 1"
definition GDT_KERNEL_SEGMENT :: u8 where "GDT_KERNEL_SEGMENT = push_bit 5 0"
definition GDT_USER_SEGMENT :: u8 where "GDT_USER_SEGMENT = push_bit 5 3"
definition GDT_NOT_TSS :: u8 where "GDT_NOT_TSS = push_bit 4 1"
definition GDT_EXECUTABLE :: u8 where "GDT_EXECUTABLE = push_bit 3 1"
definition GDT_DATA_WRITABLE :: u8 where "GDT_DATA_WRITABLE = push_bit 1 1"
definition GDT_CODE_READABLE :: u8 where "GDT_CODE_READABLE = push_bit 1 1"
definition TSS_TYPE_AVAILABLE :: u8 where "TSS_TYPE_AVAILABLE = 0x9"
definition GDT_PAGE_GRANULARITY :: "4 word" where "GDT_PAGE_GRANULARITY = push_bit 3 1"
definition GDT_64_BIT :: "4 word" where "GDT_64_BIT = push_bit 1 1"

definition SIZEOF_ENTRY :: nat where "SIZEOF_ENTRY = 8"
definition KERNEL_CODE_SELECTOR_IDX :: nat where "KERNEL_CODE_SELECTOR_IDX = 1"
definition KERNEL_DATA_SELECTOR_IDX :: nat where "KERNEL_DATA_SELECTOR_IDX = 2"
definition USER_CODE_SELECTOR_IDX :: nat where "USER_CODE_SELECTOR_IDX = 3"
definition USER_DATA_SELECTOR_IDX :: nat where "USER_DATA_SELECTOR_IDX = 4"
definition KERNEL_CODE_SELECTOR :: u64 where "KERNEL_CODE_SELECTOR = of_nat (KERNEL_CODE_SELECTOR_IDX * SIZEOF_ENTRY)"
definition KERNEL_DATA_SELECTOR :: u64 where "KERNEL_DATA_SELECTOR = of_nat (KERNEL_DATA_SELECTOR_IDX * SIZEOF_ENTRY)"
definition USER_CODE_SELECTOR :: u64 where "USER_CODE_SELECTOR = of_nat (USER_CODE_SELECTOR_IDX * SIZEOF_ENTRY)"
definition USER_DATA_SELECTOR :: u64 where "USER_DATA_SELECTOR = of_nat (USER_DATA_SELECTOR_IDX * SIZEOF_ENTRY)"

text \<open>The eight bytes of an entry, least significant first.\<close>

definition entry_bits :: "GDT_Entry \<Rightarrow> u64" where
  "entry_bits e = ucast (limit_lo e) OR push_bit 16 (ucast (base_lo e)) OR push_bit 32 (ucast (base_hi_lo e)) OR
     push_bit 40 (ucast (gdt_access e)) OR push_bit 48 (ucast (limit_hi e)) OR push_bit 52 (ucast (gdt_flags e)) OR
     push_bit 56 (ucast (base_hi_hi e))"

definition null_entry :: GDT_Entry where
  "null_entry = \<lparr>limit_lo = 0, base_lo = 0, base_hi_lo = 0, gdt_access = 0, limit_hi = 0, gdt_flags = 0, base_hi_hi = 0\<rparr>"

definition segment_entry :: "u8 \<Rightarrow> GDT_Entry" where
  "segment_entry acc = \<lparr>limit_lo = 0xFFFF, base_lo = 0, base_hi_lo = 0, gdt_access = acc, limit_hi = 0xF,
     gdt_flags = GDT_PAGE_GRANULARITY OR GDT_64_BIT, base_hi_hi = 0\<rparr>"

definition SIZEOF_TSS :: u64 where "SIZEOF_TSS = 104"

definition tss_descriptor :: "u64 \<Rightarrow> GDT_Entry" where
  "tss_descriptor tss_address = \<lparr>limit_lo = ucast (SIZEOF_TSS AND 0xFFFF), base_lo = ucast (tss_address AND 0xFFFF),
     base_hi_lo = ucast (drop_bit 16 tss_address AND 0xFF), gdt_access = GDT_PRESENT OR TSS_TYPE_AVAILABLE,
     limit_hi = ucast (drop_bit 16 SIZEOF_TSS), gdt_flags = GDT_64_BIT,
     base_hi_hi = ucast (drop_bit 24 tss_address AND 0xFF)\<rparr>"

record descriptor_register =
  reg_limit :: u16
  reg_base :: u64

record gdt_state =
  gdt :: "u64 list"
  gdtr :: descriptor_register
  tss_rsp0 :: u64
  task_register :: u16

text \<open>\<^verbatim>\<open>init_tss\<close> clears the segment and sets the stack of ring 0 to the start of
  \<^verbatim>\<open>task_stack\<close>.\<close>

definition init_tss :: "u64 \<Rightarrow> gdt_state \<Rightarrow> gdt_state" where
  "init_tss task_stack_address s = s\<lparr>tss_rsp0 := task_stack_address\<rparr>"

definition gdt_init :: "u64 \<Rightarrow> u64 \<Rightarrow> u64 \<Rightarrow> gdt_state \<Rightarrow> gdt_state" where
  "gdt_init gdt_address tss_address task_stack_address s =
     (let s1 = s\<lparr>gdt := [entry_bits null_entry,
            entry_bits (segment_entry (GDT_PRESENT OR GDT_KERNEL_SEGMENT OR GDT_NOT_TSS OR GDT_EXECUTABLE OR GDT_CODE_READABLE)),
            entry_bits (segment_entry (GDT_PRESENT OR GDT_KERNEL_SEGMENT OR GDT_NOT_TSS OR GDT_DATA_WRITABLE)),
            entry_bits (segment_entry (GDT_PRESENT OR GDT_USER_SEGMENT OR GDT_NOT_TSS OR GDT_EXECUTABLE OR GDT_CODE_READABLE)),
            entry_bits (segment_entry (GDT_PRESENT OR GDT_USER_SEGMENT OR GDT_NOT_TSS OR GDT_DATA_WRITABLE)),
            entry_bits (tss_descriptor tss_address),
            (gdt s ! 6 AND NOT (mask 32)) OR ucast (ucast (drop_bit 32 tss_address) :: u32)]\<rparr>
      in (init_tss task_stack_address s1)\<lparr>gdtr := \<lparr>reg_limit = of_nat (7 * SIZEOF_ENTRY) - 1, reg_base = gdt_address\<rparr>,
           task_register := of_nat (5 * SIZEOF_ENTRY)\<rparr>)"

subsection \<open>Interrupt handlers\<close>

datatype handler = general_protection_fault_handler | page_fault_handler | timer_handler | keyboard_handler
  | floppy_handler | scheduler_interrupt_handler | syscall_interrupt_handler | interrupt_handler u8

definition unhandled_vectors :: "u8 list" where
  "unhandled_vectors = [0x0, 0x1, 0x2, 0x3, 0x4, 0x5, 0x6, 0x7, 0x8, 0x9, 0xa, 0xb, 0xc, 0xf, 0x10, 0x11, 0x12, 0x13,
     0x14, 0x15, 0x16, 0x17, 0x18, 0x19, 0x1a, 0x1b, 0x1c, 0x1d, 0x1e, 0x1f, 0x22, 0x23, 0x24, 0x25, 0x27]"

definition get_handler :: "u8 \<Rightarrow> handler" where
  "get_handler index =
     (if index = 0x0D then general_protection_fault_handler
      else if index = 0x0E then page_fault_handler
      else if index = 0x20 then timer_handler
      else if index = 0x21 then keyboard_handler
      else if index = 0x26 then floppy_handler
      else if index = 0x28 then scheduler_interrupt_handler
      else if index = 0x80 then syscall_interrupt_handler
      else if index \<in> set unhandled_vectors then interrupt_handler index
      else interrupt_handler (-1))"

subsection \<open>The interrupt descriptor table\<close>

record IDT_Entry =
  offset_1 :: u16
  idt_selector :: u16
  ist :: u8
  type_attr :: u8
  offset_2 :: u16
  offset_3 :: u32
  idt_zero :: u32

definition NUM_IDT_ENTRIES :: nat where "NUM_IDT_ENTRIES = 0x100"
definition Attr_present :: u8 where "Attr_present = 0x80"
definition Type_interrupt_32 :: u8 where "Type_interrupt_32 = 0xE"

definition idt_entry :: "u64 \<Rightarrow> IDT_Entry" where
  "idt_entry handler_address = \<lparr>offset_1 = ucast handler_address, idt_selector = ucast KERNEL_CODE_SELECTOR, ist = 0,
     type_attr = Attr_present OR Type_interrupt_32, offset_2 = ucast (drop_bit 16 handler_address),
     offset_3 = ucast (drop_bit 32 handler_address), idt_zero = 0\<rparr>"

record idt_state =
  g_idt :: "IDT_Entry list"
  g_idtr :: descriptor_register

text \<open>\<open>code\<close> gives the address of each handler.\<close>

definition idt_init :: "hardware \<Rightarrow> (handler \<Rightarrow> u64) \<Rightarrow> u64 \<Rightarrow> trace \<Rightarrow> idt_state \<times> trace" where
  "idt_init hw code idt_address t =
     (\<lparr>g_idt = map (\<lambda>i. idt_entry (code (get_handler (of_nat i)))) [0..<NUM_IDT_ENTRIES],
       g_idtr = \<lparr>reg_limit = of_nat (NUM_IDT_ENTRIES * 16) - 1, reg_base = idt_address\<rparr>\<rparr>, remap_interrupts hw t)"

subsection \<open>What the processor finds\<close>

text \<open>The handler address of a gate and the base of a system segment, as the processor
  assembles them.\<close>

definition gate_offset :: "IDT_Entry \<Rightarrow> u64" where
  "gate_offset e = ucast (offset_1 e) OR push_bit 16 (ucast (offset_2 e)) OR push_bit 32 (ucast (offset_3 e))"

definition gate_dpl :: "IDT_Entry \<Rightarrow> nat" where
  "gate_dpl e = unat (drop_bit 5 (type_attr e) AND 3)"

definition segment_base :: "u64 \<Rightarrow> u64 \<Rightarrow> u64" where
  "segment_base lo hi = (drop_bit 16 lo AND mask 24) OR push_bit 24 (drop_bit 56 lo) OR push_bit 32 hi"

lemma gate_offset_entry: "gate_offset (idt_entry a) = a"
proof (rule bit_eqI)
  fix n
  assume "possible_bit TYPE(64 word) n"
  then have n: "n < 64" by (simp add: possible_bit_word)
  consider "n < 16" | "16 \<le> n" "n < 32" | "32 \<le> n" by linarith
  then show "bit (gate_offset (idt_entry a)) n \<longleftrightarrow> bit a n"
    by cases (use n in \<open>auto simp: gate_offset_def idt_entry_def bit_or_iff bit_push_bit_iff bit_ucast_iff bit_drop_bit_eq
        possible_bit_word\<close>)
qed

lemma narrow_masked:
  "ucast (a AND 0xFFFF :: u64) = (ucast a :: u16)" "ucast (a AND 0xFF :: u64) = (ucast a :: u8)"
proof -
  have "ucast (a AND mask 16) = (ucast a :: u16)" "ucast (a AND mask 8) = (ucast a :: u8)"
    by (rule bit_eqI; auto simp: bit_ucast_iff bit_and_iff bit_mask_iff possible_bit_word)+
  then show "ucast (a AND 0xFFFF :: u64) = (ucast a :: u16)" "ucast (a AND 0xFF :: u64) = (ucast a :: u8)"
    by (simp_all add: mask_numeral)
qed

lemma high_bits_clear: "bit (b :: u8) k \<Longrightarrow> k < 8" "bit (c :: 4 word) k \<Longrightarrow> k < 4"
  by (drule bit_imp_le_length, simp)+

lemma tss_base: "segment_base (entry_bits (tss_descriptor a)) ((w AND NOT (mask 32)) OR ucast (ucast (drop_bit 32 a) :: u32)) = a"
proof (rule bit_eqI)
  fix n
  assume "possible_bit TYPE(64 word) n"
  then have n: "n < 64" by (simp add: possible_bit_word)
  consider "n < 16" | "16 \<le> n" "n < 24" | "24 \<le> n" "n < 32" | "32 \<le> n" by linarith
  then show "bit (segment_base (entry_bits (tss_descriptor a)) ((w AND NOT (mask 32)) OR ucast (ucast (drop_bit 32 a) :: u32))) n
      \<longleftrightarrow> bit a n"
    by cases (use n in \<open>auto simp: segment_base_def entry_bits_def tss_descriptor_def narrow_masked bit_or_iff bit_and_iff
        bit_not_iff bit_push_bit_iff bit_ucast_iff bit_drop_bit_eq bit_mask_iff possible_bit_word dest: high_bits_clear\<close>)
qed

text \<open>
  C29. The tables send the processor where the kernel means it to go: after
  \<^verbatim>\<open>idt::init\<close> the gate of every vector holds the address of the handler
  \<^verbatim>\<open>get_handler\<close> names for it and runs it in the kernel's code segment, at privilege level 0
  (so a user task that executes \<^verbatim>\<open>int 0x80\<close> is refused); after
  \<^verbatim>\<open>gdt::init\<close> entries 5 and 6 together give the address of the task-state segment.
\<close>

theorem descriptor_tables_decode:
  "(\<forall>v :: u8. let e = g_idt (fst (idt_init hw code idt_address t)) ! unat v in
      gate_offset e = code (get_handler v) \<and> ucast (idt_selector e) = KERNEL_CODE_SELECTOR \<and> gate_dpl e = 0) \<and>
   (let g = gdt (gdt_init gdt_address tss_address task_stack_address s) in segment_base (g ! 5) (g ! 6) = tss_address)"
proof (rule conjI)
  have "unat v < 256" for v :: u8 using unsigned_less [of v] by simp
  then have "g_idt (fst (idt_init hw code idt_address t)) ! unat v = idt_entry (code (get_handler v))" for v :: u8
    by (simp add: idt_init_def NUM_IDT_ENTRIES_def)
  then show "\<forall>v :: u8. let e = g_idt (fst (idt_init hw code idt_address t)) ! unat v in
      gate_offset e = code (get_handler v) \<and> ucast (idt_selector e) = KERNEL_CODE_SELECTOR \<and> gate_dpl e = 0"
    by (simp add: gate_offset_entry Let_def)
      (simp add: idt_entry_def gate_dpl_def Attr_present_def Type_interrupt_32_def KERNEL_CODE_SELECTOR_def
        KERNEL_CODE_SELECTOR_IDX_def SIZEOF_ENTRY_def)
  show "let g = gdt (gdt_init gdt_address tss_address task_stack_address s) in segment_base (g ! 5) (g ! 6) = tss_address"
    by (simp add: gdt_init_def init_tss_def Let_def tss_base)
qed

end
