(* ===== verification/Scheduler.thy ===== *)
theory Scheduler
  imports Heap Timing Descriptors
begin

text \<open>
  The scheduler of src/kernel/scheduler.cpp, with the interrupt of src/kernel/task.asm that
  calls it. The task table and the saved floating-point blocks are lists; the memory they occupy
  comes from \<open>Alloc\<close>, as do the stacks. The processor is its general registers (the
  interrupt frame and what the handler pushes) and its floating-point state. Task
  numbers are naturals: an assertion keeps them below \<^verbatim>\<open>MAX_TASKS\<close>.
\<close>

record task_frame =
  r15 :: u64
  r14 :: u64
  r13 :: u64
  r12 :: u64
  r11 :: u64
  r10 :: u64
  r9 :: u64
  r8 :: u64
  rbp :: u64
  rdi :: u64
  rsi :: u64
  rdx :: u64
  rcx :: u64
  rbx :: u64
  rax :: u64
  rip :: u64
  cs :: u64
  rflags :: u64
  rsp :: u64
  ss :: u64

datatype task_state = killed | waiting | running

record task_context =
  frame :: task_frame
  state :: task_state
  stack_base :: u64

type_synonym fxsave_data = "u8 list"

definition zero_frame :: task_frame where
  "zero_frame = \<lparr>r15 = 0, r14 = 0, r13 = 0, r12 = 0, r11 = 0, r10 = 0, r9 = 0, r8 = 0, rbp = 0, rdi = 0, rsi = 0,
     rdx = 0, rcx = 0, rbx = 0, rax = 0, rip = 0, cs = 0, rflags = 0, rsp = 0, ss = 0\<rparr>"

definition zero_context :: task_context where
  "zero_context = \<lparr>frame = zero_frame, state = killed, stack_base = 0\<rparr>"

definition MAX_TASKS :: nat where "MAX_TASKS = 0x100"
definition KERNEL_TASK_ID :: nat where "KERNEL_TASK_ID = 0"
definition TASK_STACK_SIZE :: u64 where "TASK_STACK_SIZE = PAGE_SIZE * 4"
definition TASK_STACK_ALIGN :: u64 where "TASK_STACK_ALIGN = 16"

record sched_state =
  tasks :: "task_context list option"
  current_task_id :: nat
  total_tasks :: nat
  fxsave_blocks :: "fxsave_data list"
  temp_fxsave :: fxsave_data
  task_switching_enabled :: bool
  no_scheduler_tick :: bool
  ticks_since_boot :: u64
  interrupts_on :: bool
  kalloc :: alloc_state
  sched_trace :: trace

subsection \<open>Interrupts\<close>

definition interrupts_enable :: "sched_state \<Rightarrow> sched_state" where
  "interrupts_enable s = s\<lparr>interrupts_on := True\<rparr>"

definition interrupts_disable :: "sched_state \<Rightarrow> sched_state" where
  "interrupts_disable s = s\<lparr>interrupts_on := False\<rparr>"

text \<open>The scope of a \<^verbatim>\<open>scoped_disable\<close>: its end enables interrupts, whatever they
  were at the start.\<close>

definition with_interrupts_disabled :: "(sched_state \<Rightarrow> ('a \<times> sched_state) res) \<Rightarrow> sched_state \<Rightarrow> ('a \<times> sched_state) res" where
  "with_interrupts_disabled action s =
     rbind (action (interrupts_disable s)) (\<lambda>(x, s'). Inr (x, interrupts_enable s'))"

subsection \<open>Tasks\<close>

definition task_table :: "sched_state \<Rightarrow> task_context list res" where
  "task_table s = (case tasks s of None \<Rightarrow> Inl (Undefined_behaviour ''null task table'') | Some ts \<Rightarrow> Inr ts)"

definition task_at :: "task_context list \<Rightarrow> nat \<Rightarrow> task_context res" where
  "task_at ts i = (if i < length ts then Inr (ts ! i) else Inl (Undefined_behaviour ''task out of range''))"

definition get_current_task :: "sched_state \<Rightarrow> task_context option" where
  "get_current_task s = (case tasks s of None \<Rightarrow> None | Some ts \<Rightarrow> Some (ts ! current_task_id s))"

definition get_current_task_is_kernel :: "sched_state \<Rightarrow> bool" where
  "get_current_task_is_kernel s = (case get_current_task s of None \<Rightarrow> True | Some t \<Rightarrow> cs (frame t) = KERNEL_CODE_SELECTOR)"

definition get_current_task_is_user :: "sched_state \<Rightarrow> bool" where
  "get_current_task_is_user s = (case get_current_task s of None \<Rightarrow> False | Some t \<Rightarrow> cs (frame t) = USER_CODE_SELECTOR)"

definition scheduler_init :: "bool \<Rightarrow> sched_state \<Rightarrow> sched_state res" where
  "scheduler_init cmos_initialized s =
     rbind (assert_that cmos_initialized ''scheduler requires CMOS!'') (\<lambda>_.
     rbind (alloc_zeroed (176 * of_nat MAX_TASKS) 8 READ_WRITE (kalloc s)) (\<lambda>(_, a1).
     rbind (alloc_zeroed (512 * of_nat MAX_TASKS) 16 READ_WRITE a1) (\<lambda>(_, a2).
       Inr (s\<lparr>tasks := Some ((replicate MAX_TASKS zero_context)[KERNEL_TASK_ID := zero_context\<lparr>state := running\<rparr>]),
              current_task_id := KERNEL_TASK_ID, fxsave_blocks := replicate MAX_TASKS (replicate 512 0), kalloc := a2\<rparr>))))"

text \<open>The number of the first killed task below \<open>n\<close>, or \<open>n\<close>.\<close>

function first_killed :: "task_context list \<Rightarrow> nat \<Rightarrow> nat \<Rightarrow> nat" where
  "first_killed ts n i = (if i < n then if state (ts ! i) = killed then i else first_killed ts n (Suc i) else n)"
  by pat_completeness auto
termination
  by (relation "measure (\<lambda>(ts, n, i). n - i)") auto

declare first_killed.simps [simp del]

text \<open>\<open>exit_address\<close> is the address of \<^verbatim>\<open>scheduler::exit\<close>.\<close>

definition schedule_task :: "u64 \<Rightarrow> bool \<Rightarrow> u64 \<Rightarrow> u64 \<Rightarrow> sched_state \<Rightarrow> (nat \<times> sched_state) res" where
  "schedule_task exit_address is_kernel new_task context =
     with_interrupts_disabled (\<lambda>s.
       rbind (task_table s) (\<lambda>ts.
       let next_task_id = first_killed ts (total_tasks s) 0 in
       rbind (assert_that (next_task_id < MAX_TASKS) ''ran out of tasks!'') (\<lambda>_.
       rbind (alloc TASK_STACK_SIZE TASK_STACK_ALIGN READ_WRITE (kalloc s)) (\<lambda>(new_stack_top, a1).
       let new_stack_base = new_stack_top + TASK_STACK_SIZE in
       rbind (cell_write (new_stack_base - 8) exit_address a1) (\<lambda>a2.
       let f = zero_frame\<lparr>rsp := new_stack_base - 8, rip := new_task,
             cs := if is_kernel then KERNEL_CODE_SELECTOR else USER_CODE_SELECTOR,
             ss := if is_kernel then KERNEL_DATA_SELECTOR else USER_DATA_SELECTOR,
             rflags := push_bit 9 1, rdi := context\<rparr>
       in Inr (next_task_id, s\<lparr>
            total_tasks := (if next_task_id = total_tasks s then total_tasks s + 1 else total_tasks s),
            tasks := Some (ts[next_task_id := \<lparr>frame = f, state = waiting, stack_base = new_stack_base\<rparr>]),
            kalloc := a2\<rparr>))))))"

definition schedule_kernel_task :: "u64 \<Rightarrow> u64 \<Rightarrow> u64 \<Rightarrow> sched_state \<Rightarrow> (nat \<times> sched_state) res" where
  "schedule_kernel_task exit_address new_task context = schedule_task exit_address True new_task context"

definition schedule_user_task :: "u64 \<Rightarrow> u64 \<Rightarrow> u64 \<Rightarrow> sched_state \<Rightarrow> (nat \<times> sched_state) res" where
  "schedule_user_task exit_address new_task context = schedule_task exit_address False new_task context"

text \<open>The search of \<^verbatim>\<open>task_switch\<close>: \<open>Some None\<close> when it comes back to the
  current task.\<close>

partial_function (option) next_task :: "task_context list \<Rightarrow> nat \<Rightarrow> nat \<Rightarrow> nat \<Rightarrow> nat option option" where
  "next_task ts n cur i =
     (let j = (if i + 1 \<ge> n then 0 else i + 1) in
      if j = cur then Some None
      else if state (ts ! j) = waiting then Some (Some j)
      else next_task ts n cur j)"

definition task_switch :: "task_frame \<Rightarrow> sched_state \<Rightarrow> (task_frame \<times> sched_state) res" where
  "task_switch tcb =
     with_interrupts_disabled (\<lambda>s.
       rbind (task_table s) (\<lambda>ts.
       let old_task = current_task_id s in
       rbind (task_at ts old_task) (\<lambda>old.
       rbind (assert_that (state old = running) ''current task is not running?'') (\<lambda>_.
         case next_task ts (total_tasks s) old_task old_task of
           None \<Rightarrow> Inl (Blocked ''task_switch'')
         | Some None \<Rightarrow> Inr (tcb, s)
         | Some (Some next) \<Rightarrow>
             let ts1 = ts[old_task := old\<lparr>frame := tcb\<rparr>];
                 blocks = (fxsave_blocks s)[old_task := temp_fxsave s];
                 loaded = ts1 ! next
             in Inr (frame loaded, s\<lparr>tasks := Some (ts1[next := loaded\<lparr>state := running\<rparr>]),
                  fxsave_blocks := blocks, temp_fxsave := blocks ! next, current_task_id := next\<rparr>)))))"

definition kill :: "nat \<Rightarrow> sched_state \<Rightarrow> sched_state res" where
  "kill tid s =
     rbind (with_interrupts_disabled (\<lambda>s.
       rbind (task_table s) (\<lambda>ts.
       rbind (task_at ts tid) (\<lambda>t.
       let s1 = s\<lparr>tasks := Some (ts[tid := t\<lparr>state := killed\<rparr>])\<rparr> in
       if stack_base t = 0 then Inr ((), s1)
       else rbind (alloc_free (stack_base t - TASK_STACK_SIZE) (kalloc s1)) (\<lambda>a. Inr ((), s1\<lparr>kalloc := a\<rparr>))))) s)
     (\<lambda>(_, s'). Inr s')"

text \<open>The interrupt at vector 0x28. The processor is \<open>(f, fx)\<close>; the return from the
  interrupt loads the flags of the frame.\<close>

definition end_of_scheduler_interrupt :: "hardware \<Rightarrow> sched_state \<Rightarrow> sched_state" where
  "end_of_scheduler_interrupt hw s =
     (let (_, t) = inb hw 0x71 (outb 0x70 0x0C (sched_trace s))
      in s\<lparr>sched_trace := outb 0x20 0x20 (outb 0xA0 0x20 t)\<rparr>)"

definition scheduler_interrupt :: "hardware \<Rightarrow> task_frame \<times> fxsave_data \<Rightarrow> sched_state \<Rightarrow>
    ((task_frame \<times> fxsave_data) \<times> sched_state) res" where
  "scheduler_interrupt hw cpu s0 =
     (let s = interrupts_disable (if no_scheduler_tick s0 then s0 else s0\<lparr>ticks_since_boot := ticks_since_boot s0 + 1\<rparr>) in
      rbind (if task_switching_enabled s then
               rbind (task_switch (fst cpu) (s\<lparr>temp_fxsave := snd cpu\<rparr>)) (\<lambda>(f, s1).
                 Inr ((f, temp_fxsave s1), s1\<lparr>no_scheduler_tick := False\<rparr>))
             else Inr (cpu, s)) (\<lambda>(cpu', s2).
        Inr (cpu', (end_of_scheduler_interrupt hw s2)\<lparr>interrupts_on := bit (rflags (fst cpu')) 9\<rparr>)))"

definition yield :: "hardware \<Rightarrow> task_frame \<times> fxsave_data \<Rightarrow> sched_state \<Rightarrow>
    ((task_frame \<times> fxsave_data) \<times> sched_state) res" where
  "yield hw cpu s =
     (if interrupts_on s \<and> task_switching_enabled s then scheduler_interrupt hw cpu (s\<lparr>no_scheduler_tick := True\<rparr>)
      else Inr (cpu, s))"

definition enable_task_switch :: "sched_state \<Rightarrow> sched_state res" where
  "enable_task_switch s = rbind (with_interrupts_disabled (\<lambda>s. Inr ((), s\<lparr>task_switching_enabled := True\<rparr>)) s) (\<lambda>(_, s'). Inr s')"

text \<open>What the processor goes on with after \<^verbatim>\<open>exit\<close> has yielded: another task, or the
  endless loop of the task itself.\<close>

definition scheduler_exit :: "hardware \<Rightarrow> task_frame \<times> fxsave_data \<Rightarrow> sched_state \<Rightarrow>
    ((task_frame \<times> fxsave_data) \<times> sched_state) res" where
  "scheduler_exit hw cpu s = rbind (kill (current_task_id s) s) (\<lambda>s1. yield hw cpu (interrupts_enable s1))"

subsection \<open>The choice of the next task\<close>

lemma cyclic_step:
  assumes "cur < n"
  shows "(if (cur + d) mod n + 1 \<ge> n then 0 else (cur + d) mod n + 1) = (cur + Suc d) mod n"
proof -
  have "(cur + d) mod n < n" using assms by simp
  then have "n \<le> Suc ((cur + d) mod n) \<longleftrightarrow> Suc ((cur + d) mod n) = n" by linarith
  then show ?thesis by (simp add: mod_Suc)
qed

lemma next_task_from:
  assumes "cur < n" "d < n"
  shows "next_task ts n cur ((cur + d) mod n) =
    Some (find (\<lambda>j. state (ts ! j) = waiting) (map (\<lambda>e. (cur + e) mod n) [Suc d..<n]))"
  using assms
proof (induction "n - d" arbitrary: d)
  case 0
  then show ?case by simp
next
  case (Suc k)
  let ?j = "(cur + Suc d) mod n"
  have step: "next_task ts n cur ((cur + d) mod n) =
      (if ?j = cur then Some None else if state (ts ! ?j) = waiting then Some (Some ?j) else next_task ts n cur ?j)"
    by (subst next_task.simps) (simp only: cyclic_step [OF Suc.prems(1)] Let_def)
  show ?case
  proof (cases "Suc d < n")
    case True
    have "?j \<noteq> cur"
    proof
      assume "?j = cur"
      then have "(cur + Suc d) mod n = (cur + 0) mod n" using Suc.prems(1) by simp
      then have "n dvd Suc d" using mod_eq_dvd_iff_nat [of cur "cur + Suc d" n] by simp
      then have "n \<le> Suc d" by (rule dvd_imp_le) simp
      then show False using True by simp
    qed
    moreover have "[Suc d..<n] = Suc d # [Suc (Suc d)..<n]" using True by (simp add: upt_conv_Cons)
    moreover have "next_task ts n cur ?j =
        Some (find (\<lambda>j. state (ts ! j) = waiting) (map (\<lambda>e. (cur + e) mod n) [Suc (Suc d)..<n]))"
      using Suc.hyps True Suc.prems(1) by (intro Suc.hyps(1)) auto
    ultimately show ?thesis by (simp add: step)
  next
    case False
    then have "Suc d = n" using Suc.prems(2) by simp
    then have "?j = cur" using Suc.prems(1) by simp
    then show ?thesis using \<open>Suc d = n\<close> by (simp add: step)
  qed
qed

subsection \<open>The invariant\<close>

definition sched_inv :: "sched_state \<Rightarrow> bool" where
  "sched_inv s \<longleftrightarrow> (\<exists>ts. tasks s = Some ts \<and> length ts = MAX_TASKS \<and> state (ts ! current_task_id s) = running) \<and>
     length (fxsave_blocks s) = MAX_TASKS \<and> current_task_id s < total_tasks s \<and> total_tasks s \<le> MAX_TASKS"

definition state_of :: "sched_state \<Rightarrow> nat \<Rightarrow> task_state" where
  "state_of s i = state (the (tasks s) ! i)"

text \<open>The task the next interrupt switches to: the first waiting one after the current task, in
  the cyclic order of the table.\<close>

definition successor :: "sched_state \<Rightarrow> nat option" where
  "successor s = find (\<lambda>j. state_of s j = waiting) (map (\<lambda>d. (current_task_id s + d) mod total_tasks s) [1..<total_tasks s])"

lemma successor_Some:
  assumes "successor s = Some j" "current_task_id s < total_tasks s"
  shows "j < total_tasks s" "state_of s j = waiting"
  using assms by (auto simp: successor_def find_Some_iff)

lemma sched_invD:
  assumes "sched_inv s"
  obtains ts where "tasks s = Some ts" "length ts = MAX_TASKS" "state_of s (current_task_id s) = running"
    "length (fxsave_blocks s) = MAX_TASKS" "current_task_id s < total_tasks s" "total_tasks s \<le> MAX_TASKS"
    "\<And>i. state_of s i = state (ts ! i)"
  using assms by (auto simp: sched_inv_def state_of_def)

lemma task_switch_cases:
  assumes "sched_inv s"
  shows "successor s = None \<Longrightarrow> task_switch f s = Inr (f, interrupts_enable s)"
    "successor s = Some j \<Longrightarrow> \<exists>ts. tasks s = Some ts \<and> task_switch f s = Inr (frame (ts ! j), s\<lparr>interrupts_on := True,
       tasks := Some (ts[current_task_id s := (ts ! current_task_id s)\<lparr>frame := f\<rparr>, j := (ts ! j)\<lparr>state := running\<rparr>]),
       fxsave_blocks := (fxsave_blocks s)[current_task_id s := temp_fxsave s], temp_fxsave := fxsave_blocks s ! j,
       current_task_id := j\<rparr>)"
proof -
  obtain ts where ts: "tasks s = Some ts" "length ts = MAX_TASKS" "state_of s (current_task_id s) = running"
      "length (fxsave_blocks s) = MAX_TASKS" "current_task_id s < total_tasks s" "total_tasks s \<le> MAX_TASKS"
      "\<And>i. state_of s i = state (ts ! i)" by (rule sched_invD [OF assms]) auto
  have nt: "next_task ts (total_tasks s) (current_task_id s) (current_task_id s) = Some (successor s)"
    using next_task_from [OF ts(5), of 0 ts] ts(5,7) by (simp add: successor_def)
  have cur: "current_task_id s < length ts" "state (ts ! current_task_id s) = running"
    using ts(2,5,6) ts(3)[unfolded ts(7)] by simp_all
  show "successor s = None \<Longrightarrow> task_switch f s = Inr (f, interrupts_enable s)"
    using nt cur ts(1) by (simp add: task_switch_def with_interrupts_disabled_def task_table_def task_at_def
        interrupts_disable_def interrupts_enable_def Let_def)
  assume j: "successor s = Some j"
  then have "j \<noteq> current_task_id s" "j < length (fxsave_blocks s)"
    using successor_Some [OF j ts(5)] ts by auto
  then show "\<exists>ts. tasks s = Some ts \<and> task_switch f s = Inr (frame (ts ! j), s\<lparr>interrupts_on := True,
       tasks := Some (ts[current_task_id s := (ts ! current_task_id s)\<lparr>frame := f\<rparr>, j := (ts ! j)\<lparr>state := running\<rparr>]),
       fxsave_blocks := (fxsave_blocks s)[current_task_id s := temp_fxsave s], temp_fxsave := fxsave_blocks s ! j,
       current_task_id := j\<rparr>)"
    using nt cur ts(1) j by (simp add: task_switch_def with_interrupts_disabled_def task_table_def task_at_def
        interrupts_disable_def interrupts_enable_def Let_def)
qed

text \<open>The processor and the state after the interrupt, given what \<^verbatim>\<open>task_switch\<close> left.\<close>

definition after_interrupt :: "hardware \<Rightarrow> task_frame \<times> fxsave_data \<Rightarrow> sched_state \<Rightarrow> sched_state" where
  "after_interrupt hw cpu s = (end_of_scheduler_interrupt hw s)\<lparr>interrupts_on := bit (rflags (fst cpu)) 9\<rparr>"

lemma after_interrupt_fields [simp]:
  "tasks (after_interrupt hw cpu s) = tasks s" "current_task_id (after_interrupt hw cpu s) = current_task_id s"
  "total_tasks (after_interrupt hw cpu s) = total_tasks s" "fxsave_blocks (after_interrupt hw cpu s) = fxsave_blocks s"
  "task_switching_enabled (after_interrupt hw cpu s) = task_switching_enabled s"
  by (simp_all add: after_interrupt_def end_of_scheduler_interrupt_def Let_def split: prod.splits)

lemma sched_inv_cong:
  "tasks s' = tasks s \<Longrightarrow> current_task_id s' = current_task_id s \<Longrightarrow> total_tasks s' = total_tasks s \<Longrightarrow>
   fxsave_blocks s' = fxsave_blocks s \<Longrightarrow> sched_inv s' = sched_inv s"
  "tasks s' = tasks s \<Longrightarrow> current_task_id s' = current_task_id s \<Longrightarrow> total_tasks s' = total_tasks s \<Longrightarrow>
   successor s' = successor s"
  by (simp_all add: sched_inv_def successor_def state_of_def)

lemma scheduler_interrupt_off:
  assumes "\<not> task_switching_enabled s"
  obtains s' where "scheduler_interrupt hw cpu s = Inr (cpu, s')" "tasks s' = tasks s"
    "current_task_id s' = current_task_id s" "total_tasks s' = total_tasks s" "fxsave_blocks s' = fxsave_blocks s"
  using assms by (cases "no_scheduler_tick s")
    (auto simp: scheduler_interrupt_def interrupts_disable_def Let_def simp flip: after_interrupt_def)

lemma scheduler_interrupt_on:
  assumes "sched_inv s" "task_switching_enabled s"
  shows "successor s = None \<Longrightarrow> \<exists>s'. scheduler_interrupt hw cpu s = Inr (cpu, s') \<and> tasks s' = tasks s \<and>
      current_task_id s' = current_task_id s \<and> total_tasks s' = total_tasks s \<and> fxsave_blocks s' = fxsave_blocks s"
    "successor s = Some j \<Longrightarrow> \<exists>ts s'. tasks s = Some ts \<and>
      scheduler_interrupt hw cpu s = Inr ((frame (ts ! j), fxsave_blocks s ! j), s') \<and>
      tasks s' = Some (ts[current_task_id s := (ts ! current_task_id s)\<lparr>frame := fst cpu\<rparr>, j := (ts ! j)\<lparr>state := running\<rparr>]) \<and>
      fxsave_blocks s' = (fxsave_blocks s)[current_task_id s := snd cpu] \<and> current_task_id s' = j \<and>
      total_tasks s' = total_tasks s"
proof -
  define e where "e = (interrupts_disable (if no_scheduler_tick s then s else s\<lparr>ticks_since_boot := ticks_since_boot s + 1\<rparr>))
      \<lparr>temp_fxsave := snd cpu\<rparr>"
  have e: "tasks e = tasks s" "current_task_id e = current_task_id s" "total_tasks e = total_tasks s"
      "fxsave_blocks e = fxsave_blocks s" "temp_fxsave e = snd cpu" "task_switching_enabled e"
    using assms(2) by (simp_all add: e_def interrupts_disable_def)
  have run: "scheduler_interrupt hw cpu s = rbind (rbind (task_switch (fst cpu) e) (\<lambda>(f, s1).
      Inr ((f, temp_fxsave s1), s1\<lparr>no_scheduler_tick := False\<rparr>))) (\<lambda>(cpu', s2). Inr (cpu', after_interrupt hw cpu' s2))"
    using assms(2) by (simp add: scheduler_interrupt_def e_def Let_def interrupts_disable_def after_interrupt_def)
  have inv: "sched_inv e" "successor e = successor s" using assms(1) e sched_inv_cong [of e s] by simp_all
  show "successor s = None \<Longrightarrow> \<exists>s'. scheduler_interrupt hw cpu s = Inr (cpu, s') \<and> tasks s' = tasks s \<and>
      current_task_id s' = current_task_id s \<and> total_tasks s' = total_tasks s \<and> fxsave_blocks s' = fxsave_blocks s"
    using run task_switch_cases(1) [OF inv(1)] inv(2) e by (simp add: interrupts_enable_def)
  assume "successor s = Some j"
  then obtain ts where "tasks e = Some ts" "task_switch (fst cpu) e = Inr (frame (ts ! j), e\<lparr>interrupts_on := True,
       tasks := Some (ts[current_task_id e := (ts ! current_task_id e)\<lparr>frame := fst cpu\<rparr>, j := (ts ! j)\<lparr>state := running\<rparr>]),
       fxsave_blocks := (fxsave_blocks e)[current_task_id e := temp_fxsave e], temp_fxsave := fxsave_blocks e ! j,
       current_task_id := j\<rparr>)"
    using task_switch_cases(2) [OF inv(1), of j "fst cpu"] inv(2) by auto
  then show "\<exists>ts s'. tasks s = Some ts \<and>
      scheduler_interrupt hw cpu s = Inr ((frame (ts ! j), fxsave_blocks s ! j), s') \<and>
      tasks s' = Some (ts[current_task_id s := (ts ! current_task_id s)\<lparr>frame := fst cpu\<rparr>, j := (ts ! j)\<lparr>state := running\<rparr>]) \<and>
      fxsave_blocks s' = (fxsave_blocks s)[current_task_id s := snd cpu] \<and> current_task_id s' = j \<and>
      total_tasks s' = total_tasks s"
    using run e by simp
qed

lemma first_killed_cases:
  "i \<le> n \<Longrightarrow> first_killed ts n i = n \<or> first_killed ts n i < n \<and> state (ts ! first_killed ts n i) = killed"
proof (induction ts n i rule: first_killed.induct)
  case (1 ts n i)
  then show ?case by (subst (1 2 3) first_killed.simps) auto
qed

lemma schedule_task_effect:
  assumes "sched_inv s" "schedule_task ea k f c s = Inr (i, s')"
  shows "sched_inv s'" "current_task_id s' = current_task_id s" "i \<noteq> current_task_id s"
    "state_of s' i = waiting" "\<And>j. j \<noteq> i \<Longrightarrow> state_of s' j = state_of s j"
    "i < total_tasks s \<Longrightarrow> state_of s i = killed" "total_tasks s \<le> total_tasks s'"
proof -
  obtain ts where ts: "tasks s = Some ts" "length ts = MAX_TASKS" "state_of s (current_task_id s) = running"
      "length (fxsave_blocks s) = MAX_TASKS" "current_task_id s < total_tasks s" "total_tasks s \<le> MAX_TASKS"
      "\<And>i. state_of s i = state (ts ! i)" by (rule sched_invD [OF assms(1)]) auto
  obtain t where i: "i = first_killed ts (total_tasks s) 0" "i < MAX_TASKS" and
      s': "tasks s' = Some (ts[i := t])" "state t = waiting" "current_task_id s' = current_task_id s"
      "fxsave_blocks s' = fxsave_blocks s" "total_tasks s' = (if i = total_tasks s then total_tasks s + 1 else total_tasks s)"
    using assms(2) ts(1)
    by (fastforce simp: schedule_task_def with_interrupts_disabled_def interrupts_disable_def interrupts_enable_def
        task_table_def rbind_eq_Inr_iff Let_def)
  show killed: "i < total_tasks s \<Longrightarrow> state_of s i = killed"
    using first_killed_cases [of 0 "total_tasks s" ts] i(1) ts(7) by auto
  have "i \<le> total_tasks s" using first_killed_cases [of 0 "total_tasks s" ts] i(1) by auto
  then show ne: "i \<noteq> current_task_id s" using killed ts(3,5) by auto
  show "state_of s' i = waiting" "\<And>j. j \<noteq> i \<Longrightarrow> state_of s' j = state_of s j"
    using s' i(2) ts(1,2) by (simp_all add: state_of_def)
  show "current_task_id s' = current_task_id s" "total_tasks s \<le> total_tasks s'" using s' by auto
  show "sched_inv s'"
    using s' ne ts(2,4,5,6) ts(3) [unfolded ts(7)] i(2) by (auto simp: sched_inv_def)
qed

lemma kill_effect:
  assumes "sched_inv s" "kill t s = Inr s'"
  shows "current_task_id s' = current_task_id s" "total_tasks s' = total_tasks s" "t < MAX_TASKS"
    "\<And>j. state_of s' j = (if j = t then killed else state_of s j)" "t \<noteq> current_task_id s \<Longrightarrow> sched_inv s'"
    "interrupts_on s'" "task_switching_enabled s' = task_switching_enabled s" "\<exists>ts. tasks s' = Some ts \<and> length ts = MAX_TASKS"
proof -
  obtain ts where ts: "tasks s = Some ts" "length ts = MAX_TASKS" "state_of s (current_task_id s) = running"
      "length (fxsave_blocks s) = MAX_TASKS" "current_task_id s < total_tasks s" "total_tasks s \<le> MAX_TASKS"
      "\<And>i. state_of s i = state (ts ! i)" by (rule sched_invD [OF assms(1)]) auto
  have s': "tasks s' = Some (ts[t := (ts ! t)\<lparr>state := killed\<rparr>])" "current_task_id s' = current_task_id s"
      "total_tasks s' = total_tasks s" "fxsave_blocks s' = fxsave_blocks s" "interrupts_on s'"
      "task_switching_enabled s' = task_switching_enabled s" and t: "t < MAX_TASKS"
    using assms(2) ts(1,2)
    by (auto simp: kill_def with_interrupts_disabled_def interrupts_disable_def interrupts_enable_def
        task_table_def task_at_def rbind_eq_Inr_iff Let_def split: if_splits)
  show "current_task_id s' = current_task_id s" "total_tasks s' = total_tasks s" "t < MAX_TASKS" "interrupts_on s'"
    "task_switching_enabled s' = task_switching_enabled s" "\<exists>ts. tasks s' = Some ts \<and> length ts = MAX_TASKS"
    using s' t ts(2) by simp_all
  show "\<And>j. state_of s' j = (if j = t then killed else state_of s j)"
    using s'(1) t ts(1,2) by (auto simp: state_of_def)
  show "t \<noteq> current_task_id s \<Longrightarrow> sched_inv s'"
    using s' ts(2,4,5,6) ts(3) [unfolded ts(7)] by (auto simp: sched_inv_def)
qed

lemma interrupt_effect:
  assumes "sched_inv s"
  obtains cpu' s' where "scheduler_interrupt hw cpu s = Inr (cpu', s')" "sched_inv s'" "total_tasks s' = total_tasks s"
    "current_task_id s' = current_task_id s \<or> state_of s (current_task_id s') = waiting"
    "\<And>j. j \<noteq> current_task_id s' \<Longrightarrow> state_of s' j = state_of s j"
proof (cases "task_switching_enabled s")
  case False
  obtain s' where s': "scheduler_interrupt hw cpu s = Inr (cpu, s')" "tasks s' = tasks s"
      "current_task_id s' = current_task_id s" "total_tasks s' = total_tasks s" "fxsave_blocks s' = fxsave_blocks s"
    using scheduler_interrupt_off [OF False] by blast
  then show thesis using that assms sched_inv_cong(1) [of s' s] by (simp add: state_of_def)
next
  case True
  obtain ts where ts: "tasks s = Some ts" "length ts = MAX_TASKS" "state_of s (current_task_id s) = running"
      "length (fxsave_blocks s) = MAX_TASKS" "current_task_id s < total_tasks s" "total_tasks s \<le> MAX_TASKS"
      "\<And>i. state_of s i = state (ts ! i)" by (rule sched_invD [OF assms]) auto
  show thesis
  proof (cases "successor s")
    case None
    then obtain s' where s': "scheduler_interrupt hw cpu s = Inr (cpu, s')" "tasks s' = tasks s"
        "current_task_id s' = current_task_id s" "total_tasks s' = total_tasks s" "fxsave_blocks s' = fxsave_blocks s"
      using scheduler_interrupt_on(1) [OF assms True, of hw cpu] by blast
    then show thesis using that assms sched_inv_cong(1) [of s' s] by (simp add: state_of_def)
  next
    case (Some j)
    obtain s' where s': "scheduler_interrupt hw cpu s = Inr ((frame (ts ! j), fxsave_blocks s ! j), s')"
       "tasks s' = Some (ts[current_task_id s := (ts ! current_task_id s)\<lparr>frame := fst cpu\<rparr>, j := (ts ! j)\<lparr>state := running\<rparr>])"
       "fxsave_blocks s' = (fxsave_blocks s)[current_task_id s := snd cpu]" "current_task_id s' = j"
       "total_tasks s' = total_tasks s"
      using scheduler_interrupt_on(2) [OF assms True Some, of hw cpu] ts(1) by auto
    have j: "j < total_tasks s" "state_of s j = waiting" using successor_Some [OF Some ts(5)] by auto
    then have "sched_inv s'" using s' ts(2,4,6) by (simp add: sched_inv_def)
    moreover have "state_of s' i = state_of s i" if "i \<noteq> j" for i
      using s'(2) that ts(1,2,5,6) by (cases "i = current_task_id s") (simp_all add: state_of_def)
    ultimately show thesis using that s' j by simp
  qed
qed

subsection \<open>Runs\<close>

datatype sched_event = Create bool u64 u64 | Interrupt "task_frame \<times> fxsave_data" | Kill nat

inductive sched_step :: "hardware \<Rightarrow> u64 \<Rightarrow> sched_event \<Rightarrow> sched_state \<Rightarrow> sched_state \<Rightarrow> bool" for hw ea where
  create: "schedule_task ea k f c s = Inr (i, s') \<Longrightarrow> sched_step hw ea (Create k f c) s s'"
| interrupt: "scheduler_interrupt hw cpu s = Inr (cpu', s') \<Longrightarrow> sched_step hw ea (Interrupt cpu) s s'"
| killing: "t \<noteq> current_task_id s \<Longrightarrow> kill t s = Inr s' \<Longrightarrow> sched_step hw ea (Kill t) s s'"

inductive sched_run :: "hardware \<Rightarrow> u64 \<Rightarrow> sched_event list \<Rightarrow> sched_state \<Rightarrow> sched_state \<Rightarrow> bool" for hw ea where
  none: "sched_run hw ea [] s s"
| more: "sched_step hw ea e s s' \<Longrightarrow> sched_run hw ea es s' s'' \<Longrightarrow> sched_run hw ea (e # es) s s''"

inductive_cases sched_step_cases: "sched_step hw ea e s s'"
inductive_simps sched_run_simps: "sched_run hw ea [] s s'" "sched_run hw ea (e # es) s s'"

lemma sched_step_inv:
  assumes "sched_step hw ea e s s'" "sched_inv s"
  shows "sched_inv s'"
  using assms
proof cases
  case (create k f c i)
  then show ?thesis using schedule_task_effect(1) assms(2) by blast
next
  case (interrupt cpu cpu')
  then show ?thesis using interrupt_effect [OF assms(2), of hw cpu] by (metis Pair_inject sum.inject(2))
next
  case (killing t)
  then show ?thesis using kill_effect(5) assms(2) by blast
qed

lemma sched_run_inv: "sched_run hw ea es s s' \<Longrightarrow> sched_inv s \<Longrightarrow> sched_inv s'"
  by (induction rule: sched_run.induct) (auto dest: sched_step_inv)

text \<open>A task that is marked running but is not the current one.\<close>

definition stranded :: "nat \<Rightarrow> sched_state \<Rightarrow> bool" where
  "stranded t s \<longleftrightarrow> sched_inv s \<and> t < total_tasks s \<and> t \<noteq> current_task_id s \<and> state_of s t = running"

lemma sched_step_stranded:
  assumes "sched_step hw ea e s s'" "stranded t s" "e \<noteq> Kill t"
  shows "stranded t s'"
proof -
  have inv: "sched_inv s" "sched_inv s'" and t: "t < total_tasks s" "t \<noteq> current_task_id s" "state_of s t = running"
    using assms sched_step_inv by (auto simp: stranded_def)
  from assms(1) show ?thesis
  proof cases
    case (create k f c i)
    note eff = schedule_task_effect [OF inv(1) create(2)]
    have "t \<noteq> i" using eff(6) t by auto
    then show ?thesis using eff inv t by (simp add: stranded_def)
  next
    case (interrupt cpu cpu')
    obtain c1 s1 where s1: "scheduler_interrupt hw cpu s = Inr (c1, s1)" "total_tasks s1 = total_tasks s"
        "current_task_id s1 = current_task_id s \<or> state_of s (current_task_id s1) = waiting"
        "\<And>j. j \<noteq> current_task_id s1 \<Longrightarrow> state_of s1 j = state_of s j"
      using interrupt_effect [OF inv(1), of hw cpu] by metis
    have "s1 = s'" using s1(1) interrupt by simp
    moreover have "t \<noteq> current_task_id s1" using s1(3) t by auto
    ultimately show ?thesis using t inv(2) s1(2,4) by (simp add: stranded_def)
  next
    case (killing u)
    then show ?thesis using kill_effect [OF inv(1) killing(3)] inv t assms(3) by (auto simp: stranded_def)
  qed
qed

lemma sched_run_stranded:
  "sched_run hw ea es s s' \<Longrightarrow> stranded t s \<Longrightarrow> Kill t \<notin> set es \<Longrightarrow> stranded t s'"
  by (induction rule: sched_run.induct) (auto dest: sched_step_stranded)

lemma exit_asserts:
  assumes "sched_inv s" "task_switching_enabled s" "kill (current_task_id s) s = Inr s1"
  shows "scheduler_exit hw cpu s = Inl (Assert_failed ''current task is not running?'')"
proof -
  note k = kill_effect [OF assms(1,3)]
  obtain ts where ts: "tasks s1 = Some ts" "length ts = MAX_TASKS" using k(8) by auto
  have cur: "current_task_id s1 < length ts" "state (ts ! current_task_id s1) \<noteq> running"
    using k(1,3,4) ts by (auto simp: state_of_def)
  then have "task_switch f (e\<lparr>temp_fxsave := x\<rparr>) = Inl (Assert_failed ''current task is not running?'')"
    if "tasks e = tasks s1" "current_task_id e = current_task_id s1" for f x e
    using that ts(1) by (simp add: task_switch_def with_interrupts_disabled_def task_table_def task_at_def
        interrupts_disable_def Let_def assert_that_def)
  then show ?thesis
    using assms(2,3) k(7) by (simp add: scheduler_exit_def yield_def interrupts_enable_def scheduler_interrupt_def
        interrupts_disable_def Let_def)
qed

definition sample_task :: "task_state \<Rightarrow> task_context" where
  "sample_task st = \<lparr>frame = zero_frame\<lparr>rip := 0x1234\<rparr>, state = st, stack_base = 0\<rparr>"

definition sample_sched :: sched_state where
  "sample_sched = \<lparr>tasks = Some ((replicate MAX_TASKS zero_context)[0 := sample_task running, 1 := sample_task waiting]),
     current_task_id = 0, total_tasks = 2, fxsave_blocks = replicate MAX_TASKS [], temp_fxsave = [],
     task_switching_enabled = True, no_scheduler_tick = False, ticks_since_boot = 0, interrupts_on = True,
     kalloc = sample_heap, sched_trace = []\<rparr>"

lemma sample_sched_ok:
  "sched_inv sample_sched" "task_switching_enabled sample_sched" "successor sample_sched = Some 1"
  "current_task_id sample_sched = 0" "tasks sample_sched = Some ((replicate MAX_TASKS zero_context)[0 := sample_task running, 1 := sample_task waiting])"
  "frame (the (tasks sample_sched) ! 1) = zero_frame\<lparr>rip := 0x1234\<rparr>"
  by (simp_all add: sched_inv_def sample_sched_def sample_task_def MAX_TASKS_def successor_def state_of_def upt_conv_Cons)

text \<open>
  C8. The interrupt is always served: from a table in which the current task is marked running, in
  every run of task creations, scheduler interrupts and kills of tasks other than the
  current one, the current task stays marked running and inside the table, and the next
  interrupt, whatever the processor holds, completes without failing an assertion.
\<close>

theorem scheduler_interrupt_served:
  assumes "sched_inv s" "sched_run hw ea es s s'"
  shows "sched_inv s' \<and> (\<exists>cpu' s''. scheduler_interrupt hw cpu s' = Inr (cpu', s'') \<and> sched_inv s'')"
  using sched_run_inv [OF assms(2,1)] interrupt_effect [of s' hw cpu] by metis

theorem scheduler_interrupt_served_witness:
  "\<exists>cpu' s''. scheduler_interrupt (\<lambda>_ _. 0) (zero_frame, []) sample_sched = Inr (cpu', s'')"
  using scheduler_interrupt_served [OF sample_sched_ok(1) sched_run.none [of "\<lambda>_ _. 0" 0]] by blast

text \<open>
  C9. The switch: with switching enabled the interrupt picks the first waiting task after the
  current one in the cyclic order of the table. It saves the registers and the
  floating-point state of the task it leaves and gives the processor exactly what was saved
  for the task it enters, which is now marked running; with no task waiting, the processor goes on with what it has.
\<close>

theorem switch_round_robin:
  assumes "sched_inv s" "task_switching_enabled s"
  shows "\<exists>cpu' s'. scheduler_interrupt hw cpu s = Inr (cpu', s') \<and>
    (case successor s of
       None \<Rightarrow> cpu' = cpu \<and> tasks s' = tasks s \<and> current_task_id s' = current_task_id s
     | Some j \<Rightarrow> current_task_id s' = j \<and> state_of s' j = running \<and>
         cpu' = (frame (the (tasks s) ! j), fxsave_blocks s ! j) \<and>
         frame (the (tasks s') ! current_task_id s) = fst cpu \<and> fxsave_blocks s' ! current_task_id s = snd cpu)"
proof (cases "successor s")
  case None
  then show ?thesis using scheduler_interrupt_on(1) [OF assms None, of hw cpu] by (cases cpu) auto
next
  case (Some j)
  obtain ts s' where ts: "tasks s = Some ts"
      "scheduler_interrupt hw cpu s = Inr ((frame (ts ! j), fxsave_blocks s ! j), s')"
      "tasks s' = Some (ts[current_task_id s := (ts ! current_task_id s)\<lparr>frame := fst cpu\<rparr>, j := (ts ! j)\<lparr>state := running\<rparr>])"
      "fxsave_blocks s' = (fxsave_blocks s)[current_task_id s := snd cpu]" "current_task_id s' = j"
    using scheduler_interrupt_on(2) [OF assms Some, of hw cpu] by blast
  have len: "length ts = MAX_TASKS" "length (fxsave_blocks s) = MAX_TASKS" "current_task_id s < MAX_TASKS" "j < MAX_TASKS"
      "j \<noteq> current_task_id s"
    using assms(1) ts(1) successor_Some [OF Some] by (auto simp: sched_inv_def state_of_def)
  then show ?thesis using Some ts by (simp add: state_of_def)
qed

theorem switch_round_robin_witness:
  "\<exists>fx s'. scheduler_interrupt (\<lambda>_ _. 0) (zero_frame, []) sample_sched = Inr ((zero_frame\<lparr>rip := 0x1234\<rparr>, fx), s') \<and>
     current_task_id s' = 1"
  using switch_round_robin [OF sample_sched_ok(1,2), of "\<lambda>_ _. 0" "(zero_frame, [])"] sample_sched_ok(3,6) by auto

text \<open>
  C30. A task that is switched out never runs again: it stays marked running, and the search
  only takes waiting tasks. Whatever tasks are created, interrupts arrive and other tasks are
  killed afterwards, the current task is never that one, unless its slot is killed first.
\<close>

theorem switched_out_never_resumes:
  assumes "sched_inv s" "scheduler_interrupt hw cpu s = Inr (cpu', s1)" "current_task_id s1 \<noteq> current_task_id s"
    "sched_run hw ea es s1 s2" "Kill (current_task_id s) \<notin> set es"
  shows "current_task_id s2 \<noteq> current_task_id s \<and> state_of s2 (current_task_id s) = running"
proof -
  have "state_of s1 (current_task_id s) = state_of s (current_task_id s)" "sched_inv s1" "total_tasks s1 = total_tasks s"
    using interrupt_effect [OF assms(1), of hw cpu] assms(2,3) by (metis Pair_inject sum.inject(2))+
  then have "stranded (current_task_id s) s1"
    using assms(1,3) by (auto simp: stranded_def sched_inv_def state_of_def)
  then show ?thesis using sched_run_stranded [OF assms(4) _ assms(5)] by (auto simp: stranded_def)
qed

theorem switched_out_never_resumes_witness:
  "\<exists>cpu' s1. scheduler_interrupt (\<lambda>_ _. 0) (zero_frame, []) sample_sched = Inr (cpu', s1) \<and> current_task_id s1 = 1 \<and>
     (\<forall>es s2. sched_run (\<lambda>_ _. 0) 0 es s1 s2 \<and> Kill 0 \<notin> set es \<longrightarrow> current_task_id s2 \<noteq> 0)"
proof -
  obtain ts :: "task_context list" and s1 where s1: "scheduler_interrupt (\<lambda>_ _. 0) (zero_frame, []) sample_sched =
      Inr ((frame (ts ! 1), fxsave_blocks sample_sched ! 1), s1)" "current_task_id s1 = 1"
    using scheduler_interrupt_on(2) [OF sample_sched_ok(1-3), of "\<lambda>_ _. 0" "(zero_frame, [])"] by blast
  then have "current_task_id s2 \<noteq> 0" if "sched_run (\<lambda>_ _. 0) 0 es s1 s2" "Kill 0 \<notin> set es" for es s2
    using switched_out_never_resumes [OF sample_sched_ok(1) s1(1) _ that(1)] that(2) sample_sched_ok(4) by simp
  then show ?thesis using s1 by blast
qed

text \<open>
  \<^verbatim>\<open>exit\<close> does not hand over to another task: it marks the current task killed and then
  yields, and the switch it asks for fails the assertion that the current task is running.
\<close>

theorem exit_fails_assertion:
  assumes "sched_inv s" "task_switching_enabled s" "kill (current_task_id s) s = Inr s1"
  shows "scheduler_exit hw cpu s = Inl (Assert_failed ''current task is not running?'')"
  using exit_asserts [OF assms] .

theorem exit_fails_assertion_witness:
  "scheduler_exit (\<lambda>_ _. 0) (zero_frame, []) sample_sched = Inl (Assert_failed ''current task is not running?'')"
proof -
  obtain s1 where "kill (current_task_id sample_sched) sample_sched = Inr s1"
    by (simp add: kill_def with_interrupts_disabled_def interrupts_disable_def task_table_def task_at_def sample_sched_def
        MAX_TASKS_def sample_task_def Let_def)
  then show ?thesis by (rule exit_fails_assertion [OF sample_sched_ok(1,2)])
qed

end
