(* ===== verification/Screen.thy ===== *)
theory Screen
  imports Mutex Paging_Init
begin

text \<open>
  The text screen of src/kernel/vga.cpp. The video memory is the list of its 2000 cells, which
  the screen's \<^verbatim>\<open>buffer\<close> and \<^verbatim>\<open>VGA_MEMORY\<close> both name; an access
  beyond it is undefined. A string is the list of its characters before the terminator.
\<close>

datatype color = black | blue | green | cyan | red | magenta | brown | light_gray | dark_gray | light_blue
  | light_green | light_cyan | light_red | light_magenta | yellow | white

definition color_code :: "color \<Rightarrow> u8" where
  "color_code c = (case c of black \<Rightarrow> 0 | blue \<Rightarrow> 1 | green \<Rightarrow> 2 | cyan \<Rightarrow> 3 | red \<Rightarrow> 4 | magenta \<Rightarrow> 5 | brown \<Rightarrow> 6
     | light_gray \<Rightarrow> 7 | dark_gray \<Rightarrow> 8 | light_blue \<Rightarrow> 9 | light_green \<Rightarrow> 10 | light_cyan \<Rightarrow> 11 | light_red \<Rightarrow> 12
     | light_magenta \<Rightarrow> 13 | yellow \<Rightarrow> 14 | white \<Rightarrow> 15)"

definition SCREEN_WIDTH :: int where "SCREEN_WIDTH = 80"
definition SCREEN_HEIGHT :: int where "SCREEN_HEIGHT = 25"

record cursor =
  cur_x :: int
  cur_y :: int

definition null_cursor :: cursor where "null_cursor = \<lparr>cur_x = -1, cur_y = -1\<rparr>"

record screen =
  cells :: "u16 list"
  position :: cursor

text \<open>\<^verbatim>\<open>char\<close> is signed, and the conversion to \<^verbatim>\<open>uint16_t\<close> extends the
  sign.\<close>

definition make_color_char :: "u8 \<Rightarrow> color \<Rightarrow> color \<Rightarrow> u16" where
  "make_color_char c fg bg =
     (let col = push_bit 4 (ucast (color_code bg)) OR ucast (color_code fg) :: u16
      in push_bit 8 col OR scast c)"

definition cell_index :: "cursor \<Rightarrow> int" where
  "cell_index pos = cur_y pos * SCREEN_WIDTH + cur_x pos"

definition write_color_char_at :: "cursor \<Rightarrow> u8 \<Rightarrow> color \<Rightarrow> color \<Rightarrow> screen \<Rightarrow> screen res" where
  "write_color_char_at pos c fg bg s =
     (if 0 \<le> cell_index pos \<and> nat (cell_index pos) < length (cells s)
      then Inr (s\<lparr>cells := (cells s)[nat (cell_index pos) := make_color_char c fg bg]\<rparr>)
      else Inl (Undefined_behaviour ''outside the video memory''))"

text \<open>The \<^verbatim>\<open>memmove\<close> copies rows 1 to 24 onto rows 0 to 23 and leaves row 24.\<close>

definition advance_one_y :: "screen \<Rightarrow> screen" where
  "advance_one_y s =
     (if cur_y (position s) + 1 = SCREEN_HEIGHT - 1
      then s\<lparr>cells := drop 80 (cells s) @ drop 1920 (cells s)\<rparr>
      else s\<lparr>position := (position s)\<lparr>cur_y := cur_y (position s) + 1\<rparr>\<rparr>)"

definition advance_one :: "screen \<Rightarrow> screen" where
  "advance_one s =
     (if cur_x (position s) < SCREEN_WIDTH then s\<lparr>position := (position s)\<lparr>cur_x := cur_x (position s) + 1\<rparr>\<rparr>
      else advance_one_y (s\<lparr>position := (position s)\<lparr>cur_x := 0\<rparr>\<rparr>))"

definition advance_cursor_to_newline :: "screen \<Rightarrow> screen" where
  "advance_cursor_to_newline s = advance_one_y (s\<lparr>position := (position s)\<lparr>cur_x := 0\<rparr>\<rparr>)"

definition screen_print_char :: "u8 \<Rightarrow> color \<Rightarrow> color \<Rightarrow> screen \<Rightarrow> screen res" where
  "screen_print_char c fg bg s =
     (if c = 0x0A then Inr (advance_cursor_to_newline s)
      else if c = 0x08 then
        let s1 = (if cur_x (position s) > 0 then s\<lparr>position := (position s)\<lparr>cur_x := cur_x (position s) - 1\<rparr>\<rparr> else s)
        in write_color_char_at (position s1) 0x20 black black s1
      else rbind (write_color_char_at (position s) c fg bg s) (\<lambda>s1. Inr (advance_one s1)))"

fun clear_cells :: "cursor list \<Rightarrow> screen \<Rightarrow> screen res" where
  "clear_cells [] s = Inr s"
| "clear_cells (p # ps) s = rbind (write_color_char_at p 0x20 black black s) (clear_cells ps)"

definition screen_clear :: "screen \<Rightarrow> screen res" where
  "screen_clear s =
     rbind (clear_cells (concat (map (\<lambda>y. map (\<lambda>x. \<lparr>cur_x = x, cur_y = y\<rparr>) [0..SCREEN_WIDTH - 1]) [0..SCREEN_HEIGHT - 1])) s)
       (\<lambda>s1. Inr (s1\<lparr>position := \<lparr>cur_x = 0, cur_y = 0\<rparr>\<rparr>))"

subsection \<open>Strings\<close>

record vga_string =
  vs_text :: "u8 list"
  background :: color
  foreground :: color
  vs_position :: cursor

definition vga_string_of :: "u8 list \<Rightarrow> vga_string" where
  "vga_string_of t = \<lparr>vs_text = t, background = black, foreground = white, vs_position = null_cursor\<rparr>"

fun print_chars :: "u8 list \<Rightarrow> color \<Rightarrow> color \<Rightarrow> screen \<Rightarrow> screen res" where
  "print_chars [] fg bg s = Inr s"
| "print_chars (c # cs) fg bg s = rbind (screen_print_char c fg bg s) (print_chars cs fg bg)"

definition write_impl :: "vga_string \<Rightarrow> screen \<Rightarrow> screen res" where
  "write_impl str s =
     print_chars (vs_text str) (foreground str) (background str)
       (if vs_position str \<noteq> null_cursor then s\<lparr>position := vs_position str\<rparr> else s)"

text \<open>\<^verbatim>\<open>current_screen\<close>: the screen and its mutex. The handle of
  \<^verbatim>\<open>lock()\<close> gives the mutex back at the end of the statement.\<close>

record console =
  current_screen :: screen
  screen_mutex :: mutex
  vga_initialized :: bool

definition on_screen :: "(screen \<Rightarrow> screen res) \<Rightarrow> console \<Rightarrow> console res" where
  "on_screen f v = (case try_acquire (screen_mutex v) of
     (False, m) \<Rightarrow> Inl (Blocked ''current_screen'')
   | (True, m) \<Rightarrow> rbind (f (current_screen v)) (\<lambda>s. Inr (v\<lparr>current_screen := s, screen_mutex := release m\<rparr>)))"

definition vga_print :: "u8 list \<Rightarrow> console \<Rightarrow> console res" where
  "vga_print t = on_screen (write_impl (vga_string_of t))"

definition vga_puts :: "u8 list \<Rightarrow> console \<Rightarrow> console res" where
  "vga_puts t = on_screen (\<lambda>s. rbind (write_impl (vga_string_of t) s) (\<lambda>s1. Inr (advance_cursor_to_newline s1)))"

definition vga_print_char :: "u8 \<Rightarrow> console \<Rightarrow> console res" where
  "vga_print_char c = on_screen (screen_print_char c white black)"

definition vga_init :: "paging_state \<Rightarrow> console \<Rightarrow> (paging_state \<times> console) res" where
  "vga_init ps v =
     rbind (identity_map_page_range_into_kernel_space 0xB8000 (25 * 80 * 2) (RW OR XD) ps) (\<lambda>(_, ps').
     rbind (on_screen screen_clear v) (\<lambda>v1. Inr (ps', v1\<lparr>vga_initialized := True\<rparr>)))"

definition c_vga_print :: "u8 list \<Rightarrow> console \<Rightarrow> console res" where
  "c_vga_print t v = (if vga_initialized v then vga_print t v else Inr v)"

subsection \<open>The cursor\<close>

text \<open>Where printing keeps the cursor: the rows 0 to 23 (the last of the 25 rows is left to scrolling) and the
  columns 0 to 80, one more than a row has.\<close>

definition screen_inv :: "screen \<Rightarrow> bool" where
  "screen_inv s \<longleftrightarrow> length (cells s) = 2000 \<and> 0 \<le> cur_x (position s) \<and> cur_x (position s) \<le> 80 \<and>
     0 \<le> cur_y (position s) \<and> cur_y (position s) < 24"

lemma write_ok:
  assumes "length (cells s) = 2000" "0 \<le> cur_x p" "cur_x p \<le> 80" "0 \<le> cur_y p" "cur_y p < 24"
  shows "write_color_char_at p c fg bg s = Inr (s\<lparr>cells := (cells s)[nat (cell_index p) := make_color_char c fg bg]\<rparr>)"
proof -
  have "0 \<le> cell_index p" "cell_index p < 2000" using assms by (simp_all add: cell_index_def SCREEN_WIDTH_def)
  then show ?thesis using assms(1) by (simp add: write_color_char_at_def nat_less_iff)
qed

lemma advance_inv:
  assumes "screen_inv s"
  shows "screen_inv (advance_one_y s)" "screen_inv (advance_one s)" "screen_inv (advance_cursor_to_newline s)"
  using assms by (auto simp: screen_inv_def advance_one_y_def advance_one_def advance_cursor_to_newline_def
      SCREEN_WIDTH_def SCREEN_HEIGHT_def)

lemma screen_print_char_inv:
  assumes "screen_inv s"
  obtains s' where "screen_print_char c fg bg s = Inr s'" "screen_inv s'"
proof -
  have w: "write_color_char_at (position t) d f b t = Inr (t\<lparr>cells := (cells t)[nat (cell_index (position t)) := make_color_char d f b]\<rparr>)"
    if "screen_inv t" for t d f b using that by (intro write_ok) (simp_all add: screen_inv_def)
  have u: "screen_inv (t\<lparr>cells := (cells t)[i := x]\<rparr>)" if "screen_inv t" for t i x using that by (simp add: screen_inv_def)
  define b where "b = (if cur_x (position s) > 0 then s\<lparr>position := (position s)\<lparr>cur_x := cur_x (position s) - 1\<rparr>\<rparr> else s)"
  have b: "screen_inv b" using assms by (auto simp: b_def screen_inv_def)
  have "\<exists>s'. screen_print_char c fg bg s = Inr s' \<and> screen_inv s'"
    using assms b w [OF assms] w [OF b] u [OF assms] u [OF b] advance_inv by (simp add: screen_print_char_def flip: b_def)
  then show thesis using that by blast
qed

lemma print_chars_ok: "screen_inv s \<Longrightarrow> \<exists>s'. print_chars cs fg bg s = Inr s' \<and> screen_inv s'"
proof (induction cs arbitrary: s)
  case (Cons c cs)
  obtain s1 where "screen_print_char c fg bg s = Inr s1" "screen_inv s1" using screen_print_char_inv [OF Cons.prems] .
  then show ?case using Cons.IH [of s1] by simp
qed simp

lemma clear_cells_ok:
  assumes "length (cells s) = 2000" "\<forall>p \<in> set ps. 0 \<le> cell_index p \<and> cell_index p < 2000"
  shows "\<exists>s'. clear_cells ps s = Inr s' \<and> length (cells s') = 2000"
  using assms
proof (induction ps arbitrary: s)
  case (Cons p ps)
  then have "write_color_char_at p 0x20 black black s = Inr (s\<lparr>cells := (cells s)[nat (cell_index p) := make_color_char 0x20 black black]\<rparr>)"
    by (simp add: write_color_char_at_def nat_less_iff)
  then show ?case using Cons.IH [of "s\<lparr>cells := (cells s)[nat (cell_index p) := make_color_char 0x20 black black]\<rparr>"] Cons.prems by simp
qed simp

lemma screen_clear_ok:
  assumes "length (cells s) = 2000"
  shows "\<exists>s0. screen_clear s = Inr s0 \<and> position s0 = \<lparr>cur_x = 0, cur_y = 0\<rparr> \<and> screen_inv s0"
proof -
  let ?ps = "concat (map (\<lambda>y. map (\<lambda>x. \<lparr>cur_x = x, cur_y = y\<rparr>) [0..SCREEN_WIDTH - 1]) [0..SCREEN_HEIGHT - 1])"
  have "\<forall>p \<in> set ?ps. 0 \<le> cell_index p \<and> cell_index p < 2000"
    by (auto simp: cell_index_def SCREEN_WIDTH_def SCREEN_HEIGHT_def)
  from clear_cells_ok [OF assms this] obtain s' where "clear_cells ?ps s = Inr s'" "length (cells s') = 2000" by blast
  then show ?thesis by (auto simp: screen_clear_def screen_inv_def)
qed

lemma row_24_leaves:
  assumes "length (cells s) = 2000" "cur_y (position s) = 24" "c \<notin> {0x0A, 0x08}"
  shows "print_chars [0x0A, c] fg bg s = Inl (Undefined_behaviour ''outside the video memory'')"
  using assms by (simp add: screen_print_char_def advance_cursor_to_newline_def advance_one_y_def write_color_char_at_def
    cell_index_def SCREEN_WIDTH_def SCREEN_HEIGHT_def)

text \<open>
  C28. Printing and the bounds of the video memory: \<^verbatim>\<open>clear\<close> writes only its 2000 cells and leaves the cursor at the
  origin; with the cursor in rows 0 to 23 and columns 0 to 80 (column 80 is the first cell of the next row) any string
  prints without an access outside the 2000 cells, and leaves the cursor in these rows and columns. In row 24, which only a
  string with a position of its own reaches, a line feed does not scroll: the next character is written
  outside the video memory.
\<close>

theorem printing_in_bounds:
  assumes "length (cells s) = 2000"
  shows "(\<exists>s0. screen_clear s = Inr s0 \<and> position s0 = \<lparr>cur_x = 0, cur_y = 0\<rparr> \<and> screen_inv s0) \<and>
    (0 \<le> cur_x (position s) \<and> cur_x (position s) \<le> 80 \<and> 0 \<le> cur_y (position s) \<and> cur_y (position s) \<le> 23 \<longrightarrow>
      (\<exists>s'. print_chars cs fg bg s = Inr s' \<and> length (cells s') = 2000 \<and>
        0 \<le> cur_x (position s') \<and> cur_x (position s') \<le> 80 \<and> 0 \<le> cur_y (position s') \<and> cur_y (position s') \<le> 23)) \<and>
    (cur_y (position s) = 24 \<and> c \<notin> {0x0A, 0x08} \<longrightarrow>
      print_chars [0x0A, c] fg bg s = Inl (Undefined_behaviour ''outside the video memory''))"
proof -
  have inv: "screen_inv t \<longleftrightarrow> length (cells t) = 2000 \<and> 0 \<le> cur_x (position t) \<and> cur_x (position t) \<le> 80 \<and>
      0 \<le> cur_y (position t) \<and> cur_y (position t) \<le> 23" for t :: screen by (auto simp: screen_inv_def)
  have "screen_inv s \<longrightarrow> (\<exists>s'. print_chars cs fg bg s = Inr s' \<and> screen_inv s')" using print_chars_ok by blast
  then show ?thesis using screen_clear_ok [OF assms] row_24_leaves [OF assms] assms unfolding inv by blast
qed

text \<open>A string at the last place of the range, and one in row 24.\<close>

theorem printing_in_bounds_witness:
  "(\<exists>s'. print_chars [0x41, 0x0A, 0x08] white black \<lparr>cells = replicate 2000 0, position = \<lparr>cur_x = 80, cur_y = 23\<rparr>\<rparr> = Inr s' \<and>
     cur_y (position s') \<le> 23) \<and>
   print_chars [0x0A, 0x41] white black \<lparr>cells = replicate 2000 0, position = \<lparr>cur_x = 5, cur_y = 24\<rparr>\<rparr> =
     Inl (Undefined_behaviour ''outside the video memory'')"
proof -
  let ?s = "\<lambda>x y. \<lparr>cells = replicate 2000 0, position = \<lparr>cur_x = x, cur_y = y\<rparr>\<rparr>"
  have len: "length (cells (?s x y)) = 2000" for x y by simp
  show ?thesis
    using printing_in_bounds [of "?s 80 23" "[0x41, 0x0A, 0x08]" white black "0x41"]
      printing_in_bounds [of "?s 5 24" "[]" white black "0x41"] len by auto
qed

text \<open>The cursor goes one column too far: a character printed at column 80 lands in the first
  cell of the next row, and the character after it overwrites that cell.\<close>

lemma column_80_lost:
  assumes "screen_inv s" "cur_x (position s) = 80" "cur_y (position s) < 23" "a \<notin> {0x0A, 0x08}" "b \<notin> {0x0A, 0x08}"
  shows "\<exists>s'. print_chars [a, b] fg bg s = Inr s' \<and>
    cells s' = (cells s)[nat ((cur_y (position s) + 1) * 80) := make_color_char b fg bg]"
proof -
  let ?y = "cur_y (position s)" let ?i = "nat ((?y + 1) * 80)"
  have i: "cell_index (position s) = (?y + 1) * 80" using assms(2) by (simp add: cell_index_def SCREEN_WIDTH_def algebra_simps)
  define s1 where "s1 = s\<lparr>cells := (cells s)[?i := make_color_char a fg bg], position := \<lparr>cur_x = 0, cur_y = ?y + 1\<rparr>\<rparr>"
  have "write_color_char_at (position s) a fg bg s = Inr (s\<lparr>cells := (cells s)[?i := make_color_char a fg bg]\<rparr>)"
    using write_ok [of s "position s" a fg bg] assms(1) i by (simp add: screen_inv_def)
  then have "screen_print_char a fg bg s = Inr s1"
    using assms(2-4) by (simp add: screen_print_char_def advance_one_def advance_one_y_def SCREEN_WIDTH_def SCREEN_HEIGHT_def s1_def)
  moreover have "write_color_char_at (position s1) b fg bg s1 = Inr (s1\<lparr>cells := (cells s1)[?i := make_color_char b fg bg]\<rparr>)"
    using write_ok [of s1 "position s1" b fg bg] assms(1,3) by (simp add: screen_inv_def s1_def cell_index_def SCREEN_WIDTH_def)
  then have "screen_print_char b fg bg s1 = Inr (advance_one (s1\<lparr>cells := (cells s1)[?i := make_color_char b fg bg]\<rparr>))"
    using assms(5) by (simp add: screen_print_char_def)
  ultimately show ?thesis by (simp add: s1_def advance_one_def SCREEN_WIDTH_def)
qed

end
