(* ===== verification/Libc_String.thy ===== *)
theory Libc_String
  imports Prelude "HOL-Library.Sublist"
begin

text \<open>
  The memory and string routines of src/libc/string.cpp over byte memory. A pointer is a
  64-bit address and pointer arithmetic wraps; sizes are naturals, since no object is as large
  as the address space and the \<^verbatim>\<open>size_t\<close> counters do not wrap. A loop that looks
  for a terminating zero may not end, so those are partial. \<^verbatim>\<open>char\<close> is signed, as on
  x86-64.
\<close>

type_synonym bytes = "u64 \<Rightarrow> u8"

text \<open>The bytes of a string literal, without the terminator.\<close>

definition ascii :: "string \<Rightarrow> u8 list" where
  "ascii cs = map (\<lambda>c. of_char c) cs"

subsection \<open>Wide accesses\<close>

text \<open>Multi-byte values are stored with the least significant byte first; \<^verbatim>\<open>simd_type\<close> is
  \<^verbatim>\<open>unsigned long long\<close>.\<close>

definition load16 :: "bytes \<Rightarrow> u64 \<Rightarrow> u16" where
  "load16 m a = ucast (m a) OR push_bit 8 (ucast (m (a + 1)))"

definition load32 :: "bytes \<Rightarrow> u64 \<Rightarrow> u32" where
  "load32 m a = ucast (load16 m a) OR push_bit 16 (ucast (load16 m (a + 2)))"

definition load64 :: "bytes \<Rightarrow> u64 \<Rightarrow> u64" where
  "load64 m a = foldr (\<lambda>i w. push_bit (8 * i) (ucast (m (a + of_nat i))) OR w) [0..<8] 0"

definition store64 :: "u64 \<Rightarrow> u64 \<Rightarrow> bytes \<Rightarrow> bytes" where
  "store64 a w m = (\<lambda>x. if unat (x - a) < 8 then ucast (drop_bit (8 * unat (x - a)) w) else m x)"

definition multiplier_for_broadcast :: u64 where
  "multiplier_for_broadcast = foldl (\<lambda>w _. push_bit 8 w OR 1) 1 [0..<8]"

definition broadcast :: "u8 \<Rightarrow> u64" where
  "broadcast c = ucast c * multiplier_for_broadcast"

subsection \<open>Blocks of memory\<close>

function fill_wide :: "u64 \<Rightarrow> u64 \<Rightarrow> nat \<Rightarrow> nat \<Rightarrow> bytes \<Rightarrow> nat \<times> bytes" where
  "fill_wide dst w n i m = (if i < n then fill_wide dst w n (i + 8) (store64 (dst + of_nat i) w m) else (i, m))"
  by pat_completeness auto
termination
  by (relation "measure (\<lambda>(dst, w, n, i, m). n - i)") auto

function fill_bytes :: "u64 \<Rightarrow> u8 \<Rightarrow> nat \<Rightarrow> nat \<Rightarrow> bytes \<Rightarrow> bytes" where
  "fill_bytes dst c n i m = (if i < n then fill_bytes dst c n (i + 1) (m(dst + of_nat i := c)) else m)"
  by pat_completeness auto
termination
  by (relation "measure (\<lambda>(dst, c, n, i, m). n - i)") auto

declare fill_wide.simps [simp del] fill_bytes.simps [simp del]

definition memset :: "u64 \<Rightarrow> u32 \<Rightarrow> nat \<Rightarrow> bytes \<Rightarrow> bytes" where
  "memset dst c n m =
     (let c' = ucast c :: u8;
          (i, m') = (if n \<ge> 8 then fill_wide dst (broadcast c') n 0 m else (0, m))
      in fill_bytes dst c' n i m')"

text \<open>\<^verbatim>\<open>((simd_type *)dst)[i] = ((simd_type *)src)[i]\<close> and
  \<^verbatim>\<open>dst[i] = src[i]\<close>.\<close>

definition copy_wide :: "u64 \<Rightarrow> u64 \<Rightarrow> nat \<Rightarrow> bytes \<Rightarrow> bytes" where
  "copy_wide dst src i m = store64 (dst + 8 * of_nat i) (load64 m (src + 8 * of_nat i)) m"

definition copy_byte :: "u64 \<Rightarrow> u64 \<Rightarrow> nat \<Rightarrow> bytes \<Rightarrow> bytes" where
  "copy_byte dst src i m = m(dst + of_nat i := m (src + of_nat i))"

definition memcpy :: "u64 \<Rightarrow> u64 \<Rightarrow> nat \<Rightarrow> bytes \<Rightarrow> bytes" where
  "memcpy dst src n m =
     (let m' = foldl (\<lambda>m i. copy_wide dst src i m) m [0..<n div 8]
      in foldl (\<lambda>m j. copy_byte dst src (n div 8 * 8 + j) m) m' [0..<n mod 8])"

definition memmove :: "u64 \<Rightarrow> u64 \<Rightarrow> nat \<Rightarrow> bytes \<Rightarrow> bytes" where
  "memmove dst src n m =
     (if dst < src then memcpy dst src n m
      else let m' = foldl (\<lambda>m i. copy_byte dst src (n - i - 1) m) m [0..<n mod 8]
           in foldl (\<lambda>m i. copy_wide dst src (i - 1) m) m' (rev [1..<n div 8 + 1]))"

function memchr_from :: "bytes \<Rightarrow> u64 \<Rightarrow> u8 \<Rightarrow> nat \<Rightarrow> nat \<Rightarrow> u64 option" where
  "memchr_from m p c n i =
     (if i < n then if m (p + of_nat i) = c then Some (p + of_nat i) else memchr_from m p c n (i + 1) else None)"
  by pat_completeness auto
termination
  by (relation "measure (\<lambda>(m, p, c, n, i). n - i)") auto

declare memchr_from.simps [simp del]

text \<open>A null result is \<open>None\<close>.\<close>

definition memchr :: "bytes \<Rightarrow> u64 \<Rightarrow> u32 \<Rightarrow> nat \<Rightarrow> u64 option" where
  "memchr m p ch n = memchr_from m p (ucast ch) n 0"

function memcmp_from :: "bytes \<Rightarrow> u64 \<Rightarrow> u64 \<Rightarrow> nat \<Rightarrow> nat \<Rightarrow> int" where
  "memcmp_from m a b n i =
     (if i < n then
        if m (a + of_nat i) < m (b + of_nat i) then -1
        else if m (a + of_nat i) > m (b + of_nat i) then 1 else memcmp_from m a b n (i + 1)
      else 0)"
  by pat_completeness auto
termination
  by (relation "measure (\<lambda>(m, a, b, n, i). n - i)") auto

declare memcmp_from.simps [simp del]

definition memcmp :: "bytes \<Rightarrow> u64 \<Rightarrow> u64 \<Rightarrow> nat \<Rightarrow> int" where
  "memcmp m a b n = memcmp_from m a b n 0"

subsection \<open>Strings\<close>

partial_function (option) strlen_from :: "bytes \<Rightarrow> u64 \<Rightarrow> nat \<Rightarrow> nat option" where
  "strlen_from m src len = (if m (src + of_nat len) \<noteq> 0 then strlen_from m src (len + 1) else Some len)"

definition strlen :: "bytes \<Rightarrow> u64 \<Rightarrow> nat option" where
  "strlen m src = strlen_from m src 0"

text \<open>The outer option is the end of the search, the inner one the null result. The distance
  to the end of the block is kept in \<^verbatim>\<open>hay\<close>; every \<^verbatim>\<open>memchr\<close> looks at
  \<open>count\<close> bytes from \<open>hay\<close>.\<close>

partial_function (option) memstr_from :: "bytes \<Rightarrow> u64 \<Rightarrow> u64 \<Rightarrow> u64 \<Rightarrow> nat \<Rightarrow> nat \<Rightarrow> u64 option option" where
  "memstr_from m hay hay_end needle len n =
     (if hay + of_nat len < hay_end then
        (case memchr m hay (scast (m needle)) n of
           None \<Rightarrow> Some None
         | Some start \<Rightarrow> if memcmp m start needle len = 0 then Some (Some start)
             else memstr_from m (start + 1) hay_end needle len n)
      else Some None)"

definition memstr :: "bytes \<Rightarrow> u64 \<Rightarrow> u64 \<Rightarrow> nat \<Rightarrow> u64 option option" where
  "memstr m src needle n =
     Option.bind (strlen m needle) (\<lambda>len. memstr_from m src (src + of_nat n) needle len n)"

partial_function (option) strchr :: "bytes \<Rightarrow> u64 \<Rightarrow> u32 \<Rightarrow> u64 option option" where
  "strchr m str ch =
     (if m str = ucast ch then Some (Some str)
      else if m str \<noteq> 0 then strchr m (str + 1) ch else Some None)"

function strncmp_from :: "bytes \<Rightarrow> u64 \<Rightarrow> u64 \<Rightarrow> nat \<Rightarrow> nat \<Rightarrow> int" where
  "strncmp_from m s1 s2 n i =
     (if i < n then
        let a = m (s1 + of_nat i); b = m (s2 + of_nat i) in
        if a \<noteq> b then (if sint a < sint b then -1 else 1)
        else if b = 0 \<and> a = 0 then 0 else strncmp_from m s1 s2 n (i + 1)
      else 0)"
  by pat_completeness auto
termination
  by (relation "measure (\<lambda>(m, s1, s2, n, i). n - i)") auto

declare strncmp_from.simps [simp del]

definition strncmp :: "bytes \<Rightarrow> u64 \<Rightarrow> u64 \<Rightarrow> nat \<Rightarrow> int" where
  "strncmp m s1 s2 n = strncmp_from m s1 s2 n 0"

definition SIZE_MAX :: nat where
  "SIZE_MAX = 2 ^ 64 - 1"

definition strcmp :: "bytes \<Rightarrow> u64 \<Rightarrow> u64 \<Rightarrow> int" where
  "strcmp m s1 s2 = strncmp m s1 s2 SIZE_MAX"

function strncpy_from :: "u64 \<Rightarrow> u64 \<Rightarrow> nat \<Rightarrow> nat \<Rightarrow> bytes \<Rightarrow> bytes" where
  "strncpy_from dst src n i m =
     (if i < n then
        let m' = m(dst + of_nat i := m (src + of_nat i)) in
        if m' (src + of_nat i) = 0 then m' else strncpy_from dst src n (i + 1) m'
      else m)"
  by pat_completeness auto
termination
  by (relation "measure (\<lambda>(dst, src, n, i, m). n - i)") auto

declare strncpy_from.simps [simp del]

definition strncpy :: "u64 \<Rightarrow> u64 \<Rightarrow> nat \<Rightarrow> bytes \<Rightarrow> bytes" where
  "strncpy dst src n m = strncpy_from dst src n 0 m"

definition strcpy :: "u64 \<Rightarrow> u64 \<Rightarrow> bytes \<Rightarrow> bytes" where
  "strcpy dst src m = strncpy dst src SIZE_MAX m"

text \<open>\<^verbatim>\<open>for (; *dest != '\0'; ++dest);\<close> and the copying loop of
  \<^verbatim>\<open>strcat\<close>.\<close>

partial_function (option) skip_to_end :: "bytes \<Rightarrow> u64 \<Rightarrow> u64 option" where
  "skip_to_end m dest = (if m dest \<noteq> 0 then skip_to_end m (dest + 1) else Some dest)"

partial_function (option) append_loop :: "u64 \<Rightarrow> u64 \<Rightarrow> bytes \<Rightarrow> bytes option" where
  "append_loop dest src m =
     (let m' = m(dest := m src) in
      if m' src \<noteq> 0 then append_loop (dest + 1) (src + 1) m' else Some m')"

definition strcat :: "u64 \<Rightarrow> u64 \<Rightarrow> bytes \<Rightarrow> bytes option" where
  "strcat dest src m = Option.bind (skip_to_end m dest) (\<lambda>d. append_loop d src m)"

function strncat_from :: "u64 \<Rightarrow> u64 \<Rightarrow> nat \<Rightarrow> nat \<Rightarrow> bytes \<Rightarrow> nat \<times> bytes" where
  "strncat_from dest src n i m =
     (if i < n then
        if m (src + of_nat i) = 0 then (i, m)
        else strncat_from dest src n (i + 1) (m(dest + of_nat i := m (src + of_nat i)))
      else (i, m))"
  by pat_completeness auto
termination
  by (relation "measure (\<lambda>(dest, src, n, i, m). n - i)") auto

declare strncat_from.simps [simp del]

definition strncat :: "u64 \<Rightarrow> u64 \<Rightarrow> nat \<Rightarrow> bytes \<Rightarrow> bytes option" where
  "strncat dest src n m = Option.bind (skip_to_end m dest) (\<lambda>d.
     let (i, m') = strncat_from d src n 0 m in Some (m'(d + of_nat i := 0)))"

text \<open>The two pointers of \<^verbatim>\<open>strrev\<close> as offsets from \<^verbatim>\<open>src\<close>: they stay
  in the string, so \<^verbatim>\<open>begin < end\<close> compares the offsets.\<close>

function rev_loop :: "u64 \<Rightarrow> nat \<Rightarrow> nat \<Rightarrow> bytes \<Rightarrow> bytes" where
  "rev_loop src b e m =
     (if b < e then rev_loop src (b + 1) (e - 1)
        (m(src + of_nat e := m (src + of_nat b), src + of_nat b := m (src + of_nat e)))
      else m)"
  by pat_completeness auto
termination
  by (relation "measure (\<lambda>(src, b, e, m). e)") auto

declare rev_loop.simps [simp del]

definition strrev :: "u64 \<Rightarrow> nat \<Rightarrow> bytes \<Rightarrow> bytes" where
  "strrev src len m = (if src \<noteq> 0 \<and> len > 0 then rev_loop src 0 (len - 1) m else m)"

text \<open>The inner loop of \<^verbatim>\<open>strstr\<close>: \<open>True\<close> when the needle ran out.\<close>

partial_function (option) match_at :: "bytes \<Rightarrow> u64 \<Rightarrow> u64 \<Rightarrow> bool option" where
  "match_at m hay needle =
     (if m needle = 0 then Some True
      else if m hay = m needle then match_at m (hay + 1) (needle + 1) else Some False)"

partial_function (option) strstr :: "bytes \<Rightarrow> u64 \<Rightarrow> u64 \<Rightarrow> u64 option option" where
  "strstr m hay sub = Option.bind (match_at m hay sub) (\<lambda>found.
     if found then Some (Some hay)
     else if m hay \<noteq> 0 then strstr m (hay + 1) sub else Some None)"

subsection \<open>Wide accesses move bytes\<close>

lemma bit_u8_lt: "bit (w :: u8) k \<Longrightarrow> k < 8"
  by (drule bit_imp_le_length) simp

lemma bit_load64:
  "bit (load64 m a) n \<longleftrightarrow> n < 64 \<and> (\<exists>i<8. 8 * i \<le> n \<and> bit (m (a + of_nat i)) (n - 8 * i))"
proof -
  have "bit (foldr (\<lambda>i w. push_bit (8 * i) (ucast (m (a + of_nat i))) OR w) xs 0 :: u64) n \<longleftrightarrow>
      n < 64 \<and> (\<exists>i \<in> set xs. 8 * i \<le> n \<and> bit (m (a + of_nat i)) (n - 8 * i))" for xs
    by (induction xs) (auto simp: bit_or_iff bit_push_bit_iff bit_unsigned_iff possible_bit_word dest: bit_u8_lt)
  from this [of "[0..<8]"] show ?thesis 
    unfolding load64_def by (simp only: set_upt atLeast0LessThan Bex_def lessThan_iff)
qed

lemma load64_byte:
  assumes "k < 8"
  shows "ucast (drop_bit (8 * k) (load64 m a)) = m (a + of_nat k)"
proof (rule bit_eqI)
  fix j assume "possible_bit TYPE(u8) j"
  then have j: "j < 8" by (simp add: possible_bit_word)
  have only: "i = k" if "8 * i \<le> 8 * k + j" "bit (m (a + of_nat i)) (8 * k + j - 8 * i)" for i
    using bit_u8_lt [OF that(2)] that(1) j by linarith
  have "bit (load64 m a) (8 * k + j) \<longleftrightarrow> bit (m (a + of_nat k)) j"
    unfolding bit_load64 using only assms j by force
  then show "bit (ucast (drop_bit (8 * k) (load64 m a)) :: u8) j \<longleftrightarrow> bit (m (a + of_nat k)) j"
    using j by (simp add: bit_unsigned_iff bit_drop_bit_eq possible_bit_word)
qed

text \<open>Copying the bytes at the offsets \<open>D\<close> at once.\<close>

definition copy_offsets :: "u64 \<Rightarrow> u64 \<Rightarrow> nat set \<Rightarrow> bytes \<Rightarrow> bytes" where
  "copy_offsets dst src D m = (\<lambda>x. if unat (x - dst) \<in> D then m (src + (x - dst)) else m x)"

lemma copy_offsets_empty [simp]: "copy_offsets dst src {} m = m"
  by (simp add: copy_offsets_def)

lemma copy_offsets_Un:
  assumes "\<And>d. d \<in> E \<Longrightarrow> unat (src + of_nat d - dst) \<notin> D"
  shows "copy_offsets dst src E (copy_offsets dst src D m) = copy_offsets dst src (D \<union> E) m"
proof
  fix x
  have "unat (src + (x - dst) - dst) \<notin> D" if "unat (x - dst) \<in> E" using assms [OF that] by simp
  then show "copy_offsets dst src E (copy_offsets dst src D m) x = copy_offsets dst src (D \<union> E) m x"
    by (simp add: copy_offsets_def)
qed

lemma offset_in_word:
  assumes "8 * i + 8 \<le> 2 ^ 64"
  shows "unat (x - (dst + 8 * of_nat i)) < 8 \<longleftrightarrow> 8 * i \<le> unat (x - dst :: u64) \<and> unat (x - dst) < 8 * i + 8"
    "8 * i \<le> unat (x - dst) \<Longrightarrow> unat (x - (dst + 8 * of_nat i)) = unat (x - dst) - 8 * i"
proof -
  have u: "unat (8 * of_nat i :: u64) = 8 * i"
    using unat_of_nat_u64 [of "8 * i"] assms by simp
  have eq: "x - (dst + 8 * of_nat i) = (x - dst) - 8 * of_nat i" by simp
  show sub: "unat (x - (dst + 8 * of_nat i)) = unat (x - dst) - 8 * i" if "8 * i \<le> unat (x - dst)"
    unfolding eq using that u by (subst unat_sub) (simp_all add: word_le_nat_alt)
  show "unat (x - (dst + 8 * of_nat i)) < 8 \<longleftrightarrow> 8 * i \<le> unat (x - dst) \<and> unat (x - dst) < 8 * i + 8"
  proof (cases "8 * i \<le> unat (x - dst)")
    case True
    then show ?thesis using sub by auto
  next
    case False
    have "\<not> unat ((x - dst) - 8 * of_nat i) < 8"
    proof
      assume "unat ((x - dst) - 8 * of_nat i) < 8"
      then have "unat (((x - dst) - 8 * of_nat i) + 8 * of_nat i) = unat ((x - dst) - 8 * of_nat i) + 8 * i"
        using assms u by (subst unat_add_u64) auto
      then show False using False by simp
    qed
    then show ?thesis unfolding eq using False by auto
  qed
qed

lemma copy_wide_offsets:
  assumes "8 * i + 8 \<le> 2 ^ 64"
  shows "copy_wide dst src i m = copy_offsets dst src {8 * i..<8 * i + 8} m"
proof
  fix x
  let ?d = "unat (x - dst)"
  show "copy_wide dst src i m x = copy_offsets dst src {8 * i..<8 * i + 8} m x"
  proof (cases "8 * i \<le> ?d \<and> ?d < 8 * i + 8")
    case True
    then have k: "unat (x - (dst + 8 * of_nat i)) = ?d - 8 * i" "?d - 8 * i < 8"
      using offset_in_word(2) [OF assms] by auto
    have "src + 8 * of_nat i + of_nat (?d - 8 * i) = src + of_nat (8 * i + (?d - 8 * i))" by simp
    also have "\<dots> = src + (x - dst)" using True by (simp del: of_nat_add)
    finally show ?thesis
      using True k load64_byte [OF k(2), of m "src + 8 * of_nat i"]
      by (simp add: copy_wide_def store64_def copy_offsets_def)
  next
    case False
    then show ?thesis
      using offset_in_word(1) [OF assms, of x dst] by (auto simp: copy_wide_def store64_def copy_offsets_def)
  qed
qed

lemma at_offset_iff:
  assumes "i < 2 ^ 64" shows "x = dst + of_nat i \<longleftrightarrow> unat (x - dst :: u64) = i"
proof
  assume "unat (x - dst) = i"
  then have "x - dst = of_nat i" by auto
  then show "x = dst + of_nat i" by (simp add: algebra_simps)
qed (use unat_of_nat_u64 [OF assms] in simp)

lemma copy_byte_offsets:
  assumes "i < 2 ^ 64"
  shows "copy_byte dst src i m = copy_offsets dst src {i} m"
  using at_offset_iff [OF assms, of _ dst] by (auto simp: copy_byte_def copy_offsets_def fun_eq_iff)

subsection \<open>Copying forwards and backwards\<close>

text \<open>The offset in the destination of the byte that offset \<open>d\<close> is read from.\<close>

definition source_offset :: "u64 \<Rightarrow> u64 \<Rightarrow> nat \<Rightarrow> nat" where
  "source_offset dst src d = unat (src + of_nat d - dst)"

definition forward_ok :: "u64 \<Rightarrow> u64 \<Rightarrow> nat \<Rightarrow> bool" where
  "forward_ok dst src n \<longleftrightarrow> (\<forall>d<n. source_offset dst src d < n \<longrightarrow> d \<le> source_offset dst src d)"

definition backward_ok :: "u64 \<Rightarrow> u64 \<Rightarrow> nat \<Rightarrow> bool" where
  "backward_ok dst src n \<longleftrightarrow> (\<forall>d<n. source_offset dst src d < n \<longrightarrow> source_offset dst src d \<le> d)"

lemma foldl_copy:
  assumes "\<And>i m. i \<in> set xs \<Longrightarrow> f m i = copy_offsets dst src (S i) m"
    and "sorted_wrt (\<lambda>j i. \<forall>d \<in> S i. source_offset dst src d \<notin> S j) xs"
  shows "foldl f m xs = copy_offsets dst src (\<Union>i \<in> set xs. S i) m"
  using assms
proof (induction xs rule: rev_induct)
  case Nil
  then show ?case by simp
next
  case (snoc i xs)
  have "\<And>d. d \<in> S i \<Longrightarrow> unat (src + of_nat d - dst) \<notin> (\<Union>j \<in> set xs. S j)"
    using snoc.prems(2) by (auto simp: sorted_wrt_append source_offset_def)
  from copy_offsets_Un [OF this] show ?case
    using snoc by (simp add: sorted_wrt_append Un_commute)
qed

lemma words_union: "(\<Union>i \<in> set [0..<k]. {8 * i..<8 * i + 8}) = {0..<8 * k :: nat}"
proof (intro set_eqI iffI)
  fix x assume "x \<in> {0..<8 * k :: nat}"
  then show "x \<in> (\<Union>i \<in> set [0..<k]. {8 * i..<8 * i + 8})"
    by (auto intro!: bexI [of _ "x div 8"])
qed auto

lemma memcpy_copies:
  assumes "forward_ok dst src n" "n \<le> 2 ^ 64"
  shows "memcpy dst src n m = copy_offsets dst src {0..<n} m"
proof -
  define k r where kr: "k = n div 8" "r = n mod 8"
  have n: "n = 8 * k + r" by (simp add: kr)
  have f: "d \<le> source_offset dst src d" if "d < n" "source_offset dst src d < n" for d
    using assms(1) that by (simp add: forward_ok_def)
  have words: "foldl (\<lambda>m i. copy_wide dst src i m) m [0..<k] = copy_offsets dst src {0..<8 * k} m" for m
    unfolding words_union [symmetric]
  proof (rule foldl_copy)
    show "copy_wide dst src i m = copy_offsets dst src {8 * i..<8 * i + 8} m" if "i \<in> set [0..<k]" for i m
      using that assms(2) n by (intro copy_wide_offsets) auto
    have "source_offset dst src d \<notin> {8 * j..<8 * j + 8}" if "j < i" "i < k" "d \<in> {8 * i..<8 * i + 8}" for i j d
    proof -
      have "d < n" "8 * j + 8 \<le> d" using that n by auto
      then show ?thesis using f [of d] by auto
    qed
    then show "sorted_wrt (\<lambda>j i. \<forall>d \<in> {8 * i..<8 * i + 8}. source_offset dst src d \<notin> {8 * j..<8 * j + 8}) [0..<k]"
      by (simp add: sorted_wrt_iff_nth_less)
  qed
  have bytes: "foldl (\<lambda>m j. copy_byte dst src (k * 8 + j) m) m [0..<r] =
      copy_offsets dst src (\<Union>j \<in> set [0..<r]. {k * 8 + j}) m" for m
  proof (rule foldl_copy)
    show "copy_byte dst src (k * 8 + j) m = copy_offsets dst src {k * 8 + j} m" if "j \<in> set [0..<r]" for j m
      using that assms(2) n by (intro copy_byte_offsets) auto
    have "source_offset dst src (k * 8 + i) \<noteq> k * 8 + j" if "j < i" "i < r" for i j
      using f [of "k * 8 + i"] that n by auto
    then show "sorted_wrt (\<lambda>j i. \<forall>d \<in> {k * 8 + i}. source_offset dst src d \<notin> {k * 8 + j}) [0..<r]"
      by (simp add: sorted_wrt_iff_nth_less)
  qed
  have tail: "(\<Union>j \<in> set [0..<r]. {k * 8 + j}) = {8 * k..<n}"
  proof (intro set_eqI iffI)
    fix x assume "x \<in> {8 * k..<n}"
    then have "x = k * 8 + (x - 8 * k)" "x - 8 * k < r" using n by auto
    then show "x \<in> (\<Union>j \<in> set [0..<r]. {k * 8 + j})" by auto
  qed (use n in auto)
  have "unat (src + of_nat d - dst) \<notin> {0..<8 * k}" if "d \<in> {8 * k..<n}" for d
    using that f [of d] by (auto simp: source_offset_def)
  note un = copy_offsets_Un [where E = "{8 * k..<n}" and D = "{0..<8 * k}", OF this]
  have "{0..<8 * k} \<union> {8 * k..<n} = {0..<n}" using n by auto
  then show ?thesis unfolding memcpy_def kr [symmetric] Let_def words bytes tail using un [of m] by simp
qed

lemma memmove_backward:
  assumes "backward_ok dst src n" "n \<le> 2 ^ 64" "\<not> dst < src"
  shows "memmove dst src n m = copy_offsets dst src {0..<n} m"
proof -
  define k r where kr: "k = n div 8" "r = n mod 8"
  have n: "n = 8 * k + r" by (simp add: kr)
  have f: "source_offset dst src d \<le> d" if "d < n" "source_offset dst src d < n" for d
    using assms(1) that by (simp add: backward_ok_def)
  have bytes: "foldl (\<lambda>m i. copy_byte dst src (n - i - 1) m) m [0..<r] =
      copy_offsets dst src (\<Union>i \<in> set [0..<r]. {n - i - 1}) m" for m
  proof (rule foldl_copy)
    show "copy_byte dst src (n - i - 1) m = copy_offsets dst src {n - i - 1} m" if "i \<in> set [0..<r]" for i m
      using that assms(2) n by (intro copy_byte_offsets) auto
    have "source_offset dst src (n - i - 1) \<noteq> n - j - 1" if "j < i" "i < r" for i j
      using f [of "n - i - 1"] that n by auto
    then show "sorted_wrt (\<lambda>j i. \<forall>d \<in> {n - i - 1}. source_offset dst src d \<notin> {n - j - 1}) [0..<r]"
      by (simp add: sorted_wrt_iff_nth_less)
  qed
  have tail: "(\<Union>i \<in> set [0..<r]. {n - i - 1}) = {8 * k..<n}"
  proof (intro set_eqI iffI)
    fix x assume "x \<in> {8 * k..<n}"
    then have "x = n - (n - x - 1) - 1" "n - x - 1 < r" using n by auto
    then show "x \<in> (\<Union>i \<in> set [0..<r]. {n - i - 1})" by auto
  qed (use n in auto)
  have words: "foldl (\<lambda>m i. copy_wide dst src (i - 1) m) m (rev [1..<k + 1]) =
      copy_offsets dst src (\<Union>i \<in> set (rev [1..<k + 1]). {8 * (i - 1)..<8 * (i - 1) + 8}) m" for m
  proof (rule foldl_copy)
    show "copy_wide dst src (i - 1) m = copy_offsets dst src {8 * (i - 1)..<8 * (i - 1) + 8} m"
      if "i \<in> set (rev [1..<k + 1])" for i m
      using that assms(2) n by (intro copy_wide_offsets) auto
    have "source_offset dst src d \<notin> {8 * j..<8 * j + 8}"
      if "i < j" "j < k" "d \<in> {8 * i..<8 * i + 8}" for i j d
    proof -
      have "8 * i + 8 \<le> 8 * j" "8 * j + 8 \<le> n" using that n by auto
      then show ?thesis using f [of d] that(3) by auto
    qed
    then show "sorted_wrt (\<lambda>j i. \<forall>d \<in> {8 * (i - 1)..<8 * (i - 1) + 8}.
        source_offset dst src d \<notin> {8 * (j - 1)..<8 * (j - 1) + 8}) (rev [1..<k + 1])"
      by (simp only: sorted_wrt_rev) (simp add: sorted_wrt_iff_nth_less del: upt_Suc)
  qed
  have "set (rev [1..<k + 1]) = Suc ` set [0..<k]" by (simp add: image_Suc_atLeastLessThan del: upt_Suc)
  then have "(\<Union>i \<in> set (rev [1..<k + 1]). {8 * (i - 1)..<8 * (i - 1) + 8}) = (\<Union>i \<in> set [0..<k]. {8 * i..<8 * i + 8})"
    by (simp only: image_image UN_simps(10)) simp
  then have head: "(\<Union>i \<in> set (rev [1..<k + 1]). {8 * (i - 1)..<8 * (i - 1) + 8}) = {0..<8 * k}"
    by (simp only: words_union)
  have "unat (src + of_nat d - dst) \<notin> {8 * k..<n}" if "d \<in> {0..<8 * k}" for d
    using that f [of d] n by (auto simp: source_offset_def)
  note un = copy_offsets_Un [where E = "{0..<8 * k}" and D = "{8 * k..<n}", OF this]
  have "{8 * k..<n} \<union> {0..<8 * k} = {0..<n}" using n by auto
  then show ?thesis
    unfolding memmove_def kr [symmetric] Let_def bytes tail words head using un [of m] assms(3) by simp
qed

lemma source_offset_above:
  assumes "dst \<le> src" "unat src + n \<le> 2 ^ 64" "d < n"
  shows "source_offset dst src d = unat src - unat dst + d"
proof -
  have u: "unat (of_nat d :: u64) = d" using assms by (intro unat_of_nat_u64) simp
  have eq: "src + of_nat d - dst = (src - dst) + of_nat d" by simp
  have sub: "unat (src - dst) = unat src - unat dst" using assms(1) by (rule unat_sub)
  have "unat ((src - dst) + of_nat d) = unat (src - dst) + unat (of_nat d :: u64)"
    using u assms(2,3) sub by (intro unat_add_u64) simp
  then show ?thesis unfolding source_offset_def eq using u sub by simp
qed

lemma source_offset_below:
  assumes "src \<le> dst" "unat dst + n \<le> 2 ^ 64" "d < n" "source_offset dst src d < n"
  shows "source_offset dst src d \<le> d"
proof -
  have u: "unat (of_nat d :: u64) = d" using assms by (intro unat_of_nat_u64) simp
  have s: "unat (src + of_nat d) = unat src + d"
    using assms u by (subst unat_add_u64) (auto simp: word_le_nat_alt)
  have "unat ((src + of_nat d - dst) + dst) = source_offset dst src d + unat dst"
    using assms(2,4) unfolding source_offset_def by (subst unat_add_u64) auto
  then have "unat src + d = source_offset dst src d + unat dst" using s by simp
  then show ?thesis using assms(1) by (simp add: word_le_nat_alt)
qed

subsection \<open>Filling\<close>

definition fill_offsets :: "u64 \<Rightarrow> u8 \<Rightarrow> nat set \<Rightarrow> bytes \<Rightarrow> bytes" where
  "fill_offsets dst c D m = (\<lambda>x. if unat (x - dst) \<in> D then c else m x)"

lemma fill_offsets_empty [simp]: "fill_offsets dst c {} m = m"
  by (simp add: fill_offsets_def)

lemma fill_offsets_Un: "fill_offsets dst c E (fill_offsets dst c D m) = fill_offsets dst c (D \<union> E) m"
  by (auto simp: fill_offsets_def)

lemma repeated_byte:
  fixes x P A B :: nat
  assumes "x < 256" "255 * B < P"
  shows "x * (256 * A * P + P + B) div P mod 256 = x"
proof -
  have "x * B \<le> 255 * B" using assms(1) by (intro mult_right_mono) auto
  then have "x * B < P" using assms(2) by (rule le_less_trans)
  moreover have "x * (256 * A * P + P + B) = x * B + (x * A * 256 + x) * P" by (simp add: algebra_simps)
  ultimately have "x * (256 * A * P + P + B) div P = x * A * 256 + x" by (simp add: div_mult_self1)
  then show ?thesis using assms(1) by simp
qed

lemma unat_u8_lt: "unat (w :: u8) < 256"
  by (rule order_less_le_trans [OF unsigned_less]) simp

lemma broadcast_byte:
  assumes "k < 8" shows "ucast (drop_bit (8 * k) (broadcast c)) = c"
proof -
  let ?x = "unat c"
  have M: "multiplier_for_broadcast = 0x0101010101010101"
    by (simp add: multiplier_for_broadcast_def upt_conv_Cons)
  have x: "?x < 256" by (rule unat_u8_lt)
  have "unat (ucast c :: u64) = ?x" by (simp add: unsigned_ucast_eq take_bit_nat_eq_self unat_u8_lt less_trans [OF unat_u8_lt])
  then have u: "unat (broadcast c) = ?x * 0x0101010101010101"
    unfolding broadcast_def M using x by (subst unat_mult_u64) auto
  have "?x * 0x0101010101010101 div 2 ^ (8 * k) mod 256 = ?x"
  proof -
    have c0: "?x * 0x0101010101010101 div 2 ^ (8 * 0) mod 256 = ?x"
      using repeated_byte [OF x, of "0" "1" "0x01010101010101"] by simp
    have c1: "?x * 0x0101010101010101 div 2 ^ (8 * 1) mod 256 = ?x"
      using repeated_byte [OF x, of "1" "0x100" "0x010101010101"] by simp
    have c2: "?x * 0x0101010101010101 div 2 ^ (8 * 2) mod 256 = ?x"
      using repeated_byte [OF x, of "0x101" "0x10000" "0x0101010101"] by simp
    have c3: "?x * 0x0101010101010101 div 2 ^ (8 * 3) mod 256 = ?x"
      using repeated_byte [OF x, of "0x10101" "0x1000000" "0x01010101"] by simp
    have c4: "?x * 0x0101010101010101 div 2 ^ (8 * 4) mod 256 = ?x"
      using repeated_byte [OF x, of "0x1010101" "0x100000000" "0x010101"] by simp
    have c5: "?x * 0x0101010101010101 div 2 ^ (8 * 5) mod 256 = ?x"
      using repeated_byte [OF x, of "0x101010101" "0x10000000000" "0x0101"] by simp
    have c6: "?x * 0x0101010101010101 div 2 ^ (8 * 6) mod 256 = ?x"
      using repeated_byte [OF x, of "0x10101010101" "0x1000000000000" "1"] by simp
    have c7: "?x * 0x0101010101010101 div 2 ^ (8 * 7) mod 256 = ?x"
      using repeated_byte [OF x, of "0x1010101010101" "0x100000000000000" "0"] by simp
    have "k = 0 \<or> k = 1 \<or> k = 2 \<or> k = 3 \<or> k = 4 \<or> k = 5 \<or> k = 6 \<or> k = 7" using assms by arith
    then show ?thesis using c0 c1 c2 c3 c4 c5 c6 c7 by (elim disjE) (simp_all only:)
  qed
  then have "unat (ucast (drop_bit (8 * k) (broadcast c)) :: u8) = ?x"
    unfolding unsigned_ucast_eq unsigned_drop_bit_eq using u assms
    by (simp add: drop_bit_eq_div take_bit_eq_mod)
  then show ?thesis by (rule unsigned_word_eqI)
qed

lemma store_broadcast:
  assumes "8 * i + 8 \<le> 2 ^ 64"
  shows "store64 (dst + 8 * of_nat i) (broadcast c) m = fill_offsets dst c {8 * i..<8 * i + 8} m"
proof
  fix x
  show "store64 (dst + 8 * of_nat i) (broadcast c) m x = fill_offsets dst c {8 * i..<8 * i + 8} m x"
    using offset_in_word(1) [OF assms, of x dst] broadcast_byte
    by (auto simp: store64_def fill_offsets_def)
qed

lemma fill_wide_fills:
  assumes "8 * i \<le> n" "n + 7 < 2 ^ 64"
  shows "fill_wide dst (broadcast c) n (8 * i) m =
    ((n + 7) div 8 * 8, fill_offsets dst c {8 * i..<(n + 7) div 8 * 8} m)"
  using assms
proof (induction "n - 8 * i" arbitrary: i m rule: less_induct)
  case less
  show ?case
  proof (cases "8 * i < n")
    case False
    then have "n = 8 * i" using less.prems by simp
    then show ?thesis by (simp add: fill_wide.simps)
  next
    case True
    have bound: "8 * i + 8 \<le> 2 ^ 64" using True less.prems(2) by linarith
    have step: "fill_wide dst (broadcast c) n (8 * i) m =
        fill_wide dst (broadcast c) n (8 * Suc i) (fill_offsets dst c {8 * i..<8 * i + 8} m)"
      using True store_broadcast [OF bound, of dst c m] by (subst fill_wide.simps) (simp add: add.commute)
    show ?thesis
    proof (cases "8 * Suc i \<le> n")
      case True2: True
      then have "{8 * i..<8 * i + 8} \<union> {8 * Suc i..<(n + 7) div 8 * 8} = {8 * i..<(n + 7) div 8 * 8}" by auto
      then show ?thesis unfolding step using less.hyps [of "Suc i"] less.prems(2) True2
        by (simp add: fill_offsets_Un)
    next
      case False
      then have "(n + 7) div 8 = Suc i" using True by (intro div_nat_eqI) auto
      then have "(n + 7) div 8 * 8 = 8 * i + 8" by simp
      then show ?thesis unfolding step using False by (subst fill_wide.simps) simp
    qed
  qed
qed

lemma fill_bytes_fills:
  assumes "n < 2 ^ 64"
  shows "fill_bytes dst c n i m = fill_offsets dst c {i..<n} m"
proof (induction "n - i" arbitrary: i m rule: less_induct)
  case less
  show ?case
  proof (cases "i < n")
    case True
    have "m(dst + of_nat i := c) = fill_offsets dst c {i} m"
      using at_offset_iff [of i _ dst] True assms by (auto simp: fill_offsets_def fun_eq_iff)
    moreover have "insert i {Suc i..<n} = {i..<n}" using True by auto
    ultimately show ?thesis using True less [of "Suc i"]
      by (subst fill_bytes.simps) (simp add: fill_offsets_Un)
  qed (simp add: fill_bytes.simps)
qed

subsection \<open>Terminated strings\<close>

fun cstr :: "bytes \<Rightarrow> u64 \<Rightarrow> u8 list \<Rightarrow> bool" where
  "cstr m p [] \<longleftrightarrow> m p = 0"
| "cstr m p (c # cs) \<longleftrightarrow> c \<noteq> 0 \<and> m p = c \<and> cstr m (p + 1) cs"

lemma strlen_from_cstr: "cstr m (src + of_nat k) cs \<Longrightarrow> strlen_from m src k = Some (k + length cs)"
proof (induction cs arbitrary: k)
  case Nil
  then show ?case by (simp add: strlen_from.simps)
next
  case (Cons c cs)
  have eq: "src + of_nat (k + 1) = src + of_nat k + 1" by simp
  have "strlen_from m src (k + 1) = Some (k + 1 + length cs)"
    using Cons.prems by (intro Cons.IH) (simp only: eq cstr.simps)
  then show ?case using Cons.prems by (subst strlen_from.simps) simp
qed

lemma strlen_cstr: "cstr m src cs \<Longrightarrow> strlen m src = Some (length cs)"
  using strlen_from_cstr [of m src 0 cs] by (simp add: strlen_def)

lemma strncmp_from_cstr:
  "cstr m (a + of_nat i) xs \<Longrightarrow> cstr m (b + of_nat i) ys \<Longrightarrow> i + length xs < n \<Longrightarrow>
   strncmp_from m a b n i = 0 \<longleftrightarrow> xs = ys"
proof (induction xs arbitrary: i ys)
  case Nil
  then show ?case by (cases ys) (auto simp: strncmp_from.simps Let_def)
next
  case (Cons x xs)
  show ?case
  proof (cases ys)
    case Nil
    then show ?thesis using Cons.prems by (auto simp: strncmp_from.simps Let_def)
  next
    case (Cons y ys')
    have "strncmp_from m a b n (Suc i) = 0 \<longleftrightarrow> xs = ys'"
      using Cons.IH [of "Suc i" ys'] Cons.prems Cons by (simp add: algebra_simps)
    then show ?thesis
      using Cons.prems Cons by (subst strncmp_from.simps) (auto simp: Let_def)
  qed
qed

text \<open>\<^verbatim>\<open>strcmp\<close> returns zero exactly on equal strings.\<close>

lemma strcmp_cstr: "cstr m a xs \<Longrightarrow> cstr m b ys \<Longrightarrow> length xs < SIZE_MAX \<Longrightarrow> strcmp m a b = 0 \<longleftrightarrow> xs = ys"
  using strncmp_from_cstr [of m a 0 xs b ys SIZE_MAX] by (simp add: strcmp_def strncmp_def)

lemma match_at_cstr: "cstr m h xs \<Longrightarrow> cstr m p ys \<Longrightarrow> match_at m h p = Some (prefix ys xs)"
proof (induction ys arbitrary: xs h p)
  case Nil
  then show ?case by (simp add: match_at.simps)
next
  case (Cons y ys)
  then show ?case by (cases xs) (auto simp: match_at.simps)
qed

text \<open>The first position at which \<open>ys\<close> occurs in \<open>xs\<close>.\<close>

fun first_match :: "u8 list \<Rightarrow> u8 list \<Rightarrow> nat option" where
  "first_match ys [] = (if ys = [] then Some 0 else None)"
| "first_match ys (x # xs) = (if prefix ys (x # xs) then Some 0 else map_option Suc (first_match ys xs))"

lemma first_match_Some:
  "first_match ys xs = Some k \<Longrightarrow> k \<le> length xs \<and> prefix ys (drop k xs) \<and> (\<forall>j<k. \<not> prefix ys (drop j xs))"
proof (induction xs arbitrary: k)
  case (Cons x xs)
  show ?case
  proof (cases "prefix ys (x # xs)")
    case False
    then obtain k' where "first_match ys xs = Some k'" "k = Suc k'" using Cons.prems by auto
    then show ?thesis using Cons.IH [of k'] False by (auto simp: less_Suc_eq_0_disj)
  qed (use Cons.prems in auto)
qed (auto split: if_splits)

lemma first_match_None: "first_match ys xs = None \<Longrightarrow> \<not> sublist ys xs"
proof (induction xs)
  case (Cons x xs)
  then show ?case by (auto simp: sublist_Cons_right split: if_splits)
qed (auto split: if_splits)

lemma strstr_cstr:
  "cstr m h xs \<Longrightarrow> cstr m p ys \<Longrightarrow> strstr m h p = Some (map_option (\<lambda>k. h + of_nat k) (first_match ys xs))"
proof (induction xs arbitrary: h)
  case Nil
  then show ?case using match_at_cstr [OF Nil] by (simp add: strstr.simps)
next
  case (Cons x xs)
  have "strstr m (h + 1) p = Some (map_option (\<lambda>k. h + 1 + of_nat k) (first_match ys xs))"
    using Cons.IH [of "h + 1"] Cons.prems by simp
  moreover have "(\<lambda>k. h + 1 + of_nat k) = (\<lambda>k. h + of_nat k) \<circ> Suc" by auto
  ultimately show ?case
    using match_at_cstr [OF Cons.prems] Cons.prems
    by (subst strstr.simps) (simp add: option.map_comp)
qed

subsection \<open>Properties\<close>

text \<open>
  C20. \<^verbatim>\<open>memmove\<close> copies correctly whatever the overlap: for blocks that do not wrap
  around the address space, each byte of the destination becomes the byte the source had
  before the call, although the routine copies eight bytes at a time, forwards or backwards,
  and every other byte keeps its value.
\<close>

theorem memmove_copies:
  assumes "unat dst + n \<le> 2 ^ 64" "unat src + n \<le> 2 ^ 64"
  shows "memmove dst src n m = (\<lambda>x. if unat (x - dst) < n then m (src + (x - dst)) else m x)"
proof -
  have "memmove dst src n m = copy_offsets dst src {0..<n} m"
  proof (cases "dst < src")
    case True
    have "forward_ok dst src n"
      using source_offset_above [of dst src n] True assms(2) by (simp add: forward_ok_def)
    then show ?thesis using memcpy_copies [of dst src n m] True assms(1) by (simp add: memmove_def)
  next
    case False
    have "backward_ok dst src n"
      using source_offset_below [of src dst n] False assms(1) by (simp add: backward_ok_def)
    then show ?thesis using memmove_backward [of dst src n m] False assms(1) by simp
  qed
  then show ?thesis by (simp add: copy_offsets_def)
qed

theorem memmove_copies_witness:
  "memmove 0x1003 0x1000 20 (\<lambda>x. ucast x) 0x1010 = 0x0D \<and> memmove 0x1000 0x1003 20 (\<lambda>x. ucast x) 0x1010 = 0x13"
  using memmove_copies [of "0x1003" 20 "0x1000" "\<lambda>x. ucast x"] memmove_copies [of "0x1000" 20 "0x1003" "\<lambda>x. ucast x"]
  by simp

text \<open>
  C21. \<^verbatim>\<open>memset\<close> fills: the \<open>n\<close> bytes get the value and, when \<open>n\<close> is at least 8 and
  not a multiple of 8, so do the bytes up to the next multiple of 8, because the loop of wide
  writes also runs for the remainder; nothing else changes.
\<close>

theorem memset_fills:
  assumes "n + 7 < 2 ^ 64"
  shows "memset dst c n m = (\<lambda>x. if unat (x - dst) < (if n < 8 then n else (n + 7) div 8 * 8)
    then ucast c else m x)"
proof (cases "n < 8")
  case True
  then show ?thesis
    using fill_bytes_fills [of n dst "ucast c" 0 m] by (simp add: memset_def fill_offsets_def)
next
  case False
  have le: "n \<le> (n + 7) div 8 * 8" by presburger
  have "memset dst c n m = fill_bytes dst (ucast c) n ((n + 7) div 8 * 8)
      (fill_offsets dst (ucast c) {0..<(n + 7) div 8 * 8} m)"
    using False fill_wide_fills [of 0 n dst "ucast c" m] assms by (simp add: memset_def Let_def)
  also have "\<dots> = fill_offsets dst (ucast c) {0..<(n + 7) div 8 * 8} m"
    using le fill_bytes_fills [of n dst "ucast c" "(n + 7) div 8 * 8"] assms by simp
  finally show ?thesis using False by (simp add: fill_offsets_def)
qed

theorem memset_fills_witness:
  "memset 0x2000 0xFF 9 (\<lambda>_. 0) 0x2009 = 0xFF \<and> memset 0x2000 0xFF 7 (\<lambda>_. 0) 0x2007 = 0"
  using memset_fills [of 9 "0x2000" "0xFF" "\<lambda>_. 0"] memset_fills [of 7 "0x2000" "0xFF" "\<lambda>_. 0"] by simp

text \<open>
  \<^verbatim>\<open>strstr\<close> searches: on two terminated strings it always returns; the pointer it
  returns is the first position at which the second string occurs in the first, and a null
  pointer means it does not occur at all.
\<close>

theorem strstr_first:
  assumes "cstr m h xs" "cstr m p ys"
  shows "case strstr m h p of None \<Rightarrow> False
    | Some None \<Rightarrow> \<not> sublist ys xs
    | Some (Some q) \<Rightarrow> \<exists>k \<le> length xs. q = h + of_nat k \<and> prefix ys (drop k xs) \<and>
        (\<forall>j<k. \<not> prefix ys (drop j xs))"
  using strstr_cstr [OF assms] first_match_Some [of ys xs] first_match_None [of ys xs]
  by (auto split: option.splits)

theorem strstr_first_witness:
  "strstr ((\<lambda>_. 0)(16 := 97, 17 := 97, 18 := 98, 32 := 97, 33 := 98)) 16 32 = Some (Some 17) \<and>
   prefix [97, 98 :: u8] (drop 1 [97, 97, 98])"
proof -
  let ?m = "(\<lambda>_. 0)(16 := 97, 17 := 97, 18 := 98, 32 := 97, 33 := 98) :: bytes"
  have c: "cstr ?m 16 [97, 97, 98]" "cstr ?m 32 [97, 98]" by simp_all
  have "strstr ?m 16 32 = Some (Some 17)" using strstr_cstr [OF c] by simp
  then show ?thesis using strstr_first [OF c] by simp
qed

end
