(* ===== verification/Stdio.thy ===== *)
theory Stdio
  imports Libc_String
begin

text \<open>
  Character classes (src/libc/ctype.cpp), formatted output (src/libc/stdio.cpp) and
  \<^verbatim>\<open>itoa\<close> (src/libc/stdlib.cpp). The format is the list of bytes before its
  terminator, and a variable argument is an integer slot, a pointer, or a pointer to a
  terminated string with its bytes; \<^verbatim>\<open>va_arg\<close> on a missing argument or one of the wrong
  type is undefined. The output buffer is the list of bytes stored so far: stores are
  consecutive, since \<^verbatim>\<open>put_char\<close> stores nothing once the buffer is full.
\<close>

subsection \<open>Character classes\<close>

definition EOF :: int where
  "EOF = -1"

definition islower :: "int \<Rightarrow> bool" where
  "islower ch \<longleftrightarrow> ch \<noteq> EOF \<and> 97 \<le> ch \<and> ch \<le> 122"

definition isupper :: "int \<Rightarrow> bool" where
  "isupper ch \<longleftrightarrow> ch \<noteq> EOF \<and> 65 \<le> ch \<and> ch \<le> 90"

definition isdigit :: "int \<Rightarrow> bool" where
  "isdigit ch \<longleftrightarrow> ch \<noteq> EOF \<and> 48 \<le> ch \<and> ch \<le> 57"

definition isalpha :: "int \<Rightarrow> bool" where
  "isalpha ch \<longleftrightarrow> ch \<noteq> EOF \<and> (islower ch \<or> isupper ch)"

definition isalnum :: "int \<Rightarrow> bool" where
  "isalnum ch \<longleftrightarrow> ch \<noteq> EOF \<and> (isalpha ch \<or> isdigit ch)"

definition isprint :: "int \<Rightarrow> bool" where
  "isprint ch \<longleftrightarrow> 32 \<le> ch \<and> ch \<le> 126"

definition tolower :: "int \<Rightarrow> int" where
  "tolower ch = (if isupper ch then ch - (65 - 97) else ch)"

definition toupper :: "int \<Rightarrow> int" where
  "toupper ch = (if islower ch then ch + (65 - 97) else ch)"

lemma tolower_toupper: "isalpha ch \<Longrightarrow> tolower (toupper ch) = tolower ch \<and> toupper (tolower ch) = toupper ch"
  by (auto simp: isalpha_def islower_def isupper_def tolower_def toupper_def EOF_def)

subsection \<open>Arguments\<close>

datatype va_value = VInt u64 | VPtr u64 | VStr u64 "u8 list"

datatype int_length = len_none | long_int | long_long_int | short_int | char_int | size_int

definition va_int :: "va_value list \<Rightarrow> (u64 \<times> va_value list) res" where
  "va_int args = (case args of VInt w # rest \<Rightarrow> Inr (w, rest) | _ \<Rightarrow> Inl (Undefined_behaviour ''va_arg''))"

definition va_ptr :: "va_value list \<Rightarrow> (u64 \<times> va_value list) res" where
  "va_ptr args = (case args of VPtr p # rest \<Rightarrow> Inr (p, rest) | VStr p _ # rest \<Rightarrow> Inr (p, rest)
     | _ \<Rightarrow> Inl (Undefined_behaviour ''va_arg''))"

definition va_str :: "va_value list \<Rightarrow> (u8 list \<times> va_value list) res" where
  "va_str args = (case args of VStr _ cs # rest \<Rightarrow> Inr (cs, rest) | _ \<Rightarrow> Inl (Undefined_behaviour ''va_arg''))"

definition signed_integer_arg_of_length :: "int_length \<Rightarrow> va_value list \<Rightarrow> (u64 \<times> va_value list) res" where
  "signed_integer_arg_of_length l args = rbind (va_int args) (\<lambda>(w, rest). Inr (case l of
       long_long_int \<Rightarrow> w | long_int \<Rightarrow> w | short_int \<Rightarrow> scast (ucast w :: u16)
     | char_int \<Rightarrow> scast (ucast w :: u8) | size_int \<Rightarrow> w | len_none \<Rightarrow> scast (ucast w :: u32), rest))"

definition unsigned_integer_arg_of_length :: "int_length \<Rightarrow> va_value list \<Rightarrow> (u64 \<times> va_value list) res" where
  "unsigned_integer_arg_of_length l args = rbind (va_int args) (\<lambda>(w, rest). Inr (case l of
       long_long_int \<Rightarrow> w | long_int \<Rightarrow> w | short_int \<Rightarrow> ucast (ucast w :: u16)
     | char_int \<Rightarrow> ucast (ucast w :: u8) | size_int \<Rightarrow> w | len_none \<Rightarrow> ucast (ucast w :: u32), rest))"

definition length_to_digits :: "int_length \<Rightarrow> nat \<Rightarrow> nat" where
  "length_to_digits l b = (case l of
       len_none \<Rightarrow> if b = 10 then 9 else if b = 16 then 8 else if b = 8 then 16 else 4294967295
     | long_int \<Rightarrow> if b = 10 then 18 else if b = 16 then 16 else if b = 8 then 32 else 4294967295
     | long_long_int \<Rightarrow> if b = 10 then 18 else if b = 16 then 16 else if b = 8 then 32 else 4294967295
     | short_int \<Rightarrow> if b = 10 then 4 else if b = 16 then 4 else if b = 8 then 8 else 4294967295
     | char_int \<Rightarrow> if b = 10 then 2 else if b = 16 then 2 else if b = 8 then 4 else 4294967295
     | size_int \<Rightarrow> if b = 10 then 19 else if b = 16 then 16 else if b = 8 then 32 else 4294967295)"

subsection \<open>The formatter\<close>

text \<open>\<open>pf_null\<close> says that \<^verbatim>\<open>str\<close> is null, and \<open>pf_stores\<close> lists the stores of
  \<^verbatim>\<open>%n\<close>: pointer, width in bytes, value.\<close>

record printf_state =
  pf_out :: "u8 list"
  pf_num :: nat
  pf_full :: bool
  pf_null :: bool
  pf_stores :: "(u64 \<times> nat \<times> nat) list"

definition put_char :: "nat \<Rightarrow> u8 \<Rightarrow> printf_state \<Rightarrow> printf_state" where
  "put_char buf_size c s =
     (let s1 = s\<lparr>pf_num := pf_num s + 1\<rparr> in
      if pf_num s1 \<ge> buf_size then s1\<lparr>pf_full := True\<rparr>
      else if pf_null s1 then s1
      else s1\<lparr>pf_out := pf_out s1 @ [c]\<rparr>)"

definition digit_char :: "bool \<Rightarrow> nat \<Rightarrow> u8" where
  "digit_char capitalize r = (if r > 9 then of_nat (r - 10) + (if capitalize then 65 else 97) else of_nat r + 48)"

text \<open>The loop over the digits, least significant first. Every caller passes base 8, 10 or
  16; the test of the base keeps the recursion well-founded for any other argument.\<close>

lemma digit_measure:
  assumes "2 \<le> b" "v \<noteq> 0 \<or> k < mx"
  shows "v div b + (mx - Suc k) < v + (mx - (k :: nat))"
proof (cases "v = 0")
  case False
  then have "v div b < v" using assms(1) by (intro div_less_dividend) auto
  then show ?thesis by linarith
qed (use assms in auto)

function put_digits :: "nat \<Rightarrow> nat \<Rightarrow> bool \<Rightarrow> bool \<Rightarrow> nat \<Rightarrow> nat \<Rightarrow> nat \<Rightarrow> printf_state \<Rightarrow> printf_state" where
  "put_digits buf_size b capitalize pad0 max_digits num_digits v s =
     (if 2 \<le> b \<and> (v \<noteq> 0 \<or> (pad0 \<and> num_digits < max_digits))
      then put_digits buf_size b capitalize pad0 max_digits (num_digits + 1) (v div b)
             (put_char buf_size (digit_char capitalize (v mod b)) s)
      else s)"
  by pat_completeness auto
termination
  by (relation "measure (\<lambda>(buf_size, b, cp, pad0, mx, k, v, s). v + (mx - k))")
    (auto dest: digit_measure)

declare put_digits.simps [simp del]

definition put_integer :: "nat \<Rightarrow> u64 \<Rightarrow> nat \<Rightarrow> bool \<Rightarrow> bool \<Rightarrow> nat \<Rightarrow> bool \<Rightarrow> printf_state \<Rightarrow> printf_state res" where
  "put_integer buf_size v b capitalize is_signed max_digits pad0 s =
     (let digits_start = length (pf_out s); num_chars_before = pf_num s in
      if v = 0 then Inr (put_char buf_size 48 s)
      else let is_negative = (is_signed \<and> sint v < 0) in
        if is_negative \<and> v = push_bit 63 1 then Inl (Undefined_behaviour ''negation of INT64_MIN'')
        else let w = (if is_negative then - v else v);
                 s1 = put_digits buf_size b capitalize pad0 max_digits 0 (unat w) s;
                 s2 = (if is_negative then put_char buf_size 45 s1 else s1)
             in Inr (if \<not> pf_full s2 \<and> \<not> pf_null s2
                     then s2\<lparr>pf_out := take digits_start (pf_out s2) @
                            rev (take (pf_num s2 - num_chars_before) (drop digits_start (pf_out s2)))\<rparr>
                     else s2))"

definition get_flags :: "u8 list \<Rightarrow> bool \<times> u8 list" where
  "get_flags fmt = (case fmt of c # rest \<Rightarrow> if c = 48 then (True, rest) else (False, fmt) | [] \<Rightarrow> (False, fmt))"

definition get_length :: "u8 list \<Rightarrow> int_length \<times> u8 list" where
  "get_length fmt = (case fmt of
       [] \<Rightarrow> (len_none, [])
     | c # rest \<Rightarrow>
         if c = 108 then (case rest of d # rest' \<Rightarrow> if d = 108 then (long_long_int, rest') else (long_int, rest) | [] \<Rightarrow> (long_int, rest))
         else if c = 104 then (case rest of d # rest' \<Rightarrow> if d = 104 then (char_int, rest') else (short_int, rest) | [] \<Rightarrow> (short_int, rest))
         else if c = 122 then (size_int, rest) else (len_none, fmt))"

text \<open>The widths \<^verbatim>\<open>%n\<close> stores for a length: there is no \<^verbatim>\<open>break\<close> between the
  cases.\<close>

definition n_widths :: "int_length \<Rightarrow> nat list" where
  "n_widths l = (case l of char_int \<Rightarrow> [1, 2, 8, 8, 8, 4] | short_int \<Rightarrow> [2, 8, 8, 8, 4]
     | long_int \<Rightarrow> [8, 8, 8, 4] | long_long_int \<Rightarrow> [8, 8, 4] | size_int \<Rightarrow> [8, 4] | len_none \<Rightarrow> [4])"

fun store_counts :: "nat list \<Rightarrow> va_value list \<Rightarrow> printf_state \<Rightarrow> (va_value list \<times> printf_state) res" where
  "store_counts [] args s = Inr (args, s)"
| "store_counts (w # ws) args s = rbind (va_ptr args) (\<lambda>(p, rest).
     store_counts ws rest (s\<lparr>pf_stores := pf_stores s @ [(p, w, pf_num s)]\<rparr>))"

definition convert :: "nat \<Rightarrow> u8 \<Rightarrow> bool \<Rightarrow> int_length \<Rightarrow> va_value list \<Rightarrow> printf_state \<Rightarrow> (va_value list \<times> printf_state) res" where
  "convert n c pad0 l args s =
     (if c = 115 then rbind (va_str args) (\<lambda>(cs, rest). Inr (rest, foldl (\<lambda>s c. put_char n c s) s cs))
      else if c = 99 then rbind (va_int args) (\<lambda>(w, rest). Inr (rest, put_char n (ucast w) s))
      else if c = 111 then rbind (signed_integer_arg_of_length l args) (\<lambda>(w, rest).
        rbind (put_integer n w 8 False True (length_to_digits l 8) pad0 s) (\<lambda>s'. Inr (rest, s')))
      else if c = 105 \<or> c = 100 then rbind (signed_integer_arg_of_length l args) (\<lambda>(w, rest).
        rbind (put_integer n w 10 False True (length_to_digits l 10) pad0 s) (\<lambda>s'. Inr (rest, s')))
      else if c = 117 then rbind (unsigned_integer_arg_of_length l args) (\<lambda>(w, rest).
        rbind (put_integer n w 10 False False (length_to_digits l 10) pad0 s) (\<lambda>s'. Inr (rest, s')))
      else if c = 88 then rbind (unsigned_integer_arg_of_length l args) (\<lambda>(w, rest).
        rbind (put_integer n w 16 True False (length_to_digits l 16) pad0 s) (\<lambda>s'. Inr (rest, s')))
      else if c = 120 then rbind (unsigned_integer_arg_of_length l args) (\<lambda>(w, rest).
        rbind (put_integer n w 16 False False (length_to_digits l 16) pad0 s) (\<lambda>s'. Inr (rest, s')))
      else if c = 112 then rbind (va_ptr args) (\<lambda>(p, rest).
        rbind (put_integer n p 16 False False 16 True s) (\<lambda>s'. Inr (rest, s')))
      else if c = 110 then store_counts (n_widths l) args s
      else Inr (args, s))"

lemma get_flags_length: "length (snd (get_flags fmt)) \<le> length fmt"
  by (auto simp: get_flags_def split: list.splits)

lemma get_length_length: "length (snd (get_length fmt)) \<le> length fmt"
  by (auto simp: get_length_def split: list.splits)

lemma spec_shorter:
  "get_flags fmt = (f, f1) \<Longrightarrow> get_length f1 = (l, f2) \<Longrightarrow> f2 = c # rest \<Longrightarrow> length rest < Suc (length fmt)"
  using get_flags_length [of fmt] get_length_length [of f1] by auto

function format_loop :: "nat \<Rightarrow> u8 list \<Rightarrow> va_value list \<Rightarrow> printf_state \<Rightarrow> printf_state res" where
  "format_loop n [] args s = Inr s"
| "format_loop n (c # fmt) args s =
     (if c \<noteq> 37 then format_loop n fmt args (put_char n c s)
      else case fmt of
        [] \<Rightarrow> Inl (Undefined_behaviour ''read past the end of the format'')
      | d # rest0 \<Rightarrow>
          if d = 37 then format_loop n rest0 args (put_char n 37 s)
          else (case get_flags fmt of (pad0, f1) \<Rightarrow>
               (case get_length f1 of (l, f2) \<Rightarrow>
               (case f2 of
                  [] \<Rightarrow> Inl (Undefined_behaviour ''read past the end of the format'')
                | conv # rest \<Rightarrow> rbind (convert n conv pad0 l args s) (\<lambda>(args', s').
                    format_loop n rest args' s')))))"
  by pat_completeness auto
termination
  by (relation "measure (\<lambda>(n, fmt, args, s). length fmt)") (auto dest: spec_shorter [OF sym sym])

declare format_loop.simps [simp del]

definition new_printf :: "bool \<Rightarrow> printf_state" where
  "new_printf null = \<lparr>pf_out = [], pf_num = 0, pf_full = False, pf_null = null, pf_stores = []\<rparr>"

text \<open>The conversion of a \<^verbatim>\<open>size_t\<close> to the \<^verbatim>\<open>int\<close> that is returned keeps the low 32 bits.\<close>

definition int_of_size :: "nat \<Rightarrow> int" where
  "int_of_size n = sint (of_nat n :: u32)"

text \<open>The bytes stored in the buffer, the terminator included, the value returned, and the stores that
  \<^verbatim>\<open>%n\<close> made through its arguments; a null format is \<open>None\<close>.\<close>

type_synonym count_store = "u64 \<times> nat \<times> nat"

definition vsnprintf :: "bool \<Rightarrow> nat \<Rightarrow> u8 list option \<Rightarrow> va_value list \<Rightarrow> (u8 list \<times> int \<times> count_store list) res" where
  "vsnprintf null buf_size fmt args = (case fmt of
       None \<Rightarrow> Inr ([], -1, [])
     | Some f \<Rightarrow> rbind (format_loop buf_size f args (new_printf null)) (\<lambda>s.
         Inr (if \<not> pf_full s \<and> buf_size > 0 \<and> \<not> null then pf_out s @ [0] else pf_out s,
           int_of_size (pf_num s), pf_stores s)))"

definition vsprintf :: "bool \<Rightarrow> u8 list option \<Rightarrow> va_value list \<Rightarrow> (u8 list \<times> int \<times> count_store list) res" where
  "vsprintf null fmt args = vsnprintf null SIZE_MAX fmt args"

definition itoa :: "u32 \<Rightarrow> int \<Rightarrow> (u8 list) option res" where
  "itoa v b = (if b = 10 then rbind (vsprintf False (Some [37, 100]) [VInt (ucast v)]) (\<lambda>(cs, _). Inr (Some cs))
     else if b = 16 then rbind (vsprintf False (Some [37, 120]) [VInt (ucast v)]) (\<lambda>(cs, _). Inr (Some cs))
     else Inr None)"

subsection \<open>Streams\<close>

datatype stream = Stdout | Stderr | Other_file

text \<open>The static buffer of \<^verbatim>\<open>vfprintf\<close>, what the console and the debug port have
  been given, and the stores of \<^verbatim>\<open>%n\<close>.\<close>

record stdio_state =
  printf_buffer :: "u8 list"
  vga_text :: "u8 list"
  debug_text :: "u8 list"
  count_stores :: "count_store list"

definition buffer_string :: "u8 list \<Rightarrow> u8 list res" where
  "buffer_string b = (if 0 \<in> set b then Inr (takeWhile (\<lambda>c. c \<noteq> 0) b)
     else Inl (Undefined_behaviour ''unterminated string''))"

definition fputs :: "u8 list \<Rightarrow> stream \<Rightarrow> stdio_state \<Rightarrow> stdio_state" where
  "fputs str f s = (case f of
       Stdout \<Rightarrow> s\<lparr>vga_text := vga_text s @ str, debug_text := debug_text s @ str\<rparr>
     | Stderr \<Rightarrow> s\<lparr>debug_text := debug_text s @ str\<rparr>
     | Other_file \<Rightarrow> s)"

definition puts :: "u8 list \<Rightarrow> stdio_state \<Rightarrow> stdio_state" where
  "puts str s = fputs [10] Stdout (fputs str Stdout s)"

definition vfprintf :: "stream \<Rightarrow> u8 list \<Rightarrow> va_value list \<Rightarrow> stdio_state \<Rightarrow> stdio_state res" where
  "vfprintf f msg args s = rbind (vsnprintf False 0x200 (Some msg) args) (\<lambda>(out, _, stores).
     let b = out @ drop (length out) (printf_buffer s) in
     if f = Other_file then Inl (Panicked ''abort'')
     else rbind (buffer_string b) (\<lambda>text.
       Inr (fputs text f (s\<lparr>printf_buffer := b, count_stores := count_stores s @ stores\<rparr>))))"

subsection \<open>The buffer is never overrun\<close>

text \<open>The bytes stored are the characters put so far, as long as they fit with one byte to
  spare.\<close>

definition pf_inv :: "nat \<Rightarrow> printf_state \<Rightarrow> bool" where
  "pf_inv n s \<longleftrightarrow> \<not> pf_null s \<and> length (pf_out s) = min (pf_num s) (n - 1) \<and>
     (pf_full s \<longleftrightarrow> 0 < pf_num s \<and> n \<le> pf_num s)"

lemma pf_inv_new: "pf_inv n (new_printf False)"
  by (simp add: pf_inv_def new_printf_def)

lemma put_char_inv [inv_intros]: "pf_inv n s \<Longrightarrow> pf_inv n (put_char n c s)"
  by (auto simp: pf_inv_def put_char_def Let_def)

lemma put_chars_inv [inv_intros]: "pf_inv n s \<Longrightarrow> pf_inv n (foldl (\<lambda>s c. put_char n c s) s cs)"
  by (induction cs arbitrary: s) (simp_all add: put_char_inv)

text \<open>The digit characters \<^verbatim>\<open>put_integer\<close> puts, least significant first.\<close>

function digits :: "nat \<Rightarrow> bool \<Rightarrow> nat \<Rightarrow> nat \<Rightarrow> nat \<Rightarrow> nat list" where
  "digits b pad0 mx k v = (if 2 \<le> b \<and> (v \<noteq> 0 \<or> (pad0 \<and> k < mx)) then v mod b # digits b pad0 mx (k + 1) (v div b) else [])"
  by pat_completeness auto
termination
  by (relation "measure (\<lambda>(b, pad0, mx, k, v). v + (mx - k))") (auto dest: digit_measure)

declare digits.simps [simp del]

lemma digits_unfold:
  "2 \<le> b \<Longrightarrow> v \<noteq> 0 \<or> pad0 \<and> k < mx \<Longrightarrow> digits b pad0 mx k v = v mod b # digits b pad0 mx (k + 1) (v div b)"
  "\<not> (2 \<le> b \<and> (v \<noteq> 0 \<or> pad0 \<and> k < mx)) \<Longrightarrow> digits b pad0 mx k v = []"
  by (subst digits.simps, rule if_P, blast) (subst digits.simps, rule if_not_P, blast)

lemma put_digits_unfold:
  "2 \<le> b \<Longrightarrow> v \<noteq> 0 \<or> pad0 \<and> k < mx \<Longrightarrow> put_digits n b cp pad0 mx k v s =
     put_digits n b cp pad0 mx (k + 1) (v div b) (put_char n (digit_char cp (v mod b)) s)"
  "\<not> (2 \<le> b \<and> (v \<noteq> 0 \<or> pad0 \<and> k < mx)) \<Longrightarrow> put_digits n b cp pad0 mx k v s = s"
  by (subst put_digits.simps, rule if_P, blast) (subst put_digits.simps, rule if_not_P, blast)

lemma put_digits_eq:
  "put_digits n b cp pad0 mx k v s = foldl (\<lambda>s c. put_char n c s) s (map (digit_char cp) (digits b pad0 mx k v))"
proof (induction n b cp pad0 mx k v s rule: put_digits.induct)
  case (1 n b cp pad0 mx k v s)
  show ?case
  proof (cases "2 \<le> b \<and> (v \<noteq> 0 \<or> (pad0 \<and> k < mx))")
    case True
    then show ?thesis using 1 [OF True] by (simp only: digits_unfold put_digits_unfold list.map foldl.simps)
  next
    case False
    show ?thesis unfolding digits_unfold(2) [OF False] put_digits_unfold(2) [OF False] by simp
  qed
qed

lemma put_chars_num: "pf_num (foldl (\<lambda>s c. put_char n c s) s cs) = pf_num s + length cs"
  by (induction cs arbitrary: s) (simp_all add: put_char_def Let_def)

lemma put_chars_out:
  "\<not> pf_null s \<Longrightarrow> pf_num s + length cs < n \<Longrightarrow>
     pf_out (foldl (\<lambda>s c. put_char n c s) s cs) = pf_out s @ cs \<and>
     pf_full (foldl (\<lambda>s c. put_char n c s) s cs) = pf_full s"
  by (induction cs arbitrary: s) (simp_all add: put_char_def Let_def)

lemma put_integer_eq:
  assumes "put_integer n v b cp sg mx pad0 s = Inr s'" "v \<noteq> 0"
  defines "neg \<equiv> sg \<and> sint v < 0"
  defines "cs \<equiv> map (digit_char cp) (digits b pad0 mx 0 (unat (if neg then - v else v))) @ (if neg then [45] else [])"
  defines "t \<equiv> foldl (\<lambda>s c. put_char n c s) s cs"
  shows "s' = (if \<not> pf_full t \<and> \<not> pf_null t then t\<lparr>pf_out := take (length (pf_out s)) (pf_out t) @
      rev (take (length cs) (drop (length (pf_out s)) (pf_out t)))\<rparr> else t)"
  using assms(1,2) put_chars_num [of n s cs] unfolding t_def cs_def neg_def
  by (auto simp: put_integer_def put_digits_eq Let_def split: if_splits)

lemma put_integer_inv [inv_intros]:
  assumes "pf_inv n s" "put_integer n v b cp sg mx pad0 s = Inr s'"
  shows "pf_inv n s'"
proof (cases "v = 0")
  case True
  then show ?thesis using assms put_char_inv by (auto simp: put_integer_def)
next
  case False
  obtain cs t where t: "t = foldl (\<lambda>s c. put_char n c s) s cs"
      "s' = (if \<not> pf_full t \<and> \<not> pf_null t then t\<lparr>pf_out := take (length (pf_out s)) (pf_out t) @
        rev (take (length cs) (drop (length (pf_out s)) (pf_out t)))\<rparr> else t)"
    using put_integer_eq [OF assms(2) False] by blast
  have inv: "pf_inv n t" using put_chars_inv [OF assms(1)] t(1) by simp
  have num: "pf_num t = pf_num s + length cs" using put_chars_num t(1) by simp
  have "length (take (length (pf_out s)) (pf_out t) @ rev (take (length cs) (drop (length (pf_out s)) (pf_out t)))) =
      length (pf_out t)"
    if "\<not> pf_full t"
  proof -
    have "pf_num t < n \<or> pf_num t = 0" using that inv by (auto simp: pf_inv_def)
    then have "length (pf_out t) = pf_num t" "length (pf_out s) = pf_num s"
      using inv assms(1) num by (auto simp: pf_inv_def)
    then show ?thesis using num by simp
  qed
  then show ?thesis using inv t(2) by (auto simp: pf_inv_def simp del: length_append)
qed

lemma store_counts_inv:
  "store_counts ws args s = Inr (args', s') \<Longrightarrow> pf_inv n s \<Longrightarrow> pf_inv n s'"
  by (induction ws arbitrary: args s) (fastforce simp: rbind_eq_Inr_iff pf_inv_def)+

lemma convert_inv [inv_intros]:
  assumes "pf_inv n s" "convert n c pad0 l args s = Inr (args', s')"
  shows "pf_inv n s'"
  using assms
  by (auto simp: convert_def rbind_eq_Inr_iff intro: inv_intros store_counts_inv split: if_splits prod.splits)

lemma format_loop_inv: "format_loop n fmt args s = Inr s' \<Longrightarrow> pf_inv n s \<Longrightarrow> pf_inv n s'"
proof (induction n fmt args s rule: format_loop.induct)
  case (1 n args s)
  then show ?case by (simp add: format_loop.simps)
next
  case (2 n c fmt args s)
  show ?case
  proof (cases "c \<noteq> 37")
    case True
    then show ?thesis using 2 by (simp add: format_loop.simps put_char_inv)
  next
    case percent: False
    then obtain d rest0 where fmt: "fmt = d # rest0" using 2(4) by (cases fmt) (auto simp: format_loop.simps)
    show ?thesis
    proof (cases "d = 37")
      case True
      then show ?thesis using 2(2) [of d rest0] 2(4,5) percent fmt by (simp add: format_loop.simps put_char_inv)
    next
      case False
      obtain pad0 f1 l f2 where g: "get_flags fmt = (pad0, f1)" "get_length f1 = (l, f2)" by fastforce
      obtain conv rest args' s1 where r: "f2 = conv # rest" "convert n conv pad0 l args s = Inr (args', s1)"
          "format_loop n rest args' s1 = Inr s'"
        using 2(4) percent False g fmt
        by (cases f2) (auto simp: format_loop.simps rbind_eq_Inr_iff)
      show ?thesis using 2(3) [of d rest0] percent fmt False g r convert_inv [OF 2(5) r(2)] by fastforce
    qed
  qed
qed

subsection \<open>Numbers read back\<close>

definition digit_value :: "u8 \<Rightarrow> nat" where
  "digit_value c = (if c \<ge> 97 then unat c - 97 + 10 else if c \<ge> 65 then unat c - 65 + 10 else unat c - 48)"

definition parse_number :: "nat \<Rightarrow> u8 list \<Rightarrow> nat" where
  "parse_number b cs = foldl (\<lambda>a c. a * b + digit_value c) 0 cs"

lemma digit_value_char:
  assumes "r < 16" shows "digit_value (digit_char cp r) = r"
proof -
  have "r = 0 \<or> r = 1 \<or> r = 2 \<or> r = 3 \<or> r = 4 \<or> r = 5 \<or> r = 6 \<or> r = 7 \<or> r = 8 \<or> r = 9 \<or>
      r = 10 \<or> r = 11 \<or> r = 12 \<or> r = 13 \<or> r = 14 \<or> r = 15" using assms by arith
  then show ?thesis by (elim disjE) (simp_all add: digit_value_def digit_char_def)
qed

lemma digits_spec:
  assumes "2 \<le> b"
  shows "(\<forall>d \<in> set (digits b pad0 mx k v). d < b) \<and> foldr (\<lambda>d a. d + b * a) (digits b pad0 mx k v) 0 = v \<and>
    (v \<noteq> 0 \<longrightarrow> digits b pad0 mx k v \<noteq> []) \<and> (pad0 \<longrightarrow> mx \<le> k + length (digits b pad0 mx k v))"
  using assms
proof (induction b pad0 mx k v rule: digits.induct)
  case (1 b pad0 mx k v)
  show ?case
  proof (cases "v \<noteq> 0 \<or> pad0 \<and> k < mx")
    case True
    then have c: "2 \<le> b \<and> (v \<noteq> 0 \<or> pad0 \<and> k < mx)" using 1(2) by blast
    show ?thesis unfolding digits_unfold(1) [OF 1(2) True] using 1(1) [OF c 1(2)] 1(2) by auto
  next
    case False
    then show ?thesis using digits_unfold(2) [of b v pad0 k mx] by auto
  qed
qed

lemma parse_digits:
  assumes "2 \<le> b" "b \<le> 16"
  shows "parse_number b (rev (map (digit_char cp) (digits b pad0 mx k v))) = v"
proof -
  have "foldr (\<lambda>c a. a * b + digit_value c) (map (digit_char cp) ds) 0 = foldr (\<lambda>d a. d + b * a) ds 0"
    if "\<forall>d \<in> set ds. d < b" for ds
    using that assms(2) by (induction ds) (auto simp: digit_value_char algebra_simps)
  then show ?thesis
    using digits_spec [OF assms(1)] by (simp add: parse_number_def foldl_conv_foldr)
qed

lemma unat_magnitude:
  assumes "sint (v :: u64) < 0" shows "unat (- v) = nat (- sint v)"
proof -
  have r: "- (2 ^ 63) \<le> sint v" using sint_ge [of v] by simp
  have "v = of_int (sint v)" by simp
  then have "- v = of_int (- sint v)" by (metis of_int_minus)
  then have "uint (- v) = uint (of_int (- sint v) :: u64)" by (simp only:)
  also have "\<dots> = take_bit 64 (- sint v)" unfolding unsigned_of_int by simp
  also have "\<dots> = - sint v" using r assms by (intro take_bit_int_eq_self) auto
  finally show ?thesis by (simp add: unat_eq_nat_uint)
qed

subsection \<open>Properties\<close>

lemma int_of_size_small: "k < 2 ^ 31 \<Longrightarrow> int_of_size k = int k"
proof -
  assume "k < 2 ^ 31"
  then have "int k < 2 ^ 31" by simp
  then have "signed_take_bit 31 (int k) = int k" by (intro signed_take_bit_int_eq_self) simp_all
  then show ?thesis unfolding int_of_size_def by (simp add: signed_of_nat)
qed

lemma vsnprintf_shape:
  assumes "vsnprintf False n (Some fmt) args = Inr (out, r, st)" "0 < n"
  obtains k where "r = int_of_size k" "length out \<le> n" "if k < n then length out = k + 1 \<and> last out = 0 else length out = n - 1"
proof -
  obtain s where s: "format_loop n fmt args (new_printf False) = Inr s" "r = int_of_size (pf_num s)"
      "out = (if \<not> pf_full s then pf_out s @ [0] else pf_out s)"
    using assms by (auto simp: vsnprintf_def rbind_eq_Inr_iff)
  have "pf_inv n s" by (rule format_loop_inv [OF s(1) pf_inv_new])
  then have "length out \<le> n" "if pf_num s < n then length out = pf_num s + 1 \<and> last out = 0 else length out = n - 1"
    using s(3) assms(2) by (auto simp: pf_inv_def)
  then show ?thesis by (rule that [OF s(2)])
qed

subsection \<open>Buffers of different sizes\<close>

text \<open>The same format into two buffers: the counts and the stores of \<^verbatim>\<open>%n\<close> agree, and so do the bytes as long
  as both buffers have room.\<close>

definition alike :: "nat \<Rightarrow> nat \<Rightarrow> printf_state \<Rightarrow> printf_state \<Rightarrow> bool" where
  "alike n m s t \<longleftrightarrow> pf_inv n s \<and> pf_inv m t \<and> pf_num s = pf_num t \<and> pf_stores s = pf_stores t \<and>
     (pf_num s < n \<and> pf_num s < m \<longrightarrow> pf_out s = pf_out t)"

fun agree :: "('a \<Rightarrow> 'b \<Rightarrow> bool) \<Rightarrow> 'a res \<Rightarrow> 'b res \<Rightarrow> bool" where
  "agree R (Inr x) (Inr y) = R x y"
| "agree R (Inl e) (Inl f) = (e = f)"
| "agree R _ _ = False"

lemma agree_rbind: "agree R r r' \<Longrightarrow> (\<And>x y. R x y \<Longrightarrow> agree Q (f x) (g y)) \<Longrightarrow> agree Q (rbind r f) (rbind r' g)"
  by (cases r; cases r') auto

lemma agree_same: "(\<And>x. r = Inr x \<Longrightarrow> agree Q (f x) (g x)) \<Longrightarrow> agree Q (rbind r f) (rbind r g)"
  by (cases r) auto

lemma alike_put_char: "alike n m s t \<Longrightarrow> alike n m (put_char n c s) (put_char m c t)"
  unfolding alike_def using put_char_inv [of n s c] put_char_inv [of m t c]
  by (auto simp: put_char_def Let_def pf_inv_def)

lemma alike_put_chars: "alike n m s t \<Longrightarrow> alike n m (foldl (\<lambda>s c. put_char n c s) s cs) (foldl (\<lambda>s c. put_char m c s) t cs)"
  by (induction cs arbitrary: s t) (simp_all add: alike_put_char)

lemma put_integer_stores:
  "put_integer n v b cp sg mx pad0 s = Inr s' \<Longrightarrow> pf_stores s' = pf_stores s"
proof -
  have "pf_stores (foldl (\<lambda>s c. put_char n c s) s cs) = pf_stores s" for cs
    by (induction cs arbitrary: s) (simp_all add: put_char_def Let_def)
  moreover have "pf_stores (put_char n c s) = pf_stores s" for c s by (simp add: put_char_def Let_def)
  ultimately show "put_integer n v b cp sg mx pad0 s = Inr s' \<Longrightarrow> pf_stores s' = pf_stores s"
    by (auto simp: put_integer_def put_digits_eq Let_def split: if_splits)
qed

lemma alike_put_integer:
  assumes a: "alike n m s t"
  shows "agree (alike n m) (put_integer n v b cp sg mx pad0 s) (put_integer m v b cp sg mx pad0 t)"
proof (cases "v = 0 \<or> (sg \<and> sint v < 0) \<and> v = push_bit 63 1")
  case True
  then show ?thesis using alike_put_char [OF a] by (auto simp: put_integer_def Let_def)
next
  case False
  then obtain s' t' where r: "put_integer n v b cp sg mx pad0 s = Inr s'" "put_integer m v b cp sg mx pad0 t = Inr t'"
    by (simp add: put_integer_def Let_def)
  define cs where "cs = map (digit_char cp) (digits b pad0 mx 0 (unat (if sg \<and> sint v < 0 then - v else v))) @
      (if sg \<and> sint v < 0 then [45] else [])"
  let ?s = "foldl (\<lambda>s c. put_char n c s) s cs" and ?t = "foldl (\<lambda>s c. put_char m c s) t cs"
  have v: "v \<noteq> 0" using False by simp
  note eq = put_integer_eq [OF r(1) v, folded cs_def] put_integer_eq [OF r(2) v, folded cs_def]
  have num: "pf_num s' = pf_num s + length cs" "pf_num t' = pf_num t + length cs"
    unfolding eq by (simp_all add: put_chars_num)
  have st: "pf_stores s' = pf_stores s" "pf_stores t' = pf_stores t" using put_integer_stores r by blast+
  have inv: "pf_inv n s'" "pf_inv m t'" using put_integer_inv r a by (auto simp: alike_def)
  have "pf_out s' = pf_out t'" if fit: "pf_num s' < n" "pf_num s' < m"
  proof -
    have same: "pf_out s = pf_out t" "pf_num s = pf_num t" using a fit num by (auto simp: alike_def)
    have ns: "\<not> pf_null s" "\<not> pf_null t" "pf_inv n s" "pf_inv m t" using a by (simp_all add: alike_def pf_inv_def)
    have o: "pf_out ?s = pf_out s @ cs" "pf_full ?s = pf_full s" "pf_out ?t = pf_out t @ cs" "pf_full ?t = pf_full t"
      using put_chars_out [of s cs n] put_chars_out [of t cs m] ns fit num same(2) by simp_all
    have nn: "\<not> pf_null ?s" "\<not> pf_null ?t" using put_chars_inv [OF ns(3), of cs] put_chars_inv [OF ns(4), of cs] by (simp_all add: pf_inv_def)
    have nf: "\<not> pf_full s" "\<not> pf_full t" using ns(3,4) fit num same(2) by (auto simp: pf_inv_def)
    show ?thesis unfolding eq using o nn nf same by simp
  qed
  then have "alike n m s' t'" using inv num st a by (simp add: alike_def)
  then show ?thesis using r by simp
qed

lemma alike_store_counts:
  "alike n m s t \<Longrightarrow> agree (\<lambda>(as, s') (bs, t'). as = bs \<and> alike n m s' t') (store_counts ws args s) (store_counts ws args t)"
proof (induction ws arbitrary: args s t)
  case (Cons w ws)
  have "alike n m (s\<lparr>pf_stores := pf_stores s @ [(p, w, pf_num s)]\<rparr>) (t\<lparr>pf_stores := pf_stores t @ [(p, w, pf_num t)]\<rparr>)" for p
    using Cons.prems by (simp add: alike_def pf_inv_def)
  then show ?case unfolding store_counts.simps by (intro agree_same) (auto intro: Cons.IH)
qed simp

lemma alike_convert:
  assumes a: "alike n m s t"
  shows "agree (\<lambda>(as, s') (bs, t'). as = bs \<and> alike n m s' t') (convert n c pad0 l args s) (convert m c pad0 l args t)"
proof -
  have int: "agree (\<lambda>(as, s') (bs, t'). as = bs \<and> alike n m s' t')
      (rbind r (\<lambda>(w, rest). rbind (put_integer n w b cp sg mx pd s) (\<lambda>s'. Inr (rest, s'))))
      (rbind r (\<lambda>(w, rest). rbind (put_integer m w b cp sg mx pd t) (\<lambda>s'. Inr (rest, s'))))"
    for r :: "(u64 \<times> va_value list) res" and b cp sg mx pd
    by (intro agree_same) (auto intro: agree_rbind [OF alike_put_integer [OF a]])
  have str: "agree (\<lambda>(as, s') (bs, t'). as = bs \<and> alike n m s' t')
      (rbind r (\<lambda>(cs, rest). Inr (rest, foldl (\<lambda>s c. put_char n c s) s cs))) (rbind r (\<lambda>(cs, rest). Inr (rest, foldl (\<lambda>s c. put_char m c s) t cs)))"
    for r :: "(u8 list \<times> va_value list) res" by (intro agree_same) (auto intro: alike_put_chars [OF a])
  have chr: "agree (\<lambda>(as, s') (bs, t'). as = bs \<and> alike n m s' t')
      (rbind r (\<lambda>(w, rest). Inr (rest, put_char n (ucast w) s))) (rbind r (\<lambda>(w, rest). Inr (rest, put_char m (ucast w) t)))"
    for r :: "(u64 \<times> va_value list) res" by (intro agree_same) (auto intro: alike_put_char [OF a])
  show ?thesis unfolding convert_def by (simp add: int str chr alike_store_counts [OF a] a)
qed

lemma alike_format_loop:
  "alike n m s t \<Longrightarrow> agree (alike n m) (format_loop n fmt args s) (format_loop m fmt args t)"
proof (induction n fmt args s arbitrary: t rule: format_loop.induct)
  case (1 n args s)
  then show ?case by (simp add: format_loop.simps)
next
  case (2 n c fmt args s)
  note chr = alike_put_char [OF 2(4)]
  show ?case
  proof (cases "c \<noteq> 37")
    case True
    then show ?thesis using 2(1) [OF True chr] by (simp add: format_loop.simps)
  next
    case percent: False
    show ?thesis
    proof (cases fmt)
      case Nil
      then show ?thesis using percent by (simp add: format_loop.simps)
    next
      case fmt: (Cons d rest0)
      show ?thesis
      proof (cases "d = 37")
        case True
        then show ?thesis using 2(2) [OF percent fmt True chr] percent fmt by (simp add: format_loop.simps)
      next
        case False
        obtain pad0 f1 l f2 where g: "get_flags fmt = (pad0, f1)" "get_length f1 = (l, f2)" by fastforce
        note IH = 2(3) [OF percent fmt False g(1) [symmetric] g(2) [symmetric]]
        show ?thesis
        proof (cases f2)
          case Nil
          then show ?thesis using percent False fmt g by (simp add: format_loop.simps)
        next
          case conv: (Cons cv rest)
          note step = alike_convert [OF 2(4), of cv pad0 l args]
          have "agree (alike n m) (rbind (convert n cv pad0 l args s) (\<lambda>(args', s'). format_loop n rest args' s'))
              (rbind (convert m cv pad0 l args t) (\<lambda>(args', s'). format_loop m rest args' s'))"
          proof (cases "convert n cv pad0 l args s")
            case (Inl e)
            then show ?thesis using step by (cases "convert m cv pad0 l args t") auto
          next
            case s1: (Inr x)
            obtain args' s' where x: "x = (args', s')" by (cases x)
            obtain t' where t': "convert m cv pad0 l args t = Inr (args', t')" "alike n m s' t'"
              using step s1 x by (cases "convert m cv pad0 l args t") auto
            show ?thesis using IH [OF conv s1 x [symmetric] t'(2)] s1 x t'(1) by simp
          qed
          then show ?thesis using percent False fmt g conv by (simp add: format_loop.simps)
        qed
      qed
    qed
  qed
qed

subsection \<open>Properties of formatted output\<close>

text \<open>
  C22. \<^verbatim>\<open>vsnprintf\<close> and the size of its buffer: a format that can be formatted into some buffer has a text, the same for every
  buffer. Into every buffer larger than the text it stores the text and its terminator. Into a buffer of \<open>n\<close> bytes that
  is not larger it stores \<open>n - 1\<close> bytes and no terminator, and nothing outside the buffer but the counts of \<^verbatim>\<open>%n\<close>, which are
  the same for every buffer. The value returned is always the length of the whole text, converted to \<^verbatim>\<open>int\<close>.
\<close>

theorem vsnprintf_bounded:
  assumes "vsnprintf False n (Some fmt) args = Inr (out, r, stores)" "0 < n"
  shows "\<exists>text. (\<forall>m > length text. vsnprintf False m (Some fmt) args = Inr (text @ [0], int_of_size (length text), stores)) \<and>
    r = int_of_size (length text) \<and> (if length text < n then out = text @ [0] else length out = n - 1)"
proof -
  obtain s where s: "format_loop n fmt args (new_printf False) = Inr s" "r = int_of_size (pf_num s)" "stores = pf_stores s"
      "out = (if \<not> pf_full s then pf_out s @ [0] else pf_out s)"
    using assms by (auto simp: vsnprintf_def rbind_eq_Inr_iff)
  have new: "alike k m (new_printf False) (new_printf False)" for k m by (simp add: alike_def pf_inv_new)
  have run: "\<exists>t. format_loop m fmt args (new_printf False) = Inr t \<and> alike n m s t" for m
    using alike_format_loop [OF new, of n m fmt args] s(1) by (cases "format_loop m fmt args (new_printf False)") auto
  define k where "k = pf_num s"
  obtain t0 where t0: "format_loop (Suc k) fmt args (new_printf False) = Inr t0" "alike n (Suc k) s t0" using run by blast
  let ?text = "pf_out t0"
  have len: "length ?text = k" using t0(2) by (simp add: alike_def pf_inv_def k_def)
  have all: "vsnprintf False m (Some fmt) args = Inr (?text @ [0], int_of_size k, stores)" if m: "k < m" for m
  proof -
    obtain t where t: "format_loop m fmt args (new_printf False) = Inr t" "alike n m s t" using run by blast
    have "alike (Suc k) m t0 t"
      using alike_format_loop [OF new, of "Suc k" m fmt args] t0(1) t(1) by simp
    then have "pf_out t = ?text" using m t0(2) by (simp add: alike_def k_def)
    moreover have "pf_num t = k" "pf_stores t = stores" "\<not> pf_full t"
      using t(2) m s(3) by (auto simp: alike_def pf_inv_def k_def)
    ultimately show ?thesis using t(1) m by (simp add: vsnprintf_def)
  qed
  have "if k < n then out = ?text @ [0] else length out = n - 1"
  proof (cases "k < n")
    case True
    then show ?thesis using all [OF True] assms(1) by simp
  next
    case False
    then show ?thesis using t0(2) s(4) assms(2) by (auto simp: alike_def pf_inv_def k_def)
  qed
  then show ?thesis using all s(2) len by (intro exI [of _ ?text]) (simp add: k_def)
qed

text \<open>A text of five characters and a count cut off at four bytes.\<close>

theorem vsnprintf_bounded_witness:
  "vsnprintf False 4 (Some [97, 37, 100, 37, 110]) [VInt 1234, VPtr 0x7000] = Inr ([97, 52, 51], 5, [(0x7000, 4, 5)]) \<and>
   (\<exists>t. int_of_size (length t) = 5 \<and> (\<forall>m > length t.
     vsnprintf False m (Some [97, 37, 100, 37, 110]) [VInt 1234, VPtr 0x7000] = Inr (t @ [0], 5, [(0x7000, 4, 5)])))"
proof -
  let ?f = "[97, 37, 100, 37, 110] :: u8 list" and ?a = "[VInt 1234, VPtr 0x7000]"
  have five: "int_of_size (Suc (Suc (Suc (Suc (Suc 0))))) = 5" proof -
    have "Suc (Suc (Suc (Suc (Suc 0)))) = 5" by simp
    then show ?thesis using int_of_size_small [of 5] by (simp only:) simp
  qed
  have eval: "vsnprintf False 4 (Some ?f) ?a = Inr ([97, 52, 51], 5, [(0x7000, 4, 5)])"
    by (simp add: vsnprintf_def format_loop.simps new_printf_def put_char_def get_flags_def get_length_def
      convert_def signed_integer_arg_of_length_def va_int_def va_ptr_def n_widths_def put_integer_def put_digits.simps digit_char_def
      length_to_digits_def Let_def five)
  have "(0 :: nat) < 4" by simp
  from vsnprintf_bounded [OF eval this] obtain t where
    t: "\<forall>m > length t. vsnprintf False m (Some ?f) ?a = Inr (t @ [0], int_of_size (length t), [(0x7000, 4, 5)])"
      "5 = int_of_size (length t)" by (elim exE conjE)
  show ?thesis using t(1) unfolding t(2) [symmetric] eval by (intro conjI refl exI [of _ t]) (rule t(2) [symmetric], assumption)
qed

text \<open>
  C23. Integers print and read back: when the buffer does not fill, \<^verbatim>\<open>put_integer\<close> in
  base 8, 10 or 16 appends a minus sign exactly for a negative signed value and then digits
  whose value in that base is the magnitude of the argument; with the zero flag there are at
  least as many digits as the width asks for, unless the value is zero.
\<close>

theorem put_integer_reads_back:
  assumes "put_integer n v b cp sg mx pad0 s = Inr s'" "b = 8 \<or> b = 10 \<or> b = 16"
    "pf_inv n s" "\<not> pf_full s'"
  shows "\<exists>ds. pf_out s' = pf_out s @ (if sg \<and> sint v < 0 then [45] else []) @ ds \<and> ds \<noteq> [] \<and>
    parse_number b ds = (if sg \<and> sint v < 0 then nat (- sint v) else unat v) \<and>
    (pad0 \<and> v \<noteq> 0 \<longrightarrow> mx \<le> length ds)"
proof (cases "v = 0")
  case True
  then show ?thesis
    using assms by (auto simp: put_integer_def put_char_def Let_def pf_inv_def parse_number_def digit_value_def
      split: if_splits)
next
  case False
  define neg where "neg = (sg \<and> sint v < 0)"
  define ds where "ds = digits b pad0 mx 0 (unat (if neg then - v else v))"
  define cs where "cs = map (digit_char cp) ds @ (if neg then [45] else [])"
  define t where "t = foldl (\<lambda>s c. put_char n c s) s cs"
  have s': "s' = (if \<not> pf_full t \<and> \<not> pf_null t then t\<lparr>pf_out := take (length (pf_out s)) (pf_out t) @
      rev (take (length cs) (drop (length (pf_out s)) (pf_out t)))\<rparr> else t)"
    using put_integer_eq [OF assms(1) False] by (simp add: neg_def ds_def cs_def t_def)
  have inv: "pf_inv n t" using put_chars_inv [OF assms(3)] by (simp add: t_def)
  have nf: "\<not> pf_full t" using s' assms(4) by (auto split: if_splits)
  have b: "2 \<le> b" "b \<le> 16" using assms(2) by auto
  have mag: "unat (if neg then - v else v) = (if neg then nat (- sint v) else unat v)"
    using unat_magnitude [of v] by (simp add: neg_def)
  have "unat (if neg then - v else v) \<noteq> 0" using False by (simp add: unat_eq_0)
  then have len: "ds \<noteq> []" "pad0 \<longrightarrow> mx \<le> length ds"
    using digits_spec [OF b(1), of pad0 mx 0 "unat (if neg then - v else v)"] by (auto simp: ds_def)
  have "pf_num t = pf_num s + length cs" by (simp add: t_def put_chars_num)
  then have "pf_num s + length cs < n" using nf inv len(1) by (auto simp: pf_inv_def cs_def)
  then have "pf_out t = pf_out s @ cs"
    using put_chars_out [of s cs n] assms(3) by (simp add: t_def pf_inv_def)
  then have "pf_out s' = pf_out s @ rev cs" using s' nf inv by (simp add: pf_inv_def)
  then have "pf_out s' = pf_out s @ (if neg then [45] else []) @ rev (map (digit_char cp) ds)"
    by (simp add: cs_def)
  moreover have "parse_number b (rev (map (digit_char cp) ds)) = (if neg then nat (- sint v) else unat v)"
    using parse_digits [OF b, of cp pad0 mx 0] mag by (simp add: ds_def)
  ultimately show ?thesis using len by (intro exI [of _ "rev (map (digit_char cp) ds)"]) (auto simp: neg_def)
qed

theorem put_integer_reads_back_witness:
  "\<exists>s'. put_integer 16 (- 42) 10 False True 9 False (new_printf False) = Inr s' \<and>
     pf_out s' = [45] @ [52, 50] \<and> parse_number 10 [52, 50] = 42"
proof -
  let ?s' = "\<lparr>pf_out = [45, 52, 50], pf_num = 3, pf_full = False, pf_null = False, pf_stores = []\<rparr>"
  have run: "put_integer 16 (- 42) 10 False True 9 False (new_printf False) = Inr ?s'"
    by (simp add: put_integer_def new_printf_def put_digits.simps put_char_def digit_char_def Let_def)
  have "\<exists>ds. pf_out ?s' = pf_out (new_printf False) @ [45] @ ds \<and> parse_number 10 ds = 42"
    using put_integer_reads_back [OF run _ pf_inv_new] by auto
  then have "parse_number 10 [52, 50] = 42" by (simp add: new_printf_def)
  then show ?thesis using run by simp
qed

text \<open>
  The kernel's \<^verbatim>\<open>printf\<close> never prints past its static buffer: the last byte of the
  512-byte buffer is never stored to, so a text that is cut off is still terminated, and what
  is printed is the text that was formatted up to its first zero byte.
\<close>

theorem vfprintf_terminated:
  assumes "length (printf_buffer s) = 0x200" "printf_buffer s ! 0x1FF = 0"
    "vsnprintf False 0x200 (Some msg) args = Inr (out, r, st)" "f \<noteq> Other_file"
  shows "\<exists>s'. vfprintf f msg args s = Inr s' \<and> length (printf_buffer s') = 0x200 \<and> printf_buffer s' ! 0x1FF = 0 \<and>
    debug_text s' = debug_text s @ takeWhile (\<lambda>c. c \<noteq> 0) out \<and>
    vga_text s' = (if f = Stdout then vga_text s @ takeWhile (\<lambda>c. c \<noteq> 0) out else vga_text s)"
proof -
  let ?b = "out @ drop (length out) (printf_buffer s)" and ?nz = "\<lambda>c :: u8. c \<noteq> 0"
  obtain k where bound: "length out \<le> 0x200" and shape: "if k < 0x200 then length out = k + 1 \<and> last out = 0 else length out = 0x200 - 1"
    by (rule vsnprintf_shape [OF assms(3)]) simp_all
  have ends: "out \<noteq> [] \<and> last out = 0 \<or> length out = 0x1FF" using shape by (cases "k < 0x200") auto
  have drop: "drop 0x1FF (printf_buffer s) = [0]"
  proof (rule nth_equalityI)
    show "length (drop 0x1FF (printf_buffer s)) = length [0 :: u8]" using assms(1) by simp
    show "drop 0x1FF (printf_buffer s) ! i = [0] ! i" if "i < length (drop 0x1FF (printf_buffer s))" for i
    proof -
      have "i = 0" using that assms(1) by simp
      then show ?thesis using assms(1,2) by simp
    qed
  qed
  have tail: "0 \<in> set ?b \<and> takeWhile ?nz ?b = takeWhile ?nz out"
  proof (cases "0 \<in> set out")
    case True
    then show ?thesis by (auto simp: takeWhile_append)
  next
    case False
    then have "length out = 0x1FF" using ends last_in_set [of out] by fastforce
    then have b: "?b = out @ [0]" using drop by simp
    have nz: "\<forall>x \<in> set out. ?nz x" using False by auto
    have tw: "takeWhile ?nz out = out" using nz by (simp only: takeWhile_eq_all_conv)
    have "takeWhile ?nz (out @ [0]) = out @ takeWhile ?nz [0]" using nz by (intro takeWhile_append2) blast
    then show ?thesis unfolding b tw by simp
  qed
  have last: "?b ! 0x1FF = 0"
  proof (cases "length out = 0x200")
    case True
    then have "last out = 0" "out \<noteq> []" using ends by auto
    then show ?thesis using last_conv_nth [of out] True by (simp add: nth_append)
  next
    case False
    then show ?thesis using bound assms(1,2) by (simp add: nth_append)
  qed
  have len: "length ?b = 0x200" using bound assms(1) by simp
  show ?thesis
    using assms(3,4) tail last len
    by (cases f) (simp_all add: vfprintf_def buffer_string_def fputs_def Let_def)
qed

theorem vfprintf_terminated_witness:
  "\<exists>s'. vfprintf Stderr [104, 105] [] \<lparr>printf_buffer = replicate 0x200 0, vga_text = [], debug_text = [], count_stores = []\<rparr> = Inr s' \<and>
     debug_text s' = [104, 105]"
proof -
  let ?s = "\<lparr>printf_buffer = replicate 0x200 0, vga_text = [], debug_text = [], count_stores = []\<rparr>"
  have out: "vsnprintf False 0x200 (Some [104, 105]) [] = Inr ([104, 105, 0], int_of_size 2, [])"
    by (simp add: vsnprintf_def format_loop.simps put_char_def new_printf_def Let_def) (simp add: numeral_2_eq_2)
  have "length (printf_buffer ?s) = 0x200" "printf_buffer ?s ! 0x1FF = 0"
    by simp_all
  from vfprintf_terminated [OF this out, of Stderr] show ?thesis by auto
qed

end
