(* ===== verification/Shell.thy ===== *)
theory Shell
  imports Screen Stdio Ring_Buffer Port_IO
begin

text \<open>
  The keyboard (src/kernel/input.cpp) and the shell (src/kernel/minishell.cpp). The event pump is
  a pair of ring buffers of \<open>Ring_Buffer\<close> behind a mutex; the shell edits a line in its
  command buffer and echoes it on the screen of \<open>Screen\<close>. A command that leaves these components is
  reported as a value of \<open>shell_action\<close>.
\<close>

subsection \<open>The keyboard\<close>

record key_event =
  code :: u8
  pressed :: bool

text \<open>A subscriber is the address of its handler.\<close>

record event_pump =
  events :: "key_event ring_buffer"
  subscribers :: "u64 ring_buffer"

record keyboard =
  main_event_pump :: event_pump
  pump_mutex :: mutex
  kbd_trace :: trace

definition new_event_pump :: event_pump where
  "new_event_pump = \<lparr>events = rb_new 0x100 \<lparr>code = 0, pressed = False\<rparr>, subscribers = rb_new 0x100 0\<rparr>"

definition scancode_to_key :: "u8 list" where
  "scancode_to_key =
     [0, 0x20, 0x31, 0x32, 0x33, 0x34, 0x35, 0x36, 0x37, 0x38, 0x39, 0x30,
      0x2D, 0x3D, 0x08, 0x09, 0x71, 0x77, 0x65, 0x72, 0x74, 0x79, 0x75, 0x69,
      0x6F, 0x70, 0x5B, 0x5D, 0x0A, 0x0, 0x61, 0x73, 0x64, 0x66, 0x67, 0x68,
      0x6A, 0x6B, 0x6C, 0x3B, 0x27, 0x60, 0x1, 0x5C, 0x7A, 0x78, 0x63, 0x76,
      0x62, 0x6E, 0x6D, 0x2C, 0x2E, 0x2F, 0x2, 0, 0x2, 0x20] @ replicate 6 0"

definition ready_to_read :: "hardware \<Rightarrow> trace \<Rightarrow> bool \<times> trace" where
  "ready_to_read hw t = (let (v, t1) = inb hw 0x64 t in (v AND 1 = 1, t1))"

definition push_key :: "key_event \<Rightarrow> keyboard \<Rightarrow> keyboard" where
  "push_key e k = (case try_acquire (pump_mutex k) of
     (False, m) \<Rightarrow> k
   | (True, m) \<Rightarrow> k\<lparr>main_event_pump := (main_event_pump k)\<lparr>events := snd (push_back (events (main_event_pump k)) e)\<rparr>,
       pump_mutex := release m\<rparr>)"

text \<open>The keyboard interrupt; \<open>polls\<close> bounds the number of bytes the device has ready.\<close>

fun keyboard_handle_interrupt :: "nat \<Rightarrow> hardware \<Rightarrow> keyboard \<Rightarrow> keyboard res" where
  "keyboard_handle_interrupt 0 hw k = Inl (Blocked ''keyboard'')"
| "keyboard_handle_interrupt (Suc polls) hw k =
     (case ready_to_read hw (kbd_trace k) of
        (False, t1) \<Rightarrow> Inr (k\<lparr>kbd_trace := t1\<rparr>)
      | (True, t1) \<Rightarrow>
          let (scancode, t2) = inb hw 0x60 t1; k2 = k\<lparr>kbd_trace := t2\<rparr> in
          if scancode = 0 then Inr k2
          else let is_pressed = (scancode AND 0x80 = 0);
                   scancode_offset = (if is_pressed then scancode else scancode AND NOT 0x80)
               in keyboard_handle_interrupt polls hw
                    (if scancode_offset < 0x40
                     then push_key \<lparr>code = scancode_to_key ! unat scancode_offset, pressed = is_pressed\<rparr> k2
                     else k2))"

definition subscribe :: "u64 \<Rightarrow> keyboard \<Rightarrow> keyboard res" where
  "subscribe h k = (case try_acquire (pump_mutex k) of
     (False, m) \<Rightarrow> Inl (Blocked ''main_event_pump'')
   | (True, m) \<Rightarrow> Inr (k\<lparr>main_event_pump := (main_event_pump k)\<lparr>subscribers := snd (push_back (subscribers (main_event_pump k)) h)\<rparr>,
       pump_mutex := release m\<rparr>))"

text \<open>One pass of \<^verbatim>\<open>dispatch_key_events\<close>: \<open>handle\<close> runs a subscriber on an event in the
  rest of the kernel.\<close>

fun notify :: "(u64 \<Rightarrow> key_event \<Rightarrow> 's \<Rightarrow> 's res) \<Rightarrow> key_event \<Rightarrow> u64 list \<Rightarrow> 's \<Rightarrow> 's res" where
  "notify handle e [] s = Inr s"
| "notify handle e (h # hs) s = rbind (handle h e s) (notify handle e hs)"

function drain :: "(u64 \<Rightarrow> key_event \<Rightarrow> 's \<Rightarrow> 's res) \<Rightarrow> event_pump \<Rightarrow> 's \<Rightarrow> (event_pump \<times> 's) res" where
  "drain handle pump s =
     (case pop_front (events pump) of
        (None, _) \<Rightarrow> Inr (pump, s)
      | (Some e, evs) \<Rightarrow>
          (case rb_iterate (subscribers pump) of
             None \<Rightarrow> Inl (Blocked ''subscribers'')
           | Some hs \<Rightarrow> rbind (notify handle e hs s) (\<lambda>s1. drain handle (pump\<lparr>events := evs\<rparr>) s1)))"
  by pat_completeness auto
termination
  by (relation "measure (\<lambda>(handle, pump, s). rb_count (events pump))")
     (auto simp: pop_front_def rb_empty_def rb_size_def split: if_splits)

declare drain.simps [simp del]

definition dispatch_pass :: "(u64 \<Rightarrow> key_event \<Rightarrow> 's \<Rightarrow> 's res) \<Rightarrow> keyboard \<Rightarrow> 's \<Rightarrow> (keyboard \<times> 's) res" where
  "dispatch_pass handle k s = (case try_acquire (pump_mutex k) of
     (False, m) \<Rightarrow> Inr (k, s)
   | (True, m) \<Rightarrow> rbind (drain handle (main_event_pump k) s) (\<lambda>(pump, s1).
       Inr (k\<lparr>main_event_pump := pump, pump_mutex := release m\<rparr>, s1)))"

subsection \<open>The line editor\<close>

record shell =
  command_buffer :: "u8 list"
  buffer_count :: nat
  shift_held :: bool

definition new_shell :: shell where
  "new_shell = \<lparr>command_buffer = replicate 0x100 0, buffer_count = 0, shift_held = False\<rparr>"

text \<open>\<^verbatim>\<open>UPPERS\<close> is the identity but for these characters.\<close>

definition upper_changes :: "(u8 \<times> u8) list" where
  "upper_changes = [(0x27, 0x22), (0x2C, 0x3C), (0x2D, 0x5F), (0x2E, 0x3E), (0x2F, 0x3F), (0x30, 0x29), (0x31, 0x21),
     (0x32, 0x40), (0x33, 0x23), (0x34, 0x24), (0x35, 0x25), (0x36, 0x5E), (0x37, 0x26), (0x38, 0x2A), (0x39, 0x28),
     (0x3B, 0x3A), (0x3D, 0x2B), (0x5B, 0x7B), (0x5C, 0x7C), (0x5D, 0x7D), (0x60, 0x7E)]"

definition UPPERS :: "u8 \<Rightarrow> u8" where
  "UPPERS c = (case map_of upper_changes c of Some d \<Rightarrow> d
     | None \<Rightarrow> if 0x61 \<le> c \<and> c \<le> 0x7A then c - 0x20 else c)"

definition buffer_write :: "nat \<Rightarrow> u8 \<Rightarrow> shell \<Rightarrow> shell res" where
  "buffer_write i c sh = (if i < length (command_buffer sh) then Inr (sh\<lparr>command_buffer := (command_buffer sh)[i := c]\<rparr>)
     else Inl (Undefined_behaviour ''outside the command buffer''))"

text \<open>Up to the return for keys other than Enter: whether Enter was pressed.\<close>

definition edit_key :: "key_event \<Rightarrow> shell \<times> console \<Rightarrow> (bool \<times> shell \<times> console) res" where
  "edit_key e = (\<lambda>(sh, v).
     if code e = 0x1 then Inr (False, sh\<lparr>shift_held := pressed e\<rparr>, v)
     else if \<not> pressed e then Inr (False, sh, v)
     else if code e = 0x0A then Inr (True, sh, v)
     else if isprint (sint (code e)) then
       let c = (if shift_held sh then UPPERS (code e) else code e) in
       if buffer_count sh < 0x100 then
         rbind (buffer_write (buffer_count sh) c sh) (\<lambda>sh1.
         rbind (vga_print_char c v) (\<lambda>v1. Inr (False, sh1\<lparr>buffer_count := buffer_count sh + 1\<rparr>, v1)))
       else Inr (False, sh, v)
     else if code e = 0x08 then
       if buffer_count sh > 0 then
         rbind (buffer_write (buffer_count sh) 0 sh) (\<lambda>sh1.
         rbind (vga_print_char (code e) v) (\<lambda>v1. Inr (False, sh1\<lparr>buffer_count := buffer_count sh - 1\<rparr>, v1)))
       else Inr (False, sh, v)
     else Inr (False, sh, v))"

datatype shell_action = Nothing | Dump_pages | List_directory | Cat "u8 list" | Shutdown | Start_user_task

text \<open>The text \<^verbatim>\<open>strcmp\<close> sees.\<close>

definition command_text :: "shell \<Rightarrow> u8 list" where
  "command_text sh = takeWhile (\<lambda>c. c \<noteq> 0) (command_buffer sh)"

definition run_command :: "u8 list \<Rightarrow> console \<Rightarrow> (shell_action \<times> console) res" where
  "run_command cmd v =
     (if cmd = ascii ''help'' then rbind (vga_puts (ascii ''commands: help, clear, pages, ls, shutdown(q)'') v) (\<lambda>v1. Inr (Nothing, v1))
      else if cmd = ascii ''clear'' then rbind (on_screen screen_clear v) (\<lambda>v1. Inr (Nothing, v1))
      else if cmd = ascii ''pages'' then Inr (Dump_pages, v)
      else if cmd = ascii ''ls'' then Inr (List_directory, v)
      else if take 4 cmd = ascii ''cat '' then Inr (Cat (drop 4 cmd), v)
      else if cmd = ascii ''shutdown'' \<or> cmd = ascii ''q'' then Inr (Shutdown, v)
      else if cmd = ascii ''test'' then Inr (Start_user_task, v)
      else rbind (vga_print (ascii ''error: `'') v) (\<lambda>v1.
           rbind (vga_print cmd v1) (\<lambda>v2.
           rbind (vga_puts (ascii ''`: command not recognized'') v2) (\<lambda>v3. Inr (Nothing, v3)))))"

definition handle_key_event :: "key_event \<Rightarrow> shell \<times> console \<Rightarrow> (shell_action \<times> shell \<times> console) res" where
  "handle_key_event e st =
     rbind (edit_key e st) (\<lambda>(enter_pressed, sh, v).
       if \<not> enter_pressed then Inr (Nothing, sh, v)
       else rbind (on_screen (\<lambda>s. Inr (advance_cursor_to_newline s)) v) (\<lambda>v1.
            rbind (buffer_write (min (buffer_count sh) 0xFF) 0 sh) (\<lambda>sh1.
            rbind (run_command (command_text sh1) v1) (\<lambda>(a, v2).
            if a = Shutdown then Inr (a, sh1, v2)
            else rbind (vga_print (ascii ''> '') v2) (\<lambda>v3.
              Inr (a, sh1\<lparr>command_buffer := replicate 0x100 0, buffer_count := 0\<rparr>, v3))))))"

subsection \<open>What is typed is what runs\<close>

definition console_ok :: "console \<Rightarrow> bool" where
  "console_ok v \<longleftrightarrow> screen_inv (current_screen v) \<and> \<not> locked (screen_mutex v)"

lemma on_screen_ok:
  assumes "console_ok v" "\<And>s. screen_inv s \<Longrightarrow> \<exists>s'. f s = Inr s' \<and> screen_inv s'"
  shows "\<exists>v'. on_screen f v = Inr v' \<and> console_ok v'"
proof -
  obtain s' where "f (current_screen v) = Inr s'" "screen_inv s'" using assms by (auto simp: console_ok_def)
  then show ?thesis using assms(1) by (simp add: on_screen_def try_acquire_def console_ok_def release_def)
qed

lemma write_impl_ok: "screen_inv s \<Longrightarrow> \<exists>s'. write_impl (vga_string_of t) s = Inr s' \<and> screen_inv s'"
  using print_chars_ok by (simp add: write_impl_def vga_string_of_def)

lemma console_ops_ok:
  assumes "console_ok v"
  shows "\<exists>v'. vga_print t v = Inr v' \<and> console_ok v'" "\<exists>v'. vga_puts t v = Inr v' \<and> console_ok v'"
    "\<exists>v'. vga_print_char c v = Inr v' \<and> console_ok v'" "\<exists>v'. on_screen screen_clear v = Inr v' \<and> console_ok v'"
    "\<exists>v'. on_screen (\<lambda>s. Inr (advance_cursor_to_newline s)) v = Inr v' \<and> console_ok v'"
proof -
  note on = on_screen_ok [OF assms]
  show "\<exists>v'. vga_print t v = Inr v' \<and> console_ok v'" unfolding vga_print_def by (rule on) (rule write_impl_ok)
  show "\<exists>v'. vga_puts t v = Inr v' \<and> console_ok v'"
    unfolding vga_puts_def by (rule on) (use write_impl_ok advance_inv in \<open>fastforce simp: rbind_eq_Inr_iff\<close>)
  show "\<exists>v'. vga_print_char c v = Inr v' \<and> console_ok v'"
    unfolding vga_print_char_def by (rule on) (use screen_print_char_inv in metis)
  show "\<exists>v'. on_screen screen_clear v = Inr v' \<and> console_ok v'" by (rule on) (use screen_clear_ok in \<open>auto simp: screen_inv_def\<close>)
  show "\<exists>v'. on_screen (\<lambda>s. Inr (advance_cursor_to_newline s)) v = Inr v' \<and> console_ok v'"
    by (rule on) (use advance_inv in auto)
qed

lemma run_command_ok:
  assumes "console_ok v"
  shows "\<exists>a v'. run_command cmd v = Inr (a, v') \<and> console_ok v'"
proof -
  obtain v1 where v1: "vga_print (ascii ''error: `'') v = Inr v1" "console_ok v1" using console_ops_ok(1) [OF assms] by blast
  obtain v2 where v2: "vga_print cmd v1 = Inr v2" "console_ok v2" using console_ops_ok(1) [OF v1(2)] by blast
  obtain v3 where v3: "vga_puts (ascii ''`: command not recognized'') v2 = Inr v3" "console_ok v3"
    using console_ops_ok(2) [OF v2(2)] by blast
  obtain v4 where v4: "vga_puts (ascii ''commands: help, clear, pages, ls, shutdown(q)'') v = Inr v4" "console_ok v4"
    using console_ops_ok(2) [OF assms] by blast
  obtain v5 where v5: "on_screen screen_clear v = Inr v5" "console_ok v5" using console_ops_ok(4) [OF assms] by blast
  show ?thesis unfolding run_command_def using assms v1 v2 v3 v4 v5 by simp
qed

definition shell_inv :: "shell \<Rightarrow> bool" where
  "shell_inv sh \<longleftrightarrow> length (command_buffer sh) = 0x100 \<and> buffer_count sh \<le> 0x100"

definition typed :: "shell \<Rightarrow> u8 list" where
  "typed sh = take (buffer_count sh) (command_buffer sh)"

text \<open>The line a key leaves, given the state of the shift key.\<close>

definition line_step :: "bool \<times> u8 list \<Rightarrow> key_event \<Rightarrow> bool \<times> u8 list" where
  "line_step = (\<lambda>(held, line) e.
     if code e = 0x1 then (pressed e, line)
     else if \<not> pressed e then (held, line)
     else if isprint (sint (code e)) then (held, line @ [if held then UPPERS (code e) else code e])
     else if code e = 0x08 then (held, butlast line)
     else (held, line))"

fun type_keys :: "key_event list \<Rightarrow> shell \<times> console \<Rightarrow> (shell \<times> console) res" where
  "type_keys [] st = Inr st"
| "type_keys (e # es) st = rbind (handle_key_event e st) (\<lambda>(_, st1). type_keys es st1)"

lemma isprint_codes: "isprint (sint c) \<Longrightarrow> c \<noteq> 0x1 \<and> c \<noteq> 0x0A \<and> c \<noteq> 0x08 \<and> c \<noteq> (0 :: u8)"
  by (auto simp: isprint_def)

lemma UPPERS_nonzero: "c \<noteq> 0 \<Longrightarrow> UPPERS c \<noteq> 0"
proof (cases "map_of upper_changes c")
  case None
  assume "c \<noteq> 0"
  moreover have "\<not> (0x61 \<le> (0x20 :: u8))" by simp
  ultimately show ?thesis using None by (auto simp: UPPERS_def)
next
  case (Some d)
  then have "(c, d) \<in> set upper_changes" by (rule map_of_SomeD)
  then show ?thesis using Some by (auto simp: UPPERS_def upper_changes_def)
qed

lemma edit_key_line:
  assumes "shell_inv sh" "console_ok v" "buffer_count sh < 0x100" "\<not> (code e = 0x0A \<and> pressed e)"
  shows "\<exists>sh' v'. edit_key e (sh, v) = Inr (False, sh', v') \<and> shell_inv sh' \<and> console_ok v' \<and>
    (shift_held sh', typed sh') = line_step (shift_held sh, typed sh) e"
proof -
  let ?c = "if shift_held sh then UPPERS (code e) else code e" and ?n = "buffer_count sh"
  obtain v1 where v1: "vga_print_char ?c v = Inr v1" "console_ok v1" using console_ops_ok(3) [OF assms(2)] by blast
  obtain v2 where v2: "vga_print_char (code e) v = Inr v2" "console_ok v2" using console_ops_ok(3) [OF assms(2)] by blast
  have len: "length (command_buffer sh) = 0x100" using assms(1) by (simp add: shell_inv_def)
  have grow: "take (Suc ?n) ((command_buffer sh)[?n := c]) = typed sh @ [c]" for c
    using len assms(3) by (simp add: typed_def take_Suc_conv_app_nth)
  have shrink: "take (?n - 1) ((command_buffer sh)[?n := 0]) = butlast (typed sh)"
    using len assms(3) by (simp add: typed_def butlast_take)
  consider "code e = 0x1" | "code e \<noteq> 0x1" "\<not> pressed e" | "pressed e" "isprint (sint (code e))"
    | "pressed e" "code e = 0x08" | "pressed e" "code e \<noteq> 0x1" "\<not> isprint (sint (code e))" "code e \<noteq> 0x08" by blast
  then show ?thesis
  proof cases
    case 3
    then show ?thesis
      using assms v1 len isprint_codes [OF 3(2)] grow
      by (auto simp: edit_key_def line_step_def shell_inv_def buffer_write_def Let_def typed_def)
  next
    case 4
    have "\<not> isprint (sint (0x08 :: u8))" by (simp add: isprint_def)
    then show ?thesis
      using 4 assms v2 len shrink
      by (cases "?n = 0") (auto simp: edit_key_def line_step_def shell_inv_def buffer_write_def typed_def)
  qed (use assms in \<open>auto simp: edit_key_def line_step_def typed_def shell_inv_def\<close>)
qed

lemma line_step_length: "length (snd (line_step hl e)) \<le> Suc (length (snd hl))"
  by (cases hl) (auto simp: line_step_def)

lemma line_step_nonzero: "0 \<notin> set (snd hl) \<Longrightarrow> 0 \<notin> set (snd (line_step hl e))"
  using UPPERS_nonzero isprint_codes
  by (cases hl) (auto simp: line_step_def dest: in_set_butlastD)

lemma type_keys_line:
  assumes "shell_inv sh" "console_ok v" "buffer_count sh + length es \<le> 0xFF" "\<forall>e \<in> set es. \<not> (code e = 0x0A \<and> pressed e)"
  shows "\<exists>sh' v'. type_keys es (sh, v) = Inr (sh', v') \<and> shell_inv sh' \<and> console_ok v' \<and>
    (shift_held sh', typed sh') = foldl line_step (shift_held sh, typed sh) es \<and>
    buffer_count sh' \<le> buffer_count sh + length es"
  using assms
proof (induction es arbitrary: sh v)
  case Nil
  then show ?case by simp
next
  case (Cons e es)
  obtain sh1 v1 where s1: "edit_key e (sh, v) = Inr (False, sh1, v1)" "shell_inv sh1" "console_ok v1"
      "(shift_held sh1, typed sh1) = line_step (shift_held sh, typed sh) e"
    using edit_key_line [OF Cons.prems(1,2), of e] Cons.prems(3,4) by auto
  have n: "length (typed t) = buffer_count t" if "shell_inv t" for t using that by (simp add: typed_def shell_inv_def)
  have "length (typed sh1) \<le> Suc (length (typed sh))"
    using line_step_length [of "(shift_held sh, typed sh)" e] by (simp flip: s1(4))
  then have le: "buffer_count sh1 \<le> Suc (buffer_count sh)" using n Cons.prems(1) s1(2) by simp
  then obtain sh' v' where "type_keys es (sh1, v1) = Inr (sh', v')" "shell_inv sh'" "console_ok v'"
      "(shift_held sh', typed sh') = foldl line_step (shift_held sh1, typed sh1) es"
      "buffer_count sh' \<le> buffer_count sh1 + length es"
    using Cons.IH [OF s1(2,3)] Cons.prems(3,4) by auto
  then show ?case using s1 le by (auto simp: handle_key_event_def)
qed

lemma foldl_line_nonzero: "0 \<notin> set (snd hl) \<Longrightarrow> 0 \<notin> set (snd (foldl line_step hl es))"
  by (induction es arbitrary: hl) (auto simp: line_step_nonzero)

text \<open>
  C27. The shell runs the line that was typed: after at most 255 key events on a fresh line, the command buffer
  holds the line those keys make (characters appended, shifted while the shift key is down, the
  last one taken off by a backspace), and Enter runs the command of exactly that text.
\<close>

theorem shell_runs_typed_line:
  assumes "console_ok v" "length es \<le> 0xFF" "\<forall>e \<in> set es. \<not> (code e = 0x0A \<and> pressed e)"
  shows "\<exists>sh v1 v2 a v3 st. type_keys es (new_shell, v) = Inr (sh, v1) \<and>
    typed sh = snd (foldl line_step (False, []) es) \<and>
    run_command (typed sh) v2 = Inr (a, v3) \<and>
    handle_key_event \<lparr>code = 0x0A, pressed = True\<rparr> (sh, v1) = Inr (a, st)"
proof -
  have "shell_inv new_shell" by (simp add: shell_inv_def new_shell_def)
  then obtain sh v1 where t: "type_keys es (new_shell, v) = Inr (sh, v1)" "shell_inv sh" "console_ok v1"
      "(shift_held sh, typed sh) = foldl line_step (False, []) es" "buffer_count sh \<le> 0xFF"
    using type_keys_line [of new_shell v es] assms by (auto simp: new_shell_def typed_def)
  obtain v2 where v2: "on_screen (\<lambda>s. Inr (advance_cursor_to_newline s)) v1 = Inr v2" "console_ok v2"
    using console_ops_ok(5) [OF t(3)] by blast
  obtain a v3 where v3: "run_command (typed sh) v2 = Inr (a, v3)" "console_ok v3" using run_command_ok [OF v2(2)] by blast
  obtain v4 where v4: "vga_print (ascii ''> '') v3 = Inr v4" using console_ops_ok(1) [OF v3(2)] by blast
  let ?sh = "sh\<lparr>command_buffer := (command_buffer sh)[buffer_count sh := 0]\<rparr>"
  have z: "0 \<notin> set (typed sh)" using foldl_line_nonzero [of "(False, [])" es] by (simp flip: t(4))
  have len: "buffer_count sh < length (command_buffer sh)" using t(2,5) by (simp add: shell_inv_def)
  then have "(command_buffer sh)[buffer_count sh := 0] = typed sh @ 0 # drop (Suc (buffer_count sh)) (command_buffer sh)"
    by (simp add: typed_def upd_conv_take_nth_drop)
  then have cmd: "command_text ?sh = typed sh"
    using z by (simp add: command_text_def takeWhile_append2 takeWhile_append)
  have "buffer_write (min (buffer_count sh) 0xFF) 0 sh = Inr ?sh" using t(5) len by (simp add: buffer_write_def min_def)
  moreover have "edit_key \<lparr>code = 0x0A, pressed = True\<rparr> (sh, v1) = Inr (True, sh, v1)" by (simp add: edit_key_def)
  ultimately have "\<exists>st. handle_key_event \<lparr>code = 0x0A, pressed = True\<rparr> (sh, v1) = Inr (a, st)"
    using v2 v3 v4 cmd by (auto simp: handle_key_event_def)
  then show ?thesis using t v3(1) by (metis snd_conv)
qed

theorem shell_runs_typed_line_witness:
  "let v = \<lparr>current_screen = \<lparr>cells = replicate 2000 0, position = \<lparr>cur_x = 0, cur_y = 0\<rparr>\<rparr>, screen_mutex = new_mutex,
     vga_initialized = True\<rparr> in
   \<exists>sh v1 v2 v3 st. type_keys [\<lparr>code = 0x6C, pressed = True\<rparr>, \<lparr>code = 0x71, pressed = True\<rparr>, \<lparr>code = 0x08, pressed = True\<rparr>,
       \<lparr>code = 0x73, pressed = True\<rparr>] (new_shell, v) = Inr (sh, v1) \<and>
     typed sh = ascii ''ls'' \<and> run_command (ascii ''ls'') v2 = Inr (List_directory, v3) \<and>
     handle_key_event \<lparr>code = 0x0A, pressed = True\<rparr> (sh, v1) = Inr (List_directory, st)"
proof -
  let ?es = "[\<lparr>code = 0x6C, pressed = True\<rparr>, \<lparr>code = 0x71, pressed = True\<rparr>, \<lparr>code = 0x08, pressed = True\<rparr>,
       \<lparr>code = 0x73, pressed = True\<rparr>] :: key_event list"
  define v where "v = \<lparr>current_screen = \<lparr>cells = replicate 2000 0, position = \<lparr>cur_x = 0, cur_y = 0\<rparr>\<rparr>, screen_mutex = new_mutex,
     vga_initialized = True\<rparr>"
  have "console_ok v" by (simp add: v_def console_ok_def screen_inv_def new_mutex_def)
  moreover have "snd (foldl line_step (False, []) ?es) = ascii ''ls''"
    by (simp add: line_step_def isprint_def ascii_def of_char_def)
  moreover have "run_command (ascii ''ls'') w = Inr (List_directory, w)" for w
    by (simp add: run_command_def ascii_def of_char_def)
  ultimately show ?thesis
    unfolding Let_def using shell_runs_typed_line [of v ?es] by (fastforce simp: v_def)
qed

text \<open>A full line: the backspace writes one past the end of the buffer.\<close>

lemma backspace_on_full_line:
  assumes "shell_inv sh" "buffer_count sh = 0x100" "code e = 0x08" "pressed e"
  shows "edit_key e (sh, v) = Inl (Undefined_behaviour ''outside the command buffer'')"
  using assms by (simp add: edit_key_def buffer_write_def shell_inv_def isprint_def)

end
