(* ===== verification/Low_Memory.thy ===== *)
theory Low_Memory
  imports Util Libc_String
begin

text \<open>
  The bump allocator for memory below one megabyte, src/kernel/low_memory_allocator.cpp. Its
  state is the pair of bounds; the bytes it zeroes are those of \<open>Libc_String\<close>.
\<close>

record low_memory =
  avail_low_mem_start :: u64
  avail_low_mem_end :: u64

definition low_memory_init :: "u64 \<Rightarrow> u64 \<Rightarrow> low_memory res" where
  "low_memory_init low_mem_start low_mem_end =
     rbind (assert_that (low_mem_start < low_mem_end) ''avail_low_mem_start < avail_low_mem_end'') (\<lambda>_.
       Inr \<lparr>avail_low_mem_start = low_mem_start, avail_low_mem_end = low_mem_end\<rparr>)"

definition low_allocate :: "u64 \<Rightarrow> u64 \<Rightarrow> low_memory \<Rightarrow> bytes \<Rightarrow> (u64 \<times> low_memory \<times> bytes) res" where
  "low_allocate sz align s m =
     (if align = 0 then Inl (Undefined_behaviour ''division by zero'')
      else let aligned_start = align_to (avail_low_mem_start s) align in
        if aligned_start \<ge> avail_low_mem_end s - sz then Inl (Panicked ''Ran out of low memory!'')
        else Inr (aligned_start, s\<lparr>avail_low_mem_start := aligned_start + sz\<rparr>,
          memset aligned_start 0 (unat sz) m))"

text \<open>Allocations of one size and alignment in sequence.\<close>

fun low_allocate_all :: "(u64 \<times> u64) list \<Rightarrow> low_memory \<Rightarrow> bytes \<Rightarrow> ((u64 \<times> u64) list \<times> low_memory \<times> bytes) res" where
  "low_allocate_all [] s m = Inr ([], s, m)"
| "low_allocate_all ((sz, al) # rs) s m =
     rbind (low_allocate sz al s m) (\<lambda>(b, s1, m1).
     rbind (low_allocate_all rs s1 m1) (\<lambda>(bs, s2, m2). Inr ((b, sz) # bs, s2, m2)))"

lemma low_allocate_step:
  assumes "low_allocate sz al s m = Inr (b, s', m')" "sz \<le> avail_low_mem_end s"
    "unat (avail_low_mem_start s) + unat al \<le> 2 ^ 64"
  shows "unat al dvd unat b" "unat (avail_low_mem_start s) \<le> unat b"
    "unat b + unat sz < unat (avail_low_mem_end s)" "unat (avail_low_mem_start s') = unat b + unat sz"
    "avail_low_mem_end s' = avail_low_mem_end s"
proof -
  have b: "al \<noteq> 0" "b = align_to (avail_low_mem_start s) al" "b < avail_low_mem_end s - sz"
      "s' = s\<lparr>avail_low_mem_start := b + sz\<rparr>"
    using assms(1) by (auto simp: low_allocate_def Let_def not_le split: if_splits)
  show "unat al dvd unat b" "unat (avail_low_mem_start s) \<le> unat b"
    using align_to_bounds [OF b(1) assms(3)] b(2) by auto
  have "unat (avail_low_mem_end s - sz) = unat (avail_low_mem_end s) - unat sz" using assms(2) by (rule unat_sub)
  then show lt: "unat b + unat sz < unat (avail_low_mem_end s)"
    using b(3) by (simp add: word_less_nat_alt)
  have "unat b + unat sz < 2 ^ 64" using less_trans [OF lt unat_u64_lt] by simp
  then show "unat (avail_low_mem_start s') = unat b + unat sz" using b(4) by (simp add: unat_add_u64)
  show "avail_low_mem_end s' = avail_low_mem_end s" using b(4) by simp
qed

lemma low_allocate_all_disjoint:
  assumes "low_allocate_all rs s m = Inr (bs, s', m')"
    "\<forall>(sz, al) \<in> set rs. sz \<le> avail_low_mem_end s \<and> unat (avail_low_mem_end s) + unat al \<le> 2 ^ 64"
    "avail_low_mem_start s \<le> avail_low_mem_end s"
  shows "(\<forall>(b, sz) \<in> set bs. unat (avail_low_mem_start s) \<le> unat b \<and> unat b + unat sz < unat (avail_low_mem_end s)) \<and>
    sorted_wrt (\<lambda>(b, sz) (c, _). unat b + unat sz \<le> unat c) bs"
  using assms
proof (induction rs arbitrary: s m bs)
  case Nil
  then show ?case by simp
next
  case (Cons r rs)
  obtain sz al where r: "r = (sz, al)" by (cases r)
  obtain b s1 m1 bs1 where run: "low_allocate sz al s m = Inr (b, s1, m1)"
      "low_allocate_all rs s1 m1 = Inr (bs1, s', m')" "bs = (b, sz) # bs1"
    using Cons.prems(1) r by (auto simp: rbind_eq_Inr_iff)
  have "unat (avail_low_mem_start s) + unat al \<le> 2 ^ 64"
    using Cons.prems(2,3) r by (auto simp: word_le_nat_alt)
  note st = low_allocate_step [OF run(1) _ this]
  have le: "sz \<le> avail_low_mem_end s" using Cons.prems(2) r by simp
  have "avail_low_mem_start s1 \<le> avail_low_mem_end s1"
    using st(3-5) [OF le] by (simp add: word_le_nat_alt)
  then have ih: "(\<forall>(c, sz) \<in> set bs1. unat (avail_low_mem_start s1) \<le> unat c \<and> unat c + unat sz < unat (avail_low_mem_end s1)) \<and>
      sorted_wrt (\<lambda>(b, sz) (c, _). unat b + unat sz \<le> unat c) bs1"
    using Cons.IH [OF run(2)] Cons.prems(2) st(5) [OF le] by simp
  then show ?case using st [OF le] run(3) by (fastforce split: prod.splits)
qed

text \<open>
  Low memory is handed out in disjoint blocks inside its bounds: in every sequence of
  allocations whose sizes do not exceed the upper bound, the blocks lie between the bounds, each after
  the one before.
\<close>

theorem low_memory_disjoint:
  assumes "low_allocate_all rs s m = Inr (bs, s', m')"
    "\<forall>(sz, al) \<in> set rs. sz \<le> avail_low_mem_end s \<and> unat (avail_low_mem_end s) + unat al \<le> 2 ^ 64"
    "avail_low_mem_start s \<le> avail_low_mem_end s"
  shows "(\<forall>(b, sz) \<in> set bs. unat (avail_low_mem_start s) \<le> unat b \<and> unat b + unat sz < unat (avail_low_mem_end s)) \<and>
    sorted_wrt (\<lambda>(b, sz) (c, _). unat b + unat sz \<le> unat c) bs"
  using low_allocate_all_disjoint [OF assms] .

theorem low_memory_disjoint_witness:
  "\<exists>s' m'. low_allocate_all [(0x10, 1), (0x20, 0x100)] \<lparr>avail_low_mem_start = 0x501, avail_low_mem_end = 0x1000\<rparr> (\<lambda>_. 0)
     = Inr ([(0x501, 0x10), (0x600, 0x20)], s', m') \<and> unat (0x501 :: u64) + unat (0x10 :: u64) \<le> unat (0x600 :: u64)"
proof -
  let ?s = "\<lparr>avail_low_mem_start = 0x501, avail_low_mem_end = 0x1000\<rparr>"
  obtain s' m' where run: "low_allocate_all [(0x10, 1), (0x20, 0x100)] ?s (\<lambda>_. 0) =
      Inr ([(0x501, 0x10), (0x600, 0x20)], s', m')"
    by (simp add: low_allocate_def align_to_def Let_def)
  show ?thesis using low_memory_disjoint [OF run] run by simp
qed

text \<open>A request larger than the upper bound itself wraps the subtraction, and the check that
  should refuse it lets it through.\<close>

lemma low_allocate_oversize:
  "low_allocate 0x2000 1 \<lparr>avail_low_mem_start = 0x500, avail_low_mem_end = 0x1000\<rparr> m =
     Inr (0x500, \<lparr>avail_low_mem_start = 0x2500, avail_low_mem_end = 0x1000\<rparr>, memset 0x500 0 0x2000 m)"
  by (simp add: low_allocate_def align_to_def Let_def)

end
