(* ===== verification/Floppy.thy ===== *)
theory Floppy
  imports Port_IO Low_Memory Paging_Init "HOL-Library.Signed_Division"
begin

text \<open>
  The floppy driver (src/kernel/floppy.cpp) and the DMA channel it reads through
  (src/kernel/dma.cpp), over the port hardware of \<open>Port_IO\<close>. The arrival of the disk
  interrupt and the bytes the device stores by DMA are parameters: functions of the accesses
  made so far. The two calls of \<^verbatim>\<open>busy_sleep\<close> only let time pass and have no counterpart.
\<close>

subsection \<open>DMA\<close>

record dma_buffer =
  dma_data :: u64
  dma_size :: u64

datatype dma_mode = dma_read | dma_write

definition FLOPPY_CHANNEL :: int where
  "FLOPPY_CHANNEL = 2"

definition set_buffer_for_channel :: "paging_state \<Rightarrow> int \<Rightarrow> u64 \<Rightarrow> u64 \<Rightarrow> dma_buffer \<Rightarrow> dma_buffer res" where
  "set_buffer_for_channel ps channel data sz b =
     rbind (assert_that (data \<noteq> 0) ''Can't set null buffer!'') (\<lambda>_.
     rbind (get_physical_address ps data) (\<lambda>p.
     rbind (assert_that (data = p \<and> data < push_bit 24 1) ''Buffer address must be identity mapped'') (\<lambda>_.
       if channel = FLOPPY_CHANNEL then Inr (b\<lparr>dma_data := data, dma_size := sz\<rparr>)
       else Inl (Panicked ''Invalid DMA channel''))))"

definition buffer_for_channel :: "int \<Rightarrow> dma_buffer \<Rightarrow> dma_buffer option" where
  "buffer_for_channel channel b = (if channel = 2 then Some b else None)"

definition prepare_transfer :: "int \<Rightarrow> u32 \<Rightarrow> dma_mode \<Rightarrow> dma_buffer \<Rightarrow> trace \<Rightarrow> (u64 \<times> trace) res" where
  "prepare_transfer channel transfer_size mode b t =
     (case buffer_for_channel channel b of
        None \<Rightarrow> Inl (Assert_failed ''floppy DMA buffer is not allocated?'')
      | Some buf \<Rightarrow>
          rbind (assert_that (dma_data buf \<noteq> 0) ''floppy DMA buffer is not allocated?'') (\<lambda>_.
          rbind (assert_that (dma_size buf \<ge> ucast transfer_size) ''dma buffer not large enough for transfer!'') (\<lambda>_.
          rbind (assert_that (transfer_size \<le> 0x10000) ''transfer size - 1 needs to fit into 16 bits'') (\<lambda>_.
            let read_or_write = (if mode = dma_read then push_bit 2 1 else push_bit 2 2) :: u8;
                transfer_count = ucast (transfer_size - 1) :: u16;
                ch = of_int channel :: u8;
                t1 = outb 0x0C 0xFF (outb 0x0A (push_bit 2 1 OR ch) t);
                t2 = outb 0x04 (ucast (drop_bit 8 (dma_data buf))) (outb 0x04 (ucast (dma_data buf)) t1);
                t3 = outb 0x0C 0xFF t2;
                t4 = outb 0x05 (ucast (drop_bit 4 transfer_count)) (outb 0x05 (ucast transfer_count) t3);
                t5 = outb 0x81 (ucast (drop_bit 16 (dma_data buf))) t4;
                t6 = outb 0x0B (push_bit 6 1 OR push_bit 4 1 OR read_or_write OR ch) t5
            in Inr (dma_data buf, outb 0x0A ch t6)))))"

subsection \<open>The controller\<close>

definition MSR_RQM :: u8 where "MSR_RQM = push_bit 7 1"
definition MSR_DIO :: u8 where "MSR_DIO = push_bit 6 1"
definition MSR_CMD_BSY :: u8 where "MSR_CMD_BSY = push_bit 4 1"
definition DIGITAL_OUTPUT_REGISTER :: u16 where "DIGITAL_OUTPUT_REGISTER = 0x3F2"
definition MAIN_STATUS_REGISTER :: u16 where "MAIN_STATUS_REGISTER = 0x3F4"
definition DATA_FIFO :: u16 where "DATA_FIFO = 0x3F5"
definition CONFIGURATION_CONTROL_REGISTER :: u16 where "CONFIGURATION_CONTROL_REGISTER = 0x3F7"

record floppy_state =
  fl_trace :: trace
  g_drive_number :: u8
  disk_interrupt_handled :: bool
  floppy_dma :: dma_buffer

text \<open>The environment of the driver: the hardware, whether the disk interrupt arrives while
  the driver waits for it after the given accesses, and how often a status register is polled.\<close>

record floppy_env =
  env_hw :: hardware
  env_irq :: "trace \<Rightarrow> bool"
  env_polls :: nat

definition handle_floppy_interrupt :: "floppy_state \<Rightarrow> floppy_state" where
  "handle_floppy_interrupt s = s\<lparr>disk_interrupt_handled := True\<rparr>"

definition wait_for_disk_interrupt :: "floppy_env \<Rightarrow> floppy_state \<Rightarrow> floppy_state res" where
  "wait_for_disk_interrupt env s =
     (case irq_is_masked (env_hw env) FLOPPY (fl_trace s) of (masked, t) \<Rightarrow>
      rbind (assert_that (\<not> masked) ''floppy interrupt was not enabled, can't wait for disk interrupt!'') (\<lambda>_.
        let s1 = s\<lparr>fl_trace := t\<rparr>;
            s2 = (if env_irq env t then handle_floppy_interrupt s1 else s1)
        in if disk_interrupt_handled s2 then Inr (s2\<lparr>disk_interrupt_handled := False\<rparr>)
           else Inl (Blocked ''disk interrupt'')))"

fun fifo_poll :: "nat \<Rightarrow> hardware \<Rightarrow> trace \<Rightarrow> trace res" where
  "fifo_poll 0 hw t = Inl (Blocked ''fifo'')"
| "fifo_poll (Suc n) hw t = (case inb hw MAIN_STATUS_REGISTER t of (v, t1) \<Rightarrow>
     if v AND MSR_RQM \<noteq> 0 then Inr t1 else fifo_poll n hw t1)"

definition wait_til_fifo_ready :: "floppy_env \<Rightarrow> floppy_state \<Rightarrow> floppy_state res" where
  "wait_til_fifo_ready env s = rbind (fifo_poll (env_polls env) (env_hw env) (fl_trace s)) (\<lambda>t. Inr (s\<lparr>fl_trace := t\<rparr>))"

definition read_status :: "floppy_env \<Rightarrow> floppy_state \<Rightarrow> u8 \<times> floppy_state" where
  "read_status env s = (case inb (env_hw env) MAIN_STATUS_REGISTER (fl_trace s) of (v, t) \<Rightarrow> (v, s\<lparr>fl_trace := t\<rparr>))"

definition issue_parameter_command :: "floppy_env \<Rightarrow> u8 \<Rightarrow> floppy_state \<Rightarrow> (bool \<times> floppy_state) res" where
  "issue_parameter_command env param s =
     rbind (wait_til_fifo_ready env s) (\<lambda>s1.
       case read_status env s1 of (v, s2) \<Rightarrow>
         if v AND MSR_DIO = 0 then Inr (True, s2\<lparr>fl_trace := outb DATA_FIFO param (fl_trace s2)\<rparr>)
         else Inr (False, s2))"

fun issue_parameters :: "floppy_env \<Rightarrow> u8 list \<Rightarrow> floppy_state \<Rightarrow> (bool \<times> floppy_state) res" where
  "issue_parameters env [] s = Inr (True, s)"
| "issue_parameters env (p # ps) s = rbind (issue_parameter_command env p s) (\<lambda>(ok, s1).
     if ok then issue_parameters env ps s1 else Inr (False, s1))"

text \<open>The bytes read while the controller has data; \<open>room\<close> is what is left of the result
  buffer.\<close>

fun read_results :: "floppy_env \<Rightarrow> nat \<Rightarrow> floppy_state \<Rightarrow> (u8 list \<times> floppy_state) res" where
  "read_results env room s =
     (case read_status env s of (v, s1) \<Rightarrow>
      if v AND MSR_DIO = 0 then Inr ([], s1)
      else case room of
        0 \<Rightarrow> Inl (Assert_failed ''Result buffer not large enough!'')
      | Suc room' \<Rightarrow> (case inb (env_hw env) DATA_FIFO (fl_trace s1) of (b, t) \<Rightarrow>
          rbind (read_results env room' (s1\<lparr>fl_trace := t\<rparr>)) (\<lambda>(bs, s2). Inr (b # bs, s2))))"

definition needs_interrupt :: "u16 \<Rightarrow> bool" where
  "needs_interrupt command \<longleftrightarrow> command AND 0xF = 0x06 \<or> command AND 0xF = 0x05"

text \<open>One pass through the body of the retry loop after the controller was found ready: the
  result bytes and whether the command completed.\<close>

definition issue_once :: "floppy_env \<Rightarrow> u16 \<Rightarrow> nat option \<Rightarrow> u8 list \<Rightarrow> floppy_state \<Rightarrow> (bool \<times> u8 list \<times> floppy_state) res" where
  "issue_once env command result args s =
     (let s1 = s\<lparr>fl_trace := outb DATA_FIFO (ucast command) (fl_trace s)\<rparr> in
      rbind (issue_parameters env args s1) (\<lambda>(ok, s2).
        if \<not> ok then Inr (False, [], s2)
        else rbind (case result of None \<Rightarrow> Inr ([], s2)
             | Some n \<Rightarrow>
                 rbind (if needs_interrupt command then wait_for_disk_interrupt env s2 else Inr s2) (\<lambda>s3.
                 rbind (wait_til_fifo_ready env (snd (read_status env s3))) (\<lambda>s4. read_results env n s4))) (\<lambda>(bs, s5).
          rbind (wait_til_fifo_ready env s5) (\<lambda>s6.
            case read_status env s6 of (v, s7) \<Rightarrow>
              Inr (v AND MSR_RQM \<noteq> 0 \<and> v AND MSR_DIO = 0 \<and> v AND MSR_CMD_BSY = 0, bs, s7)))))"

fun issue_retry :: "nat \<Rightarrow> floppy_env \<Rightarrow> u16 \<Rightarrow> nat option \<Rightarrow> u8 list \<Rightarrow> u8 list \<Rightarrow> floppy_state \<Rightarrow> (u8 list \<times> floppy_state) res" where
  "issue_retry 0 env command result args buf s = Inl (Assert_failed ''ran out of tries issuing floppy command'')"
| "issue_retry (Suc retries) env command result args buf s =
     (case read_status env s of (status, s1) \<Rightarrow>
      if status AND MSR_RQM = 0 \<or> status AND MSR_DIO \<noteq> 0 then issue_retry retries env command result args buf s1
      else rbind (issue_once env command result args s1) (\<lambda>(done, bs, s2).
        let buf' = bs @ drop (length bs) buf in
        if done then Inr (buf', s2) else issue_retry retries env command result args buf' s2))"

definition issue_command_with_result :: "floppy_env \<Rightarrow> u16 \<Rightarrow> u8 list \<Rightarrow> u8 list \<Rightarrow> floppy_state \<Rightarrow> (u8 list \<times> floppy_state) res" where
  "issue_command_with_result env command buf args s = issue_retry 5 env command (Some (length buf)) args buf s"

definition issue_command :: "floppy_env \<Rightarrow> u16 \<Rightarrow> u8 list \<Rightarrow> floppy_state \<Rightarrow> floppy_state res" where
  "issue_command env command args s = rbind (issue_retry 5 env command None args [] s) (\<lambda>(_, s'). Inr s')"

subsection \<open>Sectors\<close>

record CHS =
  cylinder :: int
  head :: int
  sector :: int

definition SECTORS_PER_HEAD :: int where "SECTORS_PER_HEAD = 18"
definition HEADS :: int where "HEADS = 2"
definition SECTORS_PER_CYLINDER :: int where "SECTORS_PER_CYLINDER = SECTORS_PER_HEAD * HEADS"

definition lba_to_chs :: "int \<Rightarrow> CHS" where
  "lba_to_chs lba = \<lparr>cylinder = lba sdiv SECTORS_PER_CYLINDER,
     head = (lba smod SECTORS_PER_CYLINDER) sdiv SECTORS_PER_HEAD,
     sector = (lba smod SECTORS_PER_CYLINDER) smod SECTORS_PER_HEAD + 1\<rparr>"

datatype floppy_status = status_ok | end_of_cylinder | data_error | overrun_underrun | no_data
  | not_writable | missing_address_mark | error_unknown

definition decode_status :: "u8 \<Rightarrow> u8 \<Rightarrow> floppy_status" where
  "decode_status st0 st1 =
     (if st0 AND 0xC0 = 0 then status_ok
      else if st1 AND 0x80 \<noteq> 0 then end_of_cylinder
      else if st1 AND 0x20 \<noteq> 0 then data_error
      else if st1 AND 0x10 \<noteq> 0 then overrun_underrun
      else if st1 AND 0x4 \<noteq> 0 then no_data
      else if st1 AND 0x2 \<noteq> 0 then not_writable
      else if st1 AND 0x1 \<noteq> 0 then missing_address_mark
      else error_unknown)"

text \<open>\<open>dma\<close> is the memory after the device has stored its bytes.\<close>

definition read_floppy :: "floppy_env \<Rightarrow> (trace \<Rightarrow> bytes \<Rightarrow> bytes) \<Rightarrow> u64 \<Rightarrow> int \<Rightarrow> int \<Rightarrow> floppy_state \<Rightarrow> bytes \<Rightarrow>
    (floppy_status \<times> floppy_state \<times> bytes) res" where
  "read_floppy env dma buffer lba sector_count s m =
     (let chs = lba_to_chs lba; transfer_size = of_int (512 * sector_count) :: u32 in
      rbind (prepare_transfer FLOPPY_CHANNEL transfer_size dma_read (floppy_dma s) (fl_trace s)) (\<lambda>(dma_buffer, t).
      rbind (issue_command_with_result env (0x06 OR 0x40 OR 0x80) (replicate 7 0)
          [of_int (4 * head chs) OR g_drive_number s, of_int (cylinder chs), of_int (head chs), of_int (sector chs),
           2, 18, 0x1b, 0xff] (s\<lparr>fl_trace := t\<rparr>)) (\<lambda>(result, s1).
        let m1 = dma (fl_trace s1) m; st = decode_status (result ! 0) (result ! 1) in
        if st = status_ok then Inr (st, s1, memcpy buffer dma_buffer (unat transfer_size) m1)
        else Inr (st, s1, m1))))"

definition read_floppy_or_fail :: "floppy_env \<Rightarrow> (trace \<Rightarrow> bytes \<Rightarrow> bytes) \<Rightarrow> u64 \<Rightarrow> int \<Rightarrow> int \<Rightarrow> floppy_state \<Rightarrow> bytes \<Rightarrow>
    (floppy_state \<times> bytes) res" where
  "read_floppy_or_fail env dma buffer lba sector_count s m =
     rbind (read_floppy env dma buffer lba sector_count s m) (\<lambda>(st, s', m').
       if st = status_ok then Inr (s', m') else Inl (Panicked ''error reading floppy!''))"

text \<open>The one-byte results of \<^verbatim>\<open>init_floppy_driver\<close> start out uninitialised, as does the
  two-byte one; \<open>junk\<close> is what they hold.\<close>

definition init_floppy_driver :: "floppy_env \<Rightarrow> u8 \<Rightarrow> u8 \<Rightarrow> paging_state \<Rightarrow> low_memory \<Rightarrow> floppy_state \<Rightarrow> bytes \<Rightarrow>
    (floppy_state \<times> low_memory \<times> bytes) res" where
  "init_floppy_driver env junk drive_number ps lm s0 m =
     (let s1 = s0\<lparr>g_drive_number := drive_number\<rparr> in
      rbind (issue_command_with_result env 0x10 [junk] [] s1) (\<lambda>(version, s2).
      rbind (assert_that (version ! 0 = 0x90) ''invalid floppy version!'') (\<lambda>_.
      rbind (issue_command env 0x13 [0, push_bit 6 1 OR push_bit 4 1 OR (8 - 1), 0] s2) (\<lambda>s3.
      rbind (issue_command_with_result env (0x14 OR 0x80) [junk] [] s3) (\<lambda>(lock, s4).
      rbind (assert_that (drop_bit 4 (lock ! 0) \<noteq> 0) ''controller couldn't be locked!'') (\<lambda>_.
      let t5 = unmask_irq (env_hw env) FLOPPY (fl_trace s4);
          (dor, t6) = inb (env_hw env) DIGITAL_OUTPUT_REGISTER t5;
          t7 = outb DIGITAL_OUTPUT_REGISTER dor (outb DIGITAL_OUTPUT_REGISTER 0 t6)
      in rbind (wait_for_disk_interrupt env (s4\<lparr>fl_trace := t7\<rparr>)) (\<lambda>s5.
         let s6 = s5\<lparr>fl_trace := outb CONFIGURATION_CONTROL_REGISTER 0 (fl_trace s5)\<rparr> in
         rbind (issue_command env 0x03 [push_bit 4 8 OR 0, push_bit 1 5] s6) (\<lambda>s7.
         rbind (assert_that (drive_number < 4) ''invalid floppy drive number!'') (\<lambda>_.
         let s8 = s7\<lparr>fl_trace := outb DIGITAL_OUTPUT_REGISTER
               (push_bit (4 + unat drive_number) 1 OR push_bit 3 1 OR push_bit 2 1 OR drive_number) (fl_trace s7)\<rparr> in
         rbind (issue_command env 0x07 [drive_number] s8) (\<lambda>s9.
         rbind (issue_command_with_result env 0x08 [junk, junk] [] s9) (\<lambda>(result, s10).
         rbind (assert_that (result ! 0 AND 0x20 \<noteq> 0) ''st0 & 0x20'') (\<lambda>_.
         rbind (low_allocate 0x10000 1 lm m) (\<lambda>(buf, lm', m').
         rbind (set_buffer_for_channel ps FLOPPY_CHANNEL buf 0x10000 (floppy_dma s10)) (\<lambda>b.
           Inr (s10\<lparr>floppy_dma := b\<rparr>, lm', m')))))))))))))))"

subsection \<open>The geometry\<close>

text \<open>
  C24. Sector addresses survive the conversion to cylinder, head and sector: for every block number
  that is not negative the three coordinates lie in their ranges (a head is 0 or 1, a sector
  1 to 18, and the cylinder is below 80 on a disk of 2880 sectors) and determine the block number again.
\<close>

theorem lba_chs_roundtrip:
  assumes "0 \<le> lba"
  shows "let c = lba_to_chs lba in
    (cylinder c * HEADS + head c) * SECTORS_PER_HEAD + (sector c - 1) = lba \<and>
    0 \<le> cylinder c \<and> head c \<in> {0, 1} \<and> sector c \<in> {1..18} \<and> (lba < 2880 \<longrightarrow> cylinder c < 80)"
proof -
  have sdiv: "a sdiv b = a div b" "a smod b = a mod b" if "0 \<le> a" "0 < b" for a b :: int
    using that by (simp_all add: signed_divide_int_def signed_modulo_int_def sgn_if)
  have c: "lba_to_chs lba = \<lparr>cylinder = lba div 36, head = lba mod 36 div 18, sector = lba mod 36 mod 18 + 1\<rparr>"
    using assms by (simp add: lba_to_chs_def SECTORS_PER_CYLINDER_def SECTORS_PER_HEAD_def HEADS_def sdiv)
  have "lba mod 36 div 18 = 0 \<or> lba mod 36 div 18 = 1" by presburger
  moreover have "(lba div 36 * 2 + lba mod 36 div 18) * 18 + lba mod 36 mod 18 = lba" by presburger
  moreover have "lba < 2880 \<longrightarrow> lba div 36 < 80" by presburger
  moreover have "0 \<le> lba div 36" "0 \<le> lba mod 36 mod 18" "lba mod 36 mod 18 \<le> 17" using assms by presburger+
  ultimately show ?thesis using assms by (simp add: c HEADS_def SECTORS_PER_HEAD_def)
qed

theorem lba_chs_roundtrip_witness:
  "let c = lba_to_chs 2879 in (cylinder c * HEADS + head c) * SECTORS_PER_HEAD + (sector c - 1) = 2879 \<and> cylinder c < 80"
  using lba_chs_roundtrip [of 2879] by (simp add: Let_def)

subsection \<open>The programmed count\<close>

text \<open>The bytes written to a port, in order.\<close>

fun outs :: "u16 \<Rightarrow> trace \<Rightarrow> u8 list" where
  "outs p [] = []"
| "outs p (Out q v # t) = (if q = p then v # outs p t else outs p t)"
| "outs p (In q v # t) = outs p t"

lemma outs_append [simp]: "outs p (s @ t) = outs p s @ outs p t"
  by (induction p s rule: outs.induct) simp_all

lemma outs_outb [simp]: "outs p (outb q v t) = outs p t @ (if q = p then [v] else [])"
  by (simp add: outb_def)

lemma prepare_transfer_outs:
  assumes "prepare_transfer channel sz mode b t = Inr (p, t')"
  shows "outs 0x05 t' = outs 0x05 t @ [ucast (ucast (sz - 1) :: u16), ucast (drop_bit 4 (ucast (sz - 1) :: u16))]"
    "outs 0x04 t' = outs 0x04 t @ [ucast p, ucast (drop_bit 8 p)]"
    "outs 0x81 t' = outs 0x81 t @ [ucast (drop_bit 16 p)]"
    "p = dma_data b" "channel = 2" "unat sz \<le> 0x10000"
  using assms
  by (auto simp: prepare_transfer_def buffer_for_channel_def rbind_eq_Inr_iff Let_def assert_that_def word_le_nat_alt
      split: option.splits if_splits)

lemma wrong_high_byte:
  assumes "1 \<le> k" "k \<le> (128 :: nat)"
  shows "255 + 256 * ((32 * k - 1) mod 256) = 512 * k - 1 \<longleftrightarrow> k = 128"
proof
  assume "255 + 256 * ((32 * k - 1) mod 256) = 512 * k - 1"
  then have r: "(32 * k - 1) mod 256 = 2 * k - 1" using assms(1) by linarith
  have "32 * k - 1 = 256 * ((32 * k - 1) div 256) + (2 * k - 1)"
    using mult_div_mod_eq [of 256 "32 * k - 1"] unfolding r by simp
  then have "15 * k = 128 * ((32 * k - 1) div 256)" using assms(1) by linarith
  then have "128 dvd 15 * k" by (metis dvd_triv_left)
  moreover have "coprime (128 :: nat) 15" by (simp add: coprime_iff_gcd_eq_1 gcd_nat.simps)
  ultimately have "128 dvd k" by (simp add: coprime_dvd_mult_right_iff)
  then have "128 \<le> k" using assms(1) by (simp add: dvd_imp_le)
  then show "k = 128" using assms(2) by simp
qed simp

text \<open>
  The count the controller is programmed with: for a transfer of $k$ whole sectors the
  two bytes written to the count register of channel 2 make up the number of bytes less one exactly when $k$ is
  128, the largest transfer. The high byte is taken four bits too far down, so a
  read of fewer sectors programs another count than it means to.
\<close>

theorem dma_count_programmed:
  assumes "prepare_transfer channel (of_nat (512 * k)) mode b [] = Inr (p, t)" "1 \<le> k" "k \<le> 128"
  shows "\<exists>lo hi. outs 0x05 t = [lo, hi] \<and> (unat lo + 256 * unat hi = 512 * k - 1 \<longleftrightarrow> k = 128)"
proof -
  let ?n = "512 * k - 1"
  have le: "1 \<le> (of_nat (512 * k) :: u32)"
    using assms(2,3) by (simp add: word_le_nat_alt unat_of_nat take_bit_eq_mod del: of_nat_mult)
  have n: "unat (of_nat (512 * k) - 1 :: u32) = ?n"
    using assms(2,3) by (simp add: unat_sub [OF le] unat_of_nat take_bit_eq_mod del: of_nat_mult)
  define c :: u16 where "c = ucast (of_nat (512 * k) - 1 :: u32)"
  have c: "unat c = ?n"
    using n assms(2,3) unfolding c_def by (simp add: unsigned_ucast_eq take_bit_nat_eq_self del: of_nat_mult)
  have out: "outs 0x05 t = [ucast c, ucast (drop_bit 4 c)]"
    using prepare_transfer_outs(1) [OF assms(1)] by (simp add: c_def)
  have lo: "unat (ucast c :: u8) = ?n mod 256"
    using c by (simp add: unsigned_ucast_eq take_bit_eq_mod)
  have "?n div 16 = 32 * k - 1" using assms(2) by linarith
  moreover have "?n = 255 + 256 * (2 * k - 1)" using assms(2) by linarith
  then have "?n mod 256 = 255" by (metis mod_less mod_mult_self2 numeral_less_iff semiring_norm(76,78,81))
  moreover have "unat (drop_bit 4 c) = ?n div 16"
    unfolding unat_drop_bit_eq c by (simp add: drop_bit_eq_div)
  then have "unat (ucast (drop_bit 4 c) :: u8) = ?n div 16 mod 256"
    by (simp add: unsigned_ucast_eq take_bit_eq_mod [where 'a = nat])
  ultimately have "unat (ucast c :: u8) = 255" "unat (ucast (drop_bit 4 c) :: u8) = (32 * k - 1) mod 256"
    using lo by simp_all
  moreover have "255 + 256 * ((32 * k - 1) mod 256) = 512 * k - 1 \<longleftrightarrow> k = 128" using wrong_high_byte [OF assms(2,3)] .
  ultimately show ?thesis using out by simp
qed

theorem dma_count_programmed_witness:
  "\<exists>t. prepare_transfer 2 512 dma_read \<lparr>dma_data = 0x1000, dma_size = 0x10000\<rparr> [] = Inr (0x1000, t) \<and>
    (\<exists>lo hi. outs 0x05 t = [lo, hi] \<and> unat lo + 256 * unat hi \<noteq> 511)"
proof -
  obtain t where run: "prepare_transfer 2 (of_nat (512 * 1)) dma_read \<lparr>dma_data = 0x1000, dma_size = 0x10000\<rparr> [] = Inr (0x1000, t)"
    by (simp add: prepare_transfer_def buffer_for_channel_def assert_that_def Let_def)
  show ?thesis using dma_count_programmed [OF run] run by fastforce
qed

subsection \<open>Issuing a command\<close>

lemma issue_retry_exhausted:
  assumes "\<And>t. hw t MAIN_STATUS_REGISTER AND MSR_RQM = 0" "env_hw env = hw"
  shows "issue_retry n env command result args buf s = Inl (Assert_failed ''ran out of tries issuing floppy command'')"
  using assms by (induction n arbitrary: s) (simp_all add: read_status_def inb_def Let_def)

end
