(* ===== verification/Interrupts.thy ===== *)
theory Interrupts
  imports Scheduler Shell Floppy
begin

text \<open>
  The interrupt handlers of src/kernel/interrupts.cpp and the system calls of
  src/kernel/syscalls.cpp, over the state of the components they call: what the fault handlers decide. What they
  print is in \<open>Diagnostics\<close>.
\<close>

record kernel =
  k_sched :: sched_state
  k_timer :: timer
  k_floppy :: floppy_state
  k_keyboard :: keyboard
  k_stdio :: stdio_state
  k_io :: trace

subsection \<open>Devices\<close>

definition run_timer_handler :: "kernel \<Rightarrow> kernel" where
  "run_timer_handler k = k\<lparr>k_timer := tick (k_timer k), k_io := signal_end_of_interrupt PIT (k_io k)\<rparr>"

definition run_floppy_handler :: "kernel \<Rightarrow> kernel" where
  "run_floppy_handler k = k\<lparr>k_floppy := handle_floppy_interrupt (k_floppy k), k_io := signal_end_of_interrupt FLOPPY (k_io k)\<rparr>"

definition run_keyboard_handler :: "nat \<Rightarrow> hardware \<Rightarrow> kernel \<Rightarrow> kernel res" where
  "run_keyboard_handler polls hw k =
     rbind (keyboard_handle_interrupt polls hw (k_keyboard k)) (\<lambda>kb.
       Inr (k\<lparr>k_keyboard := kb, k_io := signal_end_of_interrupt KEYBOARD (k_io k)\<rparr>))"

subsection \<open>Faults\<close>

definition sel_is_external :: "u64 \<Rightarrow> bool" where "sel_is_external v \<longleftrightarrow> v AND 1 \<noteq> 0"
definition sel_get_table :: "u64 \<Rightarrow> u32" where "sel_get_table v = ucast (drop_bit 1 v AND 3)"
definition sel_get_index :: "u64 \<Rightarrow> u32" where "sel_get_index v = ucast (drop_bit 3 v AND 0x1FFF)"

definition sel_get_selector :: "u64 \<Rightarrow> u32" where
  "sel_get_selector v = (if sel_get_table v = 0 then sel_get_index v * of_nat SIZEOF_ENTRY else 0)"

definition fault_table :: "u64 \<Rightarrow> string" where
  "fault_table v = (if sel_get_table v = 0 then ''gdt'' else if sel_get_table v = 2 then ''ldt'' else ''idt'')"

text \<open>The processor after a general protection fault that a user task caused: the task is killed and yields.\<close>

definition run_general_protection_fault :: "hardware \<Rightarrow> task_frame \<times> fxsave_data \<Rightarrow> u64 \<Rightarrow> sched_state \<Rightarrow>
    ((task_frame \<times> fxsave_data) \<times> sched_state) res" where
  "run_general_protection_fault hw cpu error_code s =
     (if ucast (sel_get_selector error_code) = USER_CODE_SELECTOR then
        rbind (assert_that (get_current_task_is_user s) ''current task is not user?'') (\<lambda>_.
        rbind (kill (current_task_id s) s) (\<lambda>s1. yield hw cpu (interrupts_enable s1)))
      else if ucast (sel_get_selector error_code) = KERNEL_CODE_SELECTOR then Inl (Blocked ''general protection fault'')
      else Inl (Panicked ''unknown task type!''))"

definition page_fault_action :: "u64 \<Rightarrow> string" where
  "page_fault_action error_code = (if error_code AND 2 = 0 then ''reading from'' else ''writing to'')"

definition page_fault_not_present :: "u64 \<Rightarrow> bool" where
  "page_fault_not_present error_code \<longleftrightarrow> error_code XOR 1 \<noteq> 0"

definition unhandled_interrupt :: "u8 \<Rightarrow> fault" where
  "unhandled_interrupt n = (if n = 0 then Panicked ''Divide by zero!'' else Panicked ''Unhandled unknown interrupt: 0x%x!'')"

text \<open>Bit 0 of the error code is set when the page was present; the test only gets the code 1
  right, so every other fault on a present page is reported as one on a missing page.\<close>

lemma page_fault_misreported:
  "bit error_code 0 \<Longrightarrow> error_code \<noteq> 1 \<Longrightarrow> page_fault_not_present error_code"
proof -
  assume "error_code \<noteq> 1"
  moreover have "error_code = 1" if "error_code XOR 1 = 0"
  proof -
    have "error_code = (error_code XOR 1) XOR 1" by (simp add: xor.assoc)
    then show ?thesis using that by simp
  qed
  ultimately show ?thesis unfolding page_fault_not_present_def by blast
qed

subsection \<open>System calls\<close>

definition SYSCALL_ABORT :: u64 where "SYSCALL_ABORT = 0"
definition SYSCALL_EXIT :: u64 where "SYSCALL_EXIT = 1"
definition SYSCALL_ALLOC :: u64 where "SYSCALL_ALLOC = 2"
definition SYSCALL_FREE :: u64 where "SYSCALL_FREE = 3"
definition SYSCALL_PRINT :: u64 where "SYSCALL_PRINT = 4"

text \<open>What the processor goes on with: the value returned to the caller, or another task.\<close>

datatype syscall_result = Returns u64 | Continues "task_frame \<times> fxsave_data"

text \<open>\<open>str\<close> reads a terminated string at an address.\<close>

definition syscall_handler :: "hardware \<Rightarrow> (u64 \<Rightarrow> u8 list) \<Rightarrow> task_frame \<times> fxsave_data \<Rightarrow> u64 \<Rightarrow> u64 \<Rightarrow> u64 \<Rightarrow> u64 \<Rightarrow>
    kernel \<Rightarrow> (syscall_result \<times> kernel) res" where
  "syscall_handler hw str cpu call_code arg0 arg1 arg2 k =
     (if call_code = SYSCALL_EXIT then
        rbind (scheduler_exit hw cpu (k_sched k)) (\<lambda>(cpu', s). Inr (Continues cpu', k\<lparr>k_sched := s\<rparr>))
      else if call_code = SYSCALL_ABORT then Inl (Blocked ''abort'')
      else if call_code = SYSCALL_ALLOC then
        rbind (alloc arg0 arg1 READ_WRITE (kalloc (k_sched k))) (\<lambda>(p, a).
          Inr (Returns p, k\<lparr>k_sched := (k_sched k)\<lparr>kalloc := a\<rparr>\<rparr>))
      else if call_code = SYSCALL_FREE then
        rbind (alloc_free arg0 (kalloc (k_sched k))) (\<lambda>a.
          Inr (Returns 0, k\<lparr>k_sched := (k_sched k)\<lparr>kalloc := a\<rparr>\<rparr>))
      else if call_code = SYSCALL_PRINT then Inr (Returns 0, k\<lparr>k_stdio := puts (str arg0) (k_stdio k)\<rparr>)
      else Inl (Panicked ''unknown syscall: %lx''))"

text \<open>A call of a user task that exits fails the assertion of \<^verbatim>\<open>task_switch\<close>, as
  \<^verbatim>\<open>exit\<close> itself does, and a call with an unknown code panics.\<close>

lemma syscall_exit_asserts:
  assumes "sched_inv (k_sched k)" "task_switching_enabled (k_sched k)" "kill (current_task_id (k_sched k)) (k_sched k) = Inr s1"
  shows "syscall_handler hw str cpu SYSCALL_EXIT a b c k = Inl (Assert_failed ''current task is not running?'')"
  using exit_asserts [OF assms] by (simp add: syscall_handler_def)

end
