(* ===== verification/Memory_Init.thy ===== *)
theory Memory_Init
  imports Alloc
begin

text \<open>
  Bringing the memory up: \<^verbatim>\<open>memory::finish_init\<close> (src/kernel/memory.cpp),
  \<^verbatim>\<open>pma::finish_init\<close> (src/kernel/pma.cpp) and \<^verbatim>\<open>paging::finish_init\<close>
  (src/kernel/paging.cpp), over the allocators of \<open>Pma\<close>, \<open>Vma\<close> and \<open>Alloc\<close>. The
  state is that of the heap, which holds the three allocators; printing the free list is not modelled.
\<close>

definition memory_finish_init :: "memory_state \<Rightarrow> alloc_state \<Rightarrow> alloc_state res" where
  "memory_finish_init ms s =
     rbind (pma_early_init ms (kpaging s) (kpma s)) (\<lambda>(p1, ps1).
     rbind (vma_init (kvma s) p1 ps1) (\<lambda>(v2, p2, ps2).
       alloc_init (s\<lparr>kpma := p2, kvma := v2, kpaging := ps2\<rparr>)))"

text \<open>\<^verbatim>\<open>pma::finish_init\<close> passes an address where \<^verbatim>\<open>remove_from_free_list\<close> takes a
  size. Nothing calls it.\<close>

definition pma_finish_init :: "pma_state \<Rightarrow> vma_state \<Rightarrow> vma_state res" where
  "pma_finish_init p v =
     remove_from_free_list (physical_page_map p) (align_to (physical_page_base p + of_nat (bm_size (page_bits p))) PAGE_SIZE) v"

definition DYNAMIC_TABLES_BYTES :: nat where
  "DYNAMIC_TABLES_BYTES = 0x1000 * MAX_DYNAMIC_TABLES"

text \<open>Reloading \<^verbatim>\<open>cr3\<close> flushes the translations the processor has cached, of which the model keeps
  none.\<close>

definition paging_finish_init :: "alloc_state \<Rightarrow> alloc_state res" where
  "paging_finish_init s =
     rbind (get_contiguous_physical_pages (of_nat MAX_DYNAMIC_TABLES) (kpma s)) (\<lambda>(physical_pages, p1).
     rbind (identity_map_pages_into_kernel_space physical_pages (of_nat MAX_DYNAMIC_TABLES) (RW OR XD) (kpaging s)) (\<lambda>(virtual_addr, ps1).
     let ps2 = ps1\<lparr>dynamic_tables := virtual_addr,
           mem := (\<lambda>a. if unat (a - virtual_addr) < DYNAMIC_TABLES_BYTES then 0 else mem ps1 a),
           num_dynamic_tables_left := MAX_DYNAMIC_TABLES\<rparr> in
     rbind (remove_from_free_list virtual_addr (of_nat DYNAMIC_TABLES_BYTES) (kvma s)) (\<lambda>v1.
       Inr (s\<lparr>kpma := p1, kpaging := ps2, kvma := v1\<rparr>))))"

text \<open>
  \<^verbatim>\<open>pma::early_init\<close> establishes the allocator's invariant with no page taken, on a
  memory map whose first entry is a page-aligned region below 4 TiB.
\<close>

lemma pma_early_init_establishes:
  assumes "pma_early_init ms ps s = Inr (s', ps')" "get_memory_map ms = Inr mmap"
    "unat (entry_base (mmap ! 0)) mod 4096 = 0"
    "unat (entry_base (mmap ! 0)) + unat (entry_length (mmap ! 0)) < 2 ^ 42"
  shows "pma_inv s' \<and> taken_pages s' = {} \<and>
    unat (entry_length (mmap ! 0)) div 4096 \<le> bm_bits (page_bits s')"
proof -
  let ?m = "entry_length (mmap ! 0) div PAGE_SIZE"
  note st = pma_early_init_state [OF assms(1,2) refl assms(3,4)]
  have "unat ?m \<le> 2 ^ 31 - 64"
    using assms(4) div_le_mono [of "unat (entry_length (mmap ! 0))" "2 ^ 42" 4096] by (simp add: unat_div_PAGE_SIZE)
  note mk = bm_make_wf [OF this]
  have "bm_bits (bm_make ?m) \<le> 2 ^ 31" using mk(1) by (simp add: bm_wf_def)
  moreover have "physical_page_base s' \<noteq> 0"
  proof -
    have "0 < unat (physical_page_base s')" using st(2,3) by (simp add: word_less_nat_alt)
    then show ?thesis by auto
  qed
  ultimately have "pma_inv s'" using mk(1) st assms(4) by (simp add: pma_inv_def)
  moreover have "taken_pages s' = {}" using mk(3) st(1) by (auto simp: taken_pages_def)
  ultimately show ?thesis using mk(2) st(1) by (simp add: unat_div_PAGE_SIZE)
qed

text \<open>
  The map has a bit for every page of the region, but page 0 of the map lies behind the
  pages that hold the map itself: the page of the last bit lies outside the region.
\<close>

lemma pma_last_page_outside:
  assumes "pma_early_init ms ps s = Inr (s', ps')" "get_memory_map ms = Inr mmap"
    "unat (entry_base (mmap ! 0)) mod 4096 = 0" "unat (entry_length (mmap ! 0)) mod 4096 = 0"
    "0 < unat (entry_length (mmap ! 0))"
    "unat (entry_base (mmap ! 0)) + unat (entry_length (mmap ! 0)) < 2 ^ 42"
  shows "unat (entry_length (mmap ! 0)) div 4096 - 1 < bm_bits (page_bits s') \<and>
    unat (entry_base (mmap ! 0)) + unat (entry_length (mmap ! 0))
      \<le> unat (page_addr s' (unat (entry_length (mmap ! 0)) div 4096 - 1))"
proof -
  let ?e = "mmap ! 0" let ?m = "entry_length ?e div PAGE_SIZE" let ?n = "unat (entry_length ?e) div 4096"
  note st = pma_early_init_state [OF assms(1,2) refl assms(3,6)]
  obtain k where k: "unat (entry_length ?e) = 4096 * k" using assms(4) by (metis dvdE mod_eq_0_iff_dvd)
  then have kn: "?n = k" "0 < k" using assms(5) by auto
  have "unat ?m \<le> 2 ^ 31 - 64"
    using assms(6) div_le_mono [of "unat (entry_length ?e)" "2 ^ 42" 4096] by (simp add: unat_div_PAGE_SIZE)
  note mk = bm_make_wf [OF this]
  have in_map: "k - 1 < bm_bits (page_bits s')" using mk(2) st(1) kn by (simp add: unat_div_PAGE_SIZE)
  have "bm_bits (page_bits s') \<le> 2 ^ 31" using mk(1) st(1) by (simp add: bm_wf_def)
  then have k31: "k - 1 < 2 ^ 31" using in_map by simp
  have "unat (of_nat (k - 1) * PAGE_SIZE) = (k - 1) * 4096"
    using k31 by (simp add: PAGE_SIZE_def unat_word_ariths unat_of_nat)
  then have "unat (page_addr s' (k - 1)) = (k - 1) * 4096 + unat (physical_page_base s')"
    using st(2,4) k31 assms(6) unfolding page_addr_def by (simp add: unat_add_u64)
  moreover have "1 \<le> unat (div_ceil (size_required ?m) PAGE_SIZE)" using st(3) by (simp add: word_less_nat_alt)
  ultimately show ?thesis using st(2) k kn in_map by (cases k) simp_all
qed

text \<open>
  \<^verbatim>\<open>vma::init\<close> leaves a well-formed free list that never contains the kernel image, the
  low two megabytes, or the page that holds the list itself.
\<close>

lemma vma_init_free:
  assumes "vma_init s ms ps = Inr (s', ms', ps')" "length (nodes s) = NODES_PER_PAGE" "free_list_size s = 0"
    "virtual_free_list s' \<noteq> 0" "unat (virtual_free_list s') + 8192 \<le> 2 ^ 64"
  shows "vma_inv s' \<and> free_area s' \<subseteq> initial_free - area (virtual_free_list s') PAGE_SIZE"
proof -
  let ?ns = "(nodes s)[0 := \<lparr>node_base = 0, node_size = 0, node_next = None\<rparr>]"
  from assms(1) obtain v s1 s2 s3 where marks: "mark_free_range 0x200000 MAX_POSITIVE_VIRTUAL_ADDR
        (s\<lparr>virtual_free_list := v, max_free_list_size := NODES_PER_PAGE, nodes := ?ns\<rparr>) = Inr s1"
      "mark_free_range MIN_NEGATIVE_VIRTUAL_ADDR (KERNEL_VMA_START - 1) s1 = Inr s2"
      "mark_free_range KERNEL_VMA_END MAX_NEGATIVE_VIRTUAL_ADDR s2 = Inr s3"
      and rm: "remove_from_free_list v PAGE_SIZE s3 = Inr s'"
    by (auto simp: vma_init_def rbind_eq_Inr_iff Let_def)
  define s0 where "s0 = s\<lparr>virtual_free_list := v, max_free_list_size := NODES_PER_PAGE, nodes := ?ns\<rparr>"
  note keep = add_node_list_address
  have v3: "virtual_free_list s' = virtual_free_list s3"
    using rm keep by (fastforce simp: remove_from_free_list_def rbind_eq_Inr_iff Let_def set_node_def split: option.splits)
  have "virtual_free_list s3 = v"
    using marks keep by (fastforce simp: mark_free_range_def split: if_splits)
  then have v: "virtual_free_list s' = v" using v3 by simp
  have s0: "length (nodes s0) = NODES_PER_PAGE" "free_list_size s0 = 0" "virtual_free_list s0 \<noteq> 0"
      "max_free_list_size s0 = NODES_PER_PAGE" "nodes s0 ! 0 = \<lparr>node_base = 0, node_size = 0, node_next = None\<rparr>"
    using assms(2-4) v by (auto simp: s0_def NODES_PER_PAGE_def)
  have s3: "s3 = s0\<lparr>nodes := initial_nodes (nodes s0), free_list_size := 2\<rparr>"
    using initial_marks [OF s0] marks by (simp add: s0_def)
  note ok = initial_list_ok [OF s0(1,3,4)]
  have al: "align_to PAGE_SIZE PAGE_SIZE = PAGE_SIZE" by (simp add: align_to_def PAGE_SIZE_def)
  have free: "free_area s3 = initial_free" using list_ok_free [OF ok(1)] ok(2) s3 by simp
  have "vma_inv s' \<and> area v PAGE_SIZE \<subseteq> free_area s3 \<and> free_area s' \<subseteq> free_area s3 - area v PAGE_SIZE"
  proof (rule remove_effect [OF _ _ al _ _ rm])
    show "list_ok s3 [0, 1, 2]" using ok(1) s3 by simp
    show "\<forall>i \<in> set [0, 1, 2]. proper_node (nodes s3 ! i)" using ok(3) s3 by simp
    show "PAGE_SIZE \<noteq> 0" by (simp add: PAGE_SIZE_def)
    show "unat v + unat PAGE_SIZE \<le> 2 ^ 64" using assms(5) v by (simp add: PAGE_SIZE_def)
  qed
  then show ?thesis using free v by simp
qed

end
