(* ===== verification/Filesystem.thy ===== *)
theory Filesystem
  imports Floppy Heap Stdio
begin

text \<open>
  The FAT12 file system of src/kernel/filesystem.cpp over the floppy driver. The structures read
  from the disk are bytes of the memory of \<open>Libc_String\<close>, at the packed offsets of
  src/kernel/filesystem.h; their space comes from \<open>Alloc\<close>. The local array
  \<^verbatim>\<open>fragment\<close> lies at the address \<open>frag\<close>. Messages are not modelled.
\<close>

record fs_state =
  bpb :: u64
  root_dir :: u64
  fat :: u64
  fs_floppy :: floppy_state
  fs_mem :: bytes
  fs_alloc :: alloc_state

subsection \<open>Structures on the disk\<close>

definition bytes_per_sector :: "bytes \<Rightarrow> u64 \<Rightarrow> u16" where "bytes_per_sector m p = load16 m (p + 11)"
definition sectors_per_cluster :: "bytes \<Rightarrow> u64 \<Rightarrow> u8" where "sectors_per_cluster m p = m (p + 13)"
definition num_of_reserved_sectors :: "bytes \<Rightarrow> u64 \<Rightarrow> u16" where "num_of_reserved_sectors m p = load16 m (p + 14)"
definition num_of_fats :: "bytes \<Rightarrow> u64 \<Rightarrow> u8" where "num_of_fats m p = m (p + 16)"
definition num_of_directory_entries :: "bytes \<Rightarrow> u64 \<Rightarrow> u16" where "num_of_directory_entries m p = load16 m (p + 17)"
definition sectors_per_fat :: "bytes \<Rightarrow> u64 \<Rightarrow> u16" where "sectors_per_fat m p = load16 m (p + 22)"

definition entry_attributes :: "bytes \<Rightarrow> u64 \<Rightarrow> u8" where "entry_attributes m e = m (e + 11)"
definition cluster_num_lo :: "bytes \<Rightarrow> u64 \<Rightarrow> u16" where "cluster_num_lo m e = load16 m (e + 26)"
definition entry_size :: "bytes \<Rightarrow> u64 \<Rightarrow> u32" where "entry_size m e = load32 m (e + 28)"

definition DIRECTORY :: u8 where "DIRECTORY = 0x10"
definition file_name_size :: nat where "file_name_size = 8"
definition file_full_name_size :: nat where "file_full_name_size = 11"
definition SIZEOF_BPB :: u64 where "SIZEOF_BPB = 62"
definition SIZEOF_DIRECTORY_ENTRY :: u64 where "SIZEOF_DIRECTORY_ENTRY = 32"

subsection \<open>Paths\<close>

text \<open>\<open>k\<close> characters of the fragment: a blank once \<open>stop\<close> holds of the pointer, else the
  next character of the path in upper case.\<close>

fun fill_field :: "bytes \<Rightarrow> (u64 \<Rightarrow> bool) \<Rightarrow> nat \<Rightarrow> u64 \<Rightarrow> u8 list \<times> u64" where
  "fill_field m stop 0 rest = ([], rest)"
| "fill_field m stop (Suc k) rest =
     (if stop rest then let (cs, r) = fill_field m stop k rest in (0x20 # cs, r)
      else let (cs, r) = fill_field m stop k (rest + 1) in (of_int (toupper (sint (m rest))) # cs, r))"

definition terminated :: "'a option \<Rightarrow> 'a res" where
  "terminated x = (case x of None \<Rightarrow> Inl (Undefined_behaviour ''string without terminator'') | Some y \<Rightarrow> Inr y)"

definition read_next_fragment :: "bytes \<Rightarrow> u64 \<Rightarrow> (u8 list \<times> u64) res" where
  "read_next_fragment m rest =
     rbind (terminated (strchr m rest 0x2F)) (\<lambda>dir_sep.
     rbind (terminated (strchr m rest 0x2E)) (\<lambda>file_ext_sep.
     rbind (case dir_sep of Some d \<Rightarrow> Inr d | None \<Rightarrow> rbind (terminated (strlen m rest)) (\<lambda>n. Inr (rest + of_nat n))) (\<lambda>path_end.
       let (name, r1) = fill_field m (\<lambda>p. (case file_ext_sep of Some e \<Rightarrow> p \<ge> e | None \<Rightarrow> False) \<or> p \<ge> path_end)
             file_name_size rest
       in rbind (assert_that (case file_ext_sep of None \<Rightarrow> True | Some e \<Rightarrow> m r1 = 0x2E \<and> r1 = e) ''did we skip over the dot?'') (\<lambda>_.
          let r2 = (if file_ext_sep = None then r1 else r1 + 1);
              (ext, r3) = fill_field m (\<lambda>p. p \<ge> path_end) (file_full_name_size - file_name_size) r2
          in Inr (name @ ext, r3)))))"

definition put_fragment :: "u64 \<Rightarrow> u8 list \<Rightarrow> bytes \<Rightarrow> bytes" where
  "put_fragment frag cs m = (\<lambda>a. if unat (a - frag) < length cs then cs ! unat (a - frag)
     else if unat (a - frag) = length cs then 0 else m a)"

text \<open>The search of \<^verbatim>\<open>resolve_path\<close>; the entry it finds, or 0.\<close>

partial_function (option) resolve_loop :: "u64 \<Rightarrow> nat \<Rightarrow> bytes \<Rightarrow> nat \<Rightarrow> u64 \<Rightarrow> u64 \<Rightarrow> u64 res option" where
  "resolve_loop frag directory_size m i directory rest =
     (if i < directory_size then
        let entry = directory + SIZEOF_DIRECTORY_ENTRY * of_nat i in
        if strncmp m entry frag file_full_name_size = 0 then
          if m rest = 0 then
            Some (rbind (assert_that (entry_attributes m entry AND DIRECTORY = 0) ''file should not be a directory!'') (\<lambda>_. Inr entry))
          else if entry_attributes m entry AND DIRECTORY = 0 then Some (Inl (Assert_failed ''path fragment not directory!''))
          else (case read_next_fragment m rest of
                  Inl e \<Rightarrow> Some (Inl e)
                | Inr (f, r) \<Rightarrow> resolve_loop frag directory_size (put_fragment frag f m) 1 entry r)
        else resolve_loop frag directory_size m (i + 1) directory rest
      else Some (Inr 0))"

definition resolve_path :: "u64 \<Rightarrow> u64 \<Rightarrow> fs_state \<Rightarrow> u64 res" where
  "resolve_path frag path s =
     rbind (assert_that (root_dir s \<noteq> 0) ''can't resolve path before root dir is populated!'') (\<lambda>_.
     rbind (assert_that (bpb s \<noteq> 0) ''can't resolve path before bios param block is populated!'') (\<lambda>_.
     rbind (assert_that (path \<noteq> 0 \<and> fs_mem s path = 0x2F) ''path null or not rooted!'') (\<lambda>_.
     rbind (read_next_fragment (fs_mem s) (path + 1)) (\<lambda>(f, rest).
       case resolve_loop frag (unat (num_of_directory_entries (fs_mem s) (bpb s))) (put_fragment frag f (fs_mem s)) 0 (root_dir s) rest of
         None \<Rightarrow> Inl (Blocked ''resolve_path'')
       | Some r \<Rightarrow> r))))"

text \<open>The lines \<^verbatim>\<open>dump_dir\<close> prints: a name and a size each.\<close>

definition dump_dir :: "u64 \<Rightarrow> fs_state \<Rightarrow> (u8 list \<times> u32) list res" where
  "dump_dir path s =
     rbind (assert_that (path \<noteq> 0) ''can't dump null path!'') (\<lambda>_.
       if \<not> (fs_mem s path = 0x2F \<and> fs_mem s (path + 1) = 0) then Inr []
       else Inr (concat (map (\<lambda>i. let entry = root_dir s + SIZEOF_DIRECTORY_ENTRY * of_nat i in
              if fs_mem s entry \<noteq> 0
              then [(takeWhile (\<lambda>c. c \<noteq> 0) (map (\<lambda>j. fs_mem s (entry + of_nat j)) [0..<file_name_size]), entry_size (fs_mem s) entry)]
              else []) [0..<unat (num_of_directory_entries (fs_mem s) (bpb s))])))"

subsection \<open>Reading\<close>

definition fs_read :: "floppy_env \<Rightarrow> (trace \<Rightarrow> bytes \<Rightarrow> bytes) \<Rightarrow> u64 \<Rightarrow> int \<Rightarrow> int \<Rightarrow> fs_state \<Rightarrow> fs_state res" where
  "fs_read env dma buffer lba sector_count s =
     rbind (read_floppy_or_fail env dma buffer lba sector_count (fs_floppy s) (fs_mem s)) (\<lambda>(fl, m).
       Inr (s\<lparr>fs_floppy := fl, fs_mem := m\<rparr>))"

definition fs_allocate :: "u64 \<Rightarrow> fs_state \<Rightarrow> (u64 \<times> fs_state) res" where
  "fs_allocate n s = rbind (alloc n 1 READ_WRITE (fs_alloc s)) (\<lambda>(p, a). Inr (p, s\<lparr>fs_alloc := a\<rparr>))"

definition read_boot_param_block :: "floppy_env \<Rightarrow> (trace \<Rightarrow> bytes \<Rightarrow> bytes) \<Rightarrow> fs_state \<Rightarrow> fs_state res" where
  "read_boot_param_block env dma s =
     rbind (fs_allocate SIZEOF_BPB s) (\<lambda>(p, s1).
     rbind (fs_read env dma p 0 1 (s1\<lparr>bpb := p\<rparr>)) (\<lambda>s2.
     rbind (assert_that (bytes_per_sector (fs_mem s2) (bpb s2) = 512) ''unsupported number of bytes per sector!'') (\<lambda>_.
       Inr s2)))"

definition read_root_directory :: "floppy_env \<Rightarrow> (trace \<Rightarrow> bytes \<Rightarrow> bytes) \<Rightarrow> fs_state \<Rightarrow> fs_state res" where
  "read_root_directory env dma s =
     rbind (assert_that (bpb s \<noteq> 0) ''bios param block must be populated before root directory!'') (\<lambda>_.
       let m = fs_mem s;
           fat_sectors = uint (sectors_per_fat m (bpb s)) * uint (num_of_fats m (bpb s));
           root_directory_sector = uint (num_of_reserved_sectors m (bpb s)) + fat_sectors;
           root_directory_size = SIZEOF_DIRECTORY_ENTRY * ucast (num_of_directory_entries m (bpb s));
           root_directory_sector_count = root_directory_size div 512
       in rbind (fs_allocate root_directory_size s) (\<lambda>(p, s1).
            fs_read env dma p root_directory_sector (uint root_directory_sector_count) (s1\<lparr>root_dir := p\<rparr>)))"

definition fs_init :: "floppy_env \<Rightarrow> (trace \<Rightarrow> bytes \<Rightarrow> bytes) \<Rightarrow> u64 \<Rightarrow> u64 \<Rightarrow> fs_state \<Rightarrow> fs_state res" where
  "fs_init env dma frag kernel_path s =
     rbind (read_boot_param_block env dma s) (\<lambda>s1.
     rbind (read_root_directory env dma s1) (\<lambda>s2.
     rbind (fs_allocate (2 * 512) s2) (\<lambda>(p, s3).
     let s4 = s3\<lparr>fat := p\<rparr> in
     rbind (resolve_path frag kernel_path s4) (\<lambda>kernel.
     rbind (assert_that (kernel \<noteq> 0) ''couldn't get kernel file!'') (\<lambda>_. Inr s4)))))"

text \<open>The entry of the table for \<open>cluster\<close> in the two sectors loaded at \<^verbatim>\<open>fat\<close>.\<close>

definition fat_offset :: "u16 \<Rightarrow> nat" where
  "fat_offset cluster = unat cluster + unat cluster div 2"

definition next_cluster :: "bytes \<Rightarrow> u64 \<Rightarrow> u16 \<Rightarrow> u16" where
  "next_cluster m table cluster =
     (let fat_value = load16 m (table + of_nat (fat_offset cluster mod 512)) in
      if cluster AND 1 \<noteq> 0 then drop_bit 4 fat_value else fat_value AND 0x0FFF)"

definition data_sector :: "bytes \<Rightarrow> u64 \<Rightarrow> int \<Rightarrow> u16 \<Rightarrow> u16" where
  "data_sector m p first_data_sector cluster =
     of_int ((uint cluster - 2) * uint (sectors_per_cluster m p) + first_data_sector)"

partial_function (option) read_chain :: "floppy_env \<Rightarrow> (trace \<Rightarrow> bytes \<Rightarrow> bytes) \<Rightarrow> u64 \<Rightarrow> int \<Rightarrow> int \<Rightarrow> u64 \<Rightarrow> u16 \<Rightarrow> int \<Rightarrow>
    fs_state \<Rightarrow> fs_state res option" where
  "read_chain env dma buffer first_fat_sector first_data_sector offset cluster loaded_fat_sector s =
     (if cluster < 0xFF8 then
        let fat_sector = first_fat_sector + int (fat_offset cluster div 512) in
        case (if fat_sector \<noteq> loaded_fat_sector then fs_read env dma (fat s) fat_sector 2 s else Inr s) of
          Inl e \<Rightarrow> Some (Inl e)
        | Inr s1 \<Rightarrow>
            (case fs_read env dma (buffer + offset) (uint (data_sector (fs_mem s1) (bpb s1) first_data_sector cluster)) 1 s1 of
               Inl e \<Rightarrow> Some (Inl e)
             | Inr s2 \<Rightarrow> read_chain env dma buffer first_fat_sector first_data_sector (offset + 512)
                 (next_cluster (fs_mem s2) (fat s2) cluster) fat_sector s2)
      else Some (Inr s))"

definition read_file :: "floppy_env \<Rightarrow> (trace \<Rightarrow> bytes \<Rightarrow> bytes) \<Rightarrow> u64 \<Rightarrow> u64 \<Rightarrow> fs_state \<Rightarrow> (u64 \<times> fs_state) res" where
  "read_file env dma frag path s =
     rbind (assert_that (bpb s \<noteq> 0) ''must have bios param block to read files!'') (\<lambda>_.
     rbind (assert_that (fat s \<noteq> 0) ''must have fat storage to read files!'') (\<lambda>_.
     rbind (resolve_path frag path s) (\<lambda>file_entry.
     if file_entry = 0 then Inr (0, s)
     else rbind (fs_allocate (ucast (entry_size (fs_mem s) file_entry)) s) (\<lambda>(buffer, s1).
       let m = fs_mem s1;
           first_fat_sector = num_of_reserved_sectors m (bpb s1);
           num_of_fat_sectors = sectors_per_fat m (bpb s1) * ucast (num_of_fats m (bpb s1)) :: u16;
           size_of_root_dir = num_of_directory_entries m (bpb s1) * ucast SIZEOF_DIRECTORY_ENTRY :: u16;
           num_of_root_dir_sectors = div_ceil (ucast size_of_root_dir) 512;
           first_data_sector = uint first_fat_sector + uint num_of_fat_sectors + uint num_of_root_dir_sectors
       in case read_chain env dma buffer (uint first_fat_sector) first_data_sector 0 (cluster_num_lo m file_entry) 0 s1 of
            None \<Rightarrow> Inl (Blocked ''read_file'')
          | Some r \<Rightarrow> rbind r (\<lambda>s2. Inr (buffer, s2))))))"

subsection \<open>Resolving a path in the root directory\<close>

lemma cstr_nth: "cstr m p cs \<Longrightarrow> i < length cs \<Longrightarrow> m (p + of_nat i) = cs ! i"
  by (induction cs arbitrary: p i) (auto simp: less_Suc_eq_0_disj simp flip: add.assoc)

lemma cstr_end: "cstr m p cs \<Longrightarrow> m (p + of_nat (length cs)) = 0"
  by (induction cs arbitrary: p) (auto simp flip: add.assoc)

lemma strchr_cstr_none: "cstr m p cs \<Longrightarrow> ucast ch \<notin> set cs \<Longrightarrow> (ucast ch :: u8) \<noteq> 0 \<Longrightarrow> strchr m p ch = Some None"
  by (induction cs arbitrary: p) (auto simp: strchr.simps)

lemma strchr_cstr_found:
  "cstr m p (xs @ ucast ch # ys) \<Longrightarrow> ucast ch \<notin> set xs \<Longrightarrow> strchr m p ch = Some (Some (p + of_nat (length xs)))"
  by (induction xs arbitrary: p) (auto simp: strchr.simps ac_simps)

definition upper :: "u8 \<Rightarrow> u8" where
  "upper c = of_int (toupper (sint c))"

text \<open>A name as the directory holds it: upper case, blanks up to \<open>k\<close> characters.\<close>

definition pad :: "nat \<Rightarrow> u8 list \<Rightarrow> u8 list" where
  "pad k cs = map upper cs @ replicate (k - length cs) 0x20"

definition short_name :: "u8 list \<Rightarrow> u8 list option \<Rightarrow> u8 list" where
  "short_name name ext = pad 8 name @ pad 3 (case ext of None \<Rightarrow> [] | Some e \<Rightarrow> e)"

definition written_name :: "u8 list \<Rightarrow> u8 list option \<Rightarrow> u8 list" where
  "written_name name ext = name @ (case ext of None \<Rightarrow> [] | Some e \<Rightarrow> 0x2E # e)"

definition plain :: "u8 list \<Rightarrow> bool" where
  "plain cs \<longleftrightarrow> 0 \<notin> set cs \<and> 0x2E \<notin> set cs \<and> 0x2F \<notin> set cs"

lemma fill_field_blank: "stop p \<Longrightarrow> fill_field m stop k p = (replicate k 0x20, p)"
  by (induction k) simp_all

lemma fill_field_pad:
  assumes "\<And>i. i < length xs \<Longrightarrow> m (p + of_nat i) = xs ! i" "\<And>i. i < length xs \<Longrightarrow> \<not> stop (p + of_nat i)"
    "stop (p + of_nat (length xs))" "length xs \<le> k"
  shows "fill_field m stop k p = (pad k xs, p + of_nat (length xs))"
  using assms
proof (induction xs arbitrary: p k)
  case Nil
  then show ?case using fill_field_blank by (simp add: pad_def)
next
  case (Cons x xs)
  obtain k' where k: "k = Suc k'" using Cons.prems(4) by (cases k) auto
  have "fill_field m stop k' (p + 1) = (pad k' xs, p + 1 + of_nat (length xs))"
    using Cons.prems(1) [of "Suc i" for i] Cons.prems(2) [of "Suc i" for i] Cons.prems(3,4) k
    by (intro Cons.IH) (simp_all add: ac_simps)
  then show ?case using Cons.prems(1) [of 0] Cons.prems(2) [of 0] k by (simp add: pad_def upper_def ac_simps)
qed

lemma offset_le:
  assumes "unat (p :: u64) + n < 2 ^ 64" "i \<le> n" "j \<le> n"
  shows "p + of_nat j \<le> p + of_nat i \<longleftrightarrow> j \<le> i"
proof -
  have "unat (p + of_nat x) = unat p + x" if "x \<le> n" for x
    using assms(1) that unat_of_nat_u64 [of x] by (subst unat_add_u64) simp_all
  then show ?thesis using assms(2,3) by (simp add: word_le_nat_alt)
qed

lemma read_next_fragment_plain:
  assumes c: "cstr m r (written_name name ext)" and "plain name" "length name \<le> 8"
    and ext: "\<And>e. ext = Some e \<Longrightarrow> plain e \<and> length e \<le> 3" and wrap: "unat r + length (written_name name ext) < 2 ^ 64"
  shows "read_next_fragment m r = Inr (short_name name ext, r + of_nat (length (written_name name ext)))"
proof -
  let ?w = "written_name name ext" let ?l = "length ?w"
  have "0x2F \<notin> set ?w" using assms(2) ext by (auto simp: written_name_def plain_def split: option.splits)
  then have sep: "strchr m r 0x2F = Some None" using strchr_cstr_none [OF c, of "0x2F"] by simp
  have len: "strlen m r = Some ?l" using strlen_cstr [OF c] .
  note le = offset_le [OF wrap]
  have name_at: "m (r + of_nat i) = name ! i" if "i < length name" for i
    using cstr_nth [OF c, of i] that by (auto simp: written_name_def nth_append)
  show ?thesis
  proof (cases ext)
    case None
    then have w: "?w = name" by (simp add: written_name_def)
    have dot: "strchr m r 0x2E = Some None"
      using strchr_cstr_none [OF c, of "0x2E"] assms(2) w by (simp add: plain_def)
    have "fill_field m (\<lambda>p. r + of_nat ?l \<le> p) 8 r = (pad 8 name, r + of_nat ?l)"
      using fill_field_pad [of name m r "\<lambda>p. r + of_nat ?l \<le> p" 8] name_at le assms(3) w by auto
    moreover have "fill_field m (\<lambda>p. r + of_nat ?l \<le> p) 3 (r + of_nat ?l) = (pad 3 [], r + of_nat ?l)"
      by (simp add: fill_field_blank pad_def)
    ultimately show ?thesis
      using sep dot len None
      by (simp add: read_next_fragment_def terminated_def file_name_size_def file_full_name_size_def short_name_def)
  next
    case (Some e)
    let ?d = "length name"
    have w: "?w = name @ 0x2E # e" using Some by (simp add: written_name_def)
    have dot: "strchr m r 0x2E = Some (Some (r + of_nat ?d))"
      using strchr_cstr_found [of m r name "0x2E" e] c w assms(2) by (simp add: plain_def)
    have m_dot: "m (r + of_nat ?d) = 0x2E" using cstr_nth [OF c, of ?d] w by simp
    let ?stop = "\<lambda>p. r + of_nat ?d \<le> p \<or> r + of_nat ?l \<le> p"
    have l: "?l = Suc ?d + length e" using w by simp
    have f1: "fill_field m ?stop 8 r = (pad 8 name, r + of_nat ?d)"
    proof (rule fill_field_pad)
      fix i
      assume "i < length name"
      then show "\<not> (r + of_nat ?d \<le> r + of_nat i \<or> r + of_nat ?l \<le> r + of_nat i)"
        using le [of i ?d] le [of i ?l] l by simp
    qed (use name_at assms(3) in auto)
    have e_at: "m (r + of_nat (Suc ?d) + of_nat i) = e ! i" if "i < length e" for i
      using cstr_nth [OF c, of "Suc ?d + i"] w that by (simp add: nth_append ac_simps)
    have "fill_field m (\<lambda>p. r + of_nat ?l \<le> p) 3 (r + of_nat (Suc ?d)) = (pad 3 e, r + of_nat (Suc ?d) + of_nat (length e))"
    proof (rule fill_field_pad)
      show "\<And>i. i < length e \<Longrightarrow> \<not> r + of_nat ?l \<le> r + of_nat (Suc ?d) + of_nat i"
        using le [of "Suc ?d + i" ?l for i] l by (simp add: ac_simps)
      show "r + of_nat ?l \<le> r + of_nat (Suc ?d) + of_nat (length e)" using l by (simp add: ac_simps)
    qed (use e_at ext Some in auto)
    then show ?thesis
      using sep dot len f1 m_dot Some l
      by (simp add: read_next_fragment_def terminated_def file_name_size_def file_full_name_size_def short_name_def ac_simps)
  qed
qed

lemma strncmp_from_eq:
  assumes "\<And>i. i < n \<Longrightarrow> m (b + of_nat i) \<noteq> 0" "k \<le> n"
  shows "strncmp_from m a b n k = 0 \<longleftrightarrow> (\<forall>i. k \<le> i \<and> i < n \<longrightarrow> m (a + of_nat i) = m (b + of_nat i))"
  using assms(2)
proof (induction "n - k" arbitrary: k)
  case 0
  then show ?case by (auto simp: strncmp_from.simps)
next
  case (Suc x)
  have split: "(\<forall>i. k \<le> i \<and> i < n \<longrightarrow> P i) \<longleftrightarrow> P k \<and> (\<forall>i. Suc k \<le> i \<and> i < n \<longrightarrow> P i)" for P
    using Suc.hyps(2) by (metis Suc_leD Suc_leI le_neq_implies_less le_refl zero_less_Suc zero_less_diff)
  show ?case
    using Suc.hyps assms(1) [of k] Suc.hyps(1) [of "Suc k"] by (subst strncmp_from.simps, subst split) (auto simp: Let_def)
qed

text \<open>Entry \<open>j\<close> of a directory has the name \<open>cs\<close>.\<close>

definition entry_named :: "bytes \<Rightarrow> u64 \<Rightarrow> u8 list \<Rightarrow> nat \<Rightarrow> bool" where
  "entry_named m directory cs j \<longleftrightarrow>
     (\<forall>i < length cs. m (directory + SIZEOF_DIRECTORY_ENTRY * of_nat j + of_nat i) = cs ! i)"

lemma entry_named_map:
  "entry_named m directory cs j \<longleftrightarrow>
     map (\<lambda>i. m (directory + SIZEOF_DIRECTORY_ENTRY * of_nat j + of_nat i)) [0..<length cs] = cs"
  unfolding entry_named_def list_eq_iff_nth_eq by simp

lemma resolve_loop_search:
  assumes "m rest = 0" "i \<le> n" "length cs = 11" "\<And>k. k < 11 \<Longrightarrow> m (frag + of_nat k) = cs ! k" "0 \<notin> set cs"
  shows "resolve_loop frag n m i directory rest = Some (case find (entry_named m directory cs) [i..<n] of
     None \<Rightarrow> Inr 0
   | Some j \<Rightarrow> let entry = directory + SIZEOF_DIRECTORY_ENTRY * of_nat j in
       rbind (assert_that (entry_attributes m entry AND DIRECTORY = 0) ''file should not be a directory!'') (\<lambda>_. Inr entry))"
  using assms(2)
proof (induction "n - i" arbitrary: i)
  case 0
  then show ?case by (simp add: resolve_loop.simps)
next
  case (Suc x)
  have "strncmp m (directory + SIZEOF_DIRECTORY_ENTRY * of_nat i) frag 11 = 0 \<longleftrightarrow> entry_named m directory cs i"
    using strncmp_from_eq [of 11 m frag 0] assms(3-5) by (auto simp: strncmp_def entry_named_def set_conv_nth)
  moreover have "[i..<n] = i # [Suc i..<n]" using Suc.hyps(2) by (simp add: upt_conv_Cons)
  moreover have "i < n" "Suc i \<le> n" using Suc.hyps(2) by simp_all
  moreover note Suc.hyps(1) [of "Suc i"]
  ultimately show ?case
    using Suc.hyps(2) assms(1) by (subst resolve_loop.simps) (simp add: file_full_name_size_def Let_def)
qed

lemma put_fragment_other: "length cs < unat (a - frag) \<Longrightarrow> put_fragment frag cs m a = m a"
  by (simp add: put_fragment_def)

lemma put_fragment_at: "k < length cs \<Longrightarrow> length cs < 2 ^ 64 \<Longrightarrow> put_fragment frag cs m (frag + of_nat k) = cs ! k"
  using unat_of_nat_u64 [of k] by (simp add: put_fragment_def)

lemma upper_nonzero: "c \<noteq> 0 \<Longrightarrow> upper c \<noteq> 0"
proof
  assume c: "c \<noteq> 0" "upper c = 0"
  then have l: "islower (sint c)" by (auto simp: upper_def toupper_def split: if_splits)
  then have "c - 32 = 0" using c(2) by (simp add: upper_def toupper_def)
  then have "c = 32" by simp
  then show False using l by (simp add: islower_def)
qed

lemma short_name_length: "length name \<le> 8 \<Longrightarrow> (\<And>e. ext = Some e \<Longrightarrow> length e \<le> 3) \<Longrightarrow> length (short_name name ext) = 11"
  by (cases ext) (auto simp: short_name_def pad_def)

lemma pad_nonzero: "plain cs \<Longrightarrow> 0 \<notin> set (pad k cs)"
  by (auto simp: pad_def plain_def) (metis upper_nonzero)

lemma short_name_nonzero:
  "plain name \<Longrightarrow> (\<And>e. ext = Some e \<Longrightarrow> plain e) \<Longrightarrow> 0 \<notin> set (short_name name ext)"
  by (cases ext) (auto simp: short_name_def pad_nonzero, simp add: pad_def)

text \<open>
  C25. A file of the root directory is found by its name: for a path made of a slash, a name of at
  most eight characters and possibly a dot and an extension of at most three,
  \<^verbatim>\<open>resolve_path\<close> returns the first entry whose eleven characters are the name and
  the extension in upper case, padded with blanks, or null when there is none; it fails an
  assertion only if that entry is a directory.
\<close>

theorem root_file_resolves:
  assumes "cstr (fs_mem s) path (0x2F # written_name name ext)" "plain name" "length name \<le> 8"
    "\<And>e. ext = Some e \<Longrightarrow> plain e \<and> length e \<le> 3"
    "unat path + 1 + length (written_name name ext) < 2 ^ 64"
    "root_dir s \<noteq> 0" "bpb s \<noteq> 0" "path \<noteq> 0" "n = unat (num_of_directory_entries (fs_mem s) (bpb s))"
    "11 < unat (path + 1 + of_nat (length (written_name name ext)) - frag)"
    "\<And>i. i < 32 * n \<Longrightarrow> 11 < unat (root_dir s + of_nat i - frag)"
  shows "resolve_path frag path s =
    (case find (entry_named (fs_mem s) (root_dir s) (short_name name ext)) [0..<n] of
       None \<Rightarrow> Inr 0
     | Some j \<Rightarrow> let entry = root_dir s + 32 * of_nat j in
         if entry_attributes (fs_mem s) entry AND DIRECTORY = 0 then Inr entry
         else Inl (Assert_failed ''file should not be a directory!''))"
proof -
  let ?cs = "short_name name ext" let ?m = "put_fragment frag ?cs (fs_mem s)"
  let ?rest = "path + 1 + of_nat (length (written_name name ext))"
  have cs: "length ?cs = 11" "0 \<notin> set ?cs" using assms(2-4) short_name_length short_name_nonzero by blast+
  have c: "cstr (fs_mem s) (path + 1) (written_name name ext)" "fs_mem s path = 0x2F" using assms(1) by auto
  have "unat (path + 1) = unat path + 1" using assms(5) by (simp add: unat_add_u64)
  then have "read_next_fragment (fs_mem s) (path + 1) = Inr (?cs, ?rest)"
    using read_next_fragment_plain [OF c(1) assms(2,3)] assms(4,5) by simp
  moreover have "?m ?rest = 0" using cstr_end [OF c(1)] assms(10) cs(1) by (simp add: put_fragment_other)
  moreover have same: "?m (root_dir s + 32 * of_nat j + of_nat i) = fs_mem s (root_dir s + 32 * of_nat j + of_nat i)"
    if "j < n" "i < 12" for j i
    using assms(11) [of "32 * j + i"] that cs(1) by (simp add: put_fragment_other ac_simps)
  then have "find (entry_named ?m (root_dir s) ?cs) [0..<n] = find (entry_named (fs_mem s) (root_dir s) ?cs) [0..<n]"
    using cs(1) by (intro find_cong) (auto simp: entry_named_def SIZEOF_DIRECTORY_ENTRY_def)
  moreover have "entry_attributes ?m (root_dir s + 32 * of_nat j) = entry_attributes (fs_mem s) (root_dir s + 32 * of_nat j)"
    if "find (entry_named (fs_mem s) (root_dir s) ?cs) [0..<n] = Some j" for j
    using same [of j 11] that by (auto simp: entry_attributes_def find_Some_iff)
  ultimately show ?thesis
    using resolve_loop_search [of ?m ?rest 0 n ?cs frag "root_dir s"] cs put_fragment_at [of _ ?cs frag "fs_mem s"] assms(6-9) c(2)
    by (auto simp: resolve_path_def SIZEOF_DIRECTORY_ENTRY_def Let_def assert_that_def split: option.split)
qed

definition sample_fs :: fs_state where
  "sample_fs = \<lparr>bpb = 0x1000, root_dir = 0x2000, fat = 0,
     fs_floppy = \<lparr>fl_trace = [], g_drive_number = 0, disk_interrupt_handled = False, floppy_dma = \<lparr>dma_data = 0, dma_size = 0\<rparr>\<rparr>,
     fs_mem = (\<lambda>_. 0)(0x1011 := 1, 0x2000 := 0x41, 0x2001 := 0x20, 0x2002 := 0x20, 0x2003 := 0x20, 0x2004 := 0x20,
       0x2005 := 0x20, 0x2006 := 0x20, 0x2007 := 0x20, 0x2008 := 0x42, 0x2009 := 0x20, 0x200A := 0x20,
       0x5000 := 0x2F, 0x5001 := 0x61, 0x5002 := 0x2E, 0x5003 := 0x62),
     fs_alloc = sample_heap\<rparr>"

theorem root_file_resolves_witness: "resolve_path 0x100 0x5000 sample_fs = Inr 0x2000"
proof -
  have n: "unat (num_of_directory_entries (fs_mem sample_fs) (bpb sample_fs)) = 1"
    by (simp add: num_of_directory_entries_def load16_def sample_fs_def)
  have apart: "11 < unat (root_dir sample_fs + of_nat i - 0x100)" if "i < 32 * 1" for i
  proof -
    have "root_dir sample_fs + of_nat i - 0x100 = of_nat (0x1F00 + i)" by (simp add: sample_fs_def)
    then show ?thesis using that unat_of_nat_u64 [of "0x1F00 + i"] by (simp del: of_nat_add)
  qed
  have up: "upper 0x61 = 0x41" "upper 0x62 = 0x42" by (simp_all add: upper_def toupper_def islower_def EOF_def)
  have name: "short_name [0x61] (Some [0x62]) = [0x41, 0x20, 0x20, 0x20, 0x20, 0x20, 0x20, 0x20, 0x42, 0x20, 0x20]"
    by (simp add: short_name_def pad_def up numeral_eq_Suc)
  have "find (entry_named (fs_mem sample_fs) (root_dir sample_fs) (short_name [0x61] (Some [0x62]))) [0..<1] = Some 0"
    by (simp add: entry_named_map name upt_conv_Cons sample_fs_def)
  moreover have "resolve_path 0x100 0x5000 sample_fs =
    (case find (entry_named (fs_mem sample_fs) (root_dir sample_fs) (short_name [0x61] (Some [0x62]))) [0..<1] of
       None \<Rightarrow> Inr 0
     | Some j \<Rightarrow> let entry = root_dir sample_fs + 32 * of_nat j in
         if entry_attributes (fs_mem sample_fs) entry AND DIRECTORY = 0 then Inr entry
         else Inl (Assert_failed ''file should not be a directory!''))"
    using n apart by (intro root_file_resolves) (auto simp: plain_def written_name_def, auto simp: sample_fs_def)
  ultimately show ?thesis by (simp add: entry_attributes_def sample_fs_def)
qed

text \<open>The slash after a directory is not skipped: the next fragment is blank and the pointer stays
  where it is, so a path with a second component is searched for under a blank name.\<close>

lemma fragment_at_slash:
  assumes "cstr m r (0x2F # cs)" "0x2E \<notin> set cs"
  shows "read_next_fragment m r = Inr (replicate 11 0x20, r)"
proof -
  have "strchr m r 0x2F = Some (Some r)" using strchr_cstr_found [of m r "[]" "0x2F" cs] assms(1) by simp
  moreover have "strchr m r 0x2E = Some None" using strchr_cstr_none [OF assms(1), of "0x2E"] assms(2) by simp
  ultimately show ?thesis
    by (simp add: read_next_fragment_def terminated_def fill_field_blank file_name_size_def file_full_name_size_def
        flip: replicate_add)
qed

subsection \<open>The file allocation table\<close>

text \<open>Byte \<open>b\<close> of a table of 12-bit entries, two entries in three bytes.\<close>

definition fat_byte :: "(nat \<Rightarrow> u16) \<Rightarrow> nat \<Rightarrow> u8" where
  "fat_byte e b = (let j = 2 * (b div 3) in
     if b mod 3 = 0 then ucast (e j)
     else if b mod 3 = 1 then ucast (drop_bit 8 (e j)) OR push_bit 4 (ucast (e (j + 1)))
     else ucast (drop_bit 4 (e (j + 1))))"

lemma bit_below_12: "x < (0x1000 :: u16) \<Longrightarrow> bit x n \<Longrightarrow> n < 12"
proof -
  assume x: "x < 0x1000" "bit x n"
  have "unat x < 2 ^ 12" using x(1) by (simp add: word_less_nat_alt)
  then have "take_bit 12 (unat x) = unat x" by (rule take_bit_nat_eq_self)
  moreover have "bit (unat x) n" using x(2) by (simp add: bit_unsigned_iff)
  ultimately show ?thesis by (metis bit_take_bit_iff)
qed

lemma load_even:
  assumes "x < (0x1000 :: u16)" "lo = (ucast x :: u8)" "hi = (ucast (drop_bit 8 x) OR push_bit 4 (ucast y) :: u8)"
  shows "(ucast lo OR push_bit 8 (ucast hi)) AND 0x0FFF = x"
proof (rule bit_eqI)
  fix n
  assume "possible_bit TYPE(16 word) n"
  then have n: "n < 16" by (simp add: possible_bit_word)
  have x: "bit x n \<Longrightarrow> n < 12" by (rule bit_below_12 [OF assms(1)])
  have m: "bit (0x0FFF :: u16) n \<longleftrightarrow> n < 12" using n bit_mask_iff [of 12 n, where 'a = u16] by (simp add: mask_numeral possible_bit_word)
  show "bit ((ucast lo OR push_bit 8 (ucast hi) :: u16) AND 0x0FFF) n \<longleftrightarrow> bit x n"
    using n x m assms(2,3)
    by (cases "n < 8") (auto simp: bit_and_iff bit_or_iff bit_push_bit_iff bit_ucast_iff bit_drop_bit_eq possible_bit_word)
qed

lemma load_odd:
  assumes "x < (0x1000 :: u16)" "lo = (z OR push_bit 4 (ucast x) :: u8)" "\<And>k. bit z k \<Longrightarrow> k < 4" "hi = (ucast (drop_bit 4 x) :: u8)"
  shows "drop_bit 4 (ucast lo OR push_bit 8 (ucast hi)) = x"
proof (rule bit_eqI)
  fix n
  assume "possible_bit TYPE(16 word) n"
  then have n: "n < 16" by (simp add: possible_bit_word)
  have x: "bit x n \<Longrightarrow> n < 12" by (rule bit_below_12 [OF assms(1)])
  have z: "bit z k \<Longrightarrow> k < 4" for k using assms(3) .
  show "bit (drop_bit 4 (ucast lo OR push_bit 8 (ucast hi) :: u16)) n \<longleftrightarrow> bit x n"
    using n x z assms(2,4)
    by (cases "n < 4") (auto simp: bit_or_iff bit_push_bit_iff bit_ucast_iff bit_drop_bit_eq possible_bit_word)
qed

text \<open>
  C26. The table decodes: when the two sectors at \<^verbatim>\<open>fat\<close> hold the part of a packed table of 12-bit
  entries that begins with the sector of a cluster's entry, the value
  \<^verbatim>\<open>read_file\<close> takes from them is that entry, also where the entry straddles the two sectors.
\<close>

theorem fat_entry_decodes:
  assumes "\<And>k. e k < 0x1000"
    "\<And>i. i < 1024 \<Longrightarrow> m (table + of_nat i) = fat_byte e (512 * (fat_offset cluster div 512) + i)"
  shows "next_cluster m table cluster = e (unat cluster)"
proof -
  let ?c = "unat cluster" let ?i = "fat_offset cluster mod 512"
  have "m (table + of_nat (Suc ?i)) = fat_byte e (512 * (fat_offset cluster div 512) + Suc ?i)" by (rule assms(2)) simp
  then have b: "m (table + of_nat ?i) = fat_byte e (fat_offset cluster)"
      "m (table + of_nat ?i + 1) = fat_byte e (Suc (fat_offset cluster))"
    using assms(2) [of ?i] by (simp_all add: ac_simps)
  have odd: "cluster AND 1 \<noteq> 0 \<longleftrightarrow> odd ?c"
    using bit_unsigned_iff [of cluster 0, where 'a = nat] by (simp add: and_one_eq mod_2_eq_odd bit_0)
  show ?thesis
  proof (cases "odd ?c")
    case False
    then have "even ?c" by simp
    then obtain j where j: "?c = 2 * j" by (rule evenE)
    then have o: "fat_offset cluster = 3 * j" by (simp add: fat_offset_def)
    have d: "Suc (3 * j) div 3 = j" "Suc (3 * j) mod 3 = 1" by presburger+
    have "load16 m (table + of_nat ?i) AND 0x0FFF = e (2 * j)"
      using b o d by (subst load16_def) (rule load_even [OF assms(1)], simp_all add: fat_byte_def Let_def)
    then show ?thesis using False odd j by (simp add: next_cluster_def)
  next
    case True
    then obtain j where j: "?c = 2 * j + 1" by (rule oddE)
    then have o: "fat_offset cluster = 3 * j + 1" by (simp add: fat_offset_def)
    have d: "Suc (3 * j) div 3 = j" "Suc (3 * j) mod 3 = 1" "Suc (Suc (3 * j)) div 3 = j" "Suc (Suc (3 * j)) mod 3 = 2"
      by presburger+
    have z: "bit (ucast (drop_bit 8 (e (2 * j))) :: u8) k \<Longrightarrow> k < 4" for k
      using bit_below_12 [OF assms(1), of "2 * j" "8 + k"] by (simp add: bit_ucast_iff bit_drop_bit_eq)
    have "drop_bit 4 (load16 m (table + of_nat ?i)) = e (2 * j + 1)"
      using b o d z by (subst load16_def) (rule load_odd [OF assms(1)], auto simp: fat_byte_def Let_def)
    then show ?thesis using True odd j by (simp add: next_cluster_def)
  qed
qed

theorem fat_entry_decodes_witness:
  "next_cluster (\<lambda>a. fat_byte (\<lambda>k. if k = 341 then 0x123 else 0xFFF) (unat a)) 0 341 = 0x123"
proof -
  let ?e = "\<lambda>k :: nat. if k = 341 then 0x123 else 0xFFF :: u16"
  have "next_cluster (\<lambda>a. fat_byte ?e (unat a)) 0 341 = ?e (unat (341 :: u16))"
    by (rule fat_entry_decodes) (simp_all add: fat_offset_def unat_of_nat_u64)
  then show ?thesis by simp
qed

end
