(* ===== verification/Checks.thy ===== *)
theory Checks
  imports Libc_String Paging_Init
begin

text \<open>
  Integrity checks and decoders: the kernel's checksum (src/kernel/crc32.cpp), the variable-length
  integers of the debug data (src/kernel/dwarf.cpp) and the search for the ACPI root pointer
  (src/kernel/acpi.cpp).
\<close>

subsection \<open>The checksum\<close>

definition crc_table :: "u32 list" where
  "crc_table =
    [0x00000000, 0x77073096, 0xee0e612c, 0x990951ba, 0x076dc419, 0x706af48f, 0xe963a535, 0x9e6495a3,
     0x0edb8832, 0x79dcb8a4, 0xe0d5e91e, 0x97d2d988, 0x09b64c2b, 0x7eb17cbd, 0xe7b82d07, 0x90bf1d91,
     0x1db71064, 0x6ab020f2, 0xf3b97148, 0x84be41de, 0x1adad47d, 0x6ddde4eb, 0xf4d4b551, 0x83d385c7,
     0x136c9856, 0x646ba8c0, 0xfd62f97a, 0x8a65c9ec, 0x14015c4f, 0x63066cd9, 0xfa0f3d63, 0x8d080df5,
     0x3b6e20c8, 0x4c69105e, 0xd56041e4, 0xa2677172, 0x3c03e4d1, 0x4b04d447, 0xd20d85fd, 0xa50ab56b,
     0x35b5a8fa, 0x42b2986c, 0xdbbbc9d6, 0xacbcf940, 0x32d86ce3, 0x45df5c75, 0xdcd60dcf, 0xabd13d59,
     0x26d930ac, 0x51de003a, 0xc8d75180, 0xbfd06116, 0x21b4f4b5, 0x56b3c423, 0xcfba9599, 0xb8bda50f,
     0x2802b89e, 0x5f058808, 0xc60cd9b2, 0xb10be924, 0x2f6f7c87, 0x58684c11, 0xc1611dab, 0xb6662d3d,
     0x76dc4190, 0x01db7106, 0x98d220bc, 0xefd5102a, 0x71b18589, 0x06b6b51f, 0x9fbfe4a5, 0xe8b8d433,
     0x7807c9a2, 0x0f00f934, 0x9609a88e, 0xe10e9818, 0x7f6a0dbb, 0x086d3d2d, 0x91646c97, 0xe6635c01,
     0x6b6b51f4, 0x1c6c6162, 0x856530d8, 0xf262004e, 0x6c0695ed, 0x1b01a57b, 0x8208f4c1, 0xf50fc457,
     0x65b0d9c6, 0x12b7e950, 0x8bbeb8ea, 0xfcb9887c, 0x62dd1ddf, 0x15da2d49, 0x8cd37cf3, 0xfbd44c65,
     0x4db26158, 0x3ab551ce, 0xa3bc0074, 0xd4bb30e2, 0x4adfa541, 0x3dd895d7, 0xa4d1c46d, 0xd3d6f4fb,
     0x4369e96a, 0x346ed9fc, 0xad678846, 0xda60b8d0, 0x44042d73, 0x33031de5, 0xaa0a4c5f, 0xdd0d7cc9,
     0x5005713c, 0x270241aa, 0xbe0b1010, 0xc90c2086, 0x5768b525, 0x206f85b3, 0xb966d409, 0xce61e49f,
     0x5edef90e, 0x29d9c998, 0xb0d09822, 0xc7d7a8b4, 0x59b33d17, 0x2eb40d81, 0xb7bd5c3b, 0xc0ba6cad,
     0xedb88320, 0x9abfb3b6, 0x03b6e20c, 0x74b1d29a, 0xead54739, 0x9dd277af, 0x04db2615, 0x73dc1683,
     0xe3630b12, 0x94643b84, 0x0d6d6a3e, 0x7a6a5aa8, 0xe40ecf0b, 0x9309ff9d, 0x0a00ae27, 0x7d079eb1,
     0xf00f9344, 0x8708a3d2, 0x1e01f268, 0x6906c2fe, 0xf762575d, 0x806567cb, 0x196c3671, 0x6e6b06e7,
     0xfed41b76, 0x89d32be0, 0x10da7a5a, 0x67dd4acc, 0xf9b9df6f, 0x8ebeeff9, 0x17b7be43, 0x60b08ed5,
     0xd6d6a3e8, 0xa1d1937e, 0x38d8c2c4, 0x4fdff252, 0xd1bb67f1, 0xa6bc5767, 0x3fb506dd, 0x48b2364b,
     0xd80d2bda, 0xaf0a1b4c, 0x36034af6, 0x41047a60, 0xdf60efc3, 0xa867df55, 0x316e8eef, 0x4669be79,
     0xcb61b38c, 0xbc66831a, 0x256fd2a0, 0x5268e236, 0xcc0c7795, 0xbb0b4703, 0x220216b9, 0x5505262f,
     0xc5ba3bbe, 0xb2bd0b28, 0x2bb45a92, 0x5cb36a04, 0xc2d7ffa7, 0xb5d0cf31, 0x2cd99e8b, 0x5bdeae1d,
     0x9b64c2b0, 0xec63f226, 0x756aa39c, 0x026d930a, 0x9c0906a9, 0xeb0e363f, 0x72076785, 0x05005713,
     0x95bf4a82, 0xe2b87a14, 0x7bb12bae, 0x0cb61b38, 0x92d28e9b, 0xe5d5be0d, 0x7cdcefb7, 0x0bdbdf21,
     0x86d3d2d4, 0xf1d4e242, 0x68ddb3f8, 0x1fda836e, 0x81be16cd, 0xf6b9265b, 0x6fb077e1, 0x18b74777,
     0x88085ae6, 0xff0f6a70, 0x66063bca, 0x11010b5c, 0x8f659eff, 0xf862ae69, 0x616bffd3, 0x166ccf45,
     0xa00ae278, 0xd70dd2ee, 0x4e048354, 0x3903b3c2, 0xa7672661, 0xd06016f7, 0x4969474d, 0x3e6e77db,
     0xaed16a4a, 0xd9d65adc, 0x40df0b66, 0x37d83bf0, 0xa9bcae53, 0xdebb9ec5, 0x47b2cf7f, 0x30b5ffe9,
     0xbdbdf21c, 0xcabac28a, 0x53b39330, 0x24b4a3a6, 0xbad03605, 0xcdd70693, 0x54de5729, 0x23d967bf,
     0xb3667a2e, 0xc4614ab8, 0x5d681b02, 0x2a6f2b94, 0xb40bbe37, 0xc30c8ea1, 0x5a05df1b, 0x2d02ef8d]"

text \<open>\<^verbatim>\<open>data[i] ^ ret\<close> extends the sign of the byte, which the mask removes again.\<close>

definition crc_step :: "u32 \<Rightarrow> u8 \<Rightarrow> u32" where
  "crc_step ret b = (let idx = (scast b XOR ret) AND 0xFF in ret XOR crc_table ! unat idx)"

definition crc32 :: "u8 list \<Rightarrow> u32" where
  "crc32 data = foldl crc_step 0xFFFFFFFF data"

text \<open>The entry of the table as the reflected polynomial 0xEDB88320 defines it: eight steps of
  division of the byte.\<close>

definition poly_step :: "u32 \<Rightarrow> u32" where
  "poly_step w = (if w AND 1 = 0 then drop_bit 1 w else drop_bit 1 w XOR 0xEDB88320)"

definition poly_byte :: "u32 \<Rightarrow> u32" where
  "poly_byte w = poly_step (poly_step (poly_step (poly_step (poly_step (poly_step (poly_step (poly_step w)))))))"

definition byte_words :: "u32 list" where
  "byte_words =
    [0, 1, 2, 3, 4, 5, 6, 7, 8, 9, 10, 11, 12, 13, 14, 15, 16, 17, 18, 19, 20, 21, 22, 23,
     24, 25, 26, 27, 28, 29, 30, 31, 32, 33, 34, 35, 36, 37, 38, 39, 40, 41, 42, 43, 44, 45, 46, 47,
     48, 49, 50, 51, 52, 53, 54, 55, 56, 57, 58, 59, 60, 61, 62, 63, 64, 65, 66, 67, 68, 69, 70, 71,
     72, 73, 74, 75, 76, 77, 78, 79, 80, 81, 82, 83, 84, 85, 86, 87, 88, 89, 90, 91, 92, 93, 94, 95,
     96, 97, 98, 99, 100, 101, 102, 103, 104, 105, 106, 107, 108, 109, 110, 111, 112, 113, 114, 115, 116, 117, 118, 119,
     120, 121, 122, 123, 124, 125, 126, 127, 128, 129, 130, 131, 132, 133, 134, 135, 136, 137, 138, 139, 140, 141, 142, 143,
     144, 145, 146, 147, 148, 149, 150, 151, 152, 153, 154, 155, 156, 157, 158, 159, 160, 161, 162, 163, 164, 165, 166, 167,
     168, 169, 170, 171, 172, 173, 174, 175, 176, 177, 178, 179, 180, 181, 182, 183, 184, 185, 186, 187, 188, 189, 190, 191,
     192, 193, 194, 195, 196, 197, 198, 199, 200, 201, 202, 203, 204, 205, 206, 207, 208, 209, 210, 211, 212, 213, 214, 215,
     216, 217, 218, 219, 220, 221, 222, 223, 224, 225, 226, 227, 228, 229, 230, 231, 232, 233, 234, 235, 236, 237, 238, 239,
     240, 241, 242, 243, 244, 245, 246, 247, 248, 249, 250, 251, 252, 253, 254, 255]"

lemma crc_table_poly: "list_all2 (\<lambda>w v. poly_byte w = v) byte_words crc_table"
  unfolding byte_words_def crc_table_def list.rel_inject list_all2_Nil poly_byte_def
  by (intro conjI TrueI) (simp_all add: poly_step_def)

lemma byte_words_eq: "byte_words = map of_nat [0..<256]"
proof -
  have "[0..<256] = 0 # 1 # [2..<256 :: nat]" by (simp add: upt_conv_Cons numeral_2_eq_2)
  then show ?thesis by (simp add: byte_words_def del: One_nat_def)
qed

lemma crc_table_nth: "i < 256 \<Longrightarrow> crc_table ! i = poly_byte (of_nat i)"
  using list_all2_nthD [OF crc_table_poly, of i] by (simp add: byte_words_eq)

lemma poly_step_linear: "poly_step (a XOR b) = poly_step a XOR poly_step b"
proof -
  have par: "w AND 1 = (if bit w 0 then 1 else 0)" for w :: u32
    by (simp add: and_one_eq mod_2_eq_odd bit_0)
  show ?thesis
    by (cases "bit a 0"; cases "bit b 0")
       (simp_all add: poly_step_def par drop_bit_xor bit_xor_iff xor.assoc xor.left_commute xor.commute)
qed

lemma poly_byte_linear: "poly_byte (a XOR b) = poly_byte a XOR poly_byte b"
  by (simp add: poly_byte_def poly_step_linear)

lemma crc_step_index: "crc_step ret b = ret XOR poly_byte ((ucast b XOR ret) AND 0xFF)"
proof -
  have e: "(scast b XOR ret) AND 0xFF = (ucast b XOR ret) AND (0xFF :: u32)"
  proof -
    have "(scast b XOR ret) AND mask 8 = (ucast b XOR ret) AND (mask 8 :: u32)"
      by (rule bit_eqI) (auto simp: bit_and_iff bit_xor_iff bit_mask_iff bit_signed_iff bit_ucast_iff possible_bit_word)
    then show ?thesis by (simp add: mask_numeral)
  qed
  define idx where "idx = (ucast b XOR ret) AND (0xFF :: u32)"
  have "idx = take_bit 8 (ucast b XOR ret)" by (simp add: idx_def take_bit_eq_mask mask_numeral)
  then have "unat idx < 256"
    using take_bit_nat_less_exp [of 8 "unat (ucast b XOR ret)"] by (simp only: unsigned_take_bit_eq) simp
  then have "crc_table ! unat idx = poly_byte idx" using crc_table_nth [of "unat idx"] by simp
  then show ?thesis by (simp add: crc_step_def e flip: idx_def)
qed

lemma crc_step_low_byte: "crc_step ret (ucast ret) = ret"
proof -
  have "(ucast (ucast ret :: u8) XOR ret) AND mask 8 = (0 :: u32)"
    by (rule bit_eqI) (auto simp: bit_and_iff bit_xor_iff bit_mask_iff bit_ucast_iff possible_bit_word)
  then have "(ucast (ucast ret :: u8) XOR ret) AND 0xFF = (0 :: u32)" by (simp add: mask_numeral)
  then show ?thesis by (simp add: crc_step_index poly_byte_def poly_step_def)
qed

text \<open>
  C31. What the checksum sees: a step adds to the sum the table entry of the reflected CRC-32 polynomial
  for the low byte of the sum and the data, but does not shift the sum, so any number of bytes
  equal to the low byte of the checksum can follow the data without changing it.
\<close>

theorem crc32_blind_to_padding:
  "crc_step ret b = ret XOR poly_byte ((ucast b XOR ret) AND 0xFF) \<and>
   crc32 (data @ replicate n (ucast (crc32 data))) = crc32 data"
proof -
  have "foldl crc_step w (replicate n (ucast w)) = w" for w by (induction n) (simp_all add: crc_step_low_byte)
  then show ?thesis by (simp add: crc_step_index crc32_def)
qed

subsection \<open>Variable-length integers\<close>

text \<open>\<open>data\<close> gives the byte at each index; the result is the value and what is stored to
  \<^verbatim>\<open>*len\<close>.\<close>

function decode_leb128_from :: "(nat \<Rightarrow> u8) \<Rightarrow> nat \<Rightarrow> u64 \<Rightarrow> (u64 \<times> nat) option" where
  "decode_leb128_from data i result =
     (let result' = result OR push_bit (8 * i) (scast (data i) AND NOT 0x80) in
      if data i AND 0x80 = 0 then Some (result', i)
      else if i + 1 \<ge> 8 then None
      else decode_leb128_from data (i + 1) result')"
  by pat_completeness auto
termination
  by (relation "measure (\<lambda>(data, i, result). 8 - i)") auto

declare decode_leb128_from.simps [simp del]

definition decode_leb128 :: "(nat \<Rightarrow> u8) \<Rightarrow> (u64 \<times> nat) option" where
  "decode_leb128 data = decode_leb128_from data 0 0"

lemma decode_keeps_bits:
  "decode_leb128_from data i result = Some (v, n) \<Longrightarrow> bit result k \<Longrightarrow> bit v k"
proof (induction data i result rule: decode_leb128_from.induct)
  case (1 data i result)
  then show ?case by (subst (asm) decode_leb128_from.simps) (auto simp: Let_def bit_or_iff split: if_splits)
qed

lemma bit_128: "bit (128 :: int) k \<longleftrightarrow> k = 7" "bit (- 129 :: int) k \<longleftrightarrow> k \<noteq> 7"
proof -
  show p: "bit (128 :: int) k \<longleftrightarrow> k = 7" using bit_exp_iff [of 7 k, where 'a = int] by auto
  have "(- 129 :: int) = NOT 128" by simp
  then show "bit (- 129 :: int) k \<longleftrightarrow> k \<noteq> 7" using p by (simp only: bit_not_int_iff)
qed

lemma bit_7_and: "b AND 0x80 = 0 \<longleftrightarrow> \<not> bit (b :: u8) 7"
proof
  assume "b AND 0x80 = 0"
  then have "\<not> bit (b AND 0x80) 7" by simp
  then show "\<not> bit b 7" by (simp add: bit_and_iff bit_128)
next
  assume "\<not> bit b 7"
  then show "b AND 0x80 = 0" by (intro bit_eqI) (auto simp: bit_and_iff bit_128)
qed

text \<open>
  Only one-byte integers decode: a byte below 128 gives itself (and stores the length 0), but
  after a byte with the continuation bit the sign of \<^verbatim>\<open>char\<close> has filled the result, so every
  longer encoding that decodes at all gives a value whose upper 56 bits are all set.
\<close>

theorem leb128_one_byte_only:
  "(data 0 < 0x80 \<longrightarrow> decode_leb128 data = Some (ucast (data 0), 0)) \<and>
   (0x80 \<le> data 0 \<longrightarrow> (\<forall>v n. decode_leb128 data = Some (v, n) \<longrightarrow> (\<forall>k. 8 \<le> k \<and> k < 64 \<longrightarrow> bit v k)))"
proof -
  have b7: "bit (data 0) 7 \<longleftrightarrow> 0x80 \<le> data 0"
  proof -
    have "bit (data 0) 7 \<longleftrightarrow> odd (unat (data 0) div 2 ^ 7)" using bit_unsigned_iff [of "data 0" 7, where 'a = nat]
      by (simp add: bit_iff_odd)
    moreover have "unat (data 0) < 256" using unsigned_less [of "data 0"] by simp
    then have "unat (data 0) div 2 ^ 7 = 0 \<or> unat (data 0) div 2 ^ 7 = 1" by (simp, linarith)
    ultimately show ?thesis by (auto simp: word_le_nat_alt)
  qed
  let ?w = "scast (data 0) AND NOT 0x80 :: u64"
  have w: "bit ?w k \<longleftrightarrow> k \<noteq> 7 \<and> bit (data 0) (min k 7)" if "k < 64" for k
    using that by (auto simp: bit_and_iff bit_not_iff bit_signed_iff min_def possible_bit_word bit_128)
  have one: "?w = ucast (data 0)" if "\<not> bit (data 0) 7"
    using that w by (intro bit_eqI) (auto simp: bit_ucast_iff possible_bit_word min_def dest: bit_imp_le_length)
  have "decode_leb128 data = (if bit (data 0) 7 then decode_leb128_from data 1 ?w else Some (?w, 0))"
    by (simp add: decode_leb128_def bit_7_and decode_leb128_from.simps [of data 0 0])
  then show ?thesis using one b7 w decode_keeps_bits [of data 1 ?w] by (auto simp: not_le [symmetric] min_def)
qed

theorem leb128_one_byte_only_witness:
  "decode_leb128 (\<lambda>_. 5) = Some (5, 0) \<and> (\<forall>v n. decode_leb128 (\<lambda>i. if i = 0 then 0x81 else 1) = Some (v, n) \<longrightarrow> bit v 63)"
  using leb128_one_byte_only [of "\<lambda>_. 5"] leb128_one_byte_only [of "\<lambda>i. if i = 0 then 0x81 else 1"] by simp

subsection \<open>The root pointer\<close>

definition SIZEOF_RSDP :: nat where "SIZEOF_RSDP = 8 + 1 + 16 + 1 + 4"

definition rsdp_valid :: "bytes \<Rightarrow> u64 \<Rightarrow> bool" where
  "rsdp_valid m p \<longleftrightarrow> ucast (foldl (\<lambda>s i. s + ucast (m (p + of_nat i))) (0 :: u32) [0..<SIZEOF_RSDP]) = (0 :: u8)"

text \<open>\<open>needle\<close> is the address of the literal; the result is \<^verbatim>\<open>rsdp\<close>.\<close>

definition acpi_init :: "u64 \<Rightarrow> bytes \<Rightarrow> paging_state \<Rightarrow> (u64 option \<times> paging_state) res" where
  "acpi_init needle m ps =
     rbind (identity_map_page_range_into_kernel_space 0xE0000 (0x100000 - 0xE0000) (RW OR XD) ps) (\<lambda>(_, ps').
       case memstr m 0xE0000 needle (0x100000 - 0xE0000) of
         None \<Rightarrow> Inl (Undefined_behaviour ''string without terminator'')
       | Some r \<Rightarrow> Inr (r, ps'))"

end
