(* ===== verification/Serial.thy ===== *)
theory Serial
  imports Port_IO Screen Stdio
begin

text \<open>
  \<^verbatim>\<open>serial::init\<close> (src/kernel/serial.cpp) and the \<^verbatim>\<open>puts\<close> it ends with, as the kernel's C library has it
  (src/libc/stdio.cpp): the string and a line feed go to the console, if it is initialised, and to the serial port,
  the very port that was just programmed.
\<close>

definition fputs_stdout :: "nat \<Rightarrow> hardware \<Rightarrow> u8 list \<Rightarrow> trace \<times> console \<Rightarrow> (trace \<times> console) res" where
  "fputs_stdout polls hw str tv =
     rbind (c_vga_print str (snd tv)) (\<lambda>v. rbind (debug_puts polls hw (Some str) (fst tv)) (\<lambda>(_, t). Inr (t, v)))"

definition puts_stdout :: "nat \<Rightarrow> hardware \<Rightarrow> u8 list \<Rightarrow> trace \<times> console \<Rightarrow> (trace \<times> console) res" where
  "puts_stdout polls hw str tv = rbind (fputs_stdout polls hw str tv) (fputs_stdout polls hw [10])"

text \<open>The flag \<^verbatim>\<open>s_initialized\<close>, the accesses and the console.\<close>

definition serial_init :: "nat \<Rightarrow> hardware \<Rightarrow> trace \<Rightarrow> console \<Rightarrow> (bool \<times> trace \<times> console) res" where
  "serial_init polls hw t v =
     rbind (puts_stdout polls hw (ascii ''serial: initialized'') (init_port serial_COM1 t, v)) (\<lambda>(t1, v1). Inr (True, t1, v1))"

definition serial_banner :: "u8 list" where
  "serial_banner = ascii ''serial: initialized'' @ [10]"

lemma puts_stdout_sends:
  assumes "puts_stdout polls hw str (t, v) = Inr (t1, v1)"
  shows "send_all polls hw (str @ [10]) t = Inr t1"
  using assms by (auto simp: puts_stdout_def fputs_stdout_def debug_puts_def send_all_append rbind_eq_Inr_iff)

lemma puts_stdout_returns:
  assumes "send_all polls hw (str @ [10]) t = Inr t1" "\<not> vga_initialized v"
  shows "puts_stdout polls hw str (t, v) = Inr (t1, v)"
  using assms by (auto simp: puts_stdout_def fputs_stdout_def debug_puts_def send_all_append rbind_eq_Inr_iff c_vga_print_def)

lemma serial_init_uart:
  assumes "serial_init polls hw t v = Inr (b, t1, v1)" "send_all polls hw cs t1 = Inr t2"
  shows "uart_run serial_COM1 t2 u = (uart_run serial_COM1 t u)\<lparr>u_divisor_lo := 3, u_divisor_hi := 0,
    u_line := joined control_bits [DATA_BITS_8, PARITY_NONE, STOP_BITS_1], u_sent := u_sent (uart_run serial_COM1 t u) @ serial_banner @ cs\<rparr>"
proof -
  have "send_all polls hw serial_banner (init_port serial_COM1 t) = Inr t1"
    using assms(1) by (auto simp: serial_init_def serial_banner_def rbind_eq_Inr_iff dest: puts_stdout_sends)
  then have "send_all polls hw (serial_banner @ cs) (init_port serial_COM1 t) = Inr t2"
    using assms(2) by (simp add: send_all_append)
  then show ?thesis
    using send_all_sends [of polls hw "serial_banner @ cs" "init_port serial_COM1 t" t2 u] by (simp add: init_port_programs joined_def)
qed

lemma serial_init_returns:
  assumes "becomes_ready hw" "\<not> vga_initialized v"
  shows "\<exists>polls t1 t2. serial_init polls hw t v = Inr (True, t1, v) \<and> send_all polls hw cs t1 = Inr t2"
proof -
  obtain p t2 where "send_all p hw (serial_banner @ cs) (init_port serial_COM1 t) = Inr t2"
    using send_all_returns [OF assms(1)] by blast
  then obtain t1 where t1: "send_all p hw serial_banner (init_port serial_COM1 t) = Inr t1" "send_all p hw cs t1 = Inr t2"
    by (auto simp: send_all_append rbind_eq_Inr_iff)
  have "puts_stdout p hw (ascii ''serial: initialized'') (init_port serial_COM1 t, v) = Inr (t1, v)"
    by (rule puts_stdout_returns [OF t1(1) [unfolded serial_banner_def] assms(2)])
  then have "serial_init p hw t v = Inr (True, t1, v)" by (simp add: serial_init_def)
  then show ?thesis using t1(2) by blast
qed

text \<open>
  C37. The serial line carries what is written: when \<^verbatim>\<open>serial::init\<close> has returned and \<^verbatim>\<open>debug::puts\<close> has sent a string, the chip runs
  at divisor 3 with eight data bits, no parity and one stop bit, and its transmitter got exactly the message of
  \<^verbatim>\<open>serial::init\<close>, a line feed and the string, in this order and none of it in the divisor, whatever the chip held before.
  Both return, before the console is initialised, if from every moment on the chip reports a free transmitter after some
  number of reads of its status.
\<close>

theorem serial_line_carries:
  "(serial_init polls hw t v = Inr (b, t1, v1) \<and> send_all polls hw cs t1 = Inr t2 \<longrightarrow>
     uart_run serial_COM1 t2 u = (uart_run serial_COM1 t u)\<lparr>u_divisor_lo := 3, u_divisor_hi := 0,
       u_line := joined control_bits [DATA_BITS_8, PARITY_NONE, STOP_BITS_1],
       u_sent := u_sent (uart_run serial_COM1 t u) @ ascii ''serial: initialized'' @ [10] @ cs\<rparr>) \<and>
   (becomes_ready hw \<and> \<not> vga_initialized v \<longrightarrow>
     (\<exists>enough t3 t4. serial_init enough hw t v = Inr (True, t3, v) \<and> send_all enough hw cs t3 = Inr t4))"
  using serial_init_uart [of polls hw t v b t1 v1 cs t2 u] serial_init_returns [of hw v t cs] by (auto simp: serial_banner_def)

text \<open>A chip that is ready at every second read.\<close>

definition sample_chip :: hardware where
  "sample_chip t port = (if odd (length (filter (\<lambda>e. e = In port 0) t)) then 0x20 else 0)"

lemma sample_chip_ready: "becomes_ready sample_chip"
  unfolding becomes_ready_def
proof
  fix t
  let ?p = "serial_port LINE_STATUS serial_COM1"
  show "\<exists>k. bit (sample_chip (polled sample_chip k t) ?p) 5"
  proof (cases "odd (length (filter (\<lambda>e. e = In ?p 0) t))")
    case True
    then show ?thesis by (intro exI [of _ 0]) (simp add: sample_chip_def)
  next
    case False
    then show ?thesis by (intro exI [of _ 1]) (simp add: sample_chip_def inb_def Let_def)
  qed
qed

theorem serial_line_carries_witness:
  "\<exists>polls t1 t2. serial_init polls sample_chip [] \<lparr>current_screen = \<lparr>cells = [], position = null_cursor\<rparr>, screen_mutex = new_mutex, vga_initialized = False\<rparr> =
       Inr (True, t1, \<lparr>current_screen = \<lparr>cells = [], position = null_cursor\<rparr>, screen_mutex = new_mutex, vga_initialized = False\<rparr>) \<and>
     send_all polls sample_chip [72, 105] t1 = Inr t2 \<and>
     uart_run serial_COM1 t2 \<lparr>u_divisor_lo = 1, u_divisor_hi = 1, u_line = 0x80, u_sent = []\<rparr> =
       \<lparr>u_divisor_lo = 3, u_divisor_hi = 0, u_line = 3, u_sent = ascii ''serial: initialized'' @ [10, 72, 105]\<rparr>"
proof -
  let ?v = "\<lparr>current_screen = \<lparr>cells = [], position = null_cursor\<rparr>, screen_mutex = new_mutex, vga_initialized = False\<rparr>"
  let ?u = "\<lparr>u_divisor_lo = 1, u_divisor_hi = 1, u_line = 0x80, u_sent = []\<rparr> :: uart"
  have "\<not> vga_initialized ?v" by simp
  then obtain p t1 t2 where r: "serial_init p sample_chip [] ?v = Inr (True, t1, ?v)" "send_all p sample_chip [72, 105] t1 = Inr t2"
    using serial_line_carries [of 0 sample_chip "[]" ?v] sample_chip_ready by blast
  then have "uart_run serial_COM1 t2 ?u = (uart_run serial_COM1 [] ?u)\<lparr>u_divisor_lo := 3, u_divisor_hi := 0,
       u_line := joined control_bits [DATA_BITS_8, PARITY_NONE, STOP_BITS_1],
       u_sent := u_sent (uart_run serial_COM1 [] ?u) @ ascii ''serial: initialized'' @ [10] @ [72, 105]\<rparr>"
    using serial_line_carries [of p sample_chip "[]" ?v True t1 ?v "[72, 105]" t2 ?u] by blast
  then show ?thesis using r by (intro exI [of _ p] exI [of _ t1] exI [of _ t2]) (simp add: uart_run_def joined_def)
qed

end
