(* ===== verification/Kernel_Main.thy ===== *)
theory Kernel_Main
  imports Interrupts Memory_Init Filesystem Checks Serial
begin

text \<open>
  \<^verbatim>\<open>kmain\<close> of src/kernel/main.cpp: the order in which the components come up. What the boot loader
  and the linker provide (the boot information, the addresses of tables, handlers and
  literals, the memory map and the bytes of the kernel image by their address) and the devices
  are the record \<open>boot_env\<close>. Messages are not modelled but for the one of \<^verbatim>\<open>serial::init\<close>, nor the two comparisons of the canaries
  with their own literals; \<^verbatim>\<open>elf::init\<close> has an empty body (src/kernel/elf.cpp).
\<close>

record boot_info =
  num_memory_map_entries :: u32
  memory_map_base :: u32
  avail_low_mem_start :: u32
  avail_low_mem_end :: u32
  kernel_image_start :: u32
  kernel_image_size :: u32
  drive_number :: u32
  kernel_expected_crc32 :: u32
  kernel_stack_base :: u64

record boot_env =
  be_floppy :: floppy_env
  be_dma :: "trace \<Rightarrow> bytes \<Rightarrow> bytes"
  be_handlers :: "handler \<Rightarrow> u64"
  be_gdt :: u64
  be_tss :: u64
  be_task_stack :: u64
  be_idt :: u64
  be_memory_map :: "u32 \<Rightarrow> nat \<Rightarrow> memory_map_entry"
  be_image :: "u64 \<Rightarrow> u8"
  be_rsdp_literal :: u64
  be_kernel_path :: u64
  be_fragment :: u64
  be_junk :: u8
  be_exit :: u64
  be_dispatch :: u64
  be_key_handler :: u64

record machine =
  ma_cpu :: cpu
  ma_gdt :: gdt_state
  ma_idt :: idt_state
  ma_memory :: memory_state
  ma_sched :: sched_state
  ma_low :: low_memory
  ma_fs :: fs_state
  ma_console :: console
  ma_keyboard :: keyboard
  ma_shell :: shell
  ma_io :: trace
  ma_rsdp :: "u64 option"

text \<open>The heap is shared by the scheduler and the file system; each step leaves it in the
  scheduler's state.\<close>

definition set_heap :: "alloc_state \<Rightarrow> machine \<Rightarrow> machine" where
  "set_heap a k = k\<lparr>ma_sched := (ma_sched k)\<lparr>kalloc := a\<rparr>\<rparr>"

definition heap_of :: "machine \<Rightarrow> alloc_state" where
  "heap_of k = kalloc (ma_sched k)"

text \<open>\<^verbatim>\<open>memory::early_init\<close> to \<^verbatim>\<open>acpi::init\<close>.\<close>

definition boot_memory :: "boot_env \<Rightarrow> boot_info \<Rightarrow> machine \<Rightarrow> machine res" where
  "boot_memory be b k0 =
     rbind (memory_early_init (be_memory_map be (memory_map_base b)) (num_memory_map_entries b) (ma_memory k0)) (\<lambda>ms.
     let a1 = (heap_of k0)\<lparr>kpaging := paging_early_init (kpaging (heap_of k0))\<rparr> in
     rbind (low_memory_init (ucast (avail_low_mem_start b)) (ucast (avail_low_mem_end b))) (\<lambda>low.
     let computed_crc32 = crc32 (map (\<lambda>i. be_image be (ucast (kernel_image_start b) + of_nat i)) [0..<unat (kernel_image_size b)]) in
     rbind (case enable_kernel_page_protection (kernel_stack_base b) (ma_cpu k0, kpaging a1) of
              None \<Rightarrow> Inl (Blocked ''enable_kernel_page_protection'') | Some r \<Rightarrow> r) (\<lambda>(c2, ps2).
     rbind (memory_finish_init ms (a1\<lparr>kpaging := ps2\<rparr>)) (\<lambda>a3.
     rbind (paging_finish_init a3) (\<lambda>a4.
     rbind (assert_that (kernel_expected_crc32 b = computed_crc32) ''kernel integrity check failed!'') (\<lambda>_.
     rbind (vga_init (kpaging a4) (ma_console k0)) (\<lambda>(ps5, v).
     rbind (acpi_init (be_rsdp_literal be) (fs_mem (ma_fs k0)) ps5) (\<lambda>(rsdp, ps6).
       Inr (set_heap (a4\<lparr>kpaging := ps6\<rparr>) (k0\<lparr>ma_cpu := c2, ma_memory := ms, ma_low := low, ma_console := v, ma_rsdp := rsdp\<rparr>))))))))))"

text \<open>\<^verbatim>\<open>init_floppy_driver\<close> and \<^verbatim>\<open>fs::init\<close>.\<close>

definition boot_disk :: "boot_env \<Rightarrow> boot_info \<Rightarrow> machine \<Rightarrow> machine res" where
  "boot_disk be b k =
     (let fl = (fs_floppy (ma_fs k))\<lparr>fl_trace := ma_io k\<rparr> in
      rbind (init_floppy_driver (be_floppy be) (be_junk be) (ucast (drive_number b)) (kpaging (heap_of k)) (ma_low k) fl (fs_mem (ma_fs k)))
        (\<lambda>(fl1, low1, m1).
      rbind (fs_init (be_floppy be) (be_dma be) (be_fragment be) (be_kernel_path be)
          ((ma_fs k)\<lparr>fs_floppy := fl1, fs_mem := m1, fs_alloc := heap_of k\<rparr>)) (\<lambda>fs1.
        Inr (set_heap (fs_alloc fs1) (k\<lparr>ma_low := low1, ma_fs := fs1, ma_io := fl_trace (fs_floppy fs1)\<rparr>)))))"

text \<open>\<^verbatim>\<open>keyboard::init\<close>, \<^verbatim>\<open>enable_task_switch\<close> and \<^verbatim>\<open>minishell::loop\<close> up to
  its endless loop.\<close>

definition boot_shell :: "boot_env \<Rightarrow> machine \<Rightarrow> machine res" where
  "boot_shell be k =
     rbind (schedule_kernel_task (be_exit be) (be_dispatch be) 0 (ma_sched k)) (\<lambda>(_, s1).
     let io1 = unmask_irq (env_hw (be_floppy be)) KEYBOARD (ma_io k) in
     rbind (enable_task_switch s1) (\<lambda>s2.
     rbind (vga_print (ascii ''> '') (ma_console k)) (\<lambda>v.
     rbind (subscribe (be_key_handler be) (ma_keyboard k)) (\<lambda>kb.
       Inr (k\<lparr>ma_sched := s2, ma_io := io1, ma_console := v, ma_keyboard := kb\<rparr>)))))"

definition kmain :: "boot_env \<Rightarrow> boot_info \<Rightarrow> machine \<Rightarrow> machine res" where
  "kmain be b k0 =
     (let hw = env_hw (be_floppy be) in
      rbind (serial_init (env_polls (be_floppy be)) hw (ma_io k0) (ma_console k0)) (\<lambda>(_, io1, v1).
      let g = gdt_init (be_gdt be) (be_tss be) (be_task_stack be) (ma_gdt k0);
          (i, io2) = idt_init hw (be_handlers be) (be_idt be) io1
      in rbind (boot_memory be b (k0\<lparr>ma_gdt := g, ma_idt := i, ma_io := io2, ma_console := v1\<rparr>)) (\<lambda>k1.
         let (cmos_ready, io3) = cmos_init hw (ma_io k1) in
         rbind (scheduler_init cmos_ready (ma_sched k1)) (\<lambda>s.
         let k2 = k1\<lparr>ma_sched := s, ma_io := init_timer hw io3\<rparr> in
         rbind (boot_disk be b k2) (\<lambda>k3. boot_shell be k3)))))"

text \<open>When \<^verbatim>\<open>kmain\<close> reaches the shell's loop the scheduler is in the state its theorems start
  from: the kernel task is current and marked running, switching is on, and the task that dispatches key events waits.\<close>

lemma scheduler_init_inv:
  assumes "scheduler_init c s = Inr s'" "total_tasks s = 1"
  shows "sched_inv s'" "current_task_id s' = 0" "total_tasks s' = 1"
  using assms by (auto simp: scheduler_init_def rbind_eq_Inr_iff sched_inv_def MAX_TASKS_def KERNEL_TASK_ID_def)

lemma sched_inv_kalloc [simp]: "sched_inv (s\<lparr>kalloc := a\<rparr>) = sched_inv s" "state_of (s\<lparr>kalloc := a\<rparr>) = state_of s"
  by (simp_all add: sched_inv_def state_of_def fun_eq_iff)

lemma boot_memory_tasks:
  assumes "boot_memory be b k0 = Inr k1"
  shows "total_tasks (ma_sched k1) = total_tasks (ma_sched k0)"
  using assms unfolding boot_memory_def Let_def rbind_eq_Inr_iff by (elim exE conjE) (auto simp: set_heap_def rbind_eq_Inr_iff split: prod.splits)

lemma boot_disk_sched:
  assumes "boot_disk be b k = Inr k1"
  shows "\<exists>a. ma_sched k1 = (ma_sched k)\<lparr>kalloc := a\<rparr>"
  using assms by (auto simp: boot_disk_def rbind_eq_Inr_iff set_heap_def Let_def)

lemma kmain_scheduler_ready:
  assumes "kmain be b k0 = Inr k" "total_tasks (ma_sched k0) = 1"
  shows "sched_inv (ma_sched k) \<and> task_switching_enabled (ma_sched k) \<and> current_task_id (ma_sched k) = 0 \<and>
    (\<exists>t. t \<noteq> 0 \<and> state_of (ma_sched k) t = waiting)"
proof -
  obtain k1 c s k2 k3 g i io v where boot: "boot_memory be b (k0\<lparr>ma_gdt := g, ma_idt := i, ma_io := io, ma_console := v\<rparr>) = Inr k1"
      "scheduler_init c (ma_sched k1) = Inr s" "ma_sched k2 = s" "boot_disk be b k2 = Inr k3" "boot_shell be k3 = Inr k"
    using assms(1) unfolding kmain_def Let_def case_prod_beta rbind_eq_Inr_iff
    by (elim exE conjE) (rule that, assumption, assumption, simp_all)
  have "total_tasks (ma_sched k1) = 1" using boot_memory_tasks [OF boot(1)] assms(2) by simp
  note init = scheduler_init_inv [OF boot(2)]
  have s3: "sched_inv (ma_sched k3)" "current_task_id (ma_sched k3) = 0"
    using init [OF \<open>total_tasks (ma_sched k1) = 1\<close>] boot_disk_sched [OF boot(4)] boot(3) by auto
  obtain t s1 where t: "schedule_task (be_exit be) True (be_dispatch be) 0 (ma_sched k3) = Inr (t, s1)"
      "ma_sched k = s1\<lparr>interrupts_on := True, task_switching_enabled := True\<rparr>"
    using boot(5) by (auto simp: boot_shell_def schedule_kernel_task_def rbind_eq_Inr_iff enable_task_switch_def
        with_interrupts_disabled_def interrupts_enable_def interrupts_disable_def Let_def)
  note eff = schedule_task_effect [OF s3(1) t(1)]
  have "sched_inv (ma_sched k)" using eff(1) t(2) by (simp add: sched_inv_def)
  moreover have "state_of (ma_sched k) t = waiting" using eff(4) t(2) by (simp add: state_of_def)
  ultimately show ?thesis using eff(2,3) s3(2) t(2) by auto
qed

end
