(* ===== verification/Containers.thy ===== *)
theory Containers
  imports Prelude
begin

text \<open>
  The remaining containers of src/libadt: \<^verbatim>\<open>adt::optional\<close> (optional.h) and
  \<^verbatim>\<open>adt::hash_map\<close> (hash_map.h) with integral keys. The loops of the hash map may not
  end, so its operations are partial.
\<close>

subsection \<open>optional\<close>

text \<open>The storage keeps its last value when it is emptied; only the flag tells whether it counts.\<close>

record 'a optional =
  opt_value :: 'a
  has_value :: bool

definition opt_none :: "'a \<Rightarrow> 'a optional" where
  "opt_none junk = \<lparr>opt_value = junk, has_value = False\<rparr>"

definition opt_some :: "'a \<Rightarrow> 'a optional" where
  "opt_some v = \<lparr>opt_value = v, has_value = True\<rparr>"

definition opt_destroy :: "'a optional \<Rightarrow> 'a optional" where
  "opt_destroy x = x\<lparr>has_value := False\<rparr>"

definition opt_set_value :: "'a \<Rightarrow> 'a optional \<Rightarrow> 'a optional" where
  "opt_set_value v x = x\<lparr>opt_value := v, has_value := True\<rparr>"

text \<open>Copy assignment (of another object) and move assignment, which empties the source.\<close>

definition opt_assign :: "'a optional \<Rightarrow> 'a optional \<Rightarrow> 'a optional" where
  "opt_assign this other = (if has_value other then opt_set_value (opt_value other) (opt_destroy this) else opt_destroy this)"

definition opt_move_assign :: "'a optional \<Rightarrow> 'a optional \<Rightarrow> 'a optional \<times> 'a optional" where
  "opt_move_assign this other =
     (if has_value other then (opt_set_value (opt_value other) (opt_destroy this), opt_destroy other)
      else (opt_destroy this, other))"

definition opt_eq :: "'a optional \<Rightarrow> 'a optional \<Rightarrow> bool" where
  "opt_eq lhs rhs = (if has_value lhs \<and> has_value rhs then opt_value lhs = opt_value rhs else has_value lhs \<and> has_value rhs)"

definition opt_neq :: "'a optional \<Rightarrow> 'a optional \<Rightarrow> bool" where
  "opt_neq lhs rhs \<longleftrightarrow> \<not> opt_eq lhs rhs"

definition opt_eq_none :: "'a optional \<Rightarrow> bool" where
  "opt_eq_none x \<longleftrightarrow> \<not> has_value x"

text \<open>Construction from another optional, assignment of a value and of \<^verbatim>\<open>none\<close>, taking the value out of
  an expiring optional, and comparison with a value. Reading an empty optional is not checked.\<close>

definition opt_copy :: "'a \<Rightarrow> 'a optional \<Rightarrow> 'a optional" where
  "opt_copy junk other = opt_assign (opt_none junk) other"

definition opt_move :: "'a \<Rightarrow> 'a optional \<Rightarrow> 'a optional \<times> 'a optional" where
  "opt_move junk other = opt_move_assign (opt_none junk) other"

definition opt_assign_value :: "'a \<Rightarrow> 'a optional \<Rightarrow> 'a optional" where
  "opt_assign_value v x = fst (opt_move_assign x (opt_some v))"

definition opt_assign_none :: "'a optional \<Rightarrow> 'a optional" where
  "opt_assign_none x = opt_destroy x"

definition opt_take :: "'a optional \<Rightarrow> 'a \<times> 'a optional" where
  "opt_take x = (opt_value x, x\<lparr>has_value := False\<rparr>)"

definition opt_deref :: "'a optional \<Rightarrow> 'a res" where
  "opt_deref x = (if has_value x then Inr (opt_value x) else Inl (Undefined_behaviour ''value of an empty optional''))"

definition opt_eq_value :: "'a optional \<Rightarrow> 'a \<Rightarrow> bool" where
  "opt_eq_value lhs rhs \<longleftrightarrow> has_value lhs \<and> opt_value lhs = rhs"

definition opt_neq_value :: "'a optional \<Rightarrow> 'a \<Rightarrow> bool" where
  "opt_neq_value lhs rhs \<longleftrightarrow> \<not> opt_eq_value lhs rhs"

text \<open>Move assignment of an optional to itself: the destructor runs first, and the value is gone.\<close>

definition opt_move_self :: "'a optional \<Rightarrow> 'a optional" where
  "opt_move_self x = (let y = opt_destroy x in if has_value y then opt_set_value (opt_value y) y else y)"

definition to_option :: "'a optional \<Rightarrow> 'a option" where
  "to_option x = (if has_value x then Some (opt_value x) else None)"

lemma opt_ops [simp]:
  "to_option (opt_none junk) = None" "to_option (opt_some v) = Some v" "to_option (opt_assign this other) = to_option other"
  "to_option (fst (opt_move_assign this other)) = to_option other" "to_option (snd (opt_move_assign this other)) = None"
  "opt_eq_none x \<longleftrightarrow> to_option x = None"
  by (simp_all add: to_option_def opt_none_def opt_some_def opt_assign_def opt_move_assign_def opt_set_value_def
      opt_destroy_def opt_eq_none_def)

lemma opt_value_ops [simp]:
  "to_option (opt_copy junk x) = to_option x" "to_option (fst (opt_move junk x)) = to_option x"
  "to_option (snd (opt_move junk x)) = None" "to_option (opt_assign_value v x) = Some v"
  "to_option (opt_assign_none x) = None" "to_option (snd (opt_take x)) = None" "to_option (opt_move_self x) = None"
  by (simp_all add: opt_copy_def opt_move_def opt_assign_value_def)
    (simp_all add: to_option_def opt_assign_none_def opt_destroy_def opt_take_def opt_move_self_def Let_def)

lemma opt_reads:
  "opt_deref x = Inr v \<longleftrightarrow> to_option x = Some v" "to_option x = Some v \<Longrightarrow> fst (opt_take x) = v"
  "opt_eq_value x v \<longleftrightarrow> to_option x = Some v" "opt_neq_value x v \<longleftrightarrow> to_option x \<noteq> Some v"
  by (auto simp: opt_deref_def to_option_def opt_take_def opt_eq_value_def opt_neq_value_def split: if_splits)

text \<open>The comparison agrees with equality of options, except that two empty optionals compare
  unequal.\<close>

lemma opt_eq_option: "opt_eq x y \<longleftrightarrow> to_option x = to_option y \<and> to_option x \<noteq> None"
  by (auto simp: opt_eq_def to_option_def)

subsection \<open>hash\_map\<close>

record hm_entry =
  he_empty :: bool
  he_sentinel :: bool
  he_key :: u64
  he_value :: u64

text \<open>\<open>hm_data\<close> is empty while the pointer is null.\<close>

record hash_map =
  log2capacity :: nat
  num_elems :: nat
  hm_data :: "hm_entry list"

definition hm_new :: hash_map where
  "hm_new = \<lparr>log2capacity = 0, num_elems = 0, hm_data = []\<rparr>"

definition hm_capacity :: "hash_map \<Rightarrow> nat" where
  "hm_capacity m = 2 ^ log2capacity m"

definition bucket :: "u64 \<Rightarrow> hash_map \<Rightarrow> nat" where
  "bucket k m = unat (k AND (of_nat (hm_capacity m) - 1))"

text \<open>The entries after \<^verbatim>\<open>memset\<close> with the sentinel set in the last one.\<close>

definition zero_entries :: "nat \<Rightarrow> hm_entry list" where
  "zero_entries n = (let z = \<lparr>he_empty = False, he_sentinel = False, he_key = 0, he_value = 0\<rparr>
     in (replicate n z)[n - 1 := z\<lparr>he_sentinel := True\<rparr>])"

text \<open>The search of \<^verbatim>\<open>insert\<close>: \<open>None\<close> when the key is there, else the slot.\<close>

partial_function (option) hm_probe :: "hm_entry list \<Rightarrow> u64 \<Rightarrow> nat \<Rightarrow> nat option res option" where
  "hm_probe data k idx =
     (if idx \<ge> length data then Some (Inl (Undefined_behaviour ''outside the table''))
      else if he_key (data ! idx) = k then Some (Inr None)
      else if he_empty (data ! idx) then Some (Inr (Some idx))
      else hm_probe data k (if he_sentinel (data ! idx) then 0 else idx + 1))"

text \<open>\<^verbatim>\<open>advance_til_non_empty_or_end\<close>; an iterator is an index or null.\<close>

function hm_advance :: "hm_entry list \<Rightarrow> nat \<Rightarrow> nat option res" where
  "hm_advance data i =
     (if i \<ge> length data then Inl (Undefined_behaviour ''outside the table'')
      else if he_empty (data ! i) \<and> \<not> he_sentinel (data ! i) then hm_advance data (i + 1)
      else if he_sentinel (data ! i) then Inr None else Inr (Some i))"
  by pat_completeness auto
termination
  by (relation "measure (\<lambda>(data, i). length data - i)") auto

declare hm_advance.simps [simp del]

definition hm_begin :: "hm_entry list \<Rightarrow> nat option res" where
  "hm_begin data = (if data = [] then Inr None
     else if he_empty (data ! 0) then hm_advance data 0
     else if he_sentinel (data ! 0) then Inr None else Inr (Some 0))"

definition needs_growth :: "nat \<Rightarrow> hash_map \<Rightarrow> bool" where
  "needs_growth n m \<longleftrightarrow> \<not> n + 1 \<le> hm_capacity m - 1"

text \<open>\<^verbatim>\<open>capacity()\<close> is a power of two and never 0.\<close>

definition grown_log2 :: "hash_map \<Rightarrow> nat" where
  "grown_log2 m = (if hm_capacity m = 0 then 6 else log2capacity m + 1)"

text \<open>\<^verbatim>\<open>insert\<close> calls \<^verbatim>\<open>reserve\<close>, which inserts every element the iterator
  reaches into a new map.\<close>

datatype hm_call = Insert hash_map u64 u64 | Rehash "hm_entry list" "nat option" hash_map

definition put_entry :: "nat \<Rightarrow> u64 \<Rightarrow> u64 \<Rightarrow> hash_map \<Rightarrow> hash_map" where
  "put_entry i k v m = m\<lparr>hm_data := (hm_data m)[i := (hm_data m ! i)\<lparr>he_key := k, he_value := v, he_empty := False\<rparr>],
     num_elems := num_elems m + 1\<rparr>"

partial_function (option) hm_run :: "hm_call \<Rightarrow> (bool \<times> hash_map) res option" where
  "hm_run c = (case c of
     Insert m k v \<Rightarrow>
       Option.bind
         (if needs_growth (num_elems m + 1) m then
            case hm_begin (hm_data m) of
              Inl e \<Rightarrow> Some (Inl e)
            | Inr it \<Rightarrow> hm_run (Rehash (hm_data m) it
                \<lparr>log2capacity = grown_log2 m, num_elems = 0, hm_data = zero_entries (2 ^ grown_log2 m)\<rparr>)
          else Some (Inr (False, m)))
         (\<lambda>r. case r of
            Inl e \<Rightarrow> Some (Inl e)
          | Inr (_, new_map) \<Rightarrow>
              let m1 = (if needs_growth (num_elems m + 1) m
                        then m\<lparr>log2capacity := grown_log2 m, hm_data := hm_data new_map\<rparr> else m) in
              Option.bind (hm_probe (hm_data m1) k (bucket k m1)) (\<lambda>p. case p of
                Inl e \<Rightarrow> Some (Inl e)
              | Inr None \<Rightarrow> Some (Inr (True, m1))
              | Inr (Some idx) \<Rightarrow> Some (Inr (False, put_entry idx k v m1))))
   | Rehash old it new_map \<Rightarrow>
       (case it of
          None \<Rightarrow> Some (Inr (False, new_map))
        | Some i \<Rightarrow> Option.bind (hm_run (Insert new_map (he_key (old ! i)) (he_value (old ! i)))) (\<lambda>r. case r of
            Inl e \<Rightarrow> Some (Inl e)
          | Inr (_, new_map1) \<Rightarrow> (case hm_advance old i of
              Inl e \<Rightarrow> Some (Inl e)
            | Inr it1 \<Rightarrow> hm_run (Rehash old it1 new_map1)))))"

definition hm_insert :: "u64 \<Rightarrow> u64 \<Rightarrow> hash_map \<Rightarrow> (bool \<times> hash_map) res option" where
  "hm_insert k v m = hm_run (Insert m k v)"

text \<open>\<^verbatim>\<open>lookup\<close> does not advance the index except at the sentinel.\<close>

partial_function (option) hm_lookup_from :: "hm_entry list \<Rightarrow> u64 \<Rightarrow> nat \<Rightarrow> u64 option res option" where
  "hm_lookup_from data k idx =
     (if idx \<ge> length data then Some (Inl (Undefined_behaviour ''outside the table''))
      else if he_empty (data ! idx) then Some (Inr None)
      else if he_key (data ! idx) = k then Some (Inr (Some (he_value (data ! idx))))
      else hm_lookup_from data k (if he_sentinel (data ! idx) then 0 else idx))"

definition hm_lookup :: "u64 \<Rightarrow> hash_map \<Rightarrow> u64 option res option" where
  "hm_lookup k m = hm_lookup_from (hm_data m) k (bucket k m)"

definition hm_contains :: "u64 \<Rightarrow> hash_map \<Rightarrow> bool res option" where
  "hm_contains k m = Option.bind (hm_lookup k m) (\<lambda>r. Some (rbind r (\<lambda>v. Inr (v \<noteq> None))))"

definition hm_size :: "hash_map \<Rightarrow> nat" where
  "hm_size m = num_elems m"

text \<open>Copies take \<^verbatim>\<open>capacity()\<close> entries from the other map's pointer, also when it is null; \<open>ok\<close> tells
  whether the allocator returned memory.\<close>

definition hm_copy :: "bool \<Rightarrow> hash_map \<Rightarrow> hash_map res" where
  "hm_copy ok other = (if \<not> ok \<or> hm_data other = [] then Inl (Undefined_behaviour ''memcpy with a null pointer'')
     else Inr \<lparr>log2capacity = log2capacity other, num_elems = num_elems other, hm_data = take (hm_capacity other) (hm_data other)\<rparr>)"

definition hm_assign :: "bool \<Rightarrow> hash_map \<Rightarrow> hash_map \<Rightarrow> hash_map res" where
  "hm_assign ok this other =
     (let this = this\<lparr>log2capacity := log2capacity other, num_elems := num_elems other\<rparr> in
      if \<not> ok \<or> hm_data other = [] then Inl (Undefined_behaviour ''memcpy with a null pointer'')
      else Inr (this\<lparr>hm_data := take (hm_capacity this) (hm_data other)\<rparr>))"

definition hm_move_assign :: "hash_map \<Rightarrow> hash_map \<Rightarrow> hash_map \<times> hash_map" where
  "hm_move_assign this other = (other, this)"

definition hm_move :: "hash_map \<Rightarrow> hash_map \<times> hash_map" where
  "hm_move other = hm_move_assign hm_new other"

text \<open>\<^verbatim>\<open>operator++\<close> looks at the entry it stands on again.\<close>

definition hm_next :: "hm_entry list \<Rightarrow> nat option \<Rightarrow> nat option res" where
  "hm_next data it = (case it of None \<Rightarrow> Inr None | Some i \<Rightarrow> hm_advance data i)"

definition hm_deref :: "hm_entry list \<Rightarrow> nat option \<Rightarrow> (u64 \<times> u64) res" where
  "hm_deref data it = (case it of None \<Rightarrow> Inl (Undefined_behaviour ''null pointer dereference'')
     | Some i \<Rightarrow> if i < length data then Inr (he_key (data ! i), he_value (data ! i))
         else Inl (Undefined_behaviour ''outside the table''))"

lemma hm_copies: "hm_data m \<noteq> [] \<Longrightarrow> length (hm_data m) = hm_capacity m \<Longrightarrow> hm_copy True m = Inr m \<and> hm_assign True x m = Inr m"
  by (simp add: hm_copy_def hm_assign_def hm_capacity_def)

lemma hm_copy_empty: "hm_copy ok hm_new = Inl (Undefined_behaviour ''memcpy with a null pointer'')"
  by (simp add: hm_copy_def hm_new_def)

lemma hm_next_stuck:
  assumes "i < length data" "\<not> he_empty (data ! i)" "\<not> he_sentinel (data ! i)"
  shows "hm_next data (Some i) = Inr (Some i)"
  using assms by (subst hm_next_def) (simp add: hm_advance.simps)

lemma hm_lookup_stuck:
  assumes "hm_lookup_from data k idx = Some y"
  shows "idx < length data \<longrightarrow> he_empty (data ! idx) \<or> he_sentinel (data ! idx) \<or> he_key (data ! idx) = k"
proof (rule hm_lookup_from.raw_induct [OF _ assms], goal_cases)
  case (1 look data k idx y)
  show ?case
  proof (rule impI, rule ccontr)
    assume c: "idx < length data" "\<not> (he_empty (data ! idx) \<or> he_sentinel (data ! idx) \<or> he_key (data ! idx) = k)"
    then have "look data k idx = Some y" using 1(2) by simp
    then show False using 1(1) c by blast
  qed
qed

subsection \<open>What an insertion does\<close>

lemma zero_entries_nth:
  assumes "i < n"
  shows "length (zero_entries n) = n" "\<not> he_empty (zero_entries n ! i)" "he_key (zero_entries n ! i) = 0"
    "he_sentinel (zero_entries n ! i) \<longleftrightarrow> i = n - 1"
  using assms by (auto simp: zero_entries_def Let_def nth_list_update)

lemma hm_probe_zero_contra:
  assumes "hm_probe data k idx = Some y"
  shows "data = zero_entries n \<and> k \<noteq> 0 \<longrightarrow> n \<le> idx"
proof (rule hm_probe.raw_induct [OF _ assms])
  fix probe data k i y
  assume ih: "\<And>data k i y. probe data k i = Some y \<Longrightarrow> data = zero_entries n \<and> k \<noteq> 0 \<longrightarrow> n \<le> i"
    and body: "(if length data \<le> i then Some (Inl (Undefined_behaviour ''outside the table''))
      else if he_key (data ! i) = k then Some (Inr None)
      else if he_empty (data ! i) then Some (Inr (Some i))
      else probe data k (if he_sentinel (data ! i) then 0 else i + 1)) = Some y"
  show "data = zero_entries n \<and> k \<noteq> 0 \<longrightarrow> n \<le> i"
  proof (rule impI, rule ccontr)
    assume d: "data = zero_entries n \<and> k \<noteq> 0" and "\<not> n \<le> i"
    then have i: "i < n" by simp
    note z = zero_entries_nth [OF i]
    have "probe data k (if he_sentinel (data ! i) then 0 else i + 1) = Some y" using body d z i by simp
    then have "n \<le> (if he_sentinel (data ! i) then 0 else i + 1)" using ih d by blast
    then show False using d z i by (auto split: if_splits)
  qed
qed

lemma hm_probe_zero_diverges: "k \<noteq> 0 \<Longrightarrow> idx < n \<Longrightarrow> hm_probe (zero_entries n) k idx = None"
  using hm_probe_zero_contra [of "zero_entries n" k idx _ n] by (cases "hm_probe (zero_entries n) k idx") auto

lemma bucket_less: "bucket k m < hm_capacity m \<or> 64 \<le> log2capacity m"
proof (cases "log2capacity m < 64")
  case True
  let ?n = "log2capacity m"
  have "(of_nat (hm_capacity m) - 1 :: u64) = mask ?n" by (simp add: hm_capacity_def mask_eq_exp_minus_1)
  then have "bucket k m = take_bit ?n (unat k)" by (simp add: bucket_def flip: take_bit_eq_mask unsigned_take_bit_eq)
  then show ?thesis using take_bit_nat_less_exp [of ?n "unat k"] by (simp add: hm_capacity_def)
qed simp

definition first_table :: hash_map where
  "first_table = \<lparr>log2capacity = 1, num_elems = 0, hm_data = zero_entries 2\<rparr>"

definition second_table :: hash_map where
  "second_table = \<lparr>log2capacity = 2, num_elems = 0, hm_data = zero_entries 4\<rparr>"

lemma hm_insert_new:
  "hm_insert k v hm_new = (if k = 0 then Some (Inr (True, first_table)) else None)"
proof -
  have grow: "needs_growth 1 hm_new" "grown_log2 hm_new = 1" "hm_begin (hm_data hm_new) = Inr None" "num_elems hm_new = 0"
    by (simp_all add: needs_growth_def grown_log2_def hm_capacity_def hm_new_def hm_begin_def)
  have m1: "hm_new\<lparr>log2capacity := 1, hm_data := zero_entries 2\<rparr> = first_table"
    by (simp add: hm_new_def first_table_def)
  have "hm_run (Insert hm_new k v) = Option.bind (hm_probe (zero_entries 2) k (bucket k first_table)) (\<lambda>p. case p of
      Inl e \<Rightarrow> Some (Inl e) | Inr None \<Rightarrow> Some (Inr (True, first_table))
    | Inr (Some idx) \<Rightarrow> Some (Inr (False, put_entry idx k v first_table)))"
    using grow m1 by (subst hm_run.simps) (simp add: hm_run.simps [of "Rehash _ None _"] Let_def)
  moreover have "hm_probe (zero_entries 2) 0 (bucket 0 first_table) = Some (Inr None)"
    using zero_entries_nth [of 0 2] by (subst hm_probe.simps) (simp add: bucket_def)
  moreover have "hm_probe (zero_entries 2) k (bucket k first_table) = None" if "k \<noteq> 0"
    using that bucket_less [of k first_table] by (intro hm_probe_zero_diverges) (auto simp: first_table_def hm_capacity_def)
  ultimately show ?thesis by (simp add: hm_insert_def)
qed

lemma hm_rehash_contra:
  assumes "hm_run c = Some y"
  shows "(c = Insert second_table 0 0 \<longrightarrow> y = Inr (True, second_table)) \<and>
    c \<noteq> Rehash (zero_entries 2) (Some 0) second_table"
proof -
  have small: "\<not> needs_growth 1 second_table" "num_elems second_table = 0" "hm_data second_table = zero_entries 4"
    by (simp_all add: needs_growth_def hm_capacity_def second_table_def)
  have probe: "hm_probe (zero_entries 4) 0 (bucket 0 second_table) = Some (Inr None)"
    using zero_entries_nth [of 0 4] by (subst hm_probe.simps) (simp add: bucket_def)
  have adv: "hm_advance (zero_entries 2) 0 = Inr (Some 0)"
    using zero_entries_nth [of 0 2] by (subst hm_advance.simps) simp
  have key: "he_key (zero_entries 2 ! 0) = 0" "he_value (zero_entries 2 ! 0) = 0"
    by (simp_all add: zero_entries_def Let_def numeral_2_eq_2)
  show ?thesis
  proof (rule hm_run.raw_induct [OF _ assms], goal_cases)
    case (1 run c y)
    note ih = 1(1) and body = 1(2)
    have "y = Inr (True, second_table)" if "c = Insert second_table 0 0"
      using body that small probe by (simp add: Let_def)
    moreover have False if c: "c = Rehash (zero_entries 2) (Some 0) second_table"
    proof -
      obtain r where r: "run (Insert second_table 0 0) = Some r"
        using body c key by (auto simp: bind_eq_Some_conv)
      then have "r = Inr (True, second_table)" using ih by blast
      then have "run (Rehash (zero_entries 2) (Some 0) second_table) = Some y" using body c key adv r by simp
      then show False using ih by blast
    qed
    ultimately show ?case by blast
  qed
qed

lemma hm_insert_again: "hm_insert k v first_table = None"
proof -
  have grow: "needs_growth 1 first_table" "grown_log2 first_table = 2" "num_elems first_table = 0"
      "hm_data first_table = zero_entries 2"
    by (simp_all add: needs_growth_def grown_log2_def hm_capacity_def first_table_def)
  have "hm_begin (zero_entries 2) = Inr (Some 0)"
    using zero_entries_nth [of 0 2] by (simp add: hm_begin_def) (metis list.size(3) zero_neq_numeral)
  moreover have "hm_run (Rehash (zero_entries 2) (Some 0) second_table) = None"
    using hm_rehash_contra [of "Rehash (zero_entries 2) (Some 0) second_table"] by (metis option.exhaust)
  ultimately show ?thesis
    using grow unfolding hm_insert_def second_table_def by (subst hm_run.simps) simp
qed

text \<open>
  C32. No insertion stores anything: the new table of the first one is cleared to zero bytes, which marks its
  slots as in use by the key 0. Inserting the key 0 reports it as present and stores
  nothing, and any other key is searched for without end; after the first insertion the next one
  never returns, since the iterator over the old table does not move.
\<close>

theorem hash_map_stores_nothing:
  "hm_insert k v hm_new = (if k = 0 then Some (Inr (True, first_table)) else None) \<and>
   num_elems first_table = 0 \<and> hm_insert k' v' first_table = None"
  using hm_insert_new hm_insert_again by (simp add: first_table_def)

end
