(* ===== verification/Elf.thy ===== *)
theory Elf
  imports Libc_String
begin

text \<open>
  The ELF structures of src/kernel/elf.h and src/kernel/elf.cpp, with the \<^verbatim>\<open>adt::range\<close>
  (src/libadt/range.h) that iterates over the sections. A structure is read from the bytes of memory at its packed offsets; the
  objects the code passes around are addresses. Products of two 16-bit fields are computed in
  \<^verbatim>\<open>int\<close>, so they can overflow.
\<close>

subsection \<open>Structures\<close>

record elf_section =
  sec_name :: u32
  sec_type :: u32
  sec_flags :: u64
  sec_addr :: u64
  sec_offset :: u64
  sec_size :: u64
  sec_link :: u32
  sec_info :: u32
  sec_addralign :: u64
  sec_entry_size :: u64

definition SIZEOF_SECTION :: u64 where "SIZEOF_SECTION = 64"

definition read_section :: "bytes \<Rightarrow> u64 \<Rightarrow> elf_section" where
  "read_section m a = \<lparr>sec_name = load32 m a, sec_type = load32 m (a + 4), sec_flags = load64 m (a + 8),
     sec_addr = load64 m (a + 16), sec_offset = load64 m (a + 24), sec_size = load64 m (a + 32), sec_link = load32 m (a + 40),
     sec_info = load32 m (a + 44), sec_addralign = load64 m (a + 48), sec_entry_size = load64 m (a + 56)\<rparr>"

record elf_header =
  elf_magic :: "u8 list"
  bitness :: u8
  endianness :: u8
  header_version :: u8
  os_abi :: u8
  elf_type :: u16
  elf_machine :: u16
  elf_version :: u32
  entry_offset :: u64
  program_header_table_offset :: u64
  section_header_table_offset :: u64
  elf_flags :: u32
  header_size :: u16
  size_of_program_header_table_entry :: u16
  num_of_program_header_table_entries :: u16
  size_of_section_header_table_entry :: u16
  num_of_section_header_table_entries :: u16
  section_index_to_section_header_string_table :: u16

text \<open>Eight unnamed bytes follow \<^verbatim>\<open>os_abi\<close>.\<close>

definition read_header :: "bytes \<Rightarrow> u64 \<Rightarrow> elf_header" where
  "read_header m a = \<lparr>elf_magic = [m a, m (a + 1), m (a + 2), m (a + 3)], bitness = m (a + 4), endianness = m (a + 5),
     header_version = m (a + 6), os_abi = m (a + 7), elf_type = load16 m (a + 16), elf_machine = load16 m (a + 18),
     elf_version = load32 m (a + 20), entry_offset = load64 m (a + 24), program_header_table_offset = load64 m (a + 32),
     section_header_table_offset = load64 m (a + 40), elf_flags = load32 m (a + 48), header_size = load16 m (a + 52),
     size_of_program_header_table_entry = load16 m (a + 54), num_of_program_header_table_entries = load16 m (a + 56),
     size_of_section_header_table_entry = load16 m (a + 58), num_of_section_header_table_entries = load16 m (a + 60),
     section_index_to_section_header_string_table = load16 m (a + 62)\<rparr>"

subsection \<open>Ranges\<close>

record range =
  range_begin :: u64
  range_end :: u64

definition make_range :: "u64 \<Rightarrow> u64 \<Rightarrow> range" where
  "make_range b e = \<lparr>range_begin = b, range_end = e\<rparr>"

definition range_index :: "u64 \<Rightarrow> range \<Rightarrow> u64 \<Rightarrow> u64" where
  "range_index sz r i = range_begin r + sz * i"

text \<open>The pointers a range-based loop visits: it compares for equality with the end, so it
  may not stop.\<close>

partial_function (option) range_walk :: "u64 \<Rightarrow> u64 \<Rightarrow> u64 \<Rightarrow> u64 list option" where
  "range_walk sz p e = (if p = e then Some [] else Option.bind (range_walk sz (p + sz) e) (\<lambda>ps. Some (p # ps)))"

definition range_loop :: "u64 \<Rightarrow> range \<Rightarrow> u64 list option" where
  "range_loop sz r = range_walk sz (range_begin r) (range_end r)"

subsection \<open>The header's operations\<close>

definition int_product :: "u16 \<Rightarrow> u16 \<Rightarrow> u64 res" where
  "int_product x y = (if unat x * unat y < 2 ^ 31 then Inr (of_nat (unat x * unat y))
     else Inl (Undefined_behaviour ''signed overflow''))"

definition sections_begin :: "bytes \<Rightarrow> u64 \<Rightarrow> u64" where
  "sections_begin m h = h + section_header_table_offset (read_header m h)"

definition sections_end :: "bytes \<Rightarrow> u64 \<Rightarrow> u64" where
  "sections_end m h = sections_begin m h + SIZEOF_SECTION * ucast (num_of_section_header_table_entries (read_header m h))"

definition elf_sections :: "bytes \<Rightarrow> u64 \<Rightarrow> range" where
  "elf_sections m h = make_range (sections_begin m h) (sections_end m h)"

definition sections_size :: "bytes \<Rightarrow> u64 \<Rightarrow> u64 res" where
  "sections_size m h = int_product (size_of_section_header_table_entry (read_header m h))
     (num_of_section_header_table_entries (read_header m h))"

text \<open>A null pointer is the address 0.\<close>

definition section_by_index :: "bytes \<Rightarrow> u64 \<Rightarrow> u16 \<Rightarrow> u64 res" where
  "section_by_index m h index =
     rbind (assert_that (index < num_of_section_header_table_entries (read_header m h)) ''section index out of range!'') (\<lambda>_.
     rbind (int_product index (size_of_section_header_table_entry (read_header m h))) (\<lambda>off.
       let addr = range_begin (elf_sections m h) + off in
       Inr (if sec_type (read_section m addr) = 0 then 0 else addr)))"

text \<open>\<^verbatim>\<open>string_section->offset\<close> is read before the test for null.\<close>

definition section_name_string_table :: "bytes \<Rightarrow> u64 \<Rightarrow> u64 res" where
  "section_name_string_table m h =
     rbind (section_by_index m h (section_index_to_section_header_string_table (read_header m h))) (\<lambda>string_section.
       if string_section = 0 then Inl (Undefined_behaviour ''null pointer dereference'')
       else Inr (h + sec_offset (read_section m string_section)))"

definition section_name :: "bytes \<Rightarrow> u64 \<Rightarrow> u64 \<Rightarrow> u64 res" where
  "section_name m h s = rbind (section_name_string_table m h) (\<lambda>t. Inr (t + ucast (sec_name (read_section m s))))"

definition string_table_size :: "bytes \<Rightarrow> u64 \<Rightarrow> u64 res" where
  "string_table_size m h =
     rbind (section_by_index m h (section_index_to_section_header_string_table (read_header m h))) (\<lambda>strings.
       Inr (if strings = 0 then 0 else sec_size (read_section m strings)))"

text \<open>The body of \<^verbatim>\<open>init\<close> is commented out, so the static pointer stays null.\<close>

definition elf_init :: "u64 \<Rightarrow> u64" where
  "elf_init kernel_elf_header = kernel_elf_header"

definition kernel_header :: "u64 \<Rightarrow> u64 res" where
  "kernel_header kernel_elf_header = (if kernel_elf_header = 0 then Inl (Undefined_behaviour ''null pointer dereference'')
     else Inr kernel_elf_header)"

subsection \<open>The layout of the structures\<close>

definition le_bytes :: "nat \<Rightarrow> 'a :: len word \<Rightarrow> u8 list" where
  "le_bytes n w = map (\<lambda>i. ucast (drop_bit (8 * i) w)) [0..<n]"

fun stored :: "bytes \<Rightarrow> u64 \<Rightarrow> u8 list \<Rightarrow> bool" where
  "stored m a [] \<longleftrightarrow> True"
| "stored m a (b # bs) \<longleftrightarrow> m a = b \<and> stored m (a + 1) bs"

definition put_bytes :: "u64 \<Rightarrow> u8 list \<Rightarrow> bytes \<Rightarrow> bytes" where
  "put_bytes a bs m = (\<lambda>x. if unat (x - a) < length bs then bs ! unat (x - a) else m x)"

definition section_layout :: "elf_section \<Rightarrow> u8 list" where
  "section_layout s = le_bytes 4 (sec_name s) @ le_bytes 4 (sec_type s) @ le_bytes 8 (sec_flags s) @ le_bytes 8 (sec_addr s) @
     le_bytes 8 (sec_offset s) @ le_bytes 8 (sec_size s) @ le_bytes 4 (sec_link s) @ le_bytes 4 (sec_info s) @
     le_bytes 8 (sec_addralign s) @ le_bytes 8 (sec_entry_size s)"

definition header_layout :: "elf_header \<Rightarrow> u8 list" where
  "header_layout h = elf_magic h @ [bitness h, endianness h, header_version h, os_abi h] @ replicate 8 0 @
     le_bytes 2 (elf_type h) @ le_bytes 2 (elf_machine h) @ le_bytes 4 (elf_version h) @ le_bytes 8 (entry_offset h) @
     le_bytes 8 (program_header_table_offset h) @ le_bytes 8 (section_header_table_offset h) @ le_bytes 4 (elf_flags h) @
     le_bytes 2 (header_size h) @ le_bytes 2 (size_of_program_header_table_entry h) @
     le_bytes 2 (num_of_program_header_table_entries h) @ le_bytes 2 (size_of_section_header_table_entry h) @
     le_bytes 2 (num_of_section_header_table_entries h) @ le_bytes 2 (section_index_to_section_header_string_table h)"

lemma length_le_bytes [simp]: "length (le_bytes n w) = n"
  by (simp add: le_bytes_def)

lemma stored_append: "stored m a (xs @ ys) \<longleftrightarrow> stored m a xs \<and> stored m (a + of_nat (length xs)) ys"
  by (induction xs arbitrary: a) (auto simp: ac_simps)

lemma stored_nth: "stored m a bs \<Longrightarrow> i < length bs \<Longrightarrow> m (a + of_nat i) = bs ! i"
proof (induction bs arbitrary: a i)
  case (Cons b bs)
  show ?case
  proof (cases i)
    case (Suc j)
    have "m (a + 1 + of_nat j) = bs ! j" using Cons Suc by (intro Cons.IH) simp_all
    then show ?thesis using Suc by (simp add: ac_simps)
  qed (use Cons in simp)
qed simp

lemma storedI: "(\<And>i. i < length bs \<Longrightarrow> m (a + of_nat i) = bs ! i) \<Longrightarrow> stored m a bs"
proof (induction bs arbitrary: a)
  case (Cons b bs)
  have "m a = b" using Cons.prems [of 0] by simp
  moreover have "stored m (a + 1) bs"
  proof (rule Cons.IH)
    fix i assume "i < length bs"
    then show "m (a + 1 + of_nat i) = bs ! i" using Cons.prems [of "Suc i"] by (simp add: ac_simps)
  qed
  ultimately show ?case by simp
qed simp

lemma stored_put_bytes: "length bs < 2 ^ 64 \<Longrightarrow> stored (put_bytes a bs m) a bs"
  by (rule storedI) (simp add: put_bytes_def unat_of_nat_u64)

lemma stored_le_byte:
  "stored m a (le_bytes n w) \<Longrightarrow> i < n \<Longrightarrow> m (a + of_nat i) = ucast (drop_bit (8 * i) w)"
  using stored_nth [of m a "le_bytes n w" i] by (simp add: le_bytes_def [of n w] nth_append)

lemma load16_stored: "stored m a (le_bytes 2 w) \<Longrightarrow> load16 m a = w"
  using stored_le_byte [of m a 2 w 0] stored_le_byte [of m a 2 w 1] unfolding load16_def
  by (intro bit_eqI) (auto simp: bit_or_iff bit_push_bit_iff bit_unsigned_iff bit_drop_bit_eq possible_bit_word)

lemma le_bytes_halves: "le_bytes 4 (w :: u32) = le_bytes 2 (ucast w :: u16) @ le_bytes 2 (ucast (drop_bit 16 w) :: u16)"
  by (simp add: le_bytes_def upt_conv_Cons, intro conjI bit_eqI)
    (auto simp: bit_unsigned_iff bit_drop_bit_eq possible_bit_word)

lemma load32_stored: "stored m a (le_bytes 4 w) \<Longrightarrow> load32 m a = w"
  unfolding le_bytes_halves stored_append load32_def
  by (rule bit_eqI) (auto simp: load16_stored bit_or_iff bit_push_bit_iff bit_unsigned_iff bit_drop_bit_eq possible_bit_word)

lemma load64_stored:
  assumes "stored m a (le_bytes 8 w)" shows "load64 m a = w"
proof (rule bit_eqI)
  fix n assume "possible_bit TYPE(u64) n"
  then have n: "n < 64" by (simp add: possible_bit_word)
  let ?k = "n div 8"
  have k: "?k < 8" "8 * ?k + n mod 8 = n" using n by (simp_all add: less_mult_imp_div_less)
  have "bit (load64 m a) n \<longleftrightarrow> bit (ucast (drop_bit (8 * ?k) (load64 m a)) :: u8) (n mod 8)"
    by (simp add: bit_unsigned_iff bit_drop_bit_eq possible_bit_word)
  also have "\<dots> \<longleftrightarrow> bit (ucast (drop_bit (8 * ?k) w) :: u8) (n mod 8)"
    unfolding load64_byte [OF k(1)] stored_le_byte [OF assms k(1)] ..
  also have "\<dots> \<longleftrightarrow> bit w n" by (simp add: bit_unsigned_iff bit_drop_bit_eq possible_bit_word)
  finally show "bit (load64 m a) n \<longleftrightarrow> bit w n" .
qed

lemmas stored_loads = load16_stored load32_stored load64_stored

lemma read_section_stored: "stored m a (section_layout s) \<Longrightarrow> read_section m a = s"
  by (rule elf_section.equality) (simp_all add: section_layout_def stored_append read_section_def stored_loads add.commute)

lemma read_header_stored:
  assumes "stored m a (header_layout h)" "length (elf_magic h) = 4" shows "read_header m a = h"
proof -
  obtain b0 b1 b2 b3 where magic: "elf_magic h = [b0, b1, b2, b3]"
    using assms(2) by (auto simp: length_Suc_conv numeral_eq_Suc)
  show ?thesis
    using assms(1) by (intro elf_header.equality)
      (simp_all add: header_layout_def stored_append read_header_def stored_loads magic add.commute)
qed

subsection \<open>Properties\<close>

text \<open>
  C39. The packed structures have the 64 bytes the code asserts, and reading one from memory returns
  the fields that were laid out there, in the order and width of the declaration.
\<close>

theorem elf_structures_roundtrip:
  assumes "length (elf_magic h) = 4"
  shows "length (section_layout s) = 64 \<and> length (header_layout h) = 64 \<and>
    read_section (put_bytes a (section_layout s) m) a = s \<and> read_header (put_bytes a (header_layout h) m) a = h"
proof -
  have l: "length (section_layout s) = 64" "length (header_layout h) = 64"
    using assms by (simp_all add: section_layout_def header_layout_def)
  have "stored (put_bytes a (section_layout s) m) a (section_layout s)"
    "stored (put_bytes a (header_layout h) m) a (header_layout h)" by (intro stored_put_bytes; simp add: l)+
  then show ?thesis using l read_section_stored read_header_stored assms by blast
qed

definition sample_elf_section :: elf_section where
  "sample_elf_section = \<lparr>sec_name = 0x1B, sec_type = 1, sec_flags = 6, sec_addr = 0xFFFFFFFF80110000, sec_offset = 0x1000,
     sec_size = 0x1234, sec_link = 0, sec_info = 0, sec_addralign = 0x1000, sec_entry_size = 0\<rparr>"

definition sample_elf_header :: elf_header where
  "sample_elf_header = \<lparr>elf_magic = [0x7F, 0x45, 0x4C, 0x46], bitness = 2, endianness = 1, header_version = 1, os_abi = 0,
     elf_type = 2, elf_machine = 0x3E, elf_version = 1, entry_offset = 0xFFFFFFFF80110000, program_header_table_offset = 64,
     section_header_table_offset = 64, elf_flags = 0, header_size = 64, size_of_program_header_table_entry = 56,
     num_of_program_header_table_entries = 0, size_of_section_header_table_entry = 64,
     num_of_section_header_table_entries = 3, section_index_to_section_header_string_table = 2\<rparr>"

theorem elf_structures_roundtrip_witness:
  "read_section (put_bytes 0x400040 (section_layout sample_elf_section) (\<lambda>_. 0xCC)) 0x400040 = sample_elf_section \<and>
   read_header (put_bytes 0x400040 (header_layout sample_elf_header) (\<lambda>_. 0xCC)) 0x400040 = sample_elf_header"
  using elf_structures_roundtrip [of sample_elf_header sample_elf_section "0x400040" "\<lambda>_. 0xCC"]
  by (simp add: sample_elf_header_def)

lemma range_walk_strides:
  assumes "n < 2 ^ 32"
  shows "range_walk 64 p (p + 64 * of_nat n) = Some (map (\<lambda>i. p + 64 * of_nat i) [0..<n])"
  using assms
proof (induction n arbitrary: p)
  case (Suc n)
  have "unat (64 * of_nat (Suc n) :: u64) = 64 * Suc n"
    using Suc.prems by (simp add: unat_word_ariths unat_of_nat_u64 del: of_nat_Suc)
  then have ne: "64 * of_nat (Suc n) \<noteq> (0 :: u64)" by (metis nat.simps(3) mult_is_0 unsigned_0 zero_neq_numeral)
  have e: "p + 64 * of_nat (Suc n) = (p + 64) + 64 * of_nat n" by (simp add: algebra_simps)
  have "range_walk 64 (p + 64) (p + 64 * of_nat (Suc n)) = Some (map (\<lambda>i. p + 64 + 64 * of_nat i) [0..<n])"
    unfolding e using Suc.prems by (intro Suc.IH) simp
  then show ?case
    using ne by (subst range_walk.simps) (simp add: map_upt_Suc_Cons algebra_simps del: upt_Suc)
qed (simp add: range_walk.simps)

text \<open>
  C40. Indexing and iterating reach the same sections: with section headers of 64 bytes the loop over
  \<^verbatim>\<open>sections()\<close> ends, visits as many pointers as there are sections, and
  \<^verbatim>\<open>section_by_index\<close> returns the pointer at that place, or null for a section of type 0.
\<close>

theorem section_by_index_iterates:
  assumes "size_of_section_header_table_entry (read_header m h) = 64"
    "i < unat (num_of_section_header_table_entries (read_header m h))"
  shows "\<exists>ps. range_loop SIZEOF_SECTION (elf_sections m h) = Some ps \<and>
    length ps = unat (num_of_section_header_table_entries (read_header m h)) \<and>
    section_by_index m h (of_nat i) = Inr (if sec_type (read_section m (ps ! i)) = 0 then 0 else ps ! i)"
proof -
  let ?n = "num_of_section_header_table_entries (read_header m h)"
  let ?ps = "map (\<lambda>i. sections_begin m h + 64 * of_nat i) [0..<unat ?n]"
  have n: "unat ?n < 2 ^ 16" using unsigned_less [of ?n] by simp
  have "ucast ?n = (of_nat (unat ?n) :: u64)" by simp
  then have "range_loop SIZEOF_SECTION (elf_sections m h) = Some ?ps"
    using range_walk_strides [of "unat ?n" "sections_begin m h"] n
    by (simp add: range_loop_def elf_sections_def make_range_def sections_end_def SIZEOF_SECTION_def)
  moreover have ui: "unat (of_nat i :: u16) = i" using assms(2) n by (simp add: unat_of_nat take_bit_nat_eq_self)
  then have "(of_nat i :: u16) < ?n" using assms(2) by (simp add: word_less_nat_alt)
  moreover have "int_product (of_nat i) 64 = Inr (64 * of_nat i)"
    using ui assms(2) n by (simp add: int_product_def mult.commute)
  ultimately show ?thesis
    using assms by (intro exI [of _ ?ps]) (simp add: section_by_index_def elf_sections_def make_range_def Let_def)
qed

text \<open>A file of a header and three sections, the last one the string table.\<close>

definition sample_elf_file :: bytes where
  "sample_elf_file = put_bytes 0x400000 (header_layout sample_elf_header @ replicate 64 0 @ section_layout sample_elf_section @
     section_layout (sample_elf_section\<lparr>sec_type := 3, sec_offset := 0x200\<rparr>)) (\<lambda>_. 0)"

lemma sample_elf_lengths: "length (section_layout s) = 64" "length (header_layout sample_elf_header) = 64"
  by (simp_all add: section_layout_def header_layout_def sample_elf_header_def)

lemma sample_elf_file:
  "read_header sample_elf_file 0x400000 = sample_elf_header" "read_section sample_elf_file 0x400080 = sample_elf_section"
  "read_section sample_elf_file 0x4000C0 = sample_elf_section\<lparr>sec_type := 3, sec_offset := 0x200\<rparr>"
proof -
  let ?bs = "header_layout sample_elf_header @ replicate 64 0 @ section_layout sample_elf_section @
     section_layout (sample_elf_section\<lparr>sec_type := 3, sec_offset := 0x200\<rparr>)"
  have "length ?bs < 2 ^ 64" by (simp add: sample_elf_lengths)
  then have "stored sample_elf_file 0x400000 ?bs" unfolding sample_elf_file_def by (rule stored_put_bytes)
  then have "stored sample_elf_file 0x400000 (header_layout sample_elf_header)"
    "stored sample_elf_file 0x400080 (section_layout sample_elf_section)"
    "stored sample_elf_file 0x4000C0 (section_layout (sample_elf_section\<lparr>sec_type := 3, sec_offset := 0x200\<rparr>))"
    by (simp_all only: stored_append sample_elf_lengths length_append length_replicate) simp_all
  then show "read_header sample_elf_file 0x400000 = sample_elf_header" "read_section sample_elf_file 0x400080 = sample_elf_section"
    "read_section sample_elf_file 0x4000C0 = sample_elf_section\<lparr>sec_type := 3, sec_offset := 0x200\<rparr>"
    using read_header_stored [of _ _ sample_elf_header] read_section_stored by (auto simp: sample_elf_header_def)
qed

theorem section_by_index_iterates_witness: "section_by_index sample_elf_file 0x400000 1 = Inr 0x400080"
proof -
  have "size_of_section_header_table_entry (read_header sample_elf_file 0x400000) = 64"
    "1 < unat (num_of_section_header_table_entries (read_header sample_elf_file 0x400000))"
    by (simp_all add: sample_elf_file(1)) (simp_all add: sample_elf_header_def)
  from section_by_index_iterates [OF this] obtain ps where
    ps: "range_loop SIZEOF_SECTION (elf_sections sample_elf_file 0x400000) = Some ps"
      "section_by_index sample_elf_file 0x400000 1 = Inr (if sec_type (read_section sample_elf_file (ps ! 1)) = 0 then 0 else ps ! 1)"
    by auto
  have "elf_sections sample_elf_file 0x400000 = make_range 0x400040 (0x400040 + 64 * of_nat 3)"
    unfolding elf_sections_def sections_end_def sections_begin_def sample_elf_file(1)
    by (simp add: sample_elf_header_def SIZEOF_SECTION_def)
  then have "ps = map (\<lambda>i. 0x400040 + 64 * of_nat i) [0..<3]"
    using ps(1) range_walk_strides [of 3 "0x400040"] by (simp add: range_loop_def make_range_def SIZEOF_SECTION_def)
  then have "ps ! 1 = 0x400080" by simp
  then show ?thesis using ps(2) sample_elf_file(2) by (simp add: sample_elf_section_def)
qed

text \<open>When the entry the header names for the string table is the null section, \<^verbatim>\<open>section_name\<close> and the table's
  address read through the null pointer before the test, while \<^verbatim>\<open>string_table_size\<close> returns 0.\<close>

lemma null_string_table:
  assumes "section_by_index m h (section_index_to_section_header_string_table (read_header m h)) = Inr 0"
  shows "section_name_string_table m h = Inl (Undefined_behaviour ''null pointer dereference'')"
    "section_name m h s = Inl (Undefined_behaviour ''null pointer dereference'')" "string_table_size m h = Inr 0"
  using assms by (simp_all add: section_name_string_table_def section_name_def string_table_size_def)

text \<open>Nothing sets the kernel's header, so \<^verbatim>\<open>kernel_header\<close> dereferences null.\<close>

lemma kernel_header_null: "kernel_header (elf_init 0) = Inl (Undefined_behaviour ''null pointer dereference'')"
  by (simp add: kernel_header_def elf_init_def)

end
