(* ===== verification/Ownership.thy ===== *)
theory Ownership
  imports Heap
begin

text \<open>
  Owners of heap memory: the typed allocation functions of src/kernel/alloc.h and
  src/kernel/util/allocator.h, \<^verbatim>\<open>adt::unique_ptr\<close> (src/libadt/unique_ptr.h) with the
  deleter of src/kernel/util/unique_ptr.h, and \<^verbatim>\<open>Thunk\<close> (src/kernel/thunk.h). The template
  arguments \<^verbatim>\<open>sizeof(T)\<close>, \<^verbatim>\<open>A\<close>, \<^verbatim>\<open>Alloc\<close> and \<^verbatim>\<open>Deleter\<close>
  are arguments of the definitions.
\<close>

subsection \<open>Typed allocation\<close>

definition alloc_one :: "u64 \<Rightarrow> u64 \<Rightarrow> protection \<Rightarrow> alloc_state \<Rightarrow> (u64 \<times> alloc_state) res" where
  "alloc_one sizeof_T A p s = alloc sizeof_T A p s"

definition array_of :: "u64 \<Rightarrow> u64 \<Rightarrow> u64 \<Rightarrow> protection \<Rightarrow> alloc_state \<Rightarrow> (u64 \<times> alloc_state) res" where
  "array_of sizeof_T A n p s = alloc (sizeof_T * n) A p s"

definition zeroed_array_of :: "u64 \<Rightarrow> u64 \<Rightarrow> u64 \<Rightarrow> protection \<Rightarrow> alloc_state \<Rightarrow> (u64 \<times> alloc_state) res" where
  "zeroed_array_of sizeof_T A n p s = alloc_zeroed (sizeof_T * n) A p s"

definition standard_allocate :: "u64 \<Rightarrow> u64 \<Rightarrow> alloc_state \<Rightarrow> (u64 \<times> alloc_state) res" where
  "standard_allocate n alignment s = alloc n alignment READ_WRITE s"

definition standard_deallocate :: "u64 \<Rightarrow> u64 \<Rightarrow> alloc_state \<Rightarrow> alloc_state res" where
  "standard_deallocate p alignment s = alloc_free p s"

definition allocator_alloc :: "(u64 \<Rightarrow> u64 \<Rightarrow> 's \<Rightarrow> (u64 \<times> 's) res) \<Rightarrow> u64 \<Rightarrow> u64 \<Rightarrow> 's \<Rightarrow> (u64 \<times> 's) res" where
  "allocator_alloc allocate sizeof_T A s = allocate sizeof_T A s"

definition alloc_array_of :: "(u64 \<Rightarrow> u64 \<Rightarrow> 's \<Rightarrow> (u64 \<times> 's) res) \<Rightarrow> u64 \<Rightarrow> u64 \<Rightarrow> u64 \<Rightarrow> 's \<Rightarrow> (u64 \<times> 's) res" where
  "alloc_array_of allocate sizeof_T A n s = allocate (sizeof_T * n) A s"

definition allocator_free :: "(u64 \<Rightarrow> u64 \<Rightarrow> 's \<Rightarrow> 's res) \<Rightarrow> u64 \<Rightarrow> u64 \<Rightarrow> 's \<Rightarrow> 's res" where
  "allocator_free deallocate A p s = deallocate p A s"

text \<open>The size of an array wraps: an array of \<open>2 ^ 61\<close> words takes no memory.\<close>

lemma array_size_wraps: "array_of 8 8 (2 ^ 61) p s = Inr (0, s)"
  by (simp add: array_of_def alloc_def)

subsection \<open>unique\_ptr\<close>

record unique_ptr =
  storage :: u64

definition up_make :: "u64 \<Rightarrow> unique_ptr" where
  "up_make data = \<lparr>storage = data\<rparr>"

text \<open>Move construction swaps a null pointer with the other's; the new object and the other one.\<close>

definition up_move :: "unique_ptr \<Rightarrow> unique_ptr \<times> unique_ptr" where
  "up_move other = (\<lparr>storage = storage other\<rparr>, other\<lparr>storage := 0\<rparr>)"

text \<open>Move assignment swaps and then runs off the end of a function that returns a reference.\<close>

definition up_move_assign :: "unique_ptr \<Rightarrow> unique_ptr \<Rightarrow> (unique_ptr \<times> unique_ptr) res" where
  "up_move_assign this other = Inl (Undefined_behaviour ''no return value'')"

definition up_reset :: "(u64 \<Rightarrow> 's \<Rightarrow> 's res) \<Rightarrow> unique_ptr \<Rightarrow> 's \<Rightarrow> (unique_ptr \<times> 's) res" where
  "up_reset deleter u s = rbind (deleter (storage u) s) (\<lambda>s'. Inr (u\<lparr>storage := 0\<rparr>, s'))"

definition up_destroy :: "(u64 \<Rightarrow> 's \<Rightarrow> 's res) \<Rightarrow> unique_ptr \<Rightarrow> 's \<Rightarrow> 's res" where
  "up_destroy deleter u s = rbind (up_reset deleter u s) (\<lambda>(_, s'). Inr s')"

definition up_release :: "unique_ptr \<Rightarrow> u64 \<times> unique_ptr" where
  "up_release u = (storage u, u\<lparr>storage := 0\<rparr>)"

definition up_bool :: "unique_ptr \<Rightarrow> bool" where
  "up_bool u \<longleftrightarrow> storage u \<noteq> 0"

definition up_get :: "unique_ptr \<Rightarrow> u64" where
  "up_get u = storage u"

definition up_deref :: "unique_ptr \<Rightarrow> u64 res" where
  "up_deref u = (if storage u = 0 then Inl (Undefined_behaviour ''null pointer dereference'') else Inr (storage u))"

definition standard_deleter :: "u64 \<Rightarrow> u64 \<Rightarrow> alloc_state \<Rightarrow> alloc_state res" where
  "standard_deleter A data s = standard_deallocate data A s"

subsection \<open>A program's owners\<close>

text \<open>The objects a program has created, in the order of creation, \<open>None\<close> once destroyed; the state
  the deleter works on; the pointers it was called with and those given up by \<^verbatim>\<open>release\<close>. The calls are
  recorded by the deleter that the operations of \<^verbatim>\<open>unique_ptr\<close> are run with, one entry for each call they make.\<close>

record 's owners =
  ptrs :: "unique_ptr option list"
  own_env :: 's
  deleted :: "u64 list"
  released :: "u64 list"

definition logged :: "(u64 \<Rightarrow> 's \<Rightarrow> 's res) \<Rightarrow> u64 \<Rightarrow> 's \<times> u64 list \<Rightarrow> ('s \<times> u64 list) res" where
  "logged deleter p el = rbind (deleter p (fst el)) (\<lambda>e. Inr (e, snd el @ [p]))"

datatype own_op = Make u64 | Move nat | Reset nat | Release nat | Destroy nat

definition live_ptr :: "nat \<Rightarrow> 's owners \<Rightarrow> unique_ptr res" where
  "live_ptr i w = (if i < length (ptrs w) then
       case ptrs w ! i of Some u \<Rightarrow> Inr u | None \<Rightarrow> Inl (Undefined_behaviour ''object outside its lifetime'')
     else Inl (Undefined_behaviour ''object outside its lifetime''))"

fun own_step :: "(u64 \<Rightarrow> 's \<Rightarrow> 's res) \<Rightarrow> own_op \<Rightarrow> 's owners \<Rightarrow> 's owners res" where
  "own_step deleter (Make p) w = Inr (w\<lparr>ptrs := ptrs w @ [Some (up_make p)]\<rparr>)"
| "own_step deleter (Move i) w = rbind (live_ptr i w) (\<lambda>u.
     let (new, other) = up_move u in Inr (w\<lparr>ptrs := (ptrs w)[i := Some other] @ [Some new]\<rparr>))"
| "own_step deleter (Reset i) w = rbind (live_ptr i w) (\<lambda>u.
     rbind (up_reset (logged deleter) u (own_env w, deleted w)) (\<lambda>(u', e, calls).
       Inr (w\<lparr>ptrs := (ptrs w)[i := Some u'], own_env := e, deleted := calls\<rparr>)))"
| "own_step deleter (Release i) w = rbind (live_ptr i w) (\<lambda>u.
     let (p, u') = up_release u in Inr (w\<lparr>ptrs := (ptrs w)[i := Some u'], released := released w @ [p]\<rparr>))"
| "own_step deleter (Destroy i) w = rbind (live_ptr i w) (\<lambda>u.
     rbind (up_destroy (logged deleter) u (own_env w, deleted w)) (\<lambda>(e, calls).
       Inr (w\<lparr>ptrs := (ptrs w)[i := None], own_env := e, deleted := calls\<rparr>)))"

fun own_run :: "(u64 \<Rightarrow> 's \<Rightarrow> 's res) \<Rightarrow> own_op list \<Rightarrow> 's owners \<Rightarrow> 's owners res" where
  "own_run deleter [] w = Inr w"
| "own_run deleter (op # ops) w = rbind (own_step deleter op w) (own_run deleter ops)"

definition no_owners :: "'s \<Rightarrow> 's owners" where
  "no_owners e = \<lparr>ptrs = [], own_env = e, deleted = [], released = []\<rparr>"

fun made :: "own_op list \<Rightarrow> u64 list" where
  "made [] = []"
| "made (Make p # ops) = p # made ops"
| "made (op # ops) = made ops"

subsection \<open>Every pointer has one owner\<close>

fun held_by :: "unique_ptr option \<Rightarrow> u64 multiset" where
  "held_by None = {#}"
| "held_by (Some u) = filter_mset (\<lambda>p. p \<noteq> 0) {#storage u#}"

fun held :: "unique_ptr option list \<Rightarrow> u64 multiset" where
  "held [] = {#}"
| "held (u # us) = held_by u + held us"

definition pointers :: "u64 list \<Rightarrow> u64 multiset" where
  "pointers ps = filter_mset (\<lambda>p. p \<noteq> 0) (mset ps)"

lemma pointers_simps [simp]:
  "pointers [] = {#}" "pointers (p # ps) = held_by (Some (up_make p)) + pointers ps"
  "pointers (ps @ qs) = pointers ps + pointers qs"
  by (simp_all add: pointers_def up_make_def)

lemma held_append [simp]: "held (us @ vs) = held us + held vs"
  by (induction us) (simp_all add: ac_simps)

lemma held_update: "i < length us \<Longrightarrow> held (us[i := u]) + held_by (us ! i) = held us + held_by u"
proof (induction us arbitrary: i)
  case (Cons v us)
  then show ?case by (cases i) (auto simp: ac_simps)
qed simp

lemma live_ptr_Inr: "live_ptr i w = Inr u \<longleftrightarrow> i < length (ptrs w) \<and> ptrs w ! i = Some u"
  by (auto simp: live_ptr_def split: option.splits)

lemma held_null [simp]: "held_by (Some (u\<lparr>storage := 0\<rparr>)) = {#}"
  by simp

lemma own_step_conserves:
  assumes "own_step deleter op w = Inr w'"
  shows "held (ptrs w') + pointers (deleted w') + pointers (released w') =
    held (ptrs w) + pointers (deleted w) + pointers (released w) + pointers (made [op])"
proof (cases op)
  case (Make p)
  then show ?thesis using assms by auto
next
  case (Move i)
  then obtain u where u: "i < length (ptrs w)" "ptrs w ! i = Some u"
      "w' = w\<lparr>ptrs := (ptrs w)[i := Some (u\<lparr>storage := 0\<rparr>)] @ [Some \<lparr>storage = storage u\<rparr>]\<rparr>"
    using assms by (auto simp: rbind_eq_Inr_iff live_ptr_Inr up_move_def)
  then show ?thesis using held_update [OF u(1), of "Some (u\<lparr>storage := 0\<rparr>)"] Move by (simp add: ac_simps)
next
  case (Reset i)
  then obtain u e where u: "i < length (ptrs w)" "ptrs w ! i = Some u"
      "w' = w\<lparr>ptrs := (ptrs w)[i := Some (u\<lparr>storage := 0\<rparr>)], own_env := e, deleted := deleted w @ [storage u]\<rparr>"
    using assms by (auto simp: rbind_eq_Inr_iff live_ptr_Inr up_reset_def logged_def)
  then show ?thesis using held_update [OF u(1), of "Some (u\<lparr>storage := 0\<rparr>)"] Reset by (simp add: up_make_def ac_simps)
next
  case (Release i)
  then obtain u where u: "i < length (ptrs w)" "ptrs w ! i = Some u"
      "w' = w\<lparr>ptrs := (ptrs w)[i := Some (u\<lparr>storage := 0\<rparr>)], released := released w @ [storage u]\<rparr>"
    using assms by (auto simp: rbind_eq_Inr_iff live_ptr_Inr up_release_def)
  then show ?thesis using held_update [OF u(1), of "Some (u\<lparr>storage := 0\<rparr>)"] Release by (simp add: up_make_def ac_simps)
next
  case (Destroy i)
  then obtain u e where u: "i < length (ptrs w)" "ptrs w ! i = Some u"
      "w' = w\<lparr>ptrs := (ptrs w)[i := None], own_env := e, deleted := deleted w @ [storage u]\<rparr>"
    using assms by (auto simp: rbind_eq_Inr_iff live_ptr_Inr up_destroy_def up_reset_def logged_def)
  then show ?thesis using held_update [OF u(1), of None] Destroy by (simp add: up_make_def ac_simps)
qed

lemma made_Cons: "made (op # ops) = made [op] @ made ops"
  by (cases op) simp_all

lemma own_run_conserves:
  "own_run deleter ops w = Inr w' \<Longrightarrow> held (ptrs w') + pointers (deleted w') + pointers (released w') =
    held (ptrs w) + pointers (deleted w) + pointers (released w) + pointers (made ops)"
proof (induction ops arbitrary: w)
  case (Cons op ops)
  then obtain w1 where w1: "own_step deleter op w = Inr w1" "own_run deleter ops w1 = Inr w'"
    by (auto simp: rbind_eq_Inr_iff)
  show ?case
    using Cons.IH [OF w1(2)] own_step_conserves [OF w1(1)] unfolding made_Cons [of op ops] pointers_simps by (simp add: ac_simps)
qed simp

subsection \<open>The deleter's contract\<close>

text \<open>What \<^verbatim>\<open>unique_ptr\<close> relies on: deleting a null pointer does nothing.\<close>

fun delete_all :: "(u64 \<Rightarrow> 's \<Rightarrow> 's res) \<Rightarrow> u64 list \<Rightarrow> 's \<Rightarrow> 's res" where
  "delete_all deleter [] e = Inr e"
| "delete_all deleter (p # ps) e = rbind (deleter p e) (delete_all deleter ps)"

locale pointer_deleter =
  fixes deleter :: "u64 \<Rightarrow> 's \<Rightarrow> 's res"
  assumes delete_null: "deleter 0 e = Inr e"
begin

lemma delete_all_append: "delete_all deleter (ps @ qs) e = rbind (delete_all deleter ps e) (delete_all deleter qs)"
proof (induction ps arbitrary: e)
  case (Cons p ps)
  then show ?case by (cases "deleter p e") simp_all
qed simp

lemma delete_all_pointers: "delete_all deleter ps e = delete_all deleter (filter (\<lambda>p. p \<noteq> 0) ps) e"
proof (induction ps arbitrary: e)
  case (Cons p ps)
  show ?case
  proof (cases "p = 0")
    case True
    then show ?thesis using Cons.IH by (simp add: delete_null)
  next
    case False
    then show ?thesis by (cases "deleter p e") (simp_all add: Cons.IH)
  qed
qed simp

lemma own_step_env:
  assumes "own_step deleter op w = Inr w'"
  obtains ps where "deleted w' = deleted w @ ps" "delete_all deleter ps (own_env w) = Inr (own_env w')"
proof (cases op)
  case (Make p)
  then show ?thesis using assms that [of "[]"] by auto
next
  case (Move i)
  then show ?thesis using assms that [of "[]"] by (auto simp: rbind_eq_Inr_iff up_move_def up_release_def)
next
  case (Reset i)
  then obtain u :: unique_ptr where "deleted w' = deleted w @ [storage u]" "deleter (storage u) (own_env w) = Inr (own_env w')"
    using assms by (auto simp: rbind_eq_Inr_iff up_reset_def logged_def)
  then show ?thesis using that [of "[storage u]"] by simp
next
  case (Release i)
  then show ?thesis using assms that [of "[]"] by (auto simp: rbind_eq_Inr_iff up_move_def up_release_def)
next
  case (Destroy i)
  then obtain u :: unique_ptr where "deleted w' = deleted w @ [storage u]" "deleter (storage u) (own_env w) = Inr (own_env w')"
    using assms by (auto simp: rbind_eq_Inr_iff up_destroy_def up_reset_def logged_def)
  then show ?thesis using that [of "[storage u]"] by simp
qed

lemma own_run_env:
  "own_run deleter ops w = Inr w' \<Longrightarrow>
     \<exists>ps. deleted w' = deleted w @ ps \<and> delete_all deleter ps (own_env w) = Inr (own_env w')"
proof (induction ops arbitrary: w)
  case (Cons op ops)
  then obtain w1 where w1: "own_step deleter op w = Inr w1" "own_run deleter ops w1 = Inr w'"
    by (auto simp: rbind_eq_Inr_iff)
  obtain ps where ps: "deleted w1 = deleted w @ ps" "delete_all deleter ps (own_env w) = Inr (own_env w1)"
    using own_step_env [OF w1(1)] .
  obtain qs where "deleted w' = deleted w1 @ qs" "delete_all deleter qs (own_env w1) = Inr (own_env w')"
    using Cons.IH [OF w1(2)] by blast
  then show ?case using ps by (intro exI [of _ "ps @ qs"]) (simp add: delete_all_append)
qed simp

text \<open>A pointer that is the only one a program owns, and never given up, is deleted exactly
  once by the time all objects are gone; what happens to the state is that one deletion.\<close>

lemma sole_owner_deletes:
  assumes run: "own_run deleter ops (no_owners e) = Inr w" and one: "made ops = [p]" "p \<noteq> 0"
    and gone: "held (ptrs w) = {#}" "released w = []"
  shows "deleter p e = Inr (own_env w)"
proof -
  have "mset (filter (\<lambda>p. p \<noteq> 0) (deleted w)) = {#p#}"
    using own_run_conserves [OF run] one gone by (simp add: no_owners_def pointers_def)
  then have "filter (\<lambda>p. p \<noteq> 0) (deleted w) = [p]" by (simp only: mset_single_iff)
  moreover have "delete_all deleter (deleted w) e = Inr (own_env w)"
    using own_run_env [OF run] by (auto simp: no_owners_def)
  ultimately have "delete_all deleter [p] e = Inr (own_env w)" using delete_all_pointers [of "deleted w" e] by simp
  then show ?thesis by (auto simp: rbind_eq_Inr_iff)
qed

end

lemma standard_deleter_null: "standard_deleter A 0 s = Inr s"
  by (simp add: standard_deleter_def standard_deallocate_def alloc_free_def)

interpretation heap_deleter: pointer_deleter "standard_deleter A" for A
  by unfold_locales (rule standard_deleter_null)

subsection \<open>Properties of unique\_ptr\<close>

text \<open>
  C33. No double free: whatever sequence of constructions, moves, resets, releases and destructions a program
  performs on its \<^verbatim>\<open>unique_ptr\<close> objects, when each pointer was handed to at most one constructor, the deleter is
  called with no pointer twice (null apart) and with none that was released; and when no object holds a pointer any
  more, each pointer was either deleted or released.
\<close>

theorem unique_ptr_frees_once:
  assumes "own_run deleter ops (no_owners e) = Inr w" "distinct (filter (\<lambda>p. p \<noteq> 0) (made ops))"
  shows "distinct (filter (\<lambda>p. p \<noteq> 0) (deleted w)) \<and> set (deleted w) \<inter> set (released w) \<subseteq> {0} \<and>
    (held (ptrs w) = {#} \<longrightarrow> set (deleted w) \<union> set (released w) - {0} = set (made ops) - {0})"
proof -
  let ?n = "filter (\<lambda>p. p \<noteq> (0 :: u64))"
  have eq: "held (ptrs w) + mset (?n (deleted w)) + mset (?n (released w)) = mset (?n (made ops))"
    using own_run_conserves [OF assms(1)] by (simp add: no_owners_def pointers_def)
  have le: "mset (?n (deleted w) @ ?n (released w)) \<subseteq># mset (?n (made ops))"
    unfolding eq [symmetric] by (simp add: subset_mset.add_increasing ac_simps)
  have "count (mset (?n (made ops))) x \<le> 1" for x using assms(2) by (simp add: distinct_count_atmost_1)
  then have "count (mset (?n (deleted w) @ ?n (released w))) x \<le> 1" for x
    using mset_subset_eq_count [OF le, of x] order_trans by blast
  then have d: "distinct (?n (deleted w) @ ?n (released w))"
    by (simp only: distinct_count_atmost_1) (metis (no_types, lifting) count_greater_zero_iff le_less_Suc_eq less_one not_less set_mset_mset nat_less_le)
  have "set (deleted w) \<union> set (released w) - {0} = set (made ops) - {0}" if "held (ptrs w) = {#}"
  proof -
    have "set_mset (mset (?n (deleted w)) + mset (?n (released w))) = set_mset (mset (?n (made ops)))"
      using eq that by simp
    then show ?thesis by auto
  qed
  then show ?thesis using d by auto
qed

theorem unique_ptr_frees_once_witness:
  "\<exists>w. own_run (\<lambda>p e. Inr (e @ [p])) [Make 0x5000, Move 0, Make 0x6000, Release 2, Destroy 2, Destroy 1, Destroy 0] (no_owners []) = Inr w \<and>
     filter (\<lambda>p. p \<noteq> 0) (own_env w) = [0x5000] \<and> set (deleted w) \<inter> set (released w) \<subseteq> {0}"
proof -
  let ?ops = "[Make 0x5000, Move 0, Make 0x6000, Release 2, Destroy 2, Destroy 1, Destroy 0]"
  obtain w where run: "own_run (\<lambda>p e. Inr (e @ [p])) ?ops (no_owners []) = Inr w" and env: "own_env w = [0, 0x5000, 0]"
    by (simp add: no_owners_def live_ptr_def up_make_def up_move_def up_release_def up_destroy_def up_reset_def logged_def)
  have "distinct (filter (\<lambda>p. p \<noteq> 0) (made ?ops))" by simp
  from unique_ptr_frees_once [OF run this] show ?thesis using run env by auto
qed

text \<open>
  A buffer in a \<^verbatim>\<open>kstd::unique_ptr\<close>, as \<^verbatim>\<open>fs::read_file\<close> returns it, gives back what it took: when all owners
  are gone, however the buffer was moved between them, exactly the physical pages of the allocation are
  free again, every page is mapped as before, and no address is free that was not.
\<close>

theorem owned_buffer_returned:
  assumes "alloc n (2 ^ e) p s = Inr (a, s1)" "n \<noteq> 0" "unat n < 2 ^ 40" "e \<le> 12"
    "vma_inv (kvma s)" "bases_aligned (kvma s)" "pages_ok (kpma s)" "pt_wf (kpaging s)"
    "3 * pages_for n (2 ^ e) \<le> length (free_tables (kpaging s))"
    "list_room (free_area (kvma s)) (pages_for n (2 ^ e)) s" "a \<noteq> 0"
    "own_run (standard_deleter A) ops (no_owners s1) = Inr w" "made ops = [a]" "held (ptrs w) = {#}" "released w = []"
  shows "taken_pages (kpma (own_env w)) = taken_pages (kpma s) \<and>
    (\<forall>va. translation (kpaging (own_env w)) (path_of va) = translation (kpaging s) (path_of va)) \<and>
    free_area (kvma (own_env w)) \<subseteq> free_area (kvma s) \<and> \<not> locked (malloc_lock (own_env w))"
proof -
  have "standard_deleter A a s1 = Inr (own_env w)"
    by (rule heap_deleter.sole_owner_deletes [OF assms(12,13,11,14,15)])
  then have "alloc_free a s1 = Inr (own_env w)" by (simp add: standard_deleter_def standard_deallocate_def)
  from alloc_free_undoes [OF assms(1-11) this] show ?thesis by blast
qed

theorem owned_buffer_returned_witness:
  "\<exists>s1 w. alloc 100 (2 ^ 4) READ_WRITE sample_heap = Inr (0x400010, s1) \<and>
     own_run (standard_deleter 1) [Make 0x400010, Move 0, Destroy 0, Destroy 1] (no_owners s1) = Inr w \<and>
     taken_pages (kpma (own_env w)) = taken_pages (kpma sample_heap)"
proof -
  obtain s1 where run1: "alloc 100 (2 ^ 4) READ_WRITE sample_heap = Inr (0x400010, s1)"
    using sample_heap_alloc by blast
  then obtain s2 where run: "alloc 100 (2 ^ 4) READ_WRITE sample_heap = Inr (0x400010, s1)" "alloc_free 0x400010 s1 = Inr s2"
    using sample_heap_free_runs(2) [OF order_refl run1] by blast
  have fit: "list_room (free_area (kvma sample_heap)) (pages_for 100 (2 ^ 4)) sample_heap"
    unfolding sample_heap_sizes(3) by (rule sample_heap_room)
  obtain w where w: "own_run (standard_deleter 1) [Make 0x400010, Move 0, Destroy 0, Destroy 1] (no_owners s1) = Inr w"
      "held (ptrs w) = {#}" "released w = []"
    using run(2) by (simp add: no_owners_def live_ptr_def up_make_def up_move_def up_destroy_def up_reset_def logged_def
      standard_deleter_def standard_deallocate_def alloc_free_def [of 0])
  have "taken_pages (kpma (own_env w)) = taken_pages (kpma sample_heap)"
    using owned_buffer_returned [OF run(1) _ _ _ sample_heap_ok(1-4) sample_heap_ok(5) [OF order_refl] fit _ w(1) _ w(2,3)] by simp
  then show ?thesis using run(1) w(1) by blast
qed

subsection \<open>Thunk\<close>

text \<open>A function with its arguments, kept in a tuple on the heap, and the result once it was computed.
  \<^verbatim>\<open>F\<close> and \<^verbatim>\<open>Getter\<close> are null after a move. The function may change the state \<open>te_world\<close>; the
  type of the result is trivially copyable, so a moved-from optional keeps its value.\<close>

datatype thunk_deleter = delete_fn | do_nothing

record ('a, 'r, 'w) thunk =
  Cached :: "'r option"
  Getter :: bool
  Deleter :: thunk_deleter
  F_ptr :: "('a \<Rightarrow> 'w \<Rightarrow> 'r \<times> 'w) option"
  ParamData :: u64

record ('a, 'w) thunk_env =
  te_heap :: alloc_state
  te_params :: "u64 \<Rightarrow> 'a"
  te_world :: 'w

definition make_thunk :: "u64 \<Rightarrow> u64 \<Rightarrow> ('a \<Rightarrow> 'w \<Rightarrow> 'r \<times> 'w) \<Rightarrow> 'a \<Rightarrow> ('a, 'w) thunk_env \<Rightarrow>
    (('a, 'r, 'w) thunk \<times> ('a, 'w) thunk_env) res" where
  "make_thunk sizeof_tuple A f args e =
     rbind (alloc_one sizeof_tuple A READ_WRITE (te_heap e)) (\<lambda>(p, h).
       Inr (\<lparr>Cached = None, Getter = True, Deleter = delete_fn, F_ptr = Some f, ParamData = p\<rparr>,
         e\<lparr>te_heap := h, te_params := (te_params e)(p := args)\<rparr>))"

definition thunk_clear :: "('a, 'r, 'w) thunk \<Rightarrow> ('a, 'r, 'w) thunk" where
  "thunk_clear t = t\<lparr>F_ptr := None, Getter := False, Deleter := do_nothing, ParamData := 0\<rparr>"

text \<open>Move construction: the new thunk and the other one.\<close>

definition thunk_move :: "('a, 'r, 'w) thunk \<Rightarrow> ('a, 'r, 'w) thunk \<times> ('a, 'r, 'w) thunk" where
  "thunk_move other = (other, thunk_clear other)"

definition thunk_compute :: "('a, 'r, 'w) thunk \<Rightarrow> ('a, 'w) thunk_env \<Rightarrow> ('r \<times> ('a, 'w) thunk_env) res" where
  "thunk_compute t e = (case F_ptr t of
     None \<Rightarrow> Inl (Undefined_behaviour ''call of a null function'')
   | Some f \<Rightarrow> let (r, w) = f (te_params e (ParamData t)) (te_world e) in Inr (r, e\<lparr>te_world := w\<rparr>))"

definition thunk_deref :: "('a, 'r, 'w) thunk \<Rightarrow> ('a, 'w) thunk_env \<Rightarrow> ('r \<times> ('a, 'r, 'w) thunk \<times> ('a, 'w) thunk_env) res" where
  "thunk_deref t e = (case Cached t of
     Some r \<Rightarrow> Inr (r, t, e)
   | None \<Rightarrow> if Getter t then rbind (thunk_compute t e) (\<lambda>(r, e'). Inr (r, t\<lparr>Cached := Some r\<rparr>, e'))
       else Inl (Undefined_behaviour ''call of a null member function''))"

definition thunk_destroy :: "('a, 'r, 'w) thunk \<Rightarrow> ('a, 'w) thunk_env \<Rightarrow> ('a, 'w) thunk_env res" where
  "thunk_destroy t e = (case Deleter t of
     do_nothing \<Rightarrow> Inr e
   | delete_fn \<Rightarrow> rbind (alloc_free (ParamData t) (te_heap e)) (\<lambda>h. Inr (e\<lparr>te_heap := h\<rparr>)))"

text \<open>The values of a number of reads of a thunk.\<close>

fun thunk_reads :: "nat \<Rightarrow> ('a, 'r, 'w) thunk \<Rightarrow> ('a, 'w) thunk_env \<Rightarrow> ('r list \<times> ('a, 'r, 'w) thunk \<times> ('a, 'w) thunk_env) res" where
  "thunk_reads 0 t e = Inr ([], t, e)"
| "thunk_reads (Suc n) t e = rbind (thunk_deref t e) (\<lambda>(r, t1, e1).
     rbind (thunk_reads n t1 e1) (\<lambda>(rs, t2, e2). Inr (r # rs, t2, e2)))"

lemma thunk_reads_cached: "Cached t = Some r \<Longrightarrow> thunk_reads n t e = Inr (replicate n r, t, e)"
  by (induction n) (simp_all add: thunk_deref_def)

lemma thunk_reads_fresh:
  assumes "Cached t = None" "Getter t" "F_ptr t = Some f" "f (te_params e (ParamData t)) (te_world e) = (r, w)"
  shows "thunk_reads (Suc n) t e = Inr (replicate (Suc n) r, t\<lparr>Cached := Some r\<rparr>, e\<lparr>te_world := w\<rparr>)"
  using assms thunk_reads_cached [of "t\<lparr>Cached := Some r\<rparr>" r n "e\<lparr>te_world := w\<rparr>"]
  by (simp add: thunk_deref_def thunk_compute_def)

text \<open>
  A thunk runs its function once: however often it is read, each read returns the result of the one call
  on the arguments it was made with, and the call's effect happens once; a thunk moved before the first
  read behaves the same, destroying the moved-from thunk does nothing, and destroying the new one frees the
  arguments.
\<close>

theorem thunk_runs_once:
  assumes "make_thunk sz A f args e = Inr (t, e1)" "f args (te_world e) = (r, w)"
  shows "thunk_reads (Suc n) t e1 = Inr (replicate (Suc n) r, t\<lparr>Cached := Some r\<rparr>, e1\<lparr>te_world := w\<rparr>) \<and>
    thunk_reads (Suc n) (fst (thunk_move t)) e1 = thunk_reads (Suc n) t e1 \<and>
    thunk_destroy (snd (thunk_move t)) e1 = Inr e1 \<and>
    thunk_destroy (fst (thunk_move t)) e1 = rbind (alloc_free (ParamData t) (te_heap e1)) (\<lambda>h. Inr (e1\<lparr>te_heap := h\<rparr>))"
proof -
  have t: "Cached t = None" "Getter t" "F_ptr t = Some f" "te_params e1 (ParamData t) = args" "te_world e1 = te_world e"
      "Deleter t = delete_fn"
    using assms(1) by (auto simp: make_thunk_def rbind_eq_Inr_iff)
  have "f (te_params e1 (ParamData t)) (te_world e1) = (r, w)" using assms(2) t(4,5) by simp
  from thunk_reads_fresh [where f = f, OF t(1-3) this, of n] show ?thesis using t(6)
    by (simp add: thunk_move_def thunk_clear_def thunk_destroy_def)
qed

theorem thunk_runs_once_witness:
  "\<exists>t e1. make_thunk 100 (2 ^ 4) (\<lambda>x k. (x * 2, Suc k)) (21 :: nat) \<lparr>te_heap = sample_heap, te_params = (\<lambda>_. 0 :: nat), te_world = (7 :: nat)\<rparr> = Inr (t, e1) \<and>
     thunk_reads 3 t e1 = Inr ([42, 42, 42], t\<lparr>Cached := Some 42\<rparr>, e1\<lparr>te_world := 8\<rparr>)"
proof -
  let ?f = "\<lambda>(x :: nat) (k :: nat). (x * 2, Suc k)" and ?e = "\<lparr>te_heap = sample_heap, te_params = (\<lambda>_. 0 :: nat), te_world = (7 :: nat)\<rparr>"
  obtain s1 where "alloc 100 (2 ^ 4) READ_WRITE sample_heap = Inr (0x400010, s1)" using sample_heap_alloc by blast
  then obtain t e1 where run: "make_thunk 100 (2 ^ 4) ?f 21 ?e = Inr (t, e1)" by (auto simp: make_thunk_def alloc_one_def)
  have "?f 21 (te_world ?e) = (42, 8)" by simp
  from thunk_runs_once [OF run this, of 2] run show ?thesis by (auto simp: numeral_3_eq_3 numeral_2_eq_2)
qed

end
