(* ===== verification/Adt.thy ===== *)
theory Adt
  imports Ownership Libc_String
begin

text \<open>
  The smaller containers: \<^verbatim>\<open>kstd::list\<close> (src/kernel/util/list.h),
  \<^verbatim>\<open>adt::small_string\<close> (src/libadt/small_string.h), \<^verbatim>\<open>adt::array\<close> and
  \<^verbatim>\<open>adt::buffer\<close> (src/libadt/array.h, buffer.h) and the checked casts of src/kernel/util/cast.h.
  The kernel instantiates the string for its own allocator (src/kernel/alloc.cpp) and calls none of its
  operations; nothing instantiates the list. Both are modelled as their code reads.
\<close>

subsection \<open>list\<close>

record 'a list_node =
  ln_data :: 'a
  ln_next :: u64

record 'a klist =
  l_head :: u64
  l_nodes :: "u64 \<rightharpoonup> 'a list_node"

definition list_new :: "'a klist" where
  "list_new = \<lparr>l_head = 0, l_nodes = Map.empty\<rparr>"

text \<open>\<^verbatim>\<open>while (head->next) head = head->next\<close>: the last node, or an access outside the nodes.\<close>

partial_function (option) seek_last :: "(u64 \<rightharpoonup> 'a list_node) \<Rightarrow> u64 \<Rightarrow> u64 res option" where
  "seek_last ns p = (case ns p of
     None \<Rightarrow> Some (Inl (Undefined_behaviour ''no node at the pointer''))
   | Some n \<Rightarrow> if ln_next n = 0 then Some (Inr p) else seek_last ns (ln_next n))"

text \<open>\<open>new_node\<close> is the address the node allocator returns. The loop moves the member \<^verbatim>\<open>head\<close> itself.\<close>

definition list_push_back :: "u64 \<Rightarrow> 'a \<Rightarrow> 'a klist \<Rightarrow> 'a klist res option" where
  "list_push_back new_node value l =
     (let n = \<lparr>ln_data = value, ln_next = 0\<rparr> in
      if new_node = 0 then Some (Inl (Undefined_behaviour ''null pointer dereference''))
      else if l_head l = 0 then Some (Inr (l\<lparr>l_head := new_node, l_nodes := (l_nodes l)(new_node \<mapsto> n)\<rparr>))
      else Option.bind (seek_last (l_nodes l) (l_head l)) (\<lambda>r. case r of
        Inl e \<Rightarrow> Some (Inl e)
      | Inr h \<Rightarrow> let ns = (l_nodes l)(new_node \<mapsto> n) in
          Some (Inr (l\<lparr>l_head := h, l_nodes := ns(h \<mapsto> (the (ns h))\<lparr>ln_next := new_node\<rparr>)\<rparr>))))"

text \<open>The destructor's loop.\<close>

partial_function (option) list_destroy :: "u64 \<Rightarrow> (u64 \<rightharpoonup> 'a list_node) \<Rightarrow> (u64 \<rightharpoonup> 'a list_node) res option" where
  "list_destroy cur ns = (if cur = 0 then Some (Inr ns) else case ns cur of
     None \<Rightarrow> Some (Inl (Undefined_behaviour ''no node at the pointer''))
   | Some n \<Rightarrow> list_destroy (ln_next n) (ns(cur := None)))"

text \<open>An iterator and the end compare as not different, so a loop over the list ends before its first
  round.\<close>

definition iterator_differs_from_end :: "u64 \<Rightarrow> bool" where
  "iterator_differs_from_end it \<longleftrightarrow> False"

fun list_visits :: "nat \<Rightarrow> u64 \<Rightarrow> 'a klist \<Rightarrow> 'a list" where
  "list_visits 0 it l = []"
| "list_visits (Suc fuel) it l = (if iterator_differs_from_end it then
     case l_nodes l it of None \<Rightarrow> [] | Some n \<Rightarrow> ln_data n # list_visits fuel (ln_next n) l
   else [])"

text \<open>The values along the chain from the head, for a chain of at most \<open>fuel\<close> nodes.\<close>

fun chain_values :: "nat \<Rightarrow> u64 \<Rightarrow> (u64 \<rightharpoonup> 'a list_node) \<Rightarrow> 'a list option" where
  "chain_values fuel p ns = (if p = 0 then Some [] else case fuel of 0 \<Rightarrow> None | Suc f \<Rightarrow>
     (case ns p of None \<Rightarrow> None | Some n \<Rightarrow> map_option ((#) (ln_data n)) (chain_values f (ln_next n) ns)))"

fun push_all :: "(u64 \<times> 'a) list \<Rightarrow> 'a klist \<Rightarrow> 'a klist res option" where
  "push_all [] l = Some (Inr l)"
| "push_all ((a, v) # avs) l = Option.bind (list_push_back a v l) (\<lambda>r. case r of
     Inl e \<Rightarrow> Some (Inl e) | Inr l1 \<Rightarrow> push_all avs l1)"

text \<open>The list after pushing \<open>avs\<close>: all nodes are allocated, the chain holds the last two.\<close>

fun two_nodes :: "(u64 \<times> 'a) list \<Rightarrow> 'a klist \<Rightarrow> bool" where
  "two_nodes [] l \<longleftrightarrow> l_head l = 0"
| "two_nodes [(a, v)] l \<longleftrightarrow> l_head l = a \<and> l_nodes l a = Some \<lparr>ln_data = v, ln_next = 0\<rparr>"
| "two_nodes [(a, v), (b, w)] l \<longleftrightarrow> l_head l = a \<and> l_nodes l a = Some \<lparr>ln_data = v, ln_next = b\<rparr> \<and>
     l_nodes l b = Some \<lparr>ln_data = w, ln_next = 0\<rparr>"
| "two_nodes (x # y # z # zs) l \<longleftrightarrow> two_nodes (y # z # zs) l"

lemma two_nodes_push:
  assumes "two_nodes avs l" "distinct (map fst avs)" "0 \<notin> set (map fst avs)" "a \<notin> set (map fst avs)" "a \<noteq> 0"
  shows "\<exists>l1. list_push_back a v l = Some (Inr l1) \<and> two_nodes (avs @ [(a, v)]) l1 \<and>
    dom (l_nodes l1) = insert a (dom (l_nodes l))"
  using assms
proof (induction avs l rule: two_nodes.induct)
  case (1 l)
  then show ?case by (simp add: list_push_back_def)
next
  case (2 b w l)
  then have "seek_last (l_nodes l) b = Some (Inr b)" by (subst seek_last.simps) simp
  then show ?case using 2 by (auto simp: list_push_back_def Let_def)
next
  case (3 b w c x l)
  then have "seek_last (l_nodes l) c = Some (Inr c)" by (subst seek_last.simps) simp
  then have "seek_last (l_nodes l) b = Some (Inr c)" using 3 by (subst seek_last.simps) simp
  then show ?case using 3 by (auto simp: list_push_back_def Let_def)
next
  case (4 x y z zs l)
  then show ?case by auto
qed

lemma push_all_two_nodes:
  assumes "two_nodes prev l" "distinct (map fst (prev @ avs))" "0 \<notin> set (map fst (prev @ avs))" "dom (l_nodes l) = set (map fst prev)"
  shows "\<exists>l1. push_all avs l = Some (Inr l1) \<and> two_nodes (prev @ avs) l1 \<and> dom (l_nodes l1) = set (map fst (prev @ avs))"
  using assms
proof (induction avs arbitrary: "prev" l)
  case (Cons av avs)
  obtain a v where av: "av = (a, v)" by fastforce
  obtain l1 where l1: "list_push_back a v l = Some (Inr l1)" "two_nodes (prev @ [(a, v)]) l1"
      "dom (l_nodes l1) = insert a (dom (l_nodes l))"
    using two_nodes_push [of "prev" l a v] Cons.prems by (auto simp: av)
  have "dom (l_nodes l1) = set (map fst (prev @ [(a, v)]))" using l1(3) Cons.prems(4) by auto
  from Cons.IH [OF l1(2) _ _ this] Cons.prems(2,3) show ?case using l1(1) by (simp add: av)
qed simp

lemma two_nodes_last:
  "two_nodes avs l \<Longrightarrow> two_nodes (drop (length avs - 2) avs) l"
  by (induction avs l rule: two_nodes.induct) simp_all

lemma two_nodes_values:
  assumes "two_nodes avs l" "0 \<notin> set (map fst avs)" "length avs \<le> 2"
  shows "chain_values 2 (l_head l) (l_nodes l) = Some (map snd avs)"
  using assms by (induction avs l rule: two_nodes.induct) (auto simp: numeral_2_eq_2)

lemma two_nodes_destroy:
  assumes "two_nodes avs l" "0 \<notin> set (map fst avs)" "distinct (map fst avs)" "length avs \<le> 2"
  shows "\<exists>ns. list_destroy (l_head l) (l_nodes l) = Some (Inr ns) \<and> dom ns = dom (l_nodes l) - set (map fst avs)"
  using assms
proof (induction avs l rule: two_nodes.induct)
  case (1 l)
  then show ?case by (simp add: list_destroy.simps)
next
  case (2 a v l)
  then have "list_destroy (l_head l) (l_nodes l) = Some (Inr ((l_nodes l)(a := None)))"
    by (simp add: list_destroy.simps)
  then show ?case by auto
next
  case (3 a v b w l)
  then have "list_destroy (l_head l) (l_nodes l) = Some (Inr ((l_nodes l)(a := None, b := None)))"
    by (simp add: list_destroy.simps)
  then show ?case by auto
qed simp

text \<open>
  A \<^verbatim>\<open>kstd::list\<close> forgets all but its last two elements: \<^verbatim>\<open>push_back\<close> moves the list's head to the last
  node before it links the new one. After pushing any values the chain holds the last two of them,
  a loop over the list visits none, and the destructor leaves the nodes of the others allocated.
\<close>

theorem list_keeps_two:
  assumes "distinct (map fst avs)" "0 \<notin> set (map fst avs)"
  shows "\<exists>l ns. push_all avs list_new = Some (Inr l) \<and>
    chain_values 2 (l_head l) (l_nodes l) = Some (drop (length avs - 2) (map snd avs)) \<and>
    list_visits fuel (l_head l) l = [] \<and>
    list_destroy (l_head l) (l_nodes l) = Some (Inr ns) \<and> dom ns = set (take (length avs - 2) (map fst avs))"
proof -
  let ?k = "length avs - 2"
  have "two_nodes [] (list_new :: 'a klist)" "dom (l_nodes (list_new :: 'a klist)) = set (map fst ([] :: (u64 \<times> 'a) list))"
    by (simp_all add: list_new_def)
  from push_all_two_nodes [OF this(1) _ _ this(2), of avs] assms obtain l where
    l: "push_all avs list_new = Some (Inr l)" "two_nodes avs l" "dom (l_nodes l) = set (map fst avs)"
    unfolding append_Nil by blast
  let ?last = "drop ?k avs"
  have last: "two_nodes ?last l" "0 \<notin> set (map fst ?last)" "distinct (map fst ?last)" "length ?last \<le> 2"
    using two_nodes_last [OF l(2)] assms by (simp_all add: drop_map [symmetric]) (auto dest: in_set_dropD)
  obtain ns where ns: "list_destroy (l_head l) (l_nodes l) = Some (Inr ns)" "dom ns = dom (l_nodes l) - set (map fst ?last)"
    using two_nodes_destroy [OF last] by blast
  have split: "set (map fst avs) = set (take ?k (map fst avs)) \<union> set (drop ?k (map fst avs))"
    by (metis append_take_drop_id set_append)
  have "set (take ?k (map fst avs)) \<inter> set (drop ?k (map fst avs)) = {}"
    using assms(1) by (intro set_take_disj_set_drop_if_distinct) simp_all
  then have "set (map fst avs) - set (map fst ?last) = set (take ?k (map fst avs))"
    unfolding split drop_map [symmetric] by blast
  then have "dom ns = set (take ?k (map fst avs))" using ns(2) l(3) by simp
  moreover have "list_visits fuel (l_head l) l = []" by (cases fuel) (simp_all add: iterator_differs_from_end_def)
  moreover have "chain_values 2 (l_head l) (l_nodes l) = Some (drop ?k (map snd avs))"
    using two_nodes_values [OF last(1,2,4)] by (simp add: drop_map)
  ultimately show ?thesis using l(1) ns(1) by blast
qed

theorem list_keeps_two_witness:
  "\<exists>l. push_all [(0x10, ''a''), (0x20, ''b''), (0x30, ''c'')] list_new = Some (Inr l) \<and>
     chain_values 2 (l_head l) (l_nodes l) = Some [''b'', ''c'']"
proof -
  let ?avs = "[(0x10, ''a''), (0x20, ''b''), (0x30, ''c'')] :: (u64 \<times> string) list"
  have "distinct (map fst ?avs)" "0 \<notin> set (map fst ?avs)" by simp_all
  from list_keeps_two [OF this, of 0] have "\<exists>l. push_all ?avs list_new = Some (Inr l) \<and>
      chain_values 2 (l_head l) (l_nodes l) = Some (drop (length ?avs - 2) (map snd ?avs))" by blast
  moreover have "drop (length ?avs - 2) (map snd ?avs) = [''b'', ''c'']" by simp
  ultimately show ?thesis by (simp only:)
qed

subsection \<open>small\_string\<close>

text \<open>The object lies at the address \<open>obj\<close>, its small buffer first; \<open>ss_big\<close> is the other member of the
  union. \<^verbatim>\<open>adt::string\<close> is \<^verbatim>\<open>small_string<0>\<close>, which its own assertion that \<open>N\<close> is
  at least the size of a pointer refuses.\<close>

record small_string =
  ss_big :: u64
  ss_count :: u32
  ss_is_small :: bool

definition ss_size :: "small_string \<Rightarrow> u32" where
  "ss_size s = ss_count s"

definition string_storage_small :: "u64 \<Rightarrow> u64 \<Rightarrow> u64 \<Rightarrow> bytes \<Rightarrow> small_string \<times> bytes" where
  "string_storage_small obj src n m = (\<lparr>ss_big = 0, ss_count = ucast n, ss_is_small = True\<rparr>, memcpy obj src (unat n) m)"

definition string_storage_big :: "u64 \<Rightarrow> u64 \<Rightarrow> u64 \<Rightarrow> bytes \<Rightarrow> small_string \<times> bytes" where
  "string_storage_big src buffer n m = (\<lparr>ss_big = buffer, ss_count = ucast n, ss_is_small = False\<rparr>, memcpy buffer src (unat n) m)"

definition ss_make :: "(u64 \<Rightarrow> u64 \<Rightarrow> 's \<Rightarrow> (u64 \<times> 's) res) \<Rightarrow> u64 \<Rightarrow> u64 \<Rightarrow> u64 \<Rightarrow> u64 \<Rightarrow> bytes \<Rightarrow> 's \<Rightarrow>
    (small_string option \<times> bytes \<times> 's) res" where
  "ss_make allocate N obj data n m s =
     (if n < N then let (str, m') = string_storage_small obj data n m in Inr (Some str, m', s)
      else rbind (alloc_array_of allocate 1 1 n s) (\<lambda>(d, s').
        if d = 0 then Inr (None, m, s')
        else let (str, m') = string_storage_big data d n m in Inr (Some str, m', s')))"

definition ss_data :: "u64 \<Rightarrow> small_string \<Rightarrow> u64" where
  "ss_data obj str = (if ss_is_small str then obj else ss_big str)"

text \<open>
  \<^verbatim>\<open>small_string::make\<close> copies its source: when it returns a string, the bytes where the string keeps
  its data are those of the source, the size is the length for lengths below \<open>2 ^ 32\<close>, a short string stays within the
  object's \<open>N\<close> bytes, and nothing but those bytes changes.
\<close>

theorem small_string_copies:
  assumes "ss_make allocate N obj src n m s = Inr (Some str, m', s')" "forward_ok (ss_data obj str) src (unat n)"
  shows "(\<forall>i < unat n. m' (ss_data obj str + of_nat i) = m (src + of_nat i)) \<and>
    (\<forall>x. \<not> unat (x - ss_data obj str) < unat n \<longrightarrow> m' x = m x) \<and>
    (unat n < 2 ^ 32 \<longrightarrow> unat (ss_size str) = unat n) \<and> (ss_is_small str \<longleftrightarrow> n < N)"
proof -
  have str: "m' = memcpy (ss_data obj str) src (unat n) m" "ss_count str = ucast n" "ss_is_small str \<longleftrightarrow> n < N"
    using assms(1) by (auto simp: ss_make_def ss_data_def string_storage_small_def string_storage_big_def Let_def
      rbind_eq_Inr_iff split: if_splits)
  have "unat n \<le> 2 ^ 64" by (rule less_imp_le) simp
  from memcpy_copies [OF assms(2) this] have m': "m' = copy_offsets (ss_data obj str) src {0..<unat n} m" using str(1) by simp
  have "unat (of_nat i :: u64) = i" if "i < unat n" for i
    using that unsigned_less [of n] by (intro unat_of_nat_u64) (rule order_less_trans, simp_all)
  then have "\<forall>i < unat n. m' (ss_data obj str + of_nat i) = m (src + of_nat i)" by (simp add: m' copy_offsets_def)
  moreover have "\<forall>x. \<not> unat (x - ss_data obj str) < unat n \<longrightarrow> m' x = m x" by (simp add: m' copy_offsets_def)
  moreover have "unat n < 2 ^ 32 \<longrightarrow> unat (ss_size str) = unat n" using str(2) by (simp add: ss_size_def unat_ucast_u32)
  ultimately show ?thesis using str(3) by blast
qed

theorem small_string_copies_witness:
  "\<exists>str m'. ss_make standard_allocate 8 0x9000 0x100 3 ((\<lambda>_. 0)(0x100 := 97, 0x101 := 98, 0x102 := 99)) sample_heap =
     Inr (Some str, m', sample_heap) \<and> m' 0x9001 = 98 \<and> ss_size str = 3"
proof -
  let ?m = "(\<lambda>_. 0)(0x100 := 97, 0x101 := 98, 0x102 := 99) :: bytes"
  obtain str m' where run: "ss_make standard_allocate 8 0x9000 0x100 3 ?m sample_heap = Inr (Some str, m', sample_heap)"
      and str: "ss_data 0x9000 str = 0x9000"
    by (simp add: ss_make_def string_storage_small_def ss_data_def)
  have "source_offset 0x9000 0x100 d \<ge> 3" if "d < 3" for d
  proof -
    have "d = 0 \<or> d = 1 \<or> d = 2" using that by arith
    then show ?thesis by (auto simp: source_offset_def)
  qed
  then have "forward_ok (ss_data 0x9000 str) 0x100 (unat (3 :: u64))"
    unfolding forward_ok_def str by (simp, intro allI impI) (metis not_less)
  note c = small_string_copies [OF run this]
  have "m' (0x9000 + of_nat 1) = ?m (0x100 + of_nat 1)" using conjunct1 [OF c, unfolded str] by (elim allE [of _ 1]) simp
  moreover have "unat (ss_size str) = 3" using c by simp
  then have "ss_size str = 3" by (simp add: word_unat_eq_iff)
  ultimately show ?thesis using run by simp
qed

subsection \<open>array and buffer\<close>

text \<open>An array of \<open>N\<close> elements is a list of that length; neither type checks an index.\<close>

definition array_make :: "nat \<Rightarrow> 'a \<Rightarrow> 'a list" where
  "array_make N elem = replicate N elem"

definition array_index :: "'a list \<Rightarrow> nat \<Rightarrow> 'a res" where
  "array_index a idx = (if idx < length a then Inr (a ! idx) else Inl (Undefined_behaviour ''index outside the array''))"

definition array_clear :: "'a \<Rightarrow> 'a list \<Rightarrow> 'a list" where
  "array_clear zero a = array_make (length a) zero"

definition array_size :: "'a list \<Rightarrow> nat" where
  "array_size a = length a"

record 'a buffer =
  buf_data :: "'a list option"
  buf_size :: nat

definition buffer_make :: "'a list option \<Rightarrow> nat \<Rightarrow> 'a buffer" where
  "buffer_make d n = \<lparr>buf_data = d, buf_size = n\<rparr>"

definition buffer_bool :: "'a buffer \<Rightarrow> bool" where
  "buffer_bool b \<longleftrightarrow> buf_data b \<noteq> None"

definition buffer_index :: "'a buffer \<Rightarrow> nat \<Rightarrow> 'a res" where
  "buffer_index b i = (case buf_data b of None \<Rightarrow> Inl (Undefined_behaviour ''null pointer dereference'')
     | Some d \<Rightarrow> array_index d i)"

lemma array_clear_index: "idx < length a \<Longrightarrow> array_index (array_clear d a) idx = Inr d"
  by (simp add: array_index_def array_clear_def array_make_def)

subsection \<open>Checked casts\<close>

datatype base_tag = Tag_A | Tag_B

datatype derived = DerivedA int | DerivedB int

fun tag_of :: "derived \<Rightarrow> base_tag" where
  "tag_of (DerivedA v) = Tag_A"
| "tag_of (DerivedB v) = Tag_B"

fun derived_val :: "derived \<Rightarrow> int" where
  "derived_val (DerivedA v) = v"
| "derived_val (DerivedB v) = v"

text \<open>\<open>to\<close> is the tag the target type's \<^verbatim>\<open>classof\<close> tests for.\<close>

definition isa :: "base_tag \<Rightarrow> derived \<Rightarrow> bool" where
  "isa to v \<longleftrightarrow> tag_of v = to"

definition try_cast :: "base_tag \<Rightarrow> derived \<Rightarrow> derived option" where
  "try_cast to v = (if isa to v then Some v else None)"

definition checked_cast :: "base_tag \<Rightarrow> derived \<Rightarrow> derived option res" where
  "checked_cast to v = rbind (assert_that (isa to v) ''not a valid cast!'') (\<lambda>_. Inr (if isa to v then Some v else None))"

definition foo :: int where
  "foo = (case try_cast Tag_A (DerivedA 1) of Some AA \<Rightarrow> derived_val AA
     | None \<Rightarrow> case try_cast Tag_B (DerivedB 2) of Some BB \<Rightarrow> derived_val BB | None \<Rightarrow> 1)"

lemma casts_agree: "checked_cast to v = Inr r \<Longrightarrow> r = try_cast to v \<and> r \<noteq> None"
  by (auto simp: checked_cast_def try_cast_def rbind_eq_Inr_iff)

lemma foo_value: "foo = 1"
  by (simp add: foo_def try_cast_def isa_def)

end
