(* ===== verification/Boot_Memory.thy ===== *)
theory Boot_Memory
  imports Memory_Init Heap
begin

text \<open>
  Bringing the memory up, end to end: \<^verbatim>\<open>paging::early_init\<close>,
  \<^verbatim>\<open>enable_kernel_page_protection\<close>, \<^verbatim>\<open>memory::finish_init\<close> and
  \<^verbatim>\<open>paging::finish_init\<close>, in the order of \<^verbatim>\<open>kmain\<close>, succeed with the eight static tables of the kernel
  image and leave the heap in the state the theorems of \<open>Heap\<close> start from.
\<close>

subsection \<open>The two windows of the initial tables\<close>

text \<open>The gigabyte at \<^verbatim>\<open>KERNEL_VMA_OFFSET\<close> and the low gigabyte have their tables of level 2;
  above the first two megabytes nothing is mapped in them.\<close>

definition boot_tables :: "paging_state \<Rightarrow> bool" where
  "boot_tables ps \<longleftrightarrow> pt_wf ps \<and>
     (\<forall>a b c d. a < 512 \<longrightarrow> b < 512 \<longrightarrow> (c, d) \<in> {(0x1FE, 0x1FF), (0, 0)} \<longrightarrow>
        lacking ps [a, b, c, d] \<le> 1 \<and> (0 < b \<longrightarrow> pte ps [a, b, c, d] = None))"

lemma early_init_walks:
  assumes "boot_ok s" "b < 512"
  shows "table_at (mem (paging_early_init s)) (kernel_pml4 (syms s)) [a, b, 0x1FE, 0x1FF] 2 = Some (kernel_pml2 (syms s))"
    "table_at (mem (paging_early_init s)) (kernel_pml4 (syms s)) [a, b, 0, 0] 2 = Some (identity_pml2 (syms s))"
    "0 < b \<Longrightarrow> mem (paging_early_init s) (slot (kernel_pml2 (syms s)) b) = 0"
    "0 < b \<Longrightarrow> mem (paging_early_init s) (slot (identity_pml2 (syms s)) b) = 0"
proof -
  let ?y = "syms s" and ?m = "mem (paging_early_init s)"
  have dist: "distinct (init_tables ?y)" "distinct (rev (init_tables ?y))"
    using assms(1) by (simp_all only: boot_ok_def distinct_append distinct_rev)
  have tabs: "kernel_pml4 ?y \<in> set (init_tables ?y)" "kernel_pml3 ?y \<in> set (init_tables ?y)"
    "kernel_pml2 ?y \<in> set (init_tables ?y)" "identity_pml3 ?y \<in> set (init_tables ?y)"
    "identity_pml2 ?y \<in> set (init_tables ?y)" by (simp_all add: init_tables_def)
  have e: "?m (slot (kernel_pml4 ?y) 0x1FF) = link_entry (kernel_pml3 ?y - KERNEL_VMA_OFFSET)"
    "?m (slot (kernel_pml3 ?y) 0x1FE) = link_entry (kernel_pml2 ?y - KERNEL_VMA_OFFSET)"
    "?m (slot (kernel_pml4 ?y) 0) = link_entry (identity_pml3 ?y - KERNEL_VMA_OFFSET)"
    "?m (slot (identity_pml3 ?y) 0) = link_entry (identity_pml2 ?y - KERNEL_VMA_OFFSET)"
    "0 < b \<Longrightarrow> ?m (slot (kernel_pml2 ?y) b) = 0" "0 < b \<Longrightarrow> ?m (slot (identity_pml2 ?y) b) = 0"
    using dist tabs assms(2) by (simp_all add: early_init_mem [OF assms(1)] init_tables_def Let_def)
  then show "0 < b \<Longrightarrow> ?m (slot (kernel_pml2 ?y) b) = 0" "0 < b \<Longrightarrow> ?m (slot (identity_pml2 ?y) b) = 0" by auto
  show "table_at ?m (kernel_pml4 ?y) [a, b, 0x1FE, 0x1FF] 2 = Some (kernel_pml2 ?y)"
    "table_at ?m (kernel_pml4 ?y) [a, b, 0, 0] 2 = Some (identity_pml2 ?y)"
    using e link_entry_of_table(1) [OF assms(1)] tabs by (simp_all add: numeral_2_eq_2 Let_def)
qed

lemma early_init_boot_tables:
  assumes "boot_ok s" shows "boot_tables (paging_early_init s)"
proof -
  have "lacking (paging_early_init s) [a, b, c, d] \<le> 1 \<and> (0 < b \<longrightarrow> pte (paging_early_init s) [a, b, c, d] = None)"
    if "b < 512" "(c, d) \<in> {(0x1FE, 0x1FF), (0, 0)}" for a b c d
  proof -
    note walk = early_init_walks [OF assms that(1)]
    have two: "table_at (mem (paging_early_init s)) (pt_base (paging_early_init s)) [a, b, c, d] 2 \<noteq> None"
      using that(2) walk(1,2) by auto
    have three: "(3 :: nat) = Suc 2" "3 - 2 = (1 :: nat)" by simp_all
    have "0 < b \<longrightarrow> table_at (mem (paging_early_init s)) (pt_base (paging_early_init s)) [a, b, c, d] 3 = None"
      using that(2) walk unfolding three(1) table_at.simps(2) by auto
    then show ?thesis using lacking_le [OF two] by (simp add: pte_table)
  qed
  then show ?thesis using early_init_wf [OF assms] by (auto simp: boot_tables_def)
qed

text \<open>The protection pass keeps the tables and what is not mapped.\<close>

definition protects :: "paging_state \<Rightarrow> paging_state \<Rightarrow> bool" where
  "protects s s' \<longleftrightarrow> pt_wf s' \<and> syms s' = syms s \<and> free_tables s' = free_tables s \<and> keeps_tables s s' \<and>
     (\<forall>q. valid_path q \<longrightarrow> pte s q = None \<longrightarrow> pte s' q = None)"

lemma protects_trans: "protects s1 s2 \<Longrightarrow> protects s2 s3 \<Longrightarrow> protects s1 s3"
  unfolding protects_def using keeps_tables_trans by auto

lemma protects_loop:
  assumes "entry_update f acc g" "pt_wf s" "section_ok a b" "pages_until f a b s = Some (Inr s')"
  shows "protects s s'"
proof -
  note e = section_end [OF assms(3)]
  have run: "pages_until f a (page_at a (section_pages a b)) s = Some (Inr s')" using assms(4) e(1) by simp
  have al: "aligned a" using assms(3) by (simp add: section_ok_def)
  show ?thesis using entry_update.pages_until_Inr [OF assms(1,2) al e(2) run] by (simp add: protects_def)
qed

lemma boot_tablesD:
  assumes "boot_tables s" "a < 512" "b < 512" "(c, d) \<in> {(0x1FE, 0x1FF), (0, 0)}"
  shows "lacking s [a, b, c, d] \<le> 1" "0 < b \<Longrightarrow> pte s [a, b, c, d] = None" "valid_path [a, b, c, d]"
proof -
  from assms(1) have "\<forall>a b c d. a < 512 \<longrightarrow> b < 512 \<longrightarrow> (c, d) \<in> {(0x1FE, 0x1FF), (0, 0)} \<longrightarrow>
      lacking s [a, b, c, d] \<le> 1 \<and> (0 < b \<longrightarrow> pte s [a, b, c, d] = None)"
    unfolding boot_tables_def by (rule conjunct2)
  from this [rule_format, OF assms(2-4)] show "lacking s [a, b, c, d] \<le> 1" "0 < b \<Longrightarrow> pte s [a, b, c, d] = None"
    by simp_all
  show "valid_path [a, b, c, d]" unfolding valid_path_digits using assms(2-4) by auto
qed

lemma protects_boot_tables:
  assumes "protects s s'" "boot_tables s"
  shows "boot_tables s'"
  unfolding boot_tables_def
proof (intro conjI allI impI)
  have p: "pt_wf s'" "keeps_tables s s'" "\<And>q. valid_path q \<Longrightarrow> pte s q = None \<Longrightarrow> pte s' q = None"
    using assms(1) by (simp_all add: protects_def)
  then show "pt_wf s'" by simp
  fix a b c d :: nat assume q: "a < 512" "b < 512" "(c, d) \<in> {(0x1FE, 0x1FF), (0, 0)}"
  note old = boot_tablesD [OF assms(2) q]
  from lacking_keeps [OF p(2) old(3)] old(1) show "lacking s' [a, b, c, d] \<le> 1" by (rule order_trans)
  assume "0 < b"
  then show "pte s' [a, b, c, d] = None" using p(3) old(2,3) by blast
qed

lemma protect_pages_protects:
  assumes wf: "pt_wf s" and run: "protect_kernel_pages kernel_stack_base s = Some (Inr s')"
    and ok: "\<forall>(a, b) \<in> set (kernel_sections (syms s)). section_ok a b" "aligned kernel_stack_base"
  shows "protects s s'"
proof -
  let ?y = "syms s" and ?top = "kernel_stack_base - KERNEL_STACK_SIZE"
  let ?g = "kernel_stack_base - KERNEL_STACK_SIZE - PAGE_SIZE"
  from run obtain s1 s2 s3 s4 s6 where
    s1: "pages_until protect_text (text_start ?y) (text_end ?y) s = Some (Inr s1)" and
    s2: "pages_until protect_rodata (rodata_start ?y) (rodata_end ?y) s1 = Some (Inr s2)" and
    s3: "pages_until protect_data (data_start ?y) (data_end ?y) s2 = Some (Inr s3)" and
    s4: "pages_until protect_bss (bss_start ?y) (bss_end ?y) s3 = Some (Inr s4)" and
    s6: "pages_until protect_stack ?top kernel_stack_base s4 = Some (Inr s6)" and
    s7: "protect_guard ?g s6 = Inr s'"
    unfolding protect_kernel_pages_def Let_def then_pages_Some_Inr
    by (auto simp: rbind_eq_Inr_iff dest!: lookups_ok_state)
  have sec: "section_ok (text_start ?y) (text_end ?y)" "section_ok (rodata_start ?y) (rodata_end ?y)"
      "section_ok (data_start ?y) (data_end ?y)" "section_ok (bss_start ?y) (bss_end ?y)"
    using ok(1) by (auto simp: kernel_sections_def)
  note stack = KERNEL_STACK_section [OF ok(2)]
  note p1 = protects_loop [OF text_pages.entry_update_axioms wf sec(1) s1]
  have w1: "pt_wf s1" using p1 by (simp add: protects_def)
  note p2 = protects_trans [OF p1 protects_loop [OF rodata_pages.entry_update_axioms w1 sec(2) s2]]
  have w2: "pt_wf s2" using p2 by (simp add: protects_def)
  note p3 = protects_trans [OF p2 protects_loop [OF data_pages.entry_update_axioms w2 sec(3) s3]]
  have w3: "pt_wf s3" using p3 by (simp add: protects_def)
  note p4 = protects_trans [OF p3 protects_loop [OF bss_pages.entry_update_axioms w3 sec(4) s4]]
  have w4: "pt_wf s4" using p4 by (simp add: protects_def)
  note p6 = protects_trans [OF p4 protects_loop [OF stack_pages.entry_update_axioms w4 stack(1) s6]]
  have w6: "pt_wf s6" using p6 by (simp add: protects_def)
  have "present_entry (pte s6 (path_of ?g))" using guard_page.fails [OF w6 stack(2)] s7 by auto
  from guard_page.succeeds [OF w6 stack(2) this] s7 have "protects s6 s'" by (auto simp: protects_def)
  then show ?thesis by (rule protects_trans [OF p6])
qed

subsection \<open>Identity mapping in the kernel's gigabyte\<close>

lemma unat_kernel: "x < 2 ^ 31 \<Longrightarrow> unat (KERNEL_VMA_OFFSET + of_nat x) = 0xFFFFFFFF80000000 + x"
  by (simp add: KERNEL_VMA_OFFSET_def unat_add_u64 unat_of_nat)

lemma path_of_window:
  assumes "x < 2 ^ 30"
  shows "path_of (KERNEL_VMA_OFFSET + of_nat x) = [x div 4096 mod 512, x div 2097152, 0x1FE, 0x1FF]"
    "path_of (of_nat x) = [x div 4096 mod 512, x div 2097152, 0, 0]"
    "path_number (path_of (KERNEL_VMA_OFFSET + of_nat x)) = 0xFFFF80000 + x div 4096"
proof -
  have u: "unat (KERNEL_VMA_OFFSET + of_nat x) = 0xFFFFFFFF80000000 + x" "unat (of_nat x :: u64) = x"
    using assms by (simp_all add: unat_kernel unat_of_nat)
  have b: "x div 2097152 < 512" "x div 4096 < 2 ^ 18" using assms by (simp_all add: less_mult_imp_div_less)
  have d: "(0xFFFFFFFF80000000 + x) div 4096 = 0xFFFFFFFF80000 + x div 4096"
    "(0xFFFFFFFF80000000 + x) div 2097152 = 0x7FFFFFFFC00 + x div 2097152"
    "(0xFFFFFFFF80000000 + x) div 1073741824 = 0x3FFFFFFFE"
    "(0xFFFFFFFF80000000 + x) div 549755813888 = 0x1FFFFFF"
    using assms by auto
  have m: "(0xFFFFFFFF80000 + y) mod 512 = y mod 512" "(0x7FFFFFFFC00 + y) mod 512 = y mod 512" for y :: nat
    by (simp_all add: mod_add_eq [of "0xFFFFFFFF80000" 512, symmetric] mod_add_eq [of "0x7FFFFFFFC00" 512, symmetric])
  show "path_of (KERNEL_VMA_OFFSET + of_nat x) = [x div 4096 mod 512, x div 2097152, 0x1FE, 0x1FF]"
    unfolding path_of_digits u d m using b by simp
  show "path_of (of_nat x) = [x div 4096 mod 512, x div 2097152, 0, 0]"
    unfolding path_of_digits u using assms b by simp
  have eq: "0xFFFFFFFF80000 + x div 4096 = (0xFFFF80000 + x div 4096) + 65535 * 2 ^ 36" by simp
  have "(0xFFFFFFFF80000 + x div 4096) mod 2 ^ 36 = (0xFFFF80000 + x div 4096) mod 2 ^ 36"
    unfolding eq by (rule mod_mult_self1)
  then show "path_number (path_of (KERNEL_VMA_OFFSET + of_nat x)) = 0xFFFF80000 + x div 4096"
    unfolding path_number_of u d using b by simp
qed

lemma sign_extend_kernel:
  assumes "x < 2 ^ 31" shows "sign_extend (KERNEL_VMA_OFFSET + of_nat x) 42 = KERNEL_VMA_OFFSET + of_nat x"
proof -
  let ?w = "KERNEL_VMA_OFFSET + of_nat x"
  have "unat (drop_bit 31 ?w) = (0xFFFFFFFF80000000 + x) div 2 ^ 31"
    using assms by (simp add: drop_bit_eq_div unat_div unat_kernel)
  then have "unat (drop_bit 31 ?w) = 0x1FFFFFFFF" using assms by simp
  then have top: "drop_bit 31 ?w = mask 33" by (intro unsigned_word_eqI) (simp add: mask_eq_exp_minus_1)
  have high: "bit ?w j" if "31 \<le> j" "j < 64" for j
  proof -
    have "bit ?w j = bit (drop_bit 31 ?w) (j - 31)" using that by (simp add: bit_drop_bit_eq)
    also have "\<dots>" unfolding top bit_mask_iff possible_bit_word using that by auto
    finally show ?thesis .
  qed
  show ?thesis by (rule bit_eqI) (simp add: bit_sign_extend high possible_bit_word)
qed

text \<open>Mapping \<open>n\<close> pages at the physical address \<open>x\<close> to the same place in the gigabyte takes a
  table for the first page and one at each boundary between level-1 tables.\<close>

lemma kernel_range_paths:
  assumes "x mod 4096 = 0" "x + 4096 * n \<le> 2 ^ 30" "valid_path q" "in_range (0xFFFF80000 + x div 4096) n q"
  obtains k where "k < n" "q = path_of (KERNEL_VMA_OFFSET + of_nat (x + 4096 * k))"
proof -
  obtain k where k: "path_number q = 0xFFFF80000 + x div 4096 + k" "k < n"
    using assms(4) by (auto simp: in_range_def le_iff_add)
  have lt: "x + 4096 * k < 2 ^ 30" using k(2) assms(2) by simp
  have "(x + 4096 * k) div 4096 = x div 4096 + k" by simp
  then have "path_number q = path_number (path_of (KERNEL_VMA_OFFSET + of_nat (x + 4096 * k)))"
    using path_of_window(3) [OF lt] k(1) by simp
  from path_number_inj [OF assms(3) valid_path_of this] k(2) show ?thesis by (rule that [rotated])
qed

definition kernel_tables :: "paging_state \<Rightarrow> bool" where
  "kernel_tables ps \<longleftrightarrow> pt_wf ps \<and> (\<forall>a b. a < 512 \<longrightarrow> b < 512 \<longrightarrow> lacking ps [a, b, 0x1FE, 0x1FF] \<le> 1)"

lemma boot_kernel_tables: "boot_tables ps \<Longrightarrow> kernel_tables ps"
  unfolding kernel_tables_def
proof (intro conjI allI impI)
  assume boot: "boot_tables ps"
  then show "pt_wf ps" by (simp add: boot_tables_def)
  fix a b :: nat assume "a < 512" "b < 512"
  then show "lacking ps [a, b, 0x1FE, 0x1FF] \<le> 1" by (rule boot_tablesD(1) [OF boot]) simp
qed

lemma kernel_tables_keeps:
  assumes "kernel_tables ps" "keeps_tables ps ps'" "pt_wf ps'" shows "kernel_tables ps'"
  unfolding kernel_tables_def
proof (intro conjI allI impI)
  fix a b :: nat assume "a < 512" "b < 512"
  then have "valid_path [a, b, 0x1FE, 0x1FF]" "lacking ps [a, b, 0x1FE, 0x1FF] \<le> 1"
    using assms(1) by (simp_all add: valid_path_digits kernel_tables_def)
  then show "lacking ps' [a, b, 0x1FE, 0x1FF] \<le> 1" using lacking_keeps [OF assms(2)] order_trans by blast
qed (rule assms(3))

lemma identity_map_runs:
  assumes tabs: "kernel_tables ps" and x: "x mod 4096 = 0" "x + 4096 * Suc n \<le> 2 ^ 30" "0 < n"
    and none: "\<And>k. k < n \<Longrightarrow> translation ps (path_of (KERNEL_VMA_OFFSET + of_nat (x + 4096 * k))) = None"
    and free: "1 + crossings (0xFFFF80000 + x div 4096) n \<le> length (free_tables ps)"
  shows "\<exists>ps'. identity_map_pages_into_kernel_space (of_nat x) (of_nat n) attrs ps = Inr (KERNEL_VMA_OFFSET + of_nat x, ps') \<and>
    kernel_tables ps' \<and> keeps_tables ps ps' \<and>
    length (free_tables ps) \<le> length (free_tables ps') + (1 + crossings (0xFFFF80000 + x div 4096) n) \<and>
    (\<forall>q. valid_path q \<longrightarrow> translation ps' q = (if in_range (0xFFFF80000 + x div 4096) n q
       then Some (range_entry (of_nat x) (0xFFFF80000 + x div 4096) attrs q) else translation ps q))"
proof -
  let ?v = "KERNEL_VMA_OFFSET + of_nat x" and ?N = "0xFFFF80000 + x div 4096"
  have lt: "x < 2 ^ 30" using x(2) by simp
  note N = path_of_window(3) [OF lt]
  have wf: "pt_wf ps" using tabs by (simp add: kernel_tables_def)
  have al: "aligned (of_nat x)" using x(1) lt by (simp add: aligned_unat unat_of_nat)
  have av: "aligned ?v"
  proof -
    have "aligned KERNEL_VMA_OFFSET" by (simp add: aligned_def KERNEL_VMA_OFFSET_def)
    then show ?thesis using al by (rule aligned_add)
  qed
  have at: "page_at ?v k = KERNEL_VMA_OFFSET + of_nat (x + 4096 * k)" for k by (simp add: page_at_def PAGE_SIZE_def)
  have top: "path_number (path_of ?v) + n < 2 ^ 36"
  proof -
    have "4096 * (x div 4096) = x" using x(1) by auto
    then show ?thesis unfolding N using x(2) by simp
  qed
  have canon: "\<forall>k < n. sign_extend (page_at ?v k) 42 = page_at ?v k"
  proof (intro allI impI)
    fix k assume "k < n"
    then have "x + 4096 * k < 2 ^ 31" using x(2) by simp
    then show "sign_extend (page_at ?v k) 42 = page_at ?v k" unfolding at by (rule sign_extend_kernel)
  qed
  have unmapped: "\<forall>q. valid_path q \<longrightarrow> in_range (path_number (path_of ?v)) n q \<longrightarrow> translation ps q = None"
  proof (intro allI impI)
    fix q assume q: "valid_path q" "in_range (path_number (path_of ?v)) n q"
    have le: "x + 4096 * n \<le> 2 ^ 30" using x(2) by simp
    from kernel_range_paths [OF x(1) le q(1) q(2) [unfolded N]] show "translation ps q = None" using none by metis
  qed
  have lack: "\<forall>q. valid_path q \<longrightarrow> in_range (path_number (path_of ?v)) (Suc n) q \<longrightarrow> lacking ps q \<le> 1"
  proof (intro allI impI)
    fix q assume q: "valid_path q" "in_range (path_number (path_of ?v)) (Suc n) q"
    from kernel_range_paths [OF x(1,2) q(1) q(2) [unfolded N]] obtain k where
      k: "k < Suc n" "q = path_of (KERNEL_VMA_OFFSET + of_nat (x + 4096 * k))" .
    have "x + 4096 * k < 2 ^ 30" using k(1) x(2) by simp
    from path_of_window(1) [OF this] have "q = [(x + 4096 * k) div 4096 mod 512, (x + 4096 * k) div 2097152, 0x1FE, 0x1FF]"
      using k(2) by simp
    moreover have "(x + 4096 * k) div 2097152 < 512" using \<open>x + 4096 * k < 2 ^ 30\<close> by (simp add: less_mult_imp_div_less)
    ultimately show "lacking ps q \<le> 1" using tabs by (simp add: kernel_tables_def)
  qed
  have small: "unat (of_nat x :: u64) + 4096 * n < 2 ^ 64" using lt x(2) by (simp add: unat_of_nat)
  obtain ps' where ps': "map_range (of_nat x) (of_nat x + of_nat n * PAGE_SIZE) ?v (?v + of_nat n * PAGE_SIZE) attrs ps = Inr (?v, ps')"
      "pt_wf ps'" "keeps_tables ps ps'" "length (free_tables ps) \<le> length (free_tables ps') + (1 + 1 * crossings ?N n)"
      "\<And>q. valid_path q \<Longrightarrow> translation ps' q = (if in_range ?N n q then Some (range_entry (of_nat x) ?N attrs q) else translation ps q)"
    using map_range_maps [OF wf al av refl small top canon unmapped lack, of attrs] free N by auto
  have un: "unat (of_nat n * PAGE_SIZE) = 4096 * n" using x(2) by (simp add: PAGE_SIZE_def unat_word_ariths unat_of_nat)
  then have "align_to (of_nat n * PAGE_SIZE) PAGE_SIZE = of_nat n * PAGE_SIZE" using x(2) by (intro align_to_page) simp_all
  moreover have "(of_nat n :: u64) > 0" using x(2,3) by (simp add: word_less_nat_alt unat_of_nat)
  ultimately have "identity_map_pages_into_kernel_space (of_nat x) (of_nat n) attrs ps = Inr (?v, ps')"
    using ps'(1) by (simp add: identity_map_pages_into_kernel_space_def identity_map_page_range_into_kernel_space_def
      map_range_size_def Let_def add.commute add.left_commute)
  then show ?thesis using ps' kernel_tables_keeps [OF tabs ps'(3,2)] by auto
qed

subsection \<open>The free list after \<open>vma::init\<close>\<close>

definition booted_nodes :: "u64 \<Rightarrow> free_node list \<Rightarrow> free_node list" where
  "booted_nodes v ns = (initial_nodes ns)[
     2 := \<lparr>node_base = 0xFFFFFFFF80200000, node_size = v - 0xFFFFFFFF80200000, node_next = Some 3\<rparr>,
     3 := \<lparr>node_base = v + 0x1000, node_size = - (v + 0x1000), node_next = None\<rparr>]"

lemma remove_initial:
  assumes v: "unat v = 0xFFFFFFFF80000000 + x" "0x200000 < x" "x + 0x1000 < 2 ^ 31"
    and s: "length (nodes s) = NODES_PER_PAGE" "virtual_free_list s \<noteq> 0" "max_free_list_size s = NODES_PER_PAGE"
  shows "remove_from_free_list v PAGE_SIZE (s\<lparr>nodes := initial_nodes (nodes s), free_list_size := 2\<rparr>) =
    Inr (s\<lparr>nodes := booted_nodes v (nodes s), free_list_size := 3\<rparr>)"
proof -
  let ?s = "s\<lparr>nodes := initial_nodes (nodes s), free_list_size := 2\<rparr>"
  have len: "3 < length (nodes s)" "2 < length (nodes s)" "0 < length (nodes s)" "1 < length (nodes s)" "Suc 0 < length (nodes s)"
      "nodes s \<noteq> []" using s(1) by (auto simp: NODES_PER_PAGE_def)
  have n: "initial_nodes (nodes s) ! 0 = \<lparr>node_base = 0x200000, node_size = 0x3FFFFE00000, node_next = Some 1\<rparr>"
      "initial_nodes (nodes s) ! Suc 0 = \<lparr>node_base = 0xFFFFFC0000000000, node_size = 0x3FF80100000, node_next = Some 2\<rparr>"
      "initial_nodes (nodes s) ! 2 = \<lparr>node_base = 0xFFFFFFFF80200000, node_size = 0x7FE00000, node_next = None\<rparr>"
      "length (initial_nodes (nodes s)) = length (nodes s)"
    using len by (simp_all add: initial_nodes_def)
  have walk: "walk_list ?s = Inr [0, 1, 2]" by (rule list_ok_walk [OF initial_list_ok(1) [OF s]])
  have e: "unat (v + 0xFFF) = 0xFFFFFFFF80000FFF + x" "unat (v - 1) = 0xFFFFFFFF7FFFFFFF + x"
    using v by (simp_all add: unat_add_u64 unat_sub word_le_nat_alt)
  have c: "\<not> v + 0xFFF \<le> 0x3FFFFFFFFFF" "\<not> v + 0xFFF \<le> 0xFFFFFFFF800FFFFF" "0xFFFFFFFF80200000 \<le> v"
      "v + 0xFFF \<noteq> 0x3FFFFFFFFFF" "v + 0xFFF \<noteq> 0xFFFFFFFF800FFFFF" "v + 0xFFF \<noteq> v - 1" "v \<noteq> 0xFFFFFFFF80200000"
      "v - 1 \<noteq> 0xFFFFFFFFFFFFFFFF"
    using e v by (auto simp: word_le_nat_alt word_unat_eq_iff)
  have top: "v + 0xFFF \<le> 0xFFFFFFFFFFFFFFFF" using e(1) v(3) by (simp add: word_le_nat_alt)
  have p: "align_to PAGE_SIZE PAGE_SIZE = 0x1000" "v + 0x1000 - 1 = v + 0xFFF" by (simp_all add: align_to_def PAGE_SIZE_def)
  have contains: "containing_node (initial_nodes (nodes s)) v 0x1000 [0, 1, 2] = Some 2"
    using c top by (simp add: n Let_def p(2))
  have eq: "v + 0xFFF + 1 = v + 0x1000" "0xFFFFFFFFFFFFFFFF - (v + 0xFFF) = - (v + 0x1000)" by simp_all
  let ?n2 = "\<lparr>node_base = 0xFFFFFFFF80200000, node_size = v - 0xFFFFFFFF80200000, node_next = None\<rparr>"
  let ?ns = "(initial_nodes (nodes s))[2 := ?n2]"
  have ns: "?ns ! 0 = initial_nodes (nodes s) ! 0" "?ns ! Suc 0 = initial_nodes (nodes s) ! Suc 0" "?ns ! 2 = ?n2"
    using len by (simp_all add: n(4))
  have chain: "is_chain ?ns (Some 0) [0, 1, 2]" using len by (simp add: ns n)
  have walk2: "walk_list (s\<lparr>nodes := ?ns, free_list_size := 2\<rparr>) = Inr [0, 1, 2]"
    using chain_is_chain [OF chain] s(2) by (simp add: walk_list_def list_head_def)
  have merge: "merge_scan ?ns (v + 0x1000) (- (v + 0x1000)) [0, 1, 2] None = Inr None"
    using c by (simp add: ns n Let_def)
  have add: "add_node_to_free_list (v + 0x1000) (- (v + 0x1000)) (s\<lparr>nodes := ?ns, free_list_size := 2\<rparr>) =
      Inr (s\<lparr>nodes := booted_nodes v (nodes s), free_list_size := 3\<rparr>)"
  proof -
    have f: "nodes (s\<lparr>nodes := ?ns, free_list_size := 2\<rparr>) = ?ns" by simp
    show ?thesis
      unfolding add_node_to_free_list_def walk2 rbind_Inr f merge sum.case option.case Let_def
      using len s(3) by (simp add: set_node_def booted_nodes_def NODES_PER_PAGE_def n(4))
  qed
  have cut: "set_node 2 ((nodes ?s ! 2)\<lparr>node_size := v - node_base (nodes ?s ! 2)\<rparr>) ?s = s\<lparr>nodes := ?ns, free_list_size := 2\<rparr>"
    by (simp add: set_node_def n)
  have ends: "node_base (nodes ?s ! 2) + node_size (nodes ?s ! 2) - 1 - (v + 0x1000 - 1) = - (v + 0x1000)"
    "v + 0x1000 - 1 + 1 = v + 0x1000" by (simp_all add: n)
  have nds: "nodes ?s = initial_nodes (nodes s)" "virtual_free_list ?s \<noteq> 0" using s(2) by simp_all
  have "remove_from_free_list v PAGE_SIZE ?s = add_node_to_free_list (v + 0x1000 - 1 + 1)
      (node_base (nodes ?s ! 2) + node_size (nodes ?s ! 2) - 1 - (v + 0x1000 - 1))
      (set_node 2 ((nodes ?s ! 2)\<lparr>node_size := v - node_base (nodes ?s ! 2)\<rparr>) ?s)"
    unfolding remove_from_free_list_def Let_def p(1) walk rbind_Inr nds(1) contains option.case
    by (simp only: nds(2) not_False_eq_True assert_that_True rbind_Inr)
  then show ?thesis unfolding ends cut add .
qed

text \<open>The list is well-formed, its nodes start at page boundaries, and it lacks exactly the page
  that holds it.\<close>

text \<open>The page of the list splits the third node of the initial list.\<close>

lemma kernel_window_split:
  assumes v: "unat v = 0xFFFFFFFF80000000 + x" "0x200000 < x" "x + 0x1000 < 2 ^ 31"
  shows "area 0xFFFFFFFF80200000 0x7FE00000 = area 0xFFFFFFFF80200000 (v - 0xFFFFFFFF80200000) \<union>
      (area v 0x1000 \<union> area (v + 0x1000) (- (v + 0x1000)))"
    "area 0xFFFFFFFF80200000 (v - 0xFFFFFFFF80200000) \<inter> (area v 0x1000 \<union> area (v + 0x1000) (- (v + 0x1000))) = {}"
    "area v 0x1000 \<inter> area (v + 0x1000) (- (v + 0x1000)) = {}"
proof -
  have b: "(0x7FE00000 :: u64) \<noteq> 0" "unat (0xFFFFFFFF80200000 :: u64) + unat (0x7FE00000 :: u64) \<le> 2 ^ 64"
    "(0x1000 :: u64) \<noteq> 0" "unat v + unat (0x1000 :: u64) \<le> 2 ^ 64" "0xFFFFFFFF80200000 \<le> v"
    using v by (simp_all add: word_le_nat_alt)
  have l: "v + 0x1000 - 1 \<le> 0xFFFFFFFF80200000 + 0x7FE00000 - 1"
    using unat_last_byte [of "0x1000" v] v by (simp add: word_le_nat_alt)
  have tail: "0xFFFFFFFF80200000 + 0x7FE00000 - (v + 0x1000) = - (v + 0x1000)" by simp
  show "area 0xFFFFFFFF80200000 0x7FE00000 = area 0xFFFFFFFF80200000 (v - 0xFFFFFFFF80200000) \<union>
      (area v 0x1000 \<union> area (v + 0x1000) (- (v + 0x1000)))"
    "area 0xFFFFFFFF80200000 (v - 0xFFFFFFFF80200000) \<inter> (area v 0x1000 \<union> area (v + 0x1000) (- (v + 0x1000))) = {}"
    "area v 0x1000 \<inter> area (v + 0x1000) (- (v + 0x1000)) = {}"
    by (rule area_inside [OF b l, unfolded tail])+
qed

lemma booted_nodes_nth:
  assumes "length ns = NODES_PER_PAGE"
  shows "booted_nodes v ns ! 0 = \<lparr>node_base = 0x200000, node_size = 0x3FFFFE00000, node_next = Some 1\<rparr>"
    "booted_nodes v ns ! 1 = \<lparr>node_base = 0xFFFFFC0000000000, node_size = 0x3FF80100000, node_next = Some 2\<rparr>"
    "booted_nodes v ns ! 2 = \<lparr>node_base = 0xFFFFFFFF80200000, node_size = v - 0xFFFFFFFF80200000, node_next = Some 3\<rparr>"
    "booted_nodes v ns ! 3 = \<lparr>node_base = v + 0x1000, node_size = - (v + 0x1000), node_next = None\<rparr>"
    "length (booted_nodes v ns) = NODES_PER_PAGE"
    "node_area (booted_nodes v ns) 0 = area 0x200000 0x3FFFFE00000"
    "node_area (booted_nodes v ns) 1 = area 0xFFFFFC0000000000 0x3FF80100000"
    "node_area (booted_nodes v ns) 2 = area 0xFFFFFFFF80200000 (v - 0xFFFFFFFF80200000)"
    "node_area (booted_nodes v ns) 3 = area (v + 0x1000) (- (v + 0x1000))"
proof -
  have len: "3 < length ns" "2 < length ns" "0 < length ns" "1 < length ns" "Suc 0 < length ns" "ns \<noteq> []"
    using assms by (auto simp: NODES_PER_PAGE_def)
  show n: "booted_nodes v ns ! 0 = \<lparr>node_base = 0x200000, node_size = 0x3FFFFE00000, node_next = Some 1\<rparr>"
    "booted_nodes v ns ! 1 = \<lparr>node_base = 0xFFFFFC0000000000, node_size = 0x3FF80100000, node_next = Some 2\<rparr>"
    "booted_nodes v ns ! 2 = \<lparr>node_base = 0xFFFFFFFF80200000, node_size = v - 0xFFFFFFFF80200000, node_next = Some 3\<rparr>"
    "booted_nodes v ns ! 3 = \<lparr>node_base = v + 0x1000, node_size = - (v + 0x1000), node_next = None\<rparr>"
    "length (booted_nodes v ns) = NODES_PER_PAGE"
    using len assms by (simp_all add: booted_nodes_def initial_nodes_def)
  show "node_area (booted_nodes v ns) 0 = area 0x200000 0x3FFFFE00000"
    "node_area (booted_nodes v ns) 1 = area 0xFFFFFC0000000000 0x3FF80100000"
    "node_area (booted_nodes v ns) 2 = area 0xFFFFFFFF80200000 (v - 0xFFFFFFFF80200000)"
    "node_area (booted_nodes v ns) 3 = area (v + 0x1000) (- (v + 0x1000))"
    by (simp_all add: node_area_def n del: One_nat_def)
qed

lemma booted_areas:
  assumes v: "unat v = 0xFFFFFFFF80000000 + x" "0x200000 < x" "x + 0x1000 < 2 ^ 31" and len: "length ns = NODES_PER_PAGE"
  shows "free_of (booted_nodes v ns) [0, 1, 2, 3] = initial_free - area v 0x1000"
    "i \<in> set [0, 1, 2, 3] \<Longrightarrow> j \<in> set [0, 1, 2, 3] \<Longrightarrow> i \<noteq> j \<Longrightarrow> node_area (booted_nodes v ns) i \<inter> node_area (booted_nodes v ns) j = {}"
proof -
  let ?ns = "booted_nodes v ns"
  note w = kernel_window_split [OF v] and d = initial_gaps and na = booted_nodes_nth(6-9) [OF len, of v]
  have v3: "area v 0x1000 \<subseteq> area 0xFFFFFFFF80200000 0x7FE00000" unfolding w(1) by blast
  have parts: "area 0xFFFFFFFF80200000 (v - 0xFFFFFFFF80200000) \<subseteq> area 0xFFFFFFFF80200000 0x7FE00000"
    "area (v + 0x1000) (- (v + 0x1000)) \<subseteq> area 0xFFFFFFFF80200000 0x7FE00000" unfolding w(1) by blast+
  have "free_of ?ns [0, 1, 2, 3] = area 0x200000 0x3FFFFE00000 \<union> area 0xFFFFFC0000000000 0x3FF80100000 \<union>
      (area 0xFFFFFFFF80200000 (v - 0xFFFFFFFF80200000) \<union> area (v + 0x1000) (- (v + 0x1000)))"
    by (simp add: free_of_def na Un_assoc del: One_nat_def)
  also have "\<dots> = initial_free - area v 0x1000"
    unfolding initial_free_def w(1) using d(2,3) v3 w(2,3) by blast
  finally show "free_of ?ns [0, 1, 2, 3] = initial_free - area v 0x1000" .
  have six: "node_area ?ns 0 \<inter> node_area ?ns 1 = {}" "node_area ?ns 0 \<inter> node_area ?ns 2 = {}"
      "node_area ?ns 0 \<inter> node_area ?ns 3 = {}" "node_area ?ns 1 \<inter> node_area ?ns 2 = {}"
      "node_area ?ns 1 \<inter> node_area ?ns 3 = {}" "node_area ?ns 2 \<inter> node_area ?ns 3 = {}"
    unfolding na using d parts w(2) by blast+
  assume ij: "i \<in> set [0, 1, 2, 3]" "j \<in> set [0, 1, 2, 3]" "i \<noteq> j"
  then have "i = 0 \<or> i = 1 \<or> i = 2 \<or> i = 3" "j = 0 \<or> j = 1 \<or> j = 2 \<or> j = 3" by simp_all
  then show "node_area ?ns i \<inter> node_area ?ns j = {}"
    using six ij(3) by (elim disjE) (simp_all add: Int_commute del: One_nat_def)
qed

lemma booted_list_ok:
  assumes v: "unat v = 0xFFFFFFFF80000000 + x" "0x200000 < x" "x + 0x1000 < 2 ^ 31" "x mod 4096 = 0"
    and s: "length (nodes s) = NODES_PER_PAGE" "virtual_free_list s \<noteq> 0" "max_free_list_size s = NODES_PER_PAGE"
  shows "list_ok (s\<lparr>nodes := booted_nodes v (nodes s), free_list_size := 3\<rparr>) [0, 1, 2, 3]"
    "\<forall>i \<in> {0, 1, 2, 3}. aligned (node_base (booted_nodes v (nodes s) ! i))"
proof -
  let ?ns = "booted_nodes v (nodes s)"
  note n = booted_nodes_nth [OF s(1), of v]
  have len: "3 < NODES_PER_PAGE" "2 < NODES_PER_PAGE" "1 < NODES_PER_PAGE" "0 < NODES_PER_PAGE" by (simp_all add: NODES_PER_PAGE_def)
  have chain: "is_chain ?ns (Some 0) [0, 1, 2, 3]" using len by (simp add: n del: One_nat_def)
  show "list_ok (s\<lparr>nodes := ?ns, free_list_size := 3\<rparr>) [0, 1, 2, 3]"
    unfolding list_ok_def using s chain booted_areas(2) [OF v(1-3) s(1)]
    by (simp add: n(5) NODES_PER_PAGE_def del: One_nat_def is_chain.simps)
  have u: "unat (v + 0x1000) = 0xFFFFFFFF80001000 + x" using v by (simp add: unat_add_u64)
  have "4096 dvd (0xFFFFFFFF80001000 :: nat)" by simp
  then have "4096 dvd 0xFFFFFFFF80001000 + x" using v(4) by (intro dvd_add) (auto simp: mod_eq_0_iff_dvd)
  then have "aligned (v + 0x1000)" unfolding aligned_unat u by (simp only: mod_eq_0_iff_dvd)
  moreover have "aligned 0x200000" "aligned 0xFFFFFC0000000000" "aligned 0xFFFFFFFF80200000" by (simp_all add: aligned_def)
  ultimately show "\<forall>i \<in> {0, 1, 2, 3}. aligned (node_base (?ns ! i))" by (simp add: n del: One_nat_def)
qed

subsection \<open>The physical page allocator\<close>

text \<open>The region the allocator takes: page-aligned, above the kernel's two megabytes, at least 64
  KiB long and inside the first gigabyte.\<close>

definition region_ok :: "memory_map_entry \<Rightarrow> bool" where
  "region_ok e \<longleftrightarrow> unat (entry_base e) mod 4096 = 0 \<and> 0x200000 \<le> unat (entry_base e) \<and> 0x10000 \<le> unat (entry_length e) \<and>
     unat (entry_base e) + unat (entry_length e) \<le> 2 ^ 30"

definition map_pages :: "memory_map_entry \<Rightarrow> nat" where
  "map_pages e = unat (div_ceil (size_required (entry_length e div PAGE_SIZE)) PAGE_SIZE)"

lemma map_pages_bounds:
  assumes "region_ok e" shows "0 < map_pages e" "map_pages e \<le> 8"
proof -
  let ?m = "entry_length e div PAGE_SIZE"
  have L: "0x10000 \<le> unat (entry_length e)" "unat (entry_length e) \<le> 2 ^ 30" using assms by (simp_all add: region_ok_def)
  have m: "unat ?m \<le> 2 ^ 18" "16 \<le> unat ?m"
    using L div_le_mono [of "unat (entry_length e)" "2 ^ 30" 4096] div_le_mono [of "0x10000" "unat (entry_length e)" 4096]
    by (simp_all add: unat_div_PAGE_SIZE)
  have c: "unat ?m \<le> unat (div_ceil ?m 64) * 64" "unat (div_ceil ?m 64) * 64 < unat ?m + 64"
    using div_ceil_covers [of 64 ?m] by simp_all
  then have "unat (size_required ?m) = unat (div_ceil ?m 64) * 8"
    using m unfolding size_required_def by (subst unat_mult_u64) simp_all
  then have "0 < unat (size_required ?m)" "unat (size_required ?m) \<le> 2 ^ 15" using c m by simp_all
  then show "0 < map_pages e" "map_pages e \<le> 8"
    using div_ceil_covers [of PAGE_SIZE "size_required ?m"] by (auto simp: PAGE_SIZE_def map_pages_def)
qed

text \<open>The pages mapped for the page map hold its limbs; they hold the eight bytes before the limbs too
  unless the limbs fill them.\<close>

definition map_fits :: "memory_map_entry \<Rightarrow> bool" where
  "map_fits e \<longleftrightarrow> bm_bytes (bm_make (entry_length e div PAGE_SIZE)) \<le> 4096 * map_pages e"

lemma map_bytes:
  assumes "region_ok e"
  shows "bm_bytes (bm_make (entry_length e div PAGE_SIZE)) = 8 + unat (size_required (entry_length e div PAGE_SIZE))"
    "map_fits e \<longleftrightarrow> unat (size_required (entry_length e div PAGE_SIZE)) mod 4096 \<noteq> 0"
proof -
  let ?m = "entry_length e div PAGE_SIZE"
  have "unat (entry_length e) \<le> 2 ^ 30" using assms by (simp add: region_ok_def)
  then have m: "unat ?m \<le> 2 ^ 18"
    using div_le_mono [of "unat (entry_length e)" "2 ^ 30" 4096] by (simp add: unat_div_PAGE_SIZE)
  have c: "unat (div_ceil ?m 64) * 64 < unat ?m + 64" using div_ceil_covers [of 64 ?m] by simp
  then have req: "unat (size_required ?m) = 8 * unat (div_ceil ?m 64)"
    using m unfolding size_required_def by (subst unat_mult_u64) simp_all
  have "unat (ucast (div_ceil ?m 64) :: u32) = unat (div_ceil ?m 64)" using c m by (intro unat_ucast_u32) simp
  then show bytes: "bm_bytes (bm_make ?m) = 8 + unat (size_required ?m)" by (simp add: bm_bytes_def bm_make_def Let_def req)
  have n: "unat (size_required ?m) \<le> map_pages e * 4096" "map_pages e * 4096 < unat (size_required ?m) + 4096"
    using div_ceil_covers [of PAGE_SIZE "size_required ?m"] by (simp_all add: PAGE_SIZE_def map_pages_def)
  show "map_fits e \<longleftrightarrow> unat (size_required ?m) mod 4096 \<noteq> 0"
  proof (cases "8 * unat (div_ceil ?m 64) mod 4096 = 0")
    case True
    then obtain q where "8 * unat (div_ceil ?m 64) = 4096 * q" by (metis dvdE mod_eq_0_iff_dvd)
    moreover from this have "map_pages e = q" using n unfolding req by linarith
    ultimately show ?thesis unfolding map_fits_def bytes req by simp
  next
    case False
    then have "8 * unat (div_ceil ?m 64) \<noteq> 4096 * map_pages e" by auto
    then show ?thesis using False n unfolding map_fits_def bytes req by simp
  qed
qed

lemma crossings_one: "n \<le> 512 \<Longrightarrow> crossings N n \<le> 1"
  using div_le_mono [of "N + n" "N + 512" 512] by (simp add: crossings_def)

definition booted_pma :: "memory_map_entry \<Rightarrow> pma_state \<Rightarrow> pma_state" where
  "booted_pma e s = s\<lparr>max_pages_total := entry_length e div PAGE_SIZE, page_bits := bm_make (entry_length e div PAGE_SIZE),
     physical_page_map := KERNEL_VMA_OFFSET + entry_base e,
     physical_page_base := entry_base e + of_nat (map_pages e) * PAGE_SIZE\<rparr>"

lemma booted_pma_ok:
  assumes "region_ok e"
  shows "pages_ok (booted_pma e s)" "16 \<le> bm_bits (page_bits (booted_pma e s))"
    "\<not> bm_bit (page_bits (booted_pma e s)) i \<or> bm_bits (page_bits (booted_pma e s)) \<le> i"
    "unat (page_addr (booted_pma e s) i) = unat (entry_base e) + 4096 * (map_pages e + i) \<or> 2 ^ 20 < i"
proof -
  let ?m = "entry_length e div PAGE_SIZE" and ?s = "booted_pma e s"
  have L: "0x10000 \<le> unat (entry_length e)" "unat (entry_base e) + unat (entry_length e) \<le> 2 ^ 30"
      "unat (entry_base e) mod 4096 = 0" "0x200000 \<le> unat (entry_base e)"
    using assms by (simp_all add: region_ok_def)
  note pn = map_pages_bounds [OF assms]
  have m: "unat ?m \<le> 2 ^ 18" "16 \<le> unat ?m"
    using L div_le_mono [of "unat (entry_length e)" "2 ^ 30" 4096] div_le_mono [of "0x10000" "unat (entry_length e)" 4096]
    by (simp_all add: unat_div_PAGE_SIZE)
  have "unat ?m \<le> 2 ^ 31 - 64" using m by simp
  note mk = bm_make_wf [OF this]
  show "16 \<le> bm_bits (page_bits ?s)" using mk(2) m(2) by (simp add: booted_pma_def)
  show "\<not> bm_bit (page_bits ?s) i \<or> bm_bits (page_bits ?s) \<le> i" using mk(3) [of i]
    by (cases "i < bm_bits (bm_make ?m)") (auto simp: booted_pma_def)
  have bits: "bm_bits (bm_make ?m) \<le> 2 ^ 31" using mk(1) by (simp add: bm_wf_def)
  have off: "unat (of_nat k * PAGE_SIZE :: u64) = 4096 * k" if "k \<le> 2 ^ 21" for k
    using that by (simp add: PAGE_SIZE_def unat_word_ariths unat_of_nat)
  have base: "unat (physical_page_base ?s) = unat (entry_base e) + 4096 * map_pages e"
    using L(2) pn off [of "map_pages e"] by (simp add: booted_pma_def unat_add_u64)
  have nz: "physical_page_base ?s \<noteq> 0"
  proof
    assume "physical_page_base ?s = 0"
    then have "unat (physical_page_base ?s) = 0" by simp
    then show False using base L(4) by simp
  qed
  have al: "aligned (physical_page_base ?s)" unfolding aligned_unat base using L(3) by simp
  show "pages_ok ?s"
    unfolding pages_ok_def pma_inv_def using mk(1) bits nz al base L(2) pn by (simp add: booted_pma_def)
  show "unat (page_addr ?s i) = unat (entry_base e) + 4096 * (map_pages e + i) \<or> 2 ^ 20 < i"
  proof (cases "2 ^ 20 < i")
    case False
    then have "unat (of_nat i * PAGE_SIZE :: u64) = 4096 * i" by (intro off) simp
    then show ?thesis using base L(2) pn False unfolding page_addr_def by (simp add: unat_add_u64)
  qed simp
qed

lemma pma_early_init_boots:
  assumes mm: "get_memory_map ms = Inr mmap" "region_ok (mmap ! 0)" and tabs: "boot_tables ps" "2 \<le> length (free_tables ps)"
  shows "map_fits (mmap ! 0) \<Longrightarrow> \<exists>ps'. pma_early_init ms ps s = Inr (booted_pma (mmap ! 0) s, ps') \<and> kernel_tables ps' \<and> keeps_tables ps ps' \<and>
    length (free_tables ps) \<le> length (free_tables ps') + 2 \<and>
    (\<forall>q. valid_path q \<longrightarrow> \<not> in_range (0xFFFF80000 + unat (entry_base (mmap ! 0)) div 4096) (map_pages (mmap ! 0)) q \<longrightarrow>
       translation ps' q = translation ps q)"
    "\<not> map_fits (mmap ! 0) \<Longrightarrow> pma_early_init ms ps s = Inl (Panicked ''page fault'')"
proof -
  let ?e = "mmap ! 0" and ?B = "unat (entry_base (mmap ! 0))" and ?n = "map_pages (mmap ! 0)"
  have L: "0x10000 \<le> unat (entry_length ?e)" "?B + unat (entry_length ?e) \<le> 2 ^ 30" "?B mod 4096 = 0" "0x200000 \<le> ?B"
    using mm(2) by (simp_all add: region_ok_def)
  note pn = map_pages_bounds [OF mm(2)]
  have align: "align_to (entry_base ?e) PAGE_SIZE = entry_base ?e" using L by (intro align_to_page) simp_all
  have B: "of_nat ?B = entry_base ?e" by simp
  have n: "of_nat ?n = div_ceil (size_required (entry_length ?e div PAGE_SIZE)) PAGE_SIZE" by (simp add: map_pages_def)
  have room: "?B + 4096 * Suc ?n \<le> 2 ^ 30" using L pn(2) by simp
  have none: "translation ps (path_of (KERNEL_VMA_OFFSET + of_nat (?B + 4096 * k))) = None" if "k \<le> ?n" for k
  proof -
    have lt: "?B + 4096 * k < 2 ^ 30" using that room by simp
    have "0 < (?B + 4096 * k) div 2097152" "(?B + 4096 * k) div 2097152 < 512"
      using div_le_mono [of "0x200000" "?B + 4096 * k" 2097152] L(4) lt by (simp_all add: less_mult_imp_div_less)
    moreover have "(?B + 4096 * k) div 4096 mod 512 < 512" by simp
    ultimately show ?thesis
      unfolding path_of_window(1) [OF lt] using boot_tablesD(2) [OF tabs(1)] by (simp add: translation_def)
  qed
  have one: "crossings (0xFFFF80000 + ?B div 4096) ?n \<le> 1" using pn(2) by (intro crossings_one) simp
  then have free: "1 + crossings (0xFFFF80000 + ?B div 4096) ?n \<le> length (free_tables ps)" using tabs(2) by simp
  from identity_map_runs [OF boot_kernel_tables [OF tabs(1)] L(3) room pn(1) none [OF less_imp_le] free, of "RW OR XD"]
  obtain ps' where ps': "identity_map_pages_into_kernel_space (entry_base ?e) (of_nat ?n) (RW OR XD) ps = Inr (KERNEL_VMA_OFFSET + entry_base ?e, ps')"
      "kernel_tables ps'" "keeps_tables ps ps'" "length (free_tables ps) \<le> length (free_tables ps') + (1 + crossings (0xFFFF80000 + ?B div 4096) ?n)"
      "\<And>q. valid_path q \<Longrightarrow> translation ps' q = (if in_range (0xFFFF80000 + ?B div 4096) ?n q
       then Some (range_entry (of_nat ?B) (0xFFFF80000 + ?B div 4096) (RW OR XD) q) else translation ps q)"
    unfolding B by blast
  let ?bytes = "bm_bytes (bm_make (entry_length ?e div PAGE_SIZE))"
  have run: "pma_early_init ms ps s = (if bytes_mapped ps' (KERNEL_VMA_OFFSET + entry_base ?e) ?bytes
      then Inr (booted_pma ?e s, ps') else Inl (Panicked ''page fault''))"
    using pma_early_init_runs [OF mm(1), of ps "KERNEL_VMA_OFFSET + entry_base ?e" ps' s] ps'(1) align
    unfolding n by (simp add: booted_pma_def n)
  have at: "KERNEL_VMA_OFFSET + entry_base ?e + of_nat k = KERNEL_VMA_OFFSET + of_nat (?B + k)" for k by simp
  have path: "path_number (path_of (KERNEL_VMA_OFFSET + of_nat (?B + k))) = 0xFFFF80000 + ?B div 4096 + k div 4096"
    if "k < 4096 * Suc ?n" for k
  proof -
    have "?B + k < 2 ^ 30" using that room by simp
    moreover have "(?B + k) div 4096 = ?B div 4096 + k div 4096"
      using L(3) by (metis div_mult_mod_eq add.right_neutral div_mult_self3 numeral_neq_zero zero_neq_numeral)
    ultimately show ?thesis using path_of_window(3) [of "?B + k"] by simp
  qed
  {
    assume fits: "map_fits ?e"
    have "translation ps' (path_of (KERNEL_VMA_OFFSET + entry_base ?e + of_nat k)) \<noteq> None" if "k < ?bytes" for k
    proof -
      have "k < 4096 * ?n" using that fits by (simp add: map_fits_def)
      then have "k < 4096 * Suc ?n" "k div 4096 < ?n" by (simp_all add: less_mult_imp_div_less)
      then show ?thesis unfolding at using ps'(5) [OF valid_path_of] path by (simp add: in_range_def)
    qed
    then show "\<exists>ps'. pma_early_init ms ps s = Inr (booted_pma ?e s, ps') \<and> kernel_tables ps' \<and> keeps_tables ps ps' \<and>
      length (free_tables ps) \<le> length (free_tables ps') + 2 \<and>
      (\<forall>q. valid_path q \<longrightarrow> \<not> in_range (0xFFFF80000 + ?B div 4096) ?n q \<longrightarrow> translation ps' q = translation ps q)"
      using run ps' one by (auto simp: bytes_mapped_def)
  next
    assume "\<not> map_fits ?e"
    then have "4096 * ?n < ?bytes" by (simp add: map_fits_def)
    moreover have "translation ps' (path_of (KERNEL_VMA_OFFSET + entry_base ?e + of_nat (4096 * ?n))) = None"
      unfolding at using ps'(5) [OF valid_path_of] path [of "4096 * ?n"] none [OF order_refl] by (simp add: in_range_def)
    ultimately show "pma_early_init ms ps s = Inl (Panicked ''page fault'')" using run by (auto simp: bytes_mapped_def)
  }
qed

subsection \<open>The virtual address allocator\<close>

text \<open>\<^verbatim>\<open>vma::init\<close> takes the first page, maps it and builds the list in it.\<close>

definition booted_vma :: "u64 \<Rightarrow> vma_state \<Rightarrow> vma_state" where
  "booted_vma v s = s\<lparr>virtual_free_list := v, max_free_list_size := NODES_PER_PAGE,
     nodes := booted_nodes v ((nodes s)[0 := \<lparr>node_base = 0, node_size = 0, node_next = None\<rparr>]), free_list_size := 3\<rparr>"

lemma vma_marks:
  assumes v: "unat v = 0xFFFFFFFF80000000 + x" "0x200000 < x" "x + 0x1000 < 2 ^ 31"
    and s: "length (nodes s) = NODES_PER_PAGE" "free_list_size s = 0"
  shows "rbind (mark_free_range 0x200000 MAX_POSITIVE_VIRTUAL_ADDR (s\<lparr>virtual_free_list := v,
        max_free_list_size := NODES_PER_PAGE, nodes := (nodes s)[0 := \<lparr>node_base = 0, node_size = 0, node_next = None\<rparr>]\<rparr>)) (\<lambda>s1.
      rbind (mark_free_range MIN_NEGATIVE_VIRTUAL_ADDR (KERNEL_VMA_START - 1) s1) (\<lambda>s2.
      rbind (mark_free_range KERNEL_VMA_END MAX_NEGATIVE_VIRTUAL_ADDR s2) (\<lambda>s3.
        remove_from_free_list v PAGE_SIZE s3))) = Inr (booted_vma v s)"
proof -
  let ?n = "\<lparr>node_base = 0, node_size = 0, node_next = None\<rparr>"
  let ?s = "s\<lparr>virtual_free_list := v, max_free_list_size := NODES_PER_PAGE, nodes := (nodes s)[0 := ?n]\<rparr>"
  have nz: "v \<noteq> 0" using v(1) by auto
  have s0: "length (nodes ?s) = NODES_PER_PAGE" "free_list_size ?s = 0" "virtual_free_list ?s \<noteq> 0"
      "max_free_list_size ?s = NODES_PER_PAGE" "nodes ?s ! 0 = ?n"
    using s nz by (auto simp: NODES_PER_PAGE_def)
  note marks = initial_marks [OF s0]
  have rem: "remove_from_free_list v PAGE_SIZE (?s\<lparr>nodes := initial_nodes (nodes ?s), free_list_size := 2\<rparr>) = Inr (booted_vma v s)"
    unfolding remove_initial [OF v s0(1,3,4)] by (simp add: booted_vma_def)
  have "rbind (rbind (mark_free_range 0x200000 MAX_POSITIVE_VIRTUAL_ADDR ?s) (\<lambda>s1.
      rbind (mark_free_range MIN_NEGATIVE_VIRTUAL_ADDR (KERNEL_VMA_START - 1) s1) (\<lambda>s2.
      mark_free_range KERNEL_VMA_END MAX_NEGATIVE_VIRTUAL_ADDR s2))) (remove_from_free_list v PAGE_SIZE) = Inr (booted_vma v s)"
    unfolding marks rbind_Inr by (rule rem)
  then show ?thesis by (simp only: rbind_assoc)
qed

lemma booted_vma_ok:
  assumes v: "unat v = 0xFFFFFFFF80000000 + x" "0x200000 < x" "x + 0x1000 < 2 ^ 31" "x mod 4096 = 0"
    and s: "length (nodes s) = NODES_PER_PAGE"
  shows "list_ok (booted_vma v s) [0, 1, 2, 3]" "free_area (booted_vma v s) = initial_free - area v 0x1000"
    "\<forall>i \<in> {0, 1, 2, 3}. aligned (node_base (nodes (booted_vma v s) ! i))"
    "nodes (booted_vma v s) ! 0 = \<lparr>node_base = 0x200000, node_size = 0x3FFFFE00000, node_next = Some 1\<rparr>"
proof -
  let ?s = "s\<lparr>virtual_free_list := v, max_free_list_size := NODES_PER_PAGE,
    nodes := (nodes s)[0 := \<lparr>node_base = 0, node_size = 0, node_next = None\<rparr>]\<rparr>"
  have "v \<noteq> 0" using v(1) by auto
  then have s0: "length (nodes ?s) = NODES_PER_PAGE" "virtual_free_list ?s \<noteq> 0" "max_free_list_size ?s = NODES_PER_PAGE"
    using s by simp_all
  have eq: "booted_vma v s = ?s\<lparr>nodes := booted_nodes v (nodes ?s), free_list_size := 3\<rparr>" by (simp add: booted_vma_def)
  note ok = booted_list_ok [OF v s0]
  show l: "list_ok (booted_vma v s) [0, 1, 2, 3]" unfolding eq by (rule ok(1))
  have nds: "nodes (booted_vma v s) = booted_nodes v (nodes ?s)" by (simp add: booted_vma_def)
  show "free_area (booted_vma v s) = initial_free - area v 0x1000" unfolding list_ok_free [OF l] nds by (rule booted_areas(1) [OF v(1-3) s0(1)])
  show "\<forall>i \<in> {0, 1, 2, 3}. aligned (node_base (nodes (booted_vma v s) ! i))" unfolding nds by (rule ok(2))
  show "nodes (booted_vma v s) ! 0 = \<lparr>node_base = 0x200000, node_size = 0x3FFFFE00000, node_next = Some 1\<rparr>"
    unfolding nds by (rule booted_nodes_nth(1) [OF s0(1)])
qed

text \<open>The allocation list takes the first free virtual page, \<open>0x200000\<close>.\<close>

definition heap_vma_state :: "u64 \<Rightarrow> vma_state \<Rightarrow> vma_state" where
  "heap_vma_state v s = set_node 0 \<lparr>node_base = 0x201000, node_size = 0x3FFFFDFF000, node_next = Some 1\<rparr> (booted_vma v s)"

lemma first_virtual_page:
  assumes v: "unat v = 0xFFFFFFFF80000000 + x" "0x200000 < x" "x + 0x1000 < 2 ^ 31" "x mod 4096 = 0"
    and s: "length (nodes s) = NODES_PER_PAGE"
  shows "get_virtual_pages PAGE_SIZE (booted_vma v s) = Inr (0x200000, heap_vma_state v s)"
    "vma_inv (heap_vma_state v s)" "bases_aligned (heap_vma_state v s)"
    "free_area (heap_vma_state v s) = initial_free - area v 0x1000 - area 0x200000 0x1000"
    "sz \<noteq> 0 \<Longrightarrow> sz mod PAGE_SIZE = 0 \<Longrightarrow> sz < 0x3FFFFDFF000 \<Longrightarrow> \<exists>vs. get_virtual_pages sz (heap_vma_state v s) = Inr (0x201000, vs) \<and>
       free_virtual_pages 0x201000 sz vs = Inr (heap_vma_state v s)"
proof -
  note ok = booted_vma_ok [OF v s]
  have walk: "walk_list (booted_vma v s) = Inr [0, 1, 2, 3]" by (rule list_ok_walk [OF ok(1)])
  show run: "get_virtual_pages PAGE_SIZE (booted_vma v s) = Inr (0x200000, heap_vma_state v s)"
    by (simp add: get_virtual_pages_def walk ok(4) Let_def heap_vma_state_def) (simp add: PAGE_SIZE_def)
  have inv: "vma_inv (booted_vma v s)" using ok(1) by (auto simp: vma_inv_def)
  have pg: "PAGE_SIZE = 0x1000" by (simp add: PAGE_SIZE_def)
  from get_virtual_pages_area [OF inv run] show "vma_inv (heap_vma_state v s)"
    "free_area (heap_vma_state v s) = initial_free - area v 0x1000 - area 0x200000 0x1000"
    unfolding ok(2) pg by auto
  have chain: "is_chain (nodes (heap_vma_state v s)) (Some 0) [0, 1, 2, 3]"
    unfolding heap_vma_state_def set_node_def using ok(1)
    by (simp add: is_chain_update list_ok_def ok(4) del: is_chain.simps)
  have head: "virtual_free_list (heap_vma_state v s) \<noteq> 0"
    using ok(1) by (simp add: heap_vma_state_def set_node_def list_ok_def)
  from chain head have walk': "walk_list (heap_vma_state v s) = Inr [0, 1, 2, 3]"
    using chain_is_chain by (simp add: walk_list_def list_head_def del: is_chain.simps)
  have len: "0 < length (nodes (booted_vma v s))" using ok(1) by (simp add: list_ok_def)
  have "aligned 0x201000" by (simp add: aligned_def)
  then show "bases_aligned (heap_vma_state v s)"
    using ok(3) walk' len by (simp add: bases_aligned_def heap_vma_state_def set_node_def del: One_nat_def)
  have n0: "nodes (heap_vma_state v s) ! 0 = \<lparr>node_base = 0x201000, node_size = 0x3FFFFDFF000, node_next = Some 1\<rparr>"
    using len by (simp add: heap_vma_state_def set_node_def)
  from take_give_first [OF chain head, of sz, unfolded n0] show "sz \<noteq> 0 \<Longrightarrow> sz mod PAGE_SIZE = 0 \<Longrightarrow> sz < 0x3FFFFDFF000 \<Longrightarrow>
      \<exists>vs. get_virtual_pages sz (heap_vma_state v s) = Inr (0x201000, vs) \<and> free_virtual_pages 0x201000 sz vs = Inr (heap_vma_state v s)"
    by simp
qed

subsection \<open>The three allocators together\<close>

definition list_page :: "memory_map_entry \<Rightarrow> nat" where
  "list_page e = unat (entry_base e) + 4096 * map_pages e"

lemma list_page_bounds:
  assumes "region_ok e"
  shows "list_page e mod 4096 = 0" "0x200000 < list_page e" "list_page e + 0x2000 \<le> 2 ^ 30"
  using assms map_pages_bounds [OF assms] by (auto simp: region_ok_def list_page_def)

lemma booted_page_addr:
  assumes "region_ok e" "i \<le> 2 ^ 20" shows "page_addr (booted_pma e s) i = of_nat (list_page e + 4096 * i)"
proof (rule unsigned_word_eqI)
  have "unat (page_addr (booted_pma e s) i) = list_page e + 4096 * i"
    using booted_pma_ok(4) [OF assms(1), of s i] assms(2) by (auto simp: list_page_def)
  moreover have "list_page e + 4096 * i < 2 ^ 64" using assms(2) list_page_bounds(3) [OF assms(1)] by simp
  ultimately show "unat (page_addr (booted_pma e s) i) = unat (of_nat (list_page e + 4096 * i) :: u64)"
    by (simp only: unat_of_nat_u64)
qed

lemma page_addr_bits [simp]: "page_addr (s\<lparr>page_bits := b\<rparr>) i = page_addr s i"
  by (simp add: page_addr_def)

lemma vma_init_boots:
  assumes e: "region_ok e" and tabs: "kernel_tables ps" "2 \<le> length (free_tables ps)"
    and none: "translation ps (path_of (KERNEL_VMA_OFFSET + of_nat (list_page e))) = None"
    and s: "length (nodes s) = NODES_PER_PAGE" "free_list_size s = 0"
  shows "\<exists>b ps'. vma_init s (booted_pma e p) ps =
      Inr (booted_vma (KERNEL_VMA_OFFSET + of_nat (list_page e)) s, booted_pma e p\<lparr>page_bits := b\<rparr>, ps') \<and>
    pages_ok (booted_pma e p\<lparr>page_bits := b\<rparr>) \<and> bm_bits b = bm_bits (page_bits (booted_pma e p)) \<and>
    (\<forall>j < bm_bits b. bm_bit b j \<longleftrightarrow> j = 0) \<and> kernel_tables ps' \<and> keeps_tables ps ps' \<and>
    length (free_tables ps) \<le> length (free_tables ps') + 2 \<and>
    (\<forall>q. valid_path q \<longrightarrow> q \<noteq> path_of (KERNEL_VMA_OFFSET + of_nat (list_page e)) \<longrightarrow> translation ps' q = translation ps q)"
proof -
  let ?x = "list_page e" and ?v = "KERNEL_VMA_OFFSET + of_nat (list_page e)" and ?p = "booted_pma e p"
  note x = list_page_bounds [OF e]
  note ok = booted_pma_ok [OF e]
  have inv: "pma_inv ?p" using ok(1) [of p] by (simp add: pages_ok_def)
  have k: "0 < bm_bits (page_bits ?p)" "\<not> bm_bit (page_bits ?p) 0" "\<forall>i < 0. bm_bit (page_bits ?p) i" "0 mod 64 < (31 :: nat)"
    using ok(2) [of p] ok(3) [of p 0] by auto
  from get_physical_page_least [OF inv k] obtain b where
    b: "get_physical_page ?p = Inr (page_addr ?p 0, ?p\<lparr>page_bits := b\<rparr>)" "bm_bits b = bm_bits (page_bits ?p)"
      "\<And>j. bm_bit b j = (j = 0 \<or> bm_bit (page_bits ?p) j)" by blast
  have pg: "page_addr ?p 0 = of_nat ?x" using booted_page_addr [OF e, of 0 p] by simp
  have okb: "pages_ok (?p\<lparr>page_bits := b\<rparr>)" using get_physical_page_ok [OF ok(1) b(1)] by simp
  have room: "?x + 4096 * Suc 1 \<le> 2 ^ 30" using x(3) by simp
  have n1: "translation ps (path_of (KERNEL_VMA_OFFSET + of_nat (?x + 4096 * k))) = None" if "k < 1" for k
    using none that by simp
  have cr: "crossings (0xFFFF80000 + ?x div 4096) 1 \<le> 1" by (rule crossings_one) simp
  have free: "1 + crossings (0xFFFF80000 + ?x div 4096) 1 \<le> length (free_tables ps)" using cr tabs(2) by linarith
  have one: "of_nat 1 = (1 :: u64)" by simp
  from identity_map_runs [OF tabs(1) x(1) room zero_less_one n1 free, of "RW OR XD"] obtain ps' where
    ps': "identity_map_page_into_kernel_space (of_nat ?x) (RW OR XD) ps = Inr (?v, ps')" "kernel_tables ps'" "keeps_tables ps ps'"
      "length (free_tables ps) \<le> length (free_tables ps') + (1 + crossings (0xFFFF80000 + ?x div 4096) 1)"
      "\<And>q. valid_path q \<Longrightarrow> translation ps' q = (if in_range (0xFFFF80000 + ?x div 4096) 1 q
         then Some (range_entry (of_nat ?x) (0xFFFF80000 + ?x div 4096) (RW OR XD) q) else translation ps q)"
    unfolding identity_map_page_into_kernel_space_def one by blast
  have lt: "?x < 2 ^ 30" "?x < 2 ^ 31" "?x + 0x1000 < 2 ^ 31" using x(3) by simp_all
  have keep: "translation ps' q = translation ps q" if "valid_path q" "q \<noteq> path_of ?v" for q
  proof -
    have "\<not> in_range (0xFFFF80000 + ?x div 4096) 1 q"
      using path_number_inj [OF that(1) valid_path_of] that(2) path_of_window(3) [OF lt(1)] by (auto simp: in_range_def)
    then show ?thesis using ps'(5) [OF that(1)] by simp
  qed
  have "vma_init s ?p ps = Inr (booted_vma ?v s, ?p\<lparr>page_bits := b\<rparr>, ps')"
    using vma_marks [OF unat_kernel [OF lt(2)] x(2) lt(3) s] ps'(1)
    unfolding vma_init_def b(1) pg rbind_Inr prod.case Let_def by (auto simp: rbind_eq_Inr_iff)
  moreover have "\<forall>j < bm_bits b. bm_bit b j \<longleftrightarrow> j = 0" using b(2,3) ok(3) [of p] by (metis not_le)
  moreover have "length (free_tables ps) \<le> length (free_tables ps') + 2" using ps'(4) cr by linarith
  ultimately show ?thesis using okb b(2) ps'(2,3) keep by blast
qed

text \<open>The allocation list starts as one empty node in the page at \<open>0x200000\<close>, which has room
  for a node of up to 505 pages.\<close>

lemma first_find_node:
  assumes "0 < k" "k \<le> 505" "h 0x200000 = 0" "h 0x200008 = 0" "h 0x200010 = 0"
  shows "find_node h (of_nat k) 0x200000 0 = Some (0x200000, 24, False)"
proof -
  have "unat (of_nat k :: u64) = k" using assms(2) by (intro unat_of_nat_u64) simp
  then have "(of_nat k :: u64) \<noteq> 0" using assms(1) by (metis unsigned_0 less_numeral_extra(3))
  moreover have "node_size_of h 0x200000 = 0" "node_pages_of h 0x200000 = 0" "node_next_of h 0x200000 = 0"
    using assms(3-5) by (simp_all add: node_size_of_def node_pages_of_def node_next_of_def)
  ultimately show ?thesis by (subst find_node.simps) (simp add: ALLOCATION_SIZE_def)
qed

lemma first_list_room:
  assumes "0 < k" "k \<le> 505" "area 0x200000 0x1000 \<inter> F = {}" "first_allocation s = 0x200000"
    "heap s 0x200000 = 0" "heap s 0x200008 = 0" "heap s 0x200010 = 0"
  shows "list_room F k s"
proof -
  have k: "unat (of_nat k :: u64) = k" using assms(2) by (intro unat_of_nat_u64) simp
  note f = first_find_node [OF assms(1,2,5-7)]
  have n: "node_pages_of (heap s) 0x200000 = 0" using assms(7) by (simp add: node_pages_of_def)
  have u: "unat (24 + (ALLOCATION_SIZE + 8 * of_nat k)) = 48 + 8 * k"
    using assms(2) k by (simp add: ALLOCATION_SIZE_def unat_word_ariths)
  have "unat ((24 + (ALLOCATION_SIZE + 8 * of_nat k)) div PAGE_SIZE) = 0"
    unfolding unat_div_PAGE_SIZE u using assms(2) by simp
  then have d: "24 div PAGE_SIZE = (24 + (ALLOCATION_SIZE + 8 * of_nat k)) div PAGE_SIZE"
    by (simp add: PAGE_SIZE_def unat_eq_zero)
  have "0x200018 + 8 * of_nat i \<in> area 0x200000 0x1000" if "i < k + 3" for i
  proof -
    have "unat (0x18 + 8 * of_nat i :: u64) = 24 + 8 * i"
      using that assms(2) by (simp add: unat_word_ariths unat_of_nat_u64)
    then have "(0x18 + 8 * of_nat i :: u64) < 0x1000" using that assms(2) by (simp add: word_less_nat_alt)
    then show ?thesis by (simp add: area_def)
  qed
  then have "\<forall>i < k + 3. 0x200018 + 8 * of_nat i \<notin> F" using assms(3) by blast
  then have slots: "\<forall>i < k + 3. node_slot (heap s) 0x200000 False + 8 * of_nat i \<notin> F"
    by (simp add: node_slot_def n ALLOCATION_SIZE_def)
  show ?thesis
    unfolding list_room_def assms(4) using f d slots n by (intro conjI exI [of _ "0x200000"] exI [of _ 24] exI [of _ False]) simp_all
qed

definition heap_page_path :: "nat list" where
  "heap_page_path = [0, 1, 0, 0]"

lemma path_of_heap_page: "path_of 0x200000 = heap_page_path"
  using path_of_window(2) [of "0x200000"] by (simp add: heap_page_path_def)

lemma heap_page_path_low: "path_number heap_page_path < 0xFFFF80000" "valid_path heap_page_path"
  by (simp_all add: heap_page_path_def path_number_def valid_path_digits)

definition heap_ready :: "memory_map_entry \<Rightarrow> alloc_state \<Rightarrow> bool" where
  "heap_ready e s \<longleftrightarrow> vma_inv (kvma s) \<and> bases_aligned (kvma s) \<and> pages_ok (kpma s) \<and> pt_wf (kpaging s) \<and>
     free_area (kvma s) = initial_free - area (KERNEL_VMA_OFFSET + of_nat (list_page e)) 0x1000 - area 0x200000 0x1000 \<and>
     taken_pages (kpma s) = {of_nat (list_page e), of_nat (list_page e + 4096)} \<and>
     physical_page_map (kpma s) = KERNEL_VMA_OFFSET + entry_base e \<and>
     get_physical_address (kpaging s) 0x200000 = Inr (of_nat (list_page e + 4096)) \<and>
     (\<forall>k. 0 < k \<longrightarrow> k \<le> 505 \<longrightarrow> list_room (free_area (kvma s)) k s)"

text \<open>What the first allocation meets: pages 0 and 1 are taken, the next virtual pages are those from \<open>0x201000\<close> on,
  which the free list takes back, the list has its one empty node, and the rest of the 2 MiB from \<open>0x200000\<close> on is not mapped although its page table exists.\<close>

definition window_free :: "paging_state \<Rightarrow> bool" where
  "window_free ps \<longleftrightarrow> (\<forall>i. 0 < i \<longrightarrow> i < 512 \<longrightarrow> lacking ps [i, 1, 0, 0] = 0 \<and> translation ps [i, 1, 0, 0] = None)"

definition heap_fresh :: "memory_map_entry \<Rightarrow> alloc_state \<Rightarrow> bool" where
  "heap_fresh e s \<longleftrightarrow> taken_first 2 (kpma s) \<and> (\<forall>i < 64. page_addr (kpma s) i = of_nat (list_page e + 4096 * i)) \<and>
     window_free (kpaging s) \<and>
     (\<forall>sz. sz \<noteq> 0 \<longrightarrow> sz mod PAGE_SIZE = 0 \<longrightarrow> sz < 0x3FFFFDFF000 \<longrightarrow> (\<exists>vs. get_virtual_pages sz (kvma s) = Inr (0x201000, vs) \<and>
        free_virtual_pages 0x201000 sz vs = Inr (kvma s))) \<and>
     first_allocation s = 0x200000 \<and> node_pages_of (heap s) 0x200000 = 0 \<and>
     (\<forall>k. 0 < k \<longrightarrow> k \<le> 505 \<longrightarrow> find_node (heap s) (of_nat k) 0x200000 0 = Some (0x200000, 24, False))"

lemma table_at_first:
  assumes "d \<le> 3" shows "table_at m t (i # r) d = table_at m t (j # r) d"
  using assms
proof (induction d)
  case (Suc d)
  then have "(i # r) ! (3 - d) = (j # r) ! (3 - d)" by (simp add: nth_Cons')
  then show ?case using Suc by (simp only: table_at.simps Suc_leD)
qed simp

lemma lacking_first:
  assumes "translation ps (i # r) \<noteq> None" shows "lacking ps (j # r) = 0"
proof -
  have "table_at (mem ps) (pt_base ps) (i # r) 3 \<noteq> None"
    using assms by (auto simp: translation_def pte_table split: option.splits)
  then have "table_at (mem ps) (pt_base ps) (j # r) 3 \<noteq> None" using table_at_first [of 3 _ _ i r j] by simp
  from lacking_le [OF this] show ?thesis by simp
qed

lemma booted_taken:
  assumes "region_ok e" "bm_bits b = bm_bits (page_bits (booted_pma e p))" "\<forall>j < bm_bits b. bm_bit b j \<longleftrightarrow> j = 0"
  shows "taken_pages (booted_pma e p\<lparr>page_bits := b\<rparr>) = {of_nat (list_page e)}"
proof -
  have "0 < bm_bits b" using booted_pma_ok(2) [OF assms(1), of p] assms(2) by simp
  then have "taken_pages (booted_pma e p\<lparr>page_bits := b\<rparr>) = {page_addr (booted_pma e p) 0}"
    using assms(3) by (auto simp: taken_pages_def)
  then show ?thesis using booted_page_addr [OF assms(1), of 0 p] by simp
qed

lemma RW_XD_attrs: "(RW OR XD) AND ADDRESS_MASK = 0"
  by (simp add: RW_def XD_def ADDRESS_MASK_def)

lemma alloc_init_boots:
  assumes e: "region_ok e" and len: "length (nodes vs) = NODES_PER_PAGE"
    and b: "pages_ok (booted_pma e p\<lparr>page_bits := b\<rparr>)" "bm_bits b = bm_bits (page_bits (booted_pma e p))"
      "\<forall>j < bm_bits b. bm_bit b j \<longleftrightarrow> j = 0"
    and tabs: "pt_wf ps" "lacking ps heap_page_path \<le> 1" "1 \<le> length (free_tables ps)"
      "\<And>i. i < 512 \<Longrightarrow> translation ps [i, 1, 0, 0] = None"
  shows "\<exists>s'. alloc_init (s\<lparr>kpma := booted_pma e p\<lparr>page_bits := b\<rparr>,
      kvma := booted_vma (KERNEL_VMA_OFFSET + of_nat (list_page e)) vs, kpaging := ps\<rparr>) = Inr s' \<and> heap_ready e s' \<and> heap_fresh e s' \<and>
    malloc_lock s' = malloc_lock s \<and> keeps_tables ps (kpaging s') \<and>
    length (free_tables ps) \<le> length (free_tables (kpaging s')) + 1 \<and>
    (\<forall>q. valid_path q \<longrightarrow> q \<noteq> heap_page_path \<longrightarrow> translation (kpaging s') q = translation ps q)"
proof -
  let ?p = "booted_pma e p\<lparr>page_bits := b\<rparr>" and ?v = "KERNEL_VMA_OFFSET + of_nat (list_page e)"
  note x = list_page_bounds [OF e]
  have inv: "pma_inv ?p" using b(1) by (simp add: pages_ok_def)
  have first: "taken_first 1 ?p"
    using booted_pma_ok(2) [OF e, of p] b(2,3) by (auto simp: taken_first_def bm_bits_def)
  from get_physical_page_first(1) [OF inv first] obtain c where c: "get_physical_page ?p = Inr (page_addr ?p 1, ?p\<lparr>page_bits := c\<rparr>)"
    and two: "taken_first 2 (?p\<lparr>page_bits := c\<rparr>)" by (auto simp: numeral_2_eq_2)
  let ?g = "of_nat (list_page e + 4096) :: u64"
  have pg: "page_addr ?p 1 = ?g" using booted_page_addr [OF e, of 1 p] by simp
  note c = c [unfolded pg]
  note okc = get_physical_page_ok [OF b(1) c]
  have lt: "list_page e < 2 ^ 31" "list_page e + 0x1000 < 2 ^ 31" using x(3) by simp_all
  note vp = first_virtual_page [OF unat_kernel [OF lt(1)] x(2) lt(2) x(1) len]
  have al: "aligned 0x200000" "sign_extend 0x200000 42 = (0x200000 :: u64)" by (simp_all add: aligned_def sign_extend_def)
  have l: "lacking ps (path_of 0x200000) \<le> length (free_tables ps)" using tabs(2,3) by (simp add: path_of_heap_page)
  have none: "translation ps (path_of 0x200000) = None" using tabs(4) [of 0] by (simp add: path_of_heap_page heap_page_path_def)
  from map_page_effect [OF tabs(1) l okc(4) al(1) none, of "RW OR XD"] obtain ps' where
    ps': "map_page ?g 0x200000 (RW OR XD) ps = Inr (0x200000, ps')" "pt_wf ps'" "keeps_tables ps ps'"
      "length (free_tables ps) \<le> length (free_tables ps') + lacking ps heap_page_path"
      "\<And>q. valid_path q \<Longrightarrow> translation ps' q = (if q = heap_page_path then Some (?g OR (RW OR XD) OR PRESENT) else translation ps q)"
    unfolding al(2) path_of_heap_page by blast
  let ?s' = "s\<lparr>kpma := ?p\<lparr>page_bits := c\<rparr>, kvma := heap_vma_state ?v vs, kpaging := ps', first_allocation := 0x200000,
    heap := (heap s)(0x200000 := 0, 0x200008 := 0, 0x200010 := 0)\<rparr>"
  have run: "alloc_init (s\<lparr>kpma := ?p, kvma := booted_vma ?v vs, kpaging := ps\<rparr>) = Inr ?s'"
    by (simp add: alloc_init_def new_list_page_def c vp(1) ps'(1) del: of_nat_add)
  have "take_bit 12 (0x200000 :: u64) = 0" by simp
  moreover have "translation ps' (path_of 0x200000) = Some (?g OR (RW OR XD) OR PRESENT)"
    unfolding path_of_heap_page using ps'(5) [OF heap_page_path_low(2)] by simp
  ultimately have addr: "get_physical_address ps' 0x200000 = Inr ?g"
    using get_physical_address_translation [OF ps'(2), of "0x200000"] entry_address [OF okc(4,5) RW_XD_attrs] by simp
  have room: "list_room (free_area (heap_vma_state ?v vs)) k ?s'" if "0 < k" "k \<le> 505" for k
    using that by (intro first_list_room) (auto simp: vp(4))
  have "heap_ready e ?s'"
    unfolding heap_ready_def using vp(2-4) okc(1,3) ps'(2) addr booted_taken [OF e b(2,3)] room
    by (simp add: insert_commute booted_pma_def del: of_nat_add)
  moreover have "window_free ps'"
    using lacking_first [of ps' 0 "[1, 0, 0]"] ps'(5) [OF heap_page_path_low(2)] tabs(4) ps'(5)
    by (auto simp: window_free_def heap_page_path_def valid_path_digits)
  then have "heap_fresh e ?s'"
    unfolding heap_fresh_def using two vp(5) booted_page_addr [OF e, of _ p] first_find_node
    by (simp add: node_pages_of_def del: of_nat_add)
  ultimately show ?thesis using run ps'(3-5) tabs(2) by (intro exI [of _ ?s']) auto
qed

lemma list_page_path:
  assumes "region_ok e"
  shows "path_number (path_of (KERNEL_VMA_OFFSET + of_nat (list_page e))) = 0xFFFF80000 + unat (entry_base e) div 4096 + map_pages e"
    "path_of (KERNEL_VMA_OFFSET + of_nat (list_page e)) = [list_page e div 4096 mod 512, list_page e div 2097152, 0x1FE, 0x1FF]"
    "0 < list_page e div 2097152" "list_page e div 2097152 < 512"
proof -
  have lt: "list_page e < 2 ^ 30" "0x200000 \<le> list_page e" using list_page_bounds [OF assms] by simp_all
  show "path_number (path_of (KERNEL_VMA_OFFSET + of_nat (list_page e))) = 0xFFFF80000 + unat (entry_base e) div 4096 + map_pages e"
    using path_of_window(3) [OF lt(1)] by (simp add: list_page_def)
  show "path_of (KERNEL_VMA_OFFSET + of_nat (list_page e)) = [list_page e div 4096 mod 512, list_page e div 2097152, 0x1FE, 0x1FF]"
    by (rule path_of_window(1) [OF lt(1)])
  show "0 < list_page e div 2097152" "list_page e div 2097152 < 512"
    using div_le_mono [OF lt(2), of 2097152] lt(1) by (simp_all add: less_mult_imp_div_less)
qed

lemma memory_finish_init_boots:
  assumes mm: "get_memory_map ms = Inr mmap" "region_ok (mmap ! 0)"
    and tabs: "boot_tables (kpaging s)" "5 \<le> length (free_tables (kpaging s))"
    and s: "length (nodes (kvma s)) = NODES_PER_PAGE" "free_list_size (kvma s) = 0"
    and fits: "map_fits (mmap ! 0)"
  shows "\<exists>s'. memory_finish_init ms s = Inr s' \<and> heap_ready (mmap ! 0) s' \<and> heap_fresh (mmap ! 0) s' \<and>
    malloc_lock s' = malloc_lock s \<and> length (free_tables (kpaging s)) \<le> length (free_tables (kpaging s')) + 5"
proof -
  let ?e = "mmap ! 0" and ?v = "KERNEL_VMA_OFFSET + of_nat (list_page (mmap ! 0))"
  let ?in = "in_range (0xFFFF80000 + unat (entry_base (mmap ! 0)) div 4096) (map_pages (mmap ! 0))"
  note lp = list_page_path [OF mm(2)]
  have "2 \<le> length (free_tables (kpaging s))" using tabs(2) by simp
  from pma_early_init_boots(1) [OF mm tabs(1) this fits, of "kpma s"] obtain ps1 where
    ps1: "pma_early_init ms (kpaging s) (kpma s) = Inr (booted_pma ?e (kpma s), ps1)" "kernel_tables ps1"
      "keeps_tables (kpaging s) ps1" "length (free_tables (kpaging s)) \<le> length (free_tables ps1) + 2"
      "\<And>q. valid_path q \<Longrightarrow> \<not> ?in q \<Longrightarrow> translation ps1 q = translation (kpaging s) q" by blast
  have "translation ps1 (path_of ?v) = translation (kpaging s) (path_of ?v)"
    using lp(1) by (intro ps1(5) valid_path_of) (simp add: in_range_def)
  moreover have "pte (kpaging s) (path_of ?v) = None"
    unfolding lp(2) using lp(3,4) by (intro boot_tablesD(2) [OF tabs(1)]) simp_all
  ultimately have none: "translation ps1 (path_of ?v) = None" by (simp add: translation_def)
  have "2 \<le> length (free_tables ps1)" using ps1(4) tabs(2) by simp
  from vma_init_boots [OF mm(2) ps1(2) this none s] obtain b ps2 where
    ps2: "vma_init (kvma s) (booted_pma ?e (kpma s)) ps1 = Inr (booted_vma ?v (kvma s), booted_pma ?e (kpma s)\<lparr>page_bits := b\<rparr>, ps2)"
      "pages_ok (booted_pma ?e (kpma s)\<lparr>page_bits := b\<rparr>)" "bm_bits b = bm_bits (page_bits (booted_pma ?e (kpma s)))"
      "\<forall>j < bm_bits b. bm_bit b j \<longleftrightarrow> j = 0" "kernel_tables ps2" "keeps_tables ps1 ps2"
      "length (free_tables ps1) \<le> length (free_tables ps2) + 2"
      "\<And>q. valid_path q \<Longrightarrow> q \<noteq> path_of ?v \<Longrightarrow> translation ps2 q = translation ps1 q" by blast
  have boot: "lacking (kpaging s) heap_page_path \<le> 1"
    unfolding heap_page_path_def by (intro boot_tablesD(1) [OF tabs(1)]; simp)
  have lack: "lacking ps2 heap_page_path \<le> 1"
    using lacking_keeps [OF keeps_tables_trans [OF ps1(3) ps2(6)] heap_page_path_low(2)] boot by simp
  have none2: "translation ps2 [i, 1, 0, 0] = None" if "i < 512" for i
  proof -
    have low: "path_number [i, 1, 0, 0] < 0xFFFF80000" "valid_path [i, 1, 0, 0]"
      using that by (simp_all add: path_number_def valid_path_digits)
    have "translation ps2 [i, 1, 0, 0] = translation ps1 [i, 1, 0, 0]" using lp(1) low by (intro ps2(8)) auto
    also have "\<dots> = translation (kpaging s) [i, 1, 0, 0]" using low by (intro ps1(5)) (simp_all add: in_range_def)
    also have "\<dots> = None" using boot_tablesD(2) [OF tabs(1) that, of 1 0 0] by (simp add: translation_def)
    finally show ?thesis .
  qed
  have wf2: "pt_wf ps2" using ps2(5) by (simp add: kernel_tables_def)
  have "1 \<le> length (free_tables ps2)" using ps2(7) ps1(4) tabs(2) by simp
  from alloc_init_boots [OF mm(2) s(1) ps2(2-4) wf2 lack this none2, of s] obtain s' where
    s': "alloc_init (s\<lparr>kpma := booted_pma ?e (kpma s)\<lparr>page_bits := b\<rparr>, kvma := booted_vma ?v (kvma s), kpaging := ps2\<rparr>) = Inr s'"
      "heap_ready ?e s'" "heap_fresh ?e s'" "malloc_lock s' = malloc_lock s" "length (free_tables ps2) \<le> length (free_tables (kpaging s')) + 1" by blast
  have "memory_finish_init ms s = Inr s'" by (simp add: memory_finish_init_def ps1(1) ps2(1) s'(1))
  then show ?thesis using s'(2-5) ps2(7) ps1(4) by auto
qed

text \<open>Nobody takes the addresses of the page map itself out of the free list.\<close>

lemma page_map_in_free_area:
  assumes e: "region_ok e" and s: "heap_ready e s"
  shows "area (physical_page_map (kpma s)) (of_nat (map_pages e) * PAGE_SIZE) \<subseteq> free_area (kvma s)"
proof -
  let ?B = "unat (entry_base e)" and ?n = "of_nat (map_pages e) * PAGE_SIZE :: u64" and ?w = "KERNEL_VMA_OFFSET + entry_base e"
  note x = list_page_bounds [OF e] and n = map_pages_bounds [OF e]
  have B: "0x200000 \<le> ?B" "?B < 2 ^ 31" using e by (simp_all add: region_ok_def)
  have un: "unat ?n = 4096 * map_pages e" using n(2) by (simp add: PAGE_SIZE_def unat_word_ariths unat_of_nat_u64)
  have uw: "unat ?w = 0xFFFFFFFF80000000 + ?B" using unat_kernel [OF B(2)] by simp
  have uv: "unat (KERNEL_VMA_OFFSET + of_nat (list_page e)) = 0xFFFFFFFF80000000 + list_page e"
    using x(3) by (intro unat_kernel) simp
  have nz: "?n \<noteq> 0" using un n(1) by auto
  have last: "?w + ?n - 1 \<le> 0xFFFFFFFF80200000 + 0x7FE00000 - 1"
    using unat_last_byte [of ?n ?w] uw un nz x(3) by (simp add: word_le_nat_alt list_page_def)
  have "0xFFFFFFFF80200000 \<le> ?w" using uw B(1) by (simp add: word_le_nat_alt)
  then have "area ?w ?n \<subseteq> area 0xFFFFFFFF80200000 0x7FE00000"
    using area_inside(1) [of "0x7FE00000" "0xFFFFFFFF80200000" ?n ?w, OF _ _ nz _ _ last] uw un x(3) by (auto simp: list_page_def)
  moreover have "area ?w ?n \<inter> area (KERNEL_VMA_OFFSET + of_nat (list_page e)) 0x1000 = {}"
    using uw un uv x(3) by (intro area_disjoint_below) (simp_all add: list_page_def)
  moreover have "area 0x200000 0x1000 \<inter> area ?w ?n = {}"
    using uw un x(3) by (intro area_disjoint_below) (simp_all add: list_page_def)
  ultimately show ?thesis using s by (auto simp: heap_ready_def initial_free_def)
qed

subsection \<open>Properties\<close>

lemma kernel_memory_boots:
  assumes "boot_ok (kpaging s)" "enable_kernel_page_protection stack (c, paging_early_init (kpaging s)) = Some (Inr (c', ps))"
    "\<forall>(a, b) \<in> set (kernel_sections (syms (kpaging s))). section_ok a b" "stack mod PAGE_SIZE = 0"
    "get_memory_map ms = Inr mmap" "region_ok (mmap ! 0)"
    "length (nodes (kvma s)) = NODES_PER_PAGE" "free_list_size (kvma s) = 0"
  shows "map_fits (mmap ! 0) \<Longrightarrow> \<exists>s'. memory_finish_init ms (s\<lparr>kpaging := ps\<rparr>) = Inr s' \<and> heap_ready (mmap ! 0) s' \<and> heap_fresh (mmap ! 0) s' \<and>
    malloc_lock s' = malloc_lock s \<and> 3 \<le> length (free_tables (kpaging s'))"
    "\<not> map_fits (mmap ! 0) \<Longrightarrow> memory_finish_init ms (s\<lparr>kpaging := ps\<rparr>) = Inl (Panicked ''page fault'')"
proof -
  have al: "aligned stack" using assms(4) by (simp add: mod_PAGE_SIZE)
  have sec: "\<forall>(a, b) \<in> set (kernel_sections (syms (paging_early_init (kpaging s)))). section_ok a b" using assms(3) by simp
  have run: "protect_kernel_pages stack (paging_early_init (kpaging s)) = Some (Inr ps)"
    using assms(2) by (simp add: enable_protection_Inr)
  have p: "protects (paging_early_init (kpaging s)) ps"
    by (rule protect_pages_protects [OF early_init_wf [OF assms(1)] run sec al])
  have tabs: "boot_tables (kpaging (s\<lparr>kpaging := ps\<rparr>))"
    using protects_boot_tables [OF p early_init_boot_tables [OF assms(1)]] by simp
  have "free_tables ps = static_list (syms (kpaging s))"
    using p boot_free_tables [OF assms(1)] by (simp add: protects_def)
  then have len: "length (free_tables (kpaging (s\<lparr>kpaging := ps\<rparr>))) = 8" by (simp add: static_list_def MAX_STATIC_TABLES_def)
  then have five: "5 \<le> length (free_tables (kpaging (s\<lparr>kpaging := ps\<rparr>)))" by simp
  show "map_fits (mmap ! 0) \<Longrightarrow> \<exists>s'. memory_finish_init ms (s\<lparr>kpaging := ps\<rparr>) = Inr s' \<and> heap_ready (mmap ! 0) s' \<and>
      heap_fresh (mmap ! 0) s' \<and> malloc_lock s' = malloc_lock s \<and> 3 \<le> length (free_tables (kpaging s'))"
    using memory_finish_init_boots [OF assms(5,6) tabs five] assms(7,8) len by auto
  have two: "2 \<le> length (free_tables ps)" using len by simp
  have tabs': "boot_tables ps" using tabs by simp
  show "\<not> map_fits (mmap ! 0) \<Longrightarrow> memory_finish_init ms (s\<lparr>kpaging := ps\<rparr>) = Inl (Panicked ''page fault'')"
    using pma_early_init_boots(2) [OF assms(5,6) tabs' two] by (simp add: memory_finish_init_def)
qed


definition sample_machine :: alloc_state where
  "sample_machine = sample_heap\<lparr>kpaging := sample_boot, kvma := \<lparr>virtual_free_list = 0,
     nodes = replicate NODES_PER_PAGE \<lparr>node_base = 0, node_size = 0, node_next = None\<rparr>,
     free_list_size = 0, max_free_list_size = 0\<rparr>\<rparr>"

definition sample_map :: memory_state where
  "sample_map = \<lparr>g_memory_map = [\<lparr>entry_base = 0x300000, entry_length = 0x1000000, entry_type = usable, extended_attributes = 1\<rparr>],
     g_num_of_memory_map_entries = 1\<rparr>"

lemma sample_map_region:
  assumes "m = sample_map\<lparr>g_memory_map := [\<lparr>entry_base = 0x300000, entry_length = l, entry_type = usable, extended_attributes = 1\<rparr>]\<rparr>"
    "0x10000 \<le> unat l" "unat l \<le> 0x3FD00000"
  shows "get_memory_map m = Inr (g_memory_map m)" "region_ok (g_memory_map m ! 0)"
  using assms by (simp_all add: get_memory_map_def sample_map_def region_ok_def)

lemma sample_machine_start:
  "kpaging sample_machine = sample_boot" "length (nodes (kvma sample_machine)) = NODES_PER_PAGE"
  "free_list_size (kvma sample_machine) = 0" "\<not> locked (malloc_lock sample_machine)"
  by (simp_all add: sample_machine_def sample_heap_def new_mutex_def)


end
