(* ===== verification/Boot_Heap.thy ===== *)
theory Boot_Heap
  imports Boot_Memory
begin

text \<open>
  The first allocation after boot: \<^verbatim>\<open>memory::finish_init\<close> of src/kernel/memory.cpp followed by
  \<^verbatim>\<open>alloc::alloc\<close> of src/kernel/alloc.cpp. No step of the composed run is assumed: where the heap works it
  is proved to return, and where the search of the page bitmap fails this is the result.
\<close>

lemma window_paths:
  assumes "i < 511" shows "path_of (page_at 0x201000 i) = [Suc i, 1, 0, 0]"
proof -
  have "page_at 0x201000 i = of_nat (0x201000 + 4096 * i)" by (simp add: page_at_def PAGE_SIZE_def)
  moreover have "path_of (of_nat (0x201000 + 4096 * i)) = [(0x201000 + 4096 * i) div 4096 mod 512, (0x201000 + 4096 * i) div 2097152, 0, 0]"
    using assms by (intro path_of_window(2)) simp
  moreover have "(0x201000 + 4096 * i) div 4096 = 513 + i" "(0x201000 + 4096 * i) div 2097152 = 1" using assms by simp_all
  moreover have "(513 + i) mod 512 = Suc i" using assms mod_add_self1 [of 512 "Suc i"] by (simp del: mod_add_self1)
  ultimately show ?thesis by simp
qed

lemma window_free_paths:
  assumes "window_free ps" "pt_wf ps" "k < 512" shows "pages_backable k 0x201000 ps"
  using assms window_paths by (auto simp: page_paths_def window_free_def pages_backable_def)

lemma size_page_multiple:
  assumes "unat sz = 4096 * k" "0 < k" "k \<le> 505"
  shows "sz \<noteq> 0" "sz mod PAGE_SIZE = 0" "sz < 0x3FFFFDFF000"
proof -
  show "sz \<noteq> 0" using assms by auto
  have "unat (sz mod PAGE_SIZE) = 0" using assms(1) by (simp add: unat_mod PAGE_SIZE_def)
  then show "sz mod PAGE_SIZE = 0" by (simp only: unat_eq_zero)
  show "sz < 0x3FFFFDFF000" using assms by (simp add: word_less_nat_alt)
qed

lemma heap_freshD:
  assumes "heap_fresh r s"
  shows "taken_first 2 (kpma s)" "i < 64 \<Longrightarrow> page_addr (kpma s) i = of_nat (list_page r + 4096 * i)" "window_free (kpaging s)"
    "sz \<noteq> 0 \<Longrightarrow> sz mod PAGE_SIZE = 0 \<Longrightarrow> sz < 0x3FFFFDFF000 \<Longrightarrow> \<exists>vs. get_virtual_pages sz (kvma s) = Inr (0x201000, vs) \<and>
       free_virtual_pages 0x201000 sz vs = Inr (kvma s)"
    "first_allocation s = 0x200000" "node_pages_of (heap s) 0x200000 = 0"
    "0 < k \<Longrightarrow> k \<le> 505 \<Longrightarrow> find_node (heap s) (of_nat k) 0x200000 0 = Some (0x200000, 24, False)"
  using assms unfolding heap_fresh_def by auto

lemma heap_readyD:
  assumes "heap_ready r s"
  shows "vma_inv (kvma s)" "bases_aligned (kvma s)" "pages_ok (kpma s)" "pt_wf (kpaging s)"
    "taken_pages (kpma s) = {of_nat (list_page r), of_nat (list_page r + 4096)}"
    "0 < k \<Longrightarrow> k \<le> 505 \<Longrightarrow> list_room (free_area (kvma s)) k s" "0x200000 \<notin> free_area (kvma s)"
  using assms by (auto simp: heap_ready_def area_def simp del: of_nat_add)

text \<open>The result of the first allocation; its node is the second of the list.\<close>

definition first_allocated :: "memory_map_entry \<Rightarrow> u64 \<Rightarrow> nat \<Rightarrow> protection \<Rightarrow> alloc_state \<Rightarrow> alloc_state \<Rightarrow> bool" where
  "first_allocated r n e p s s' \<longleftrightarrow>
     allocated n (2 ^ e) p 0x201000 0x200018 (map (\<lambda>i. of_nat (list_page r + 4096 * i)) [2..<2 + pages_for n (2 ^ e)]) s s' \<and>
     free_virtual_pages 0x201000 (size_with_header n (2 ^ e)) (kvma s') = Inr (kvma s) \<and>
     first_allocation s' = 0x200000 \<and> node_next_of (heap s') 0x200000 = 0x200018"

lemma first_alloc:
  assumes s: "heap_ready r s" "heap_fresh r s" "\<not> locked (malloc_lock s)"
    and n: "n \<noteq> 0" "unat n < 2 ^ 40" "e \<le> 12" "pages_for n (2 ^ e) \<le> 505"
  shows "if pages_for n (2 ^ e) \<le> 30
    then \<exists>s'. alloc n (2 ^ e) p s = Inr (0x201000 + padded_header_size (2 ^ e), s') \<and> first_allocated r n e p s s'
    else alloc n (2 ^ e) p s = Inl (Undefined_behaviour ''shift count exceeds the width of int'')"
proof -
  let ?k = "pages_for n (2 ^ e)" and ?sz = "size_with_header n (2 ^ e)"
  note sb = size_bounds [OF n(3,2)] and f = heap_freshD [OF s(2)] and r = heap_readyD [OF s(1)]
  obtain vs where v: "get_virtual_pages ?sz (kvma s) = Inr (0x201000, vs)" "free_virtual_pages 0x201000 ?sz vs = Inr (kvma s)"
    using f(4) [OF size_page_multiple [OF sb(2,4) n(4)]] by blast
  have win: "pages_backable ?k 0x201000 (kpaging s)" using n(4) by (intro window_free_paths [OF f(3) r(4)]) simp
  have "(2 :: nat) \<le> 32" by simp
  note run = alloc_first_pages [OF n(1-3) s(3) r(1-3) v(1) r(6) [OF sb(4) n(4)] f(1) this win, of p]
  show ?thesis
  proof (cases "?k \<le> 30")
    case True
    then have le: "2 + ?k \<le> 32" by simp
    from run [unfolded if_P [OF le]] obtain node s' where
      s': "alloc n (2 ^ e) p s = Inr (0x201000 + padded_header_size (2 ^ e), s')"
        "allocated n (2 ^ e) p 0x201000 node (map (page_addr (kpma s)) [2..<2 + ?k]) s s'" "kvma s' = vs"
        "\<And>cur sz. find_node (heap s) (of_nat ?k) (first_allocation s) 0 = Some (cur, sz, False) \<Longrightarrow> cur \<notin> free_area (kvma s) \<Longrightarrow>
           unat (node_pages_of (heap s) cur) < 2 ^ 40 \<Longrightarrow> node = node_slot (heap s) cur False \<and> node_next_of (heap s') cur = node"
      by blast
    have "find_node (heap s) (of_nat ?k) (first_allocation s) 0 = Some (0x200000, 24, False)"
      unfolding f(5) by (rule f(7) [OF sb(4) n(4)])
    from s'(4) [OF this r(7)] have node: "node = 0x200018" "node_next_of (heap s') 0x200000 = 0x200018"
      using f(6) by (auto simp: node_slot_def ALLOCATION_SIZE_def)
    have "map (page_addr (kpma s)) [2..<2 + ?k] = map (\<lambda>i. of_nat (list_page r + 4096 * i)) [2..<2 + ?k]"
      using le by (intro map_cong refl f(2)) (simp only: set_upt atLeastLessThan_iff, linarith)
    moreover have "first_allocation s' = 0x200000" using s'(2) f(5) by (auto simp: allocated_def Let_def)
    ultimately have "first_allocated r n e p s s'" using s'(2,3) v(2) node by (simp only: first_allocated_def simp_thms)
    then show ?thesis using s'(1) True by auto
  next
    case False
    then have "\<not> 2 + ?k \<le> 32" by simp
    then show ?thesis using run unfolding if_not_P [OF False] by (simp only: if_False)
  qed
qed

text \<open>The area is one run of physical memory from the third page on.\<close>

lemma first_alloc_physical:
  assumes al: "allocated n (2 ^ e) p 0x201000 node (map (\<lambda>i. of_nat (x + 4096 * i)) [2..<2 + pages_for n (2 ^ e)]) s s'"
    and e: "e \<le> 12" and n: "unat n < 2 ^ 40" and d: "d < 4096 * pages_for n (2 ^ e)"
  shows "get_physical_address (kpaging s') (0x201000 + of_nat d) = Inr (of_nat (x + 0x2000 + d))"
proof -
  let ?k = "pages_for n (2 ^ e)" and ?x = "0x201000 + of_nat d :: u64"
  note sb = size_bounds [OF e n]
  have "d < 2 ^ 64" using d sb(3) by simp
  then have u: "unat (?x - 0x201000) = d" by (simp add: unat_of_nat_u64)
  then have x: "?x \<in> area 0x201000 (size_with_header n (2 ^ e))" using d sb(2) by (simp add: area_def word_less_nat_alt)
  have i: "d div 4096 < ?k" using d by (simp add: less_mult_imp_div_less)
  have nth: "map f [2..<2 + ?k] ! (d div 4096) = f (2 + d div 4096)" for f :: "nat \<Rightarrow> u64" using i by (intro nth_map_upt) simp
  have "x + 0x2000 + d = x + 4096 * (2 + d div 4096) + d mod 4096" by simp
  then have "of_nat (x + 0x2000 + d) = (of_nat (x + 4096 * (2 + d div 4096)) + of_nat (d mod 4096) :: u64)"
    by (simp only: of_nat_add [symmetric])
  then show ?thesis
    using allocated_physical [OF al e n x] unfolding u nth by (simp only:)
qed

lemma allocated_taken: "allocated n a p vbase node ps s s' \<Longrightarrow> taken_pages (kpma s') = taken_pages (kpma s) \<union> set ps"
  by (auto simp: allocated_def backed_def Let_def)

lemma first_alloc_taken:
  assumes al: "allocated n (2 ^ e) p vbase node (map (\<lambda>i. of_nat (x + 4096 * i)) [2..<2 + k]) s s'"
    and s: "taken_pages (kpma s) = {of_nat x, of_nat (x + 4096)}"
  shows "taken_pages (kpma s') = (\<lambda>i. of_nat (x + 4096 * i)) ` {..<2 + k}"
proof -
  have "taken_pages (kpma s') = {of_nat x, of_nat (x + 4096)} \<union> (\<lambda>i. of_nat (x + 4096 * i)) ` {2..<2 + k}"
    using allocated_taken [OF al] s by (simp only: set_map set_upt)
  moreover have "{..<2 + k} = {0, 1} \<union> {2..<2 + k}" by auto
  ultimately show ?thesis by (simp add: image_Un del: of_nat_add of_nat_mult)
qed

text \<open>Freeing it takes everything back.\<close>

lemma first_alloc_frees:
  assumes al: "first_allocated r n e p s s'" and e: "e \<le> 12" and n: "unat n < 2 ^ 40"
  shows "\<exists>s2. alloc_free (0x201000 + padded_header_size (2 ^ e)) s' = Inr s2 \<and> kvma s2 = kvma s \<and>
    taken_pages (kpma s2) = taken_pages (kpma s) \<and>
    (\<forall>q. valid_path q \<longrightarrow> translation (kpaging s2) q = translation (kpaging s) q) \<and> \<not> locked (malloc_lock s2)"
proof -
  note a = al [unfolded first_allocated_def]
  have "node_before (heap s') 0x200018 0x200000 = Some 0x200000" using a by (subst node_before.simps) simp
  moreover have "0x201000 + padded_header_size (2 ^ e) \<noteq> 0"
  proof -
    have "unat (0x201000 + padded_header_size (2 ^ e)) = 0x201000 + unat (padded_header_size (2 ^ e))"
      using header_bounds(2) [OF e] by (subst unat_add_u64) simp_all
    then show ?thesis by auto
  qed
  ultimately show ?thesis
    using a allocated_frees [OF _ e n, of p "0x201000" "0x200018" _ s s' "0x200000" "kvma s"] by fastforce
qed

text \<open>
  C5. The first allocation after boot: with the tables \<^verbatim>\<open>early_init\<close> and the page protection leave, a first
  region as in C4 whose page bitmap does not fill whole pages, and the heap's lock free, \<^verbatim>\<open>memory::finish_init\<close> succeeds and \<^verbatim>\<open>alloc\<close> of a size whose area has up to 30 pages then
  returns the first address after the header at \<^verbatim>\<open>0x201000\<close>; the area is backed by consecutive physical pages from the
  third of the region on, and exactly these and the two of the lists are taken. \<^verbatim>\<open>free\<close> of the address succeeds and restores
  the free list of addresses, the pages taken and every translation. An area of 31 to 505 pages
  runs into the undefined shift of the bitmap's search instead.
\<close>

theorem first_allocation_after_boot:
  assumes "boot_ok (kpaging s)" "enable_kernel_page_protection stack (c, paging_early_init (kpaging s)) = Some (Inr (c', ps))"
    "\<forall>(a, b) \<in> set (kernel_sections (syms (kpaging s))). section_ok a b" "stack mod PAGE_SIZE = 0"
    "get_memory_map ms = Inr mmap" "region_ok (mmap ! 0)" "unat (size_required (entry_length (mmap ! 0) div PAGE_SIZE)) mod 4096 \<noteq> 0"
    "length (nodes (kvma s)) = NODES_PER_PAGE" "free_list_size (kvma s) = 0" "\<not> locked (malloc_lock s)"
    "n \<noteq> 0" "unat n < 2 ^ 40" "e \<le> 12" "pages_for n (2 ^ e) \<le> 505"
  shows "\<exists>s1. memory_finish_init ms (s\<lparr>kpaging := ps\<rparr>) = Inr s1 \<and>
    (if pages_for n (2 ^ e) \<le> 30
     then \<exists>s2 s3. alloc n (2 ^ e) p s1 = Inr (0x201000 + padded_header_size (2 ^ e), s2) \<and>
       (\<forall>d < 4096 * pages_for n (2 ^ e). get_physical_address (kpaging s2) (0x201000 + of_nat d) =
          Inr (of_nat (list_page (mmap ! 0) + 0x2000 + d))) \<and>
       taken_pages (kpma s2) = (\<lambda>i. of_nat (list_page (mmap ! 0) + 4096 * i)) ` {..<2 + pages_for n (2 ^ e)} \<and>
       alloc_free (0x201000 + padded_header_size (2 ^ e)) s2 = Inr s3 \<and> kvma s3 = kvma s1 \<and>
       taken_pages (kpma s3) = taken_pages (kpma s1) \<and>
       (\<forall>va. translation (kpaging s3) (path_of va) = translation (kpaging s1) (path_of va)) \<and> \<not> locked (malloc_lock s3)
     else alloc n (2 ^ e) p s1 = Inl (Undefined_behaviour ''shift count exceeds the width of int''))"
proof -
  let ?k = "pages_for n (2 ^ e)" and ?r = "mmap ! 0"
  from kernel_memory_boots(1) [OF assms(1-6,8,9)] assms(7) map_bytes(2) [OF assms(6)] obtain s1 where
    s1: "memory_finish_init ms (s\<lparr>kpaging := ps\<rparr>) = Inr s1" "heap_ready ?r s1" "heap_fresh ?r s1" "malloc_lock s1 = malloc_lock s"
    by blast
  have "\<not> locked (malloc_lock s1)" using s1(4) assms(10) by simp
  note run = first_alloc [OF s1(2,3) this assms(11-14), of p]
  show ?thesis
  proof (cases "?k \<le> 30")
    case True
    from run [unfolded if_P [OF True]] obtain s2 where
      s2: "alloc n (2 ^ e) p s1 = Inr (0x201000 + padded_header_size (2 ^ e), s2)" "first_allocated ?r n e p s1 s2" by blast
    then have al: "allocated n (2 ^ e) p 0x201000 0x200018 (map (\<lambda>i. of_nat (list_page ?r + 4096 * i)) [2..<2 + ?k]) s1 s2"
      by (simp only: first_allocated_def)
    from first_alloc_frees [OF s2(2) assms(13,12)] obtain s3 where
      "alloc_free (0x201000 + padded_header_size (2 ^ e)) s2 = Inr s3" "kvma s3 = kvma s1"
      "taken_pages (kpma s3) = taken_pages (kpma s1)" "\<not> locked (malloc_lock s3)"
      "\<forall>va. translation (kpaging s3) (path_of va) = translation (kpaging s1) (path_of va)" using valid_path_of by blast
    then show ?thesis
      unfolding if_P [OF True] using s1(1) s2(1) first_alloc_taken [OF al heap_readyD(5) [OF s1(2)]]
        first_alloc_physical [OF al assms(13,12)] by blast
  qed (use s1(1) run in auto)
qed

theorem first_allocation_after_boot_witness:
  "\<exists>ps s1 s2. memory_finish_init sample_map (sample_machine\<lparr>kpaging := ps\<rparr>) = Inr s1 \<and>
     alloc 100 (2 ^ 4) READ_WRITE s1 = Inr (0x201010, s2) \<and> get_physical_address (kpaging s2) 0x201010 = Inr 0x303010 \<and>
     (\<exists>s3. alloc_free 0x201010 s2 = Inr s3 \<and> kvma s3 = kvma s1)"
proof -
  obtain c ps where run: "enable_kernel_page_protection 0xFFFFFFFF80150000 (sample_cpu 0x80000013, paging_early_init sample_boot) = Some (Inr (c, ps))"
    using sample_enables by blast
  note k = sample_machine_start
  have "sample_map = sample_map\<lparr>g_memory_map := [\<lparr>entry_base = 0x300000, entry_length = 0x1000000, entry_type = usable, extended_attributes = 1\<rparr>]\<rparr>"
    by (simp add: sample_map_def)
  from sample_map_region [OF this]
  have m: "get_memory_map sample_map = Inr (g_memory_map sample_map)" "region_ok (g_memory_map sample_map ! 0)" by simp_all
  have fill: "unat (size_required (entry_length (g_memory_map sample_map ! 0) div PAGE_SIZE)) mod 4096 \<noteq> 0"
    by (simp add: sample_map_def size_required_def div_ceil_def PAGE_SIZE_def)
  have "(0xFFFFFFFF80150000 :: u64) mod PAGE_SIZE = 0" by (simp add: PAGE_SIZE_def)
  from first_allocation_after_boot [of sample_machine, unfolded k(1), OF sample_boot_ok run sample_sections_ok this m fill k(2-4), of 100 4 READ_WRITE]
  obtain s1 s2 s3 where s: "memory_finish_init sample_map (sample_machine\<lparr>kpaging := ps\<rparr>) = Inr s1"
    "alloc 100 (2 ^ 4) READ_WRITE s1 = Inr (0x201000 + padded_header_size (2 ^ 4), s2)"
    "\<forall>d < 4096 * pages_for 100 (2 ^ 4). get_physical_address (kpaging s2) (0x201000 + of_nat d) =
       Inr (of_nat (list_page (g_memory_map sample_map ! 0) + 0x2000 + d))"
    "alloc_free (0x201000 + padded_header_size (2 ^ 4)) s2 = Inr s3" "kvma s3 = kvma s1"
    using sample_heap_sizes(3) by auto
  have "list_page (g_memory_map sample_map ! 0) = 0x301000"
    by (simp add: sample_map_def list_page_def map_pages_def size_required_def div_ceil_def PAGE_SIZE_def)
  then have "get_physical_address (kpaging s2) 0x201010 = Inr 0x303010"
    using s(3) [rule_format, of 16] sample_heap_sizes(3) by simp
  then show ?thesis using s(1,2,4,5) sample_heap_sizes(1) by auto
qed

end
