(* ===== verification/Paging_Safety.thy ===== *)
theory Paging_Safety
  imports Paging_Init
begin

text \<open>
  Type safety of the page tables. Well-formed tables are the type of the paging state: every operation that
  returns gives well-formed tables again, and one that stops does so for a reason its caller gave it - a
  misaligned address, a page that is already mapped or is not, tables that ran out. Two assertions on the iterator
  can fail only when a range is mapped that the iterator cannot name; the others on the iterator and the tables
  never do. The states are those any sequence of operations reaches from \<^verbatim>\<open>early_init\<close>.
\<close>

subsection \<open>Results\<close>

definition caller_fault :: "fault \<Rightarrow> bool" where
  "caller_fault f \<longleftrightarrow> f \<in> Assert_failed ` {''virtual address must be page-aligned!'', ''physical address must be page-aligned!'',
       ''virtual addresses must be page-aligned!'', ''physical addresses must be page-aligned!'',
       ''physical and virtual address range sizes must match!'', ''trying to map 0 pages?'',
       ''virtual address should be page-aligned!'', ''virtual start address should be page-aligned!'',
       ''virtual end address should be page-aligned!'',
       ''ran out of static tables before dynamic tables could be initialized!'',
       ''couldn't find an entry for address!'', ''entry not found!'', ''bss and stack overlap!''} \<or>
     f \<in> Panicked ` {''no more page tables!'', ''Tried to map already-present page!'', ''Tried to unmap non-present page''} \<or>
     (\<exists>what \<in> {''text'', ''rodata'', ''data'', ''bss'', ''stack''}.
        f \<in> Assert_failed ` {''no '' @ what @ '' page mapped?'', what @ '' page not present?''})"

text \<open>The two assertions on the iterator that a range can make fail.\<close>

definition iterator_fault :: "fault \<Rightarrow> bool" where
  "iterator_fault f \<longleftrightarrow>
     f \<in> Assert_failed ` {''iterator and virtual address out of sync!'', ''can't ascend from level 4 page iterator''}"

text \<open>Pages the iterator can name and step over: their addresses are sign extensions of 42 bits, and the last
  page of the address space is not among them.\<close>

definition nameable :: "u64 \<Rightarrow> nat \<Rightarrow> bool" where
  "nameable v n \<longleftrightarrow> (\<forall>k < n. sign_extend (page_at v k) 42 = page_at v k \<and> page_at v k \<noteq> - PAGE_SIZE)"

definition allowed :: "bool \<Rightarrow> fault \<Rightarrow> bool" where
  "allowed named f \<longleftrightarrow> caller_fault f \<or> \<not> named \<and> iterator_fault f"

definition sound_if :: "bool \<Rightarrow> ('a \<Rightarrow> bool) \<Rightarrow> 'a res \<Rightarrow> bool" where
  "sound_if named Q r = (case r of Inl f \<Rightarrow> allowed named f | Inr x \<Rightarrow> Q x)"

abbreviation sound :: "('a \<Rightarrow> bool) \<Rightarrow> 'a res \<Rightarrow> bool" where
  "sound \<equiv> sound_if True"

lemma sound_simps [simp]: "sound_if b Q (Inl f) = allowed b f" "sound_if b Q (Inr x) = Q x"
  by (simp_all add: sound_if_def)

lemma sound_rbind: "sound_if b P r \<Longrightarrow> (\<And>x. P x \<Longrightarrow> sound_if b Q (f x)) \<Longrightarrow> sound_if b Q (rbind r f)"
  by (cases r) simp_all

lemma sound_assert: "caller_fault (Assert_failed msg) \<Longrightarrow> (c \<Longrightarrow> sound_if b Q (f ())) \<Longrightarrow> sound_if b Q (rbind (assert_that c msg) f)"
  by (cases c) (simp_all add: allowed_def)

lemma sound_weaken: "sound Q r \<Longrightarrow> sound_if b Q r"
  by (cases r) (auto simp: allowed_def)

lemma caller_faults [simp]:
  "caller_fault (Assert_failed ''virtual address must be page-aligned!'')" "caller_fault (Assert_failed ''physical address must be page-aligned!'')"
  "caller_fault (Assert_failed ''virtual addresses must be page-aligned!'')" "caller_fault (Assert_failed ''physical addresses must be page-aligned!'')"
  "caller_fault (Assert_failed ''physical and virtual address range sizes must match!'')" "caller_fault (Assert_failed ''trying to map 0 pages?'')"
  "caller_fault (Assert_failed ''virtual address should be page-aligned!'')"
  "caller_fault (Assert_failed ''virtual start address should be page-aligned!'')"
  "caller_fault (Assert_failed ''virtual end address should be page-aligned!'')"
  "caller_fault (Assert_failed ''ran out of static tables before dynamic tables could be initialized!'')"
  "caller_fault (Assert_failed ''couldn't find an entry for address!'')" "caller_fault (Assert_failed ''entry not found!'')"
  "caller_fault (Assert_failed ''bss and stack overlap!'')" "caller_fault (Panicked ''no more page tables!'')"
  "caller_fault (Panicked ''Tried to map already-present page!'')" "caller_fault (Panicked ''Tried to unmap non-present page'')"
  unfolding caller_fault_def by (simp_all only: image_insert insert_iff simp_thms)

lemma allowed_caller [simp]: "caller_fault f \<Longrightarrow> allowed b f"
  by (simp add: allowed_def)

lemma iterator_faults [simp]:
  "allowed False (Assert_failed ''iterator and virtual address out of sync!'')"
  "allowed False (Assert_failed ''can't ascend from level 4 page iterator'')"
  by (simp_all add: allowed_def iterator_fault_def)

lemma section_faults:
  assumes "what \<in> {''text'', ''rodata'', ''data'', ''bss'', ''stack''}"
  shows "caller_fault (Assert_failed (''no '' @ what @ '' page mapped?''))" "caller_fault (Assert_failed (what @ '' page not present?''))"
  using assms unfolding caller_fault_def by blast+

subsection \<open>Descending\<close>

lemma allocate_page_level_fault: "free_tables s = [] \<Longrightarrow> sound Q (allocate_page_level s)"
  by (auto simp: allocate_page_level_def free_tables_def assert_that_def split: if_splits)

lemma allocate_and_descend_sound:
  assumes "pt_wf s" "cursor (mem s) (pt_base s) it" "0 < it_level it"
  shows "sound (\<lambda>(it', s'). pt_wf s' \<and> cursor (mem s') (pt_base s') it' \<and> it_level it' = it_level it - 1 \<and> it_indices it' = it_indices it)
    (allocate_and_descend s it)"
proof (cases "free_tables s = [] \<and> mem s (cur_slot it) = 0")
  case False
  then consider "free_tables s \<noteq> []" | "mem s (cur_slot it) \<noteq> 0" by blast
  then show ?thesis
  proof cases
    case 1
    then show ?thesis using allocate_and_descend_cursor [OF assms] by auto
  next
    case 2
    then show ?thesis using allocate_and_descend_existing [OF assms] assms(1) by (simp add: enter_table_def)
  qed
next
  case True
  obtain L where "pt_inv L s" using assms(1) by (auto simp: pt_wf_def)
  then have tree: "tree_inv L (mem s) (pt_base s)" by (simp add: pt_inv_def)
  have i: "it_indices it ! it_level it < 512" by (rule cursor_index [OF assms(2)])
  obtain f where f: "allocate_page_level s = Inl f" using allocate_page_level_Nil True by blast
  then have "caller_fault f" using allocate_page_level_fault [of s "\<lambda>_. True"] True by (simp add: allowed_def)
  then show ?thesis
    using cursor_ops [OF assms(2) tree] i assms(3) True f
    by (simp add: allocate_and_descend_def level_def NUM_PAGE_TABLE_ENTRIES_def)
qed

lemma step_down_loop_sound:
  assumes "pt_wf s" "cursor (mem s) (pt_base s) it"
  shows "sound (\<lambda>(it', s'). pt_wf s' \<and> cursor (mem s') (pt_base s') it' \<and> it_level it' = 0 \<and> it_indices it' = it_indices it)
    (step_down_loop it s)"
  using assms
proof (induction "it_level it" arbitrary: it s)
  case 0
  then show ?case by (simp add: step_down_loop_steps(1))
next
  case (Suc n)
  then have pos: "0 < it_level it" "it_level it \<noteq> 0" by simp_all
  show ?case
    unfolding step_down_loop_steps(2) [OF pos(2)]
  proof (rule sound_rbind [OF allocate_and_descend_sound [OF Suc.prems pos(1)]])
    fix x :: "page_iter \<times> paging_state"
    assume x: "case x of (it', s') \<Rightarrow> pt_wf s' \<and> cursor (mem s') (pt_base s') it' \<and> it_level it' = it_level it - 1 \<and> it_indices it' = it_indices it"
    obtain it' s' where "x = (it', s')" by (cases x)
    then show "sound (\<lambda>(it', s'). pt_wf s' \<and> cursor (mem s') (pt_base s') it' \<and> it_level it' = 0 \<and> it_indices it' = it_indices it)
        (case x of (it', s') \<Rightarrow> step_down_loop it' s')"
      using x Suc.hyps(1) [of it' s'] Suc.hyps(2) by simp
  qed
qed

lemma pt_get_sound:
  assumes "pt_wf s"
  shows "sound (\<lambda>(it, s'). pt_wf s' \<and> cursor (mem s') (pt_base s') it \<and> it_level it = 0 \<and> it_indices it = path_of va) (pt_get s va)"
proof -
  have "allocate_set s" using assms by (auto simp: pt_wf_def pt_inv_def)
  moreover have "it_indices (iter_at (pt_base s) va) = path_of va" by (simp add: iter_at_def path_of_def)
  ultimately show ?thesis using step_down_loop_sound [OF assms cursor_iter_at, of va] pt_get_step_down by simp
qed

subsection \<open>Mapping\<close>

lemma map_page_at_sound:
  assumes "pt_wf s" "cursor (mem s) (pt_base s) it" "it_level it = 0"
  shows "sound (\<lambda>(v, s'). pt_wf s' \<and> cursor (mem s') (pt_base s') it) (map_page_at p it attrs s)"
proof (cases "aligned (virtual_page_address it) \<and> aligned p")
  case True
  then show ?thesis
    using map_page_at_cursor [OF assms, of p attrs] map_page_at_effect [OF assms, of "virtual_page_address it" "p OR attrs"]
    by (simp add: Let_def or.assoc)
next
  case False
  then show ?thesis by (cases "aligned (virtual_page_address it)") (simp_all add: map_page_at_def mod_PAGE_SIZE Let_def)
qed

lemma map_page_sound:
  assumes "pt_wf s" shows "sound (\<lambda>(v, s'). pt_wf s') (map_page p va attrs s)"
  unfolding map_page_def
proof (rule sound_assert, simp, rule sound_rbind [OF pt_get_sound [OF assms]], safe)
  fix it s' assume "pt_wf s'" "cursor (mem s') (pt_base s') it" "it_level it = 0"
  from map_page_at_sound [OF this, of p attrs] show "sound (\<lambda>(v, s'). pt_wf s') (map_page_at p it attrs s')"
    by (auto simp: sound_if_def split: sum.splits)
qed

lemma path_digits:
  assumes "valid_path p" "\<not> path_number p + 1 < 2 ^ 36" shows "p = [511, 511, 511, 511]"
proof -
  obtain x0 x1 x2 x3 where ix: "p = [x0, x1, x2, x3]" using assms(1) by (auto simp: valid_path_def length_4_conv)
  have lt: "x0 < 512" "x1 < 512" "x2 < 512" "x3 < 512" using assms(1) ix by (simp_all add: valid_path_def all_less_4)
  then show ?thesis using assms(2) by (simp add: path_number_def ix)
qed

lemma step_up_loop_sound:
  assumes "cursor m b it" "it_level it = 0" "named \<Longrightarrow> path_number (it_indices it) + 1 < 2 ^ 36"
  shows "sound_if named (\<lambda>it'. cursor m b it' \<and> (named \<longrightarrow> path_number (it_indices it') = path_number (it_indices it) + 1)) (step_up_loop it)"
proof (cases "path_number (it_indices it) + 1 < 2 ^ 36")
  case True
  then show ?thesis using step_up_loop_cursor [OF assms(1,2)] by auto
next
  case False
  have v: "valid_path (it_indices it)" using assms(1) by (simp add: cursor_def)
  have "\<not> named" using False assms(3) by blast
  then show ?thesis using step_up_loop_digits [OF assms(2) path_digits [OF v False]] by simp
qed

text \<open>The last page of the 36-bit path space that is a sign extension of 42 bits is the last of the address space.\<close>

lemma last_nameable:
  assumes "aligned v" "sign_extend v 42 = v" "v \<noteq> - PAGE_SIZE"
  shows "path_number (path_of v) + 1 < 2 ^ 36"
proof (rule ccontr)
  assume "\<not> path_number (path_of v) + 1 < 2 ^ 36"
  then have p: "path_of v = [511, 511, 511, 511]" by (rule path_digits [OF valid_path_of])
  then have "path_number (path_of v) = 2 ^ 36 - 1" by (simp add: path_number_def)
  then have "unat v div 2 ^ 12 mod 2 ^ 36 = 2 ^ 36 - 1" by (simp add: path_number_of)
  then have "unat (take_bit 36 (drop_bit 12 v)) = unat (mask 36 :: u64)"
    by (simp add: take_bit_eq_mod drop_bit_eq_div unat_mod unat_div mask_eq_exp_minus_1)
  then have m: "take_bit 36 (drop_bit 12 v) = mask 36" by (rule unsigned_word_eqI)
  have mid: "bit v j" if "12 \<le> j" "j < 48" for j
  proof -
    have "bit (take_bit 36 (drop_bit 12 v)) (j - 12)" unfolding m using that by (auto simp: bit_mask_iff possible_bit_word)
    then show ?thesis using that by (simp add: bit_take_bit_iff bit_drop_bit_eq)
  qed
  have high: "bit v j" if "42 \<le> j" "j < 64" for j
  proof -
    have "bit (sign_extend v 42) j" using that mid [of 41] by (simp add: bit_sign_extend)
    then show ?thesis by (simp only: assms(2))
  qed
  have low: "\<not> bit v j" if "j < 12" for j
    using assms(1) that unfolding aligned_def by (metis bit_0_eq bit_take_bit_iff bot_apply bot_bool_def)
  have "v = - PAGE_SIZE"
  proof (rule bit_eqI)
    fix j assume "possible_bit TYPE(u64) j"
    then have "j < 64" by (simp add: possible_bit_word)
    moreover have "- PAGE_SIZE = NOT (mask 12)" by (simp add: PAGE_SIZE_def mask_eq_exp_minus_1 not_eq_complement)
    ultimately show "bit v j = bit (- PAGE_SIZE) j"
      using low [of j] mid [of j] high [of j] by (cases "j < 12"; cases "j < 48") (simp_all add: bit_not_iff bit_mask_iff possible_bit_word)
  qed
  then show False using assms(3) by simp
qed

lemma nameable_Suc: "nameable v (Suc n) \<longleftrightarrow> sign_extend v 42 = v \<and> v \<noteq> - PAGE_SIZE \<and> nameable (v + PAGE_SIZE) n"
  unfolding nameable_def All_less_Suc2 page_at_Suc by auto

lemma map_range_loop_sound:
  assumes "pt_wf s" "cursor (mem s) (pt_base s) it" "it_level it = 0" "named \<longrightarrow> it_indices it = path_of v \<and> aligned v \<and> nameable v n"
  shows "sound_if named pt_wf (map_range_loop n p v attrs it s)"
  using assms
proof (induction n arbitrary: p v it s)
  case (Suc n)
  have sync: "named \<longrightarrow> virtual_page_address it = v" "named \<Longrightarrow> path_number (it_indices it) + 1 < 2 ^ 36"
    using Suc.prems(4) virtual_page_address_path [of it v] last_nameable [of v] by (auto simp: nameable_Suc)
  have "sound_if named pt_wf (rbind (map_page_at p it attrs s) (\<lambda>(_, s1). rbind (step_up_loop it) (\<lambda>it1. rbind (step_down_loop it1 s1)
        (\<lambda>(it2, s2). map_range_loop n (p + PAGE_SIZE) (v + PAGE_SIZE) attrs it2 s2))))"
  proof (rule sound_rbind [OF sound_weaken [OF map_page_at_sound [OF Suc.prems(1-3)]]])
    fix x :: "u64 \<times> paging_state"
    assume x: "case x of (v, s') \<Rightarrow> pt_wf s' \<and> cursor (mem s') (pt_base s') it"
    obtain w s1 where x': "x = (w, s1)" by (cases x)
    with x have s1: "pt_wf s1" "cursor (mem s1) (pt_base s1) it" by simp_all
    have "sound_if named pt_wf (rbind (step_down_loop it1 s1) (\<lambda>(it2, s2). map_range_loop n (p + PAGE_SIZE) (v + PAGE_SIZE) attrs it2 s2))"
      if it1: "cursor (mem s1) (pt_base s1) it1 \<and> (named \<longrightarrow> path_number (it_indices it1) = path_number (it_indices it) + 1)" for it1
    proof -
      have "valid_path (it_indices it1)" using it1 by (simp add: cursor_def)
      then have "named \<longrightarrow> it_indices it1 = path_of (v + PAGE_SIZE) \<and> aligned (v + PAGE_SIZE) \<and> nameable (v + PAGE_SIZE) n"
        using Suc.prems(4) it1 path_of_next [of v "it_indices it1"] by (auto simp: nameable_Suc aligned_add)
      then show ?thesis
        using it1 by (intro sound_rbind [OF sound_weaken [OF step_down_loop_sound [OF s1(1)]]]) (auto intro: Suc.IH)
    qed
    from sound_rbind [OF step_up_loop_sound [OF s1(2) Suc.prems(3) sync(2)] this]
    show "sound_if named pt_wf (case x of (_, s1) \<Rightarrow> rbind (step_up_loop it) (\<lambda>it1. rbind (step_down_loop it1 s1)
        (\<lambda>(it2, s2). map_range_loop n (p + PAGE_SIZE) (v + PAGE_SIZE) attrs it2 s2)))" by (simp add: x')
  qed
  then show ?case using sync(1) by (cases named; cases "virtual_page_address it = v") simp_all
qed simp

lemma map_range_sound:
  assumes "pt_wf s" shows "sound_if (nameable v0 (pages_between p0 p1)) (\<lambda>(v, s'). pt_wf s') (map_range p0 p1 v0 v1 attrs s)"
  unfolding map_range_def
proof (intro sound_assert, simp, simp, simp, rule sound_rbind [OF sound_weaken [OF pt_get_sound [OF assms]]], goal_cases)
  case (1 x)
  obtain it s' where x: "x = (it, s')" by (cases x)
  then have it: "pt_wf s'" "cursor (mem s') (pt_base s') it" "it_level it = 0" "it_indices it = path_of v0" using 1 by simp_all
  have "aligned v0" using 1 by (simp add: mod_PAGE_SIZE)
  then have "nameable v0 (pages_between p0 p1) \<longrightarrow> it_indices it = path_of v0 \<and> aligned v0 \<and> nameable v0 (pages_between p0 p1)"
    using it(4) by simp
  from map_range_loop_sound [OF it(1-3) this] have "sound_if (nameable v0 (pages_between p0 p1)) (\<lambda>(v, s'). pt_wf s')
      (rbind (map_range_loop (pages_between p0 p1) p0 v0 attrs it s') (\<lambda>s2. Inr (v0, s2)))"
    by (rule sound_rbind) simp
  then show ?case by (simp add: x)
qed

definition identity_pages :: "u64 \<Rightarrow> u64 \<Rightarrow> nat" where
  "identity_pages a n = pages_between a (a + align_to (n * PAGE_SIZE) PAGE_SIZE)"

lemma identity_map_sound:
  assumes "pt_wf s"
  shows "sound_if (nameable (a + KERNEL_VMA_OFFSET) (identity_pages a n)) (\<lambda>(v, s'). pt_wf s')
    (identity_map_pages_into_kernel_space a n attrs s)"
  unfolding identity_map_pages_into_kernel_space_def identity_map_page_range_into_kernel_space_def map_range_size_def Let_def identity_pages_def
  by (intro sound_assert map_range_sound [OF assms]) simp

subsection \<open>Rewriting entries\<close>

lemma unmap_page_sound:
  assumes wf: "pt_wf s" shows "sound pt_wf (unmap_page va s)"
proof (cases "aligned va")
  case True
  obtain L where inv: "pt_inv L s" using wf by (auto simp: pt_wf_def)
  then have tree: "tree_inv L (mem s) (pt_base s)" by (simp add: pt_inv_def)
  then show ?thesis
  proof (cases rule: pt_find_cases [where va = va])
    case missing
    then show ?thesis using True by (simp add: unmap_page_def mod_PAGE_SIZE iter_eq_end)
  next
    case (found it)
    have "pt_wf (store (cur_slot it) v s)" for v
      using store_pte(1) [OF inv valid_path_of found(5)] by (auto simp: pt_wf_def)
    then have "pt_wf (invlpg va (store (cur_slot it) v s))" for v by (simp add: pt_wf_def)
    then show ?thesis
      using found cursor_ops [OF found(3) tree] iter_eq_end(2) [OF found(2)] True
      by (simp add: unmap_page_def mod_PAGE_SIZE)
  qed
qed (simp add: unmap_page_def mod_PAGE_SIZE)

lemma protect_entry_sound:
  assumes wf: "pt_wf s" and what: "what \<in> {''text'', ''rodata'', ''data'', ''bss'', ''stack''}"
  shows "sound pt_wf (protect_entry ex need what f va s)"
proof -
  note section_faults = section_faults [OF what]
  obtain L where inv: "pt_inv L s" using wf by (auto simp: pt_wf_def)
  then have tree: "tree_inv L (mem s) (pt_base s)" by (simp add: pt_inv_def)
  then show ?thesis
  proof (cases rule: pt_find_cases [where va = va])
    case missing
    then show ?thesis using section_faults by (simp add: protect_entry_def iter_eq_end)
  next
    case (found it)
    have "pt_wf (store (cur_slot it) v s)" for v
      using store_pte(1) [OF inv valid_path_of found(5)] by (auto simp: pt_wf_def)
    then show ?thesis
      using found cursor_ops [OF found(3) tree] iter_eq_end(2) [OF found(2)] section_faults
      by (simp add: protect_entry_def assert_that_def)
  qed
qed

lemma for_pages_sound:
  "(\<And>va s. pt_wf s \<Longrightarrow> sound pt_wf (f va s)) \<Longrightarrow> pt_wf s \<Longrightarrow> sound pt_wf (for_pages f n va s)"
proof (induction n arbitrary: va s)
  case (Suc n)
  show ?case unfolding for_pages.simps by (rule sound_rbind [OF Suc.prems(1)]) (use Suc in blast)+
qed simp

lemma unmap_range_sound: "pt_wf s \<Longrightarrow> sound pt_wf (unmap_range v0 v1 s)"
  unfolding unmap_range_def by (intro sound_assert for_pages_sound unmap_page_sound) simp_all

lemma pages_until_sound:
  assumes "\<And>va s. pt_wf s \<Longrightarrow> sound pt_wf (f va s)" "pages_until f c stop s = Some r" "pt_wf s"
  shows "sound pt_wf r"
proof -
  have "(\<forall>va s. pt_wf s \<longrightarrow> sound pt_wf (f va s)) \<longrightarrow> pt_wf s \<longrightarrow> sound pt_wf r"
  proof (rule pages_until.raw_induct [OF _ assms(2)], goal_cases)
    case (1 loop f c stop s r)
    show ?case
    proof (intro impI)
      assume f: "\<forall>va s. pt_wf s \<longrightarrow> sound pt_wf (f va s)" and s: "pt_wf s"
      then have "sound pt_wf (f c s)" by blast
      then show "sound pt_wf r" using 1 f s by (cases "f c s") (auto split: if_splits)
    qed
  qed
  then show ?thesis using assms(1,3) by blast
qed

lemma then_pages_sound:
  assumes "then_pages r k = Some x" "\<And>y. r = Some y \<Longrightarrow> sound pt_wf y" "\<And>s. pt_wf s \<Longrightarrow> k s = Some x \<Longrightarrow> sound pt_wf x"
  shows "sound pt_wf x"
  using assms by (auto simp: then_pages_def split: option.splits sum.splits)

lemma lookups_sound: "pt_wf s \<Longrightarrow> sound pt_wf (lookups_ok as s)"
proof (induction as)
  case (Cons a as)
  have "sound (\<lambda>_. True) (get_physical_address s a)"
    using get_physical_address_eq [OF Cons.prems, of a] by (auto split: option.splits)
  then show ?case using Cons by (auto intro: sound_rbind)
qed simp

lemma protection_sound:
  assumes wf: "pt_wf s" and run: "protect_kernel_pages kernel_stack_base s = Some r"
  shows "sound pt_wf r"
proof -
  have entry: "pt_wf s \<Longrightarrow> sound pt_wf (protect_text va s)" "pt_wf s \<Longrightarrow> sound pt_wf (protect_rodata va s)"
    "pt_wf s \<Longrightarrow> sound pt_wf (protect_data va s)" "pt_wf s \<Longrightarrow> sound pt_wf (protect_bss va s)"
    "pt_wf s \<Longrightarrow> sound pt_wf (protect_stack va s)" "pt_wf s \<Longrightarrow> sound pt_wf (protect_guard va s)" for va s
    by (simp_all add: protect_text_def protect_rodata_def protect_data_def protect_bss_def protect_stack_def protect_guard_def
      protect_entry_sound)
  note loops = pages_until_sound [OF entry(1)] pages_until_sound [OF entry(2)] pages_until_sound [OF entry(3)]
    pages_until_sound [OF entry(4)] pages_until_sound [OF entry(5)]
  have stack: "sound pt_wf (rbind (assert_that c ''bss and stack overlap!'') (\<lambda>_. Inr s))" if "pt_wf s" for c s
    using that by (intro sound_assert) simp_all
  show ?thesis
    using run wf unfolding protect_kernel_pages_def Let_def
    by (elim then_pages_sound) (auto simp del: lookups_ok.simps intro: loops stack entry lookups_sound)
qed

subsection \<open>Sequences of operations\<close>

datatype paging_op = Map_page u64 u64 u64 | Map_range u64 u64 u64 u64 u64 | Identity_map u64 u64 u64
  | Unmap_page u64 | Unmap_range u64 u64 | Protect u64 cpu

text \<open>The tables after an operation; \<open>None\<close> when it never returns.\<close>

fun paging_do :: "paging_op \<Rightarrow> paging_state \<Rightarrow> paging_state res option" where
  "paging_do (Map_page p va attrs) s = Some (rbind (map_page p va attrs s) (\<lambda>(_, s'). Inr s'))"
| "paging_do (Map_range p0 p1 v0 v1 attrs) s = Some (rbind (map_range p0 p1 v0 v1 attrs s) (\<lambda>(_, s'). Inr s'))"
| "paging_do (Identity_map a n attrs) s = Some (rbind (identity_map_pages_into_kernel_space a n attrs s) (\<lambda>(_, s'). Inr s'))"
| "paging_do (Unmap_page va) s = Some (unmap_page va s)"
| "paging_do (Unmap_range v0 v1) s = Some (unmap_range v0 v1 s)"
| "paging_do (Protect b c) s = (case enable_kernel_page_protection b (c, s) of None \<Rightarrow> None
     | Some r \<Rightarrow> Some (rbind r (\<lambda>(_, s'). Inr s')))"

text \<open>The iterator can name every page the operation walks over.\<close>

fun named_pages :: "paging_op \<Rightarrow> bool" where
  "named_pages (Map_range p0 p1 v0 v1 attrs) = nameable v0 (pages_between p0 p1)"
| "named_pages (Identity_map a n attrs) = nameable (a + KERNEL_VMA_OFFSET) (identity_pages a n)"
| "named_pages _ = True"

inductive reaches :: "paging_state \<Rightarrow> paging_state \<Rightarrow> bool" where
  start: "reaches s s"
| step: "reaches s s' \<Longrightarrow> paging_do opr s' = Some (Inr s'') \<Longrightarrow> reaches s s''"

lemma paging_do_sound:
  assumes "pt_wf s" "paging_do opr s = Some r" shows "sound_if (named_pages opr) pt_wf r"
proof -
  have snd: "sound_if b (\<lambda>(v, s'). pt_wf s') x \<Longrightarrow> sound_if b pt_wf (rbind x (\<lambda>(_, s'). Inr s'))" for b and x :: "(u64 \<times> paging_state) res"
    by (cases x) (auto simp: split_beta)
  have protect: "sound pt_wf r" if run: "paging_do (Protect b c) s = Some r" for b c
  proof -
    obtain q where q: "protect_kernel_pages b s = Some q" "q = r"
      using run by (auto simp: enable_kernel_page_protection_def Let_def rbind_def split: option.splits sum.splits)
    then show ?thesis using protection_sound [OF assms(1) q(1)] by simp
  qed
  show ?thesis
    using assms(2) snd [OF sound_weaken [OF map_page_sound [OF assms(1)]]] snd [OF map_range_sound [OF assms(1)]]
      snd [OF identity_map_sound [OF assms(1)]] unmap_page_sound [OF assms(1)] unmap_range_sound [OF assms(1)] protect
    by (cases opr) (auto simp del: paging_do.simps(6))
qed

lemma reaches_wf: "reaches s s' \<Longrightarrow> pt_wf s \<Longrightarrow> pt_wf s'"
  by (induction rule: reaches.induct) (auto dest: paging_do_sound)

text \<open>
  C6. Paging is type-safe: whatever sequence of mappings, unmappings and the protection has run since \<^verbatim>\<open>early_init\<close>, the
  tables are well-formed, and the next operation, when it returns, either leaves well-formed tables or stops with a
  fault of its caller (a misaligned address, a page mapped already or not mapped, no table left). Of the assertions on
  the iterator and the tables only two can fail, and only when a range is mapped with a page whose address is not the sign
  extension of 42 bits or is the last of the address space: \<^verbatim>\<open>iterator and virtual address out of sync!\<close> and
  \<^verbatim>\<open>can't ascend from level 4 page iterator\<close>. Only the protection may fail to return.
\<close>

theorem paging_type_safe:
  assumes "boot_ok s0" "reaches (paging_early_init s0) s"
  shows "pt_wf s \<and>
    (\<forall>opr r. paging_do opr s = Some r \<longrightarrow> (case r of Inr s' \<Rightarrow> pt_wf s'
       | Inl f \<Rightarrow> caller_fault f \<or> iterator_fault f \<and> \<not> named_pages opr)) \<and>
    (\<forall>va f. get_physical_address s va = Inl f \<longrightarrow> caller_fault f) \<and>
    (\<forall>opr. paging_do opr s = None \<longrightarrow> (\<exists>b c. opr = Protect b c))"
proof -
  have wf: "pt_wf s" by (rule reaches_wf [OF assms(2) early_init_wf [OF assms(1)]])
  have "caller_fault f" if "get_physical_address s va = Inl f" for va f
    using get_physical_address_eq [OF wf, of va] that by (auto split: option.splits if_splits)
  moreover have "case r of Inr s' \<Rightarrow> pt_wf s' | Inl f \<Rightarrow> caller_fault f \<or> iterator_fault f \<and> \<not> named_pages opr"
    if "paging_do opr s = Some r" for opr r
    using paging_do_sound [OF wf that] by (cases r) (auto simp: allowed_def)
  moreover have "\<exists>b c. opr = Protect b c" if "paging_do opr s = None" for opr using that by (cases opr) auto
  ultimately show ?thesis using wf by blast
qed

text \<open>Unmapping a page of the identity mapping; the same page again is a fault of the caller.\<close>

theorem paging_type_safe_witness:
  "\<exists>s. reaches (paging_early_init sample_boot) s \<and> unmap_page 0x1000 (paging_early_init sample_boot) = Inr s \<and> pt_wf s \<and>
     (case unmap_page 0x1000 s of Inr s' \<Rightarrow> pt_wf s' | Inl f \<Rightarrow> caller_fault f)"
proof -
  let ?s = "paging_early_init sample_boot"
  have "path_of 0x1000 = [1, 0, 0, 0]" by (simp add: path_of_digits)
  then have "present_entry (pte ?s (path_of 0x1000))"
    using early_init_identity_pte [OF sample_boot_ok, of 1] page_entry_address(2) [of 1] by (simp add: present_entry_def)
  moreover have "aligned 0x1000" by (simp add: aligned_def)
  ultimately obtain s where s: "unmap_page 0x1000 ?s = Inr s" using unmap.succeeds [OF sample_wf] by blast
  then have r: "reaches ?s s" using reaches.step [OF reaches.start, of "Unmap_page 0x1000"] by simp
  note safe = paging_type_safe [OF sample_boot_ok r]
  have "pt_wf s" using safe by (rule conjunct1)
  moreover have "case unmap_page 0x1000 s of Inr s' \<Rightarrow> pt_wf s'
      | Inl f \<Rightarrow> caller_fault f \<or> iterator_fault f \<and> \<not> named_pages (Unmap_page 0x1000)"
    using safe by (elim conjE allE [of _ "Unmap_page 0x1000"] allE [of _ "unmap_page 0x1000 s"]) simp
  ultimately show ?thesis using s r by (auto split: sum.splits)
qed

end
