(* ===== verification/Paging_Lookup.thy ===== *)
theory Paging_Lookup
  imports Paging_Init
begin

text \<open>
  \<^verbatim>\<open>page_entry_lookup_info\<close> of src/kernel/paging.h, the class the page-table iterator replaced: its only client,
  \<^verbatim>\<open>get_page_entry_info\<close>, is compiled out. Its indices are those of the iterator in the other order,
  and changing attributes through it keeps the address an entry holds.
\<close>

subsection \<open>The class\<close>

definition ALL_MASK :: u64 where
  "ALL_MASK = PRESENT OR RW OR USER OR XD"

text \<open>A null pointer is 0; index and table 0 are those of the root.\<close>

record lookup_info =
  li_indices :: "nat list"
  li_entry :: u64
  li_tables :: "u64 list"

fun li_shift :: "nat \<Rightarrow> u64 \<Rightarrow> nat list \<Rightarrow> nat list" where
  "li_shift 0 address is = is"
| "li_shift (Suc n) address is =
     li_shift n (drop_bit 9 address) (is[n := unat (address AND PREFIX_MASK)])"

definition li_make :: "u64 \<Rightarrow> lookup_info" where
  "li_make address = \<lparr>li_indices = li_shift 4 (drop_bit 12 address) [0, 0, 0, 0],
     li_entry = 0, li_tables = [0, 0, 0, 0]\<rparr>"

definition li_exists :: "lookup_info \<Rightarrow> bool res" where
  "li_exists h = rbind (assert_that (li_entry h = 0 \<or> (\<forall>t \<in> set (li_tables h). t \<noteq> 0)) ''inconsistent lookup info!'')
     (\<lambda>_. Inr (li_entry h \<noteq> 0))"

definition li_present :: "(u64 \<Rightarrow> u64) \<Rightarrow> lookup_info \<Rightarrow> bool res" where
  "li_present m h = rbind (assert_that (li_entry h \<noteq> 0) ''entry doesn't exist!'') (\<lambda>_. Inr (m (li_entry h) AND PRESENT \<noteq> 0))"

definition li_entry_at_level :: "nat \<Rightarrow> lookup_info \<Rightarrow> u64 res" where
  "li_entry_at_level n h = rbind (assert_that (1 \<le> n \<and> n \<le> 4) ''valid levels are 1 - 4'') (\<lambda>_.
     if li_tables h ! (4 - n) = 0 then Inl (Undefined_behaviour ''null pointer dereference'')
     else Inr (slot (li_tables h ! (4 - n)) (li_indices h ! (4 - n))))"

definition li_deref :: "(u64 \<Rightarrow> u64) \<Rightarrow> lookup_info \<Rightarrow> u64 res" where
  "li_deref m h = (if li_entry h = 0 then Inl (Undefined_behaviour ''null pointer dereference'') else Inr (m (li_entry h)))"

definition li_physical_page_address :: "(u64 \<Rightarrow> u64) \<Rightarrow> lookup_info \<Rightarrow> u64 res" where
  "li_physical_page_address m h = rbind (li_deref m h) (\<lambda>e. Inr (e AND ADDRESS_MASK))"

definition li_set_attributes :: "u64 \<Rightarrow> lookup_info \<Rightarrow> (u64 \<Rightarrow> u64) \<Rightarrow> (u64 \<Rightarrow> u64) res" where
  "li_set_attributes attrs h m = rbind (li_deref m h) (\<lambda>e. Inr (m(li_entry h := (e AND NOT ALL_MASK) OR attrs)))"

subsection \<open>Agreement with the iterator\<close>

lemma li_make_indices: "li_indices (li_make va) = rev (path_of va)"
proof -
  have four: "(4 :: nat) = Suc (Suc (Suc (Suc 0)))" by simp
  have "li_shift 4 a [0, 0, 0, 0] = rev (map (\<lambda>l. unat (drop_bit (9 * l) a AND PREFIX_MASK)) [0..<4])" for a
    unfolding four li_shift.simps by (simp add: numeral_2_eq_2 numeral_3_eq_3)
  then show ?thesis by (simp add: li_make_def path_of_def)
qed

text \<open>With the tables of a path filled in, the entry at level \<open>n\<close> is the slot the iterator's walk reads there.\<close>

lemma li_entry_at_level_path:
  assumes "1 \<le> n" "n \<le> 4" "length ts = 4" "ts ! (4 - n) \<noteq> 0"
  shows "li_entry_at_level n ((li_make va)\<lparr>li_tables := ts\<rparr>) = Inr (slot (ts ! (4 - n)) (path_of va ! (n - 1)))"
proof -
  have "length (path_of va) = 4" by simp
  then have "rev (path_of va) ! (4 - n) = path_of va ! (n - 1)" using assms(1,2) by (simp add: rev_nth)
  then show ?thesis using assms by (simp add: li_entry_at_level_def li_make_indices)
qed

lemma li_set_attributes_address:
  assumes "li_entry h \<noteq> 0" "attrs AND ADDRESS_MASK = 0"
  shows "\<exists>m'. li_set_attributes attrs h m = Inr m' \<and> li_physical_page_address m' h = li_physical_page_address m h \<and>
    m' (li_entry h) AND ALL_MASK = attrs AND ALL_MASK"
proof -
  have mask: "NOT ALL_MASK AND ADDRESS_MASK = ADDRESS_MASK"
    by (simp add: ALL_MASK_def ADDRESS_MASK_def PRESENT_def RW_def USER_def XD_def)
  have "((e AND NOT ALL_MASK) OR attrs) AND ADDRESS_MASK = e AND ADDRESS_MASK" for e
    using assms(2) by (simp add: bit.conj_disj_distrib2 and.assoc mask)
  moreover have "((e AND NOT ALL_MASK) OR attrs) AND ALL_MASK = attrs AND ALL_MASK" for e
    by (simp add: bit.conj_disj_distrib2 and.assoc)
  ultimately show ?thesis
    using assms(1) by (simp add: li_set_attributes_def li_physical_page_address_def li_deref_def)
qed

end
