(* ===== verification/Printf_Text.thy ===== *)
theory Printf_Text
  imports Stdio
begin

text \<open>
  What a format means, apart from any buffer: the text of a conversion and of a whole format. When the
  text fits the buffer \<^verbatim>\<open>vsnprintf\<close> stores exactly it, terminated; the printing functions of
  src/libc/stdio.cpp that forward to it then print exactly it.
\<close>

subsection \<open>The text of a format\<close>

definition int_text :: "nat \<Rightarrow> bool \<Rightarrow> bool \<Rightarrow> nat \<Rightarrow> bool \<Rightarrow> u64 \<Rightarrow> u8 list res" where
  "int_text b capitalize is_signed max_digits pad0 v =
     (let neg = (is_signed \<and> sint v < 0) in
      if v = 0 then Inr [48]
      else if neg \<and> v = push_bit 63 1 then Inl (Undefined_behaviour ''negation of INT64_MIN'')
      else Inr ((if neg then [45] else []) @ rev (map (digit_char capitalize) (digits b pad0 max_digits 0 (unat (if neg then - v else v))))))"

text \<open>\<^verbatim>\<open>%n\<close>, which prints nothing and stores a count, is left out.\<close>

definition convert_text :: "u8 \<Rightarrow> bool \<Rightarrow> int_length \<Rightarrow> va_value list \<Rightarrow> (u8 list \<times> va_value list) res" where
  "convert_text c pad0 l args =
     (if c = 115 then va_str args
      else if c = 99 then rbind (va_int args) (\<lambda>(w, rest). Inr ([ucast w], rest))
      else if c = 111 then rbind (signed_integer_arg_of_length l args) (\<lambda>(w, rest).
        rbind (int_text 8 False True (length_to_digits l 8) pad0 w) (\<lambda>t. Inr (t, rest)))
      else if c = 105 \<or> c = 100 then rbind (signed_integer_arg_of_length l args) (\<lambda>(w, rest).
        rbind (int_text 10 False True (length_to_digits l 10) pad0 w) (\<lambda>t. Inr (t, rest)))
      else if c = 117 then rbind (unsigned_integer_arg_of_length l args) (\<lambda>(w, rest).
        rbind (int_text 10 False False (length_to_digits l 10) pad0 w) (\<lambda>t. Inr (t, rest)))
      else if c = 88 then rbind (unsigned_integer_arg_of_length l args) (\<lambda>(w, rest).
        rbind (int_text 16 True False (length_to_digits l 16) pad0 w) (\<lambda>t. Inr (t, rest)))
      else if c = 120 then rbind (unsigned_integer_arg_of_length l args) (\<lambda>(w, rest).
        rbind (int_text 16 False False (length_to_digits l 16) pad0 w) (\<lambda>t. Inr (t, rest)))
      else if c = 112 then rbind (va_ptr args) (\<lambda>(p, rest).
        rbind (int_text 16 False False 16 True p) (\<lambda>t. Inr (t, rest)))
      else if c = 110 then Inl (Undefined_behaviour ''no text'')
      else Inr ([], args))"

function format_text :: "u8 list \<Rightarrow> va_value list \<Rightarrow> u8 list res" where
  "format_text [] args = Inr []"
| "format_text (c # fmt) args =
     (if c \<noteq> 37 then rbind (format_text fmt args) (\<lambda>t. Inr (c # t))
      else case fmt of
        [] \<Rightarrow> Inl (Undefined_behaviour ''read past the end of the format'')
      | d # rest0 \<Rightarrow>
          if d = 37 then rbind (format_text rest0 args) (\<lambda>t. Inr (37 # t))
          else (case get_flags fmt of (pad0, f1) \<Rightarrow>
               (case get_length f1 of (l, f2) \<Rightarrow>
               (case f2 of
                  [] \<Rightarrow> Inl (Undefined_behaviour ''read past the end of the format'')
                | conv # rest \<Rightarrow> rbind (convert_text conv pad0 l args) (\<lambda>(t, args').
                    rbind (format_text rest args') (\<lambda>u. Inr (t @ u)))))))"
  by pat_completeness auto
termination
  by (relation "measure (\<lambda>(fmt, args). length fmt)") (auto dest: spec_shorter [OF sym sym])

declare format_text.simps [simp del]

subsection \<open>Storing the text\<close>

definition ready :: "printf_state \<Rightarrow> bool" where
  "ready s \<longleftrightarrow> \<not> pf_null s \<and> \<not> pf_full s \<and> pf_num s = length (pf_out s)"

definition writes :: "u8 list \<Rightarrow> printf_state \<Rightarrow> printf_state \<Rightarrow> bool" where
  "writes t s s' \<longleftrightarrow> ready s' \<and> pf_out s' = pf_out s @ t \<and> pf_stores s' = pf_stores s"

lemma put_chars_writes:
  "ready s \<Longrightarrow> pf_num s + length cs < n \<Longrightarrow> writes cs s (foldl (\<lambda>s c. put_char n c s) s cs)"
proof (induction cs arbitrary: s)
  case (Cons c cs)
  have s1: "ready (put_char n c s)" "pf_out (put_char n c s) = pf_out s @ [c]" "pf_num (put_char n c s) = pf_num s + 1"
      "pf_stores (put_char n c s) = pf_stores s"
    using Cons.prems by (auto simp: ready_def put_char_def Let_def)
  have "writes cs (put_char n c s) (foldl (\<lambda>s c. put_char n c s) (put_char n c s) cs)"
    using Cons.prems(2) s1(3) by (intro Cons.IH s1(1)) simp
  then show ?case using s1(2,4) by (simp add: writes_def)
qed (simp add: writes_def)

lemma put_char_writes: "ready s \<Longrightarrow> pf_num s + 1 < n \<Longrightarrow> writes [c] s (put_char n c s)"
  using put_chars_writes [of s "[c]" n] by simp

lemma put_integer_runs:
  assumes "int_text b cp sg mx pad0 v = Inr t" shows "\<exists>s'. put_integer n v b cp sg mx pad0 s = Inr s'"
  using assms by (auto simp: int_text_def put_integer_def Let_def split: if_splits)

lemma put_integer_writes:
  assumes t: "int_text b cp sg mx pad0 v = Inr t" and s: "ready s" "pf_num s + length t < n"
  shows "\<exists>s'. put_integer n v b cp sg mx pad0 s = Inr s' \<and> writes t s s'"
proof (cases "v = 0")
  case True
  then have "t = [48]" using t by (simp add: int_text_def)
  then show ?thesis using True put_char_writes [OF s(1), of n 48] s(2) by (simp add: put_integer_def)
next
  case False
  obtain s' where s': "put_integer n v b cp sg mx pad0 s = Inr s'" using put_integer_runs [OF t] by blast
  let ?neg = "sg \<and> sint v < 0"
  let ?cs = "map (digit_char cp) (digits b pad0 mx 0 (unat (if ?neg then - v else v))) @ (if ?neg then [45] else [])"
  have tcs: "t = rev ?cs" using t False by (auto simp: int_text_def Let_def split: if_splits)
  let ?u = "foldl (\<lambda>s c. put_char n c s) s ?cs"
  have "length ?cs = length t" unfolding tcs by simp
  then have u: "ready ?u" "pf_out ?u = pf_out s @ ?cs" "pf_stores ?u = pf_stores s"
    using put_chars_writes [OF s(1), of ?cs n] s(2) unfolding writes_def by simp_all
  have "s' = ?u\<lparr>pf_out := pf_out s @ rev ?cs\<rparr>"
    using put_integer_eq [OF s' False] u by (simp add: ready_def)
  moreover have "length (pf_out s @ rev ?cs) = length (pf_out s @ ?cs)" by simp
  ultimately have "writes t s s'" unfolding writes_def tcs using u by (simp add: ready_def)
  then show ?thesis using s' by blast
qed

lemma convert_writes:
  assumes "convert_text c pad0 l args = Inr (t, rest)" "ready s" "pf_num s + length t < n"
  shows "\<exists>s'. convert n c pad0 l args s = Inr (rest, s') \<and> writes t s s'"
proof -
  note int = put_integer_writes [OF _ assms(2), of _ _ _ _ _ _ t n]
  have str: "writes cs s (foldl (\<lambda>s c. put_char n c s) s cs)" if "t = cs" for cs
    using put_chars_writes [OF assms(2)] assms(3) that by simp
  have chr: "writes [d] s (put_char n d s)" if "t = [d]" for d
    using put_char_writes [OF assms(2)] assms(3) that by simp
  show ?thesis
    using assms(1,3) unfolding convert_text_def convert_def
    by (auto simp: rbind_eq_Inr_iff split: if_splits dest!: int intro: str chr)
      (simp add: writes_def assms(2))
qed

lemma writes_num: "writes t s s' \<Longrightarrow> ready s \<Longrightarrow> ready s' \<and> pf_num s' = pf_num s + length t"
  by (simp add: writes_def ready_def)

lemma writes_append: "writes t s s1 \<Longrightarrow> writes u s1 s2 \<Longrightarrow> writes (t @ u) s s2"
  by (simp add: writes_def)

lemma format_loop_writes:
  "format_text fmt args = Inr t \<Longrightarrow> ready s \<Longrightarrow> pf_num s + length t < n \<Longrightarrow>
     \<exists>s'. format_loop n fmt args s = Inr s' \<and> writes t s s'"
proof (induction n fmt args s arbitrary: t rule: format_loop.induct)
  case (1 n args s)
  then show ?case by (simp add: format_loop.simps format_text.simps writes_def)
next
  case (2 n c fmt args s)
  show ?case
  proof (cases "c \<noteq> 37")
    case True
    then obtain u where u: "format_text fmt args = Inr u" "t = c # u"
      using 2(4) by (auto simp: format_text.simps rbind_eq_Inr_iff)
    have w: "writes [c] s (put_char n c s)" using 2(6) u(2) by (intro put_char_writes 2(5)) simp
    note num = writes_num [OF w 2(5)]
    obtain s' where s': "format_loop n fmt args (put_char n c s) = Inr s'" "writes u (put_char n c s) s'"
      using 2(1) [OF True u(1)] num 2(6) u(2) by auto
    then show ?thesis using writes_append [OF w s'(2)] True u(2) by (simp add: format_loop.simps)
  next
    case False
    then obtain d rest0 where fmt: "fmt = d # rest0" using 2(4) by (cases fmt) (auto simp: format_text.simps)
    show ?thesis
    proof (cases "d = 37")
      case True
      then obtain u where u: "format_text rest0 args = Inr u" "t = 37 # u"
        using 2(4) False fmt by (auto simp: format_text.simps rbind_eq_Inr_iff)
      have w: "writes [37] s (put_char n 37 s)" using 2(6) u(2) by (intro put_char_writes 2(5)) simp
      note num = writes_num [OF w 2(5)]
      obtain s' where s': "format_loop n rest0 args (put_char n 37 s) = Inr s'" "writes u (put_char n 37 s) s'"
        using 2(2) [OF False fmt True u(1)] num 2(6) u(2) by auto
      then show ?thesis using writes_append [OF w s'(2)] True False fmt u(2) by (simp add: format_loop.simps)
    next
      case nesc: False
      obtain pad0 f1 l f2 where gf: "get_flags fmt = (pad0, f1)" "get_length f1 = (l, f2)" by fastforce
      then obtain conv rest v args' u where r: "f2 = conv # rest" "convert_text conv pad0 l args = Inr (v, args')"
          "format_text rest args' = Inr u" "t = v @ u"
        using 2(4) False nesc fmt by (auto simp: format_text.simps rbind_eq_Inr_iff split: list.splits)
      obtain s1 where s1: "convert n conv pad0 l args s = Inr (args', s1)" "writes v s s1"
        using convert_writes [OF r(2) 2(5), of n] 2(6) r(4) by auto
      note num = writes_num [OF s1(2) 2(5)]
      obtain s' where s': "format_loop n rest args' s1 = Inr s'" "writes u s1 s'"
        using 2(3) [OF False fmt nesc gf(1) [symmetric] gf(2) [symmetric] r(1) s1(1) refl r(3)] num 2(6) r(4)
        by auto
      then show ?thesis
        using writes_append [OF s1(2) s'(2)] False nesc fmt gf r(1,4) s1(1) by (simp add: format_loop.simps)
    qed
  qed
qed

lemma vsnprintf_text:
  assumes "format_text fmt args = Inr t" "length t < n"
  shows "vsnprintf False n (Some fmt) args = Inr (t @ [0], int_of_size (length t), [])"
proof -
  have "ready (new_printf False)" "pf_num (new_printf False) + length t < n"
    using assms(2) by (simp_all add: ready_def new_printf_def)
  then obtain s' where "format_loop n fmt args (new_printf False) = Inr s'" "writes t (new_printf False) s'"
    using format_loop_writes [OF assms(1)] by blast
  then show ?thesis using assms(2) by (simp add: vsnprintf_def writes_def ready_def new_printf_def)
qed

subsection \<open>The printing functions\<close>

definition snprintf :: "bool \<Rightarrow> nat \<Rightarrow> u8 list option \<Rightarrow> va_value list \<Rightarrow> (u8 list \<times> int \<times> count_store list) res" where
  "snprintf null buf_size fmt args = vsnprintf null buf_size fmt args"

definition sprintf :: "bool \<Rightarrow> u8 list option \<Rightarrow> va_value list \<Rightarrow> (u8 list \<times> int \<times> count_store list) res" where
  "sprintf null fmt args = vsprintf null fmt args"

definition vprintf :: "u8 list \<Rightarrow> va_value list \<Rightarrow> stdio_state \<Rightarrow> stdio_state res" where
  "vprintf msg args s = vfprintf Stdout msg args s"

definition printf :: "u8 list \<Rightarrow> va_value list \<Rightarrow> stdio_state \<Rightarrow> stdio_state res" where
  "printf msg args s = vprintf msg args s"

definition fprintf :: "stream \<Rightarrow> u8 list \<Rightarrow> va_value list \<Rightarrow> stdio_state \<Rightarrow> stdio_state res" where
  "fprintf f msg args s = vfprintf f msg args s"

text \<open>Outside the kernel nothing is printed and no file opens.\<close>

definition hosted_vfprintf :: "stream \<Rightarrow> u8 list \<Rightarrow> va_value list \<Rightarrow> int" where
  "hosted_vfprintf f msg args = -1"

definition hosted_fputs :: "u8 list \<Rightarrow> stream \<Rightarrow> int" where
  "hosted_fputs str f = EOF"

definition fopen :: "u8 list \<Rightarrow> u8 list \<Rightarrow> stream option" where
  "fopen path mode = None"

definition printed :: "u8 list \<Rightarrow> stream \<Rightarrow> stdio_state \<Rightarrow> stdio_state" where
  "printed t f s = fputs t f (s\<lparr>printf_buffer := t @ [0] @ drop (length t + 1) (printf_buffer s)\<rparr>)"

lemma vfprintf_text:
  assumes "format_text msg args = Inr t" "length t < 0x200" "0 \<notin> set t" "f \<noteq> Other_file"
  shows "vfprintf f msg args s = Inr (printed t f s)"
proof -
  have "takeWhile (\<lambda>c. c \<noteq> 0) (t @ 0 # xs) = t" for xs using assms(3) by (induction t) auto
  then have "buffer_string (t @ 0 # xs) = Inr t" for xs by (simp add: buffer_string_def)
  then show ?thesis
    using vsnprintf_text [OF assms(1,2)] assms(4) by (simp add: vfprintf_def printed_def Let_def)
qed

text \<open>
  C34. Formatted output refines the text of the format: when the text has fewer than 512 characters and no
  terminator among them, \<^verbatim>\<open>printf\<close> appends exactly the text to the console and to the debug port, and
  \<^verbatim>\<open>snprintf\<close> into any larger buffer stores the text and its terminator and returns its length.
\<close>

theorem printf_prints_text:
  assumes "format_text msg args = Inr t" "length t < 0x200" "0 \<notin> set t" "length t < n"
  shows "printf msg args s = Inr (printed t Stdout s) \<and> vga_text (printed t Stdout s) = vga_text s @ t \<and>
    debug_text (printed t Stdout s) = debug_text s @ t \<and>
    snprintf False n (Some msg) args = Inr (t @ [0], int (length t), [])"
  using vfprintf_text [OF assms(1-3), of Stdout s] vsnprintf_text [OF assms(1,4)] int_of_size_small [of "length t"] assms(2)
  by (simp add: printf_def vprintf_def snprintf_def printed_def fputs_def)

theorem printf_prints_text_witness:
  "snprintf False 16 (Some [105, 61, 37, 100, 59, 37, 115]) [VInt 42, VStr 0x1000 [111, 107]] = Inr ([105, 61, 52, 50, 59, 111, 107, 0], 7, [])"
proof -
  have "format_text [105, 61, 37, 100, 59, 37, 115] [VInt 42, VStr 0x1000 [111, 107]] = Inr [105, 61, 52, 50, 59, 111, 107]"
    by (simp add: format_text.simps get_flags_def get_length_def convert_text_def signed_integer_arg_of_length_def va_int_def
      va_str_def int_text_def digits.simps digit_char_def Let_def)
  from printf_prints_text [OF this, of 16] show ?thesis by simp
qed

end
