(* ===== verification/Diagnostics.thy ===== *)
theory Diagnostics
  imports Printf_Text Interrupts
begin

text \<open>
  What the kernel prints when it fails: \<^verbatim>\<open>kstd::panic\<close> (src/kernel/panic.cpp), the handler of failed
  assertions (src/libc/assert.cpp), \<^verbatim>\<open>debug::printf\<close> (src/kernel/debug.cpp) and the reports of the fault
  handlers (src/kernel/interrupts.cpp). \<open>lit\<close> gives the address of a string literal, which printing does not
  look at; \<open>junk\<close> is the content of a buffer on the stack before it is written.
\<close>

subsection \<open>Panics and assertions\<close>

text \<open>The processor halts with the output made so far.\<close>

datatype halted = Halted stdio_state

definition kstd_panic :: "u8 list \<Rightarrow> va_value list \<Rightarrow> stdio_state \<Rightarrow> halted res" where
  "kstd_panic msg args s = rbind (vfprintf Stdout msg args s) (\<lambda>s'. Inr (Halted s'))"

definition handle_assert :: "(u8 list \<Rightarrow> u64) \<Rightarrow> u8 list \<Rightarrow> u32 \<Rightarrow> u8 list \<Rightarrow> stdio_state \<Rightarrow> halted res" where
  "handle_assert lit file line condition s =
     kstd_panic (ascii ''assertion failed: %s:%d: `%s`'' @ [10])
       [VStr (lit file) file, VInt (ucast line), VStr (lit condition) condition] s"

subsection \<open>debug::printf\<close>

text \<open>The text left in the static buffer, the port's trace, the console and the stores of \<^verbatim>\<open>%n\<close>.\<close>

definition debug_printf :: "nat \<Rightarrow> hardware \<Rightarrow> u8 list \<Rightarrow> va_value list \<Rightarrow> u8 list \<Rightarrow> trace \<Rightarrow> console \<Rightarrow>
    (u8 list \<times> trace \<times> console \<times> count_store list) res" where
  "debug_printf polls hw fmt args write_buffer t v =
     rbind (vsnprintf False 0x200 (Some fmt) args) (\<lambda>(out, _, stores).
     let b = out @ drop (length out) write_buffer in
     rbind (buffer_string b) (\<lambda>str.
     rbind (send_all polls hw str t) (\<lambda>t1.
     rbind (c_vga_print str v) (\<lambda>v1. Inr (b, t1, v1, stores)))))"

subsection \<open>Fault reports\<close>

record interrupt_frame =
  if_rip :: u64
  if_cs :: u64
  if_rflags :: u64
  if_rsp :: u64
  if_ss :: u64

definition frame_format :: "u8 list" where
  "frame_format = ascii ''RIP:     0x%lx'' @ [10] @ ascii ''CS:      0x%lx'' @ [10] @ ascii ''RFLAGS:  0x%lx'' @ [10] @
     ascii ''RSP:     0x%lx'' @ [10] @ ascii ''SS:      0x%lx'' @ [10] @ ascii ''TASK ID: %u (%s)''"

definition frame_args :: "(u8 list \<Rightarrow> u64) \<Rightarrow> interrupt_frame \<Rightarrow> sched_state \<Rightarrow> va_value list" where
  "frame_args lit f sc = [VInt (if_rip f), VInt (if_cs f), VInt (if_rflags f), VInt (if_rsp f), VInt (if_ss f),
     VInt (of_nat (current_task_id sc)),
     (let w = ascii (if get_current_task_is_kernel sc then ''kernel'' else ''user'') in VStr (lit w) w)]"

definition print_interrupt_frame :: "(u8 list \<Rightarrow> u64) \<Rightarrow> u8 list \<Rightarrow> interrupt_frame \<Rightarrow> sched_state \<Rightarrow> stdio_state \<Rightarrow> stdio_state res" where
  "print_interrupt_frame lit junk f sc s =
     rbind (snprintf False 512 (Some frame_format) (frame_args lit f sc)) (\<lambda>(out, _).
     rbind (buffer_string ((out @ drop (length out) junk)[511 := 0])) (\<lambda>str. Inr (puts str s)))"

definition report_general_protection_fault :: "(u8 list \<Rightarrow> u64) \<Rightarrow> u8 list \<Rightarrow> interrupt_frame \<Rightarrow> u64 \<Rightarrow> sched_state \<Rightarrow> stdio_state \<Rightarrow> stdio_state res" where
  "report_general_protection_fault lit junk f error_code sc s =
     rbind (print_interrupt_frame lit junk f sc s) (\<lambda>s1.
     rbind (sprintf False (Some (ascii ''General protection (GP) fault occurred at %p (tbl=%s, idx=%x)''))
       [VPtr (if_rip f), VStr (lit (ascii (fault_table error_code))) (ascii (fault_table error_code)),
        VInt (ucast (sel_get_index error_code))]) (\<lambda>(out, _).
     if length out > 512 then Inl (Undefined_behaviour ''write past the end of the buffer'')
     else rbind (buffer_string (out @ drop (length out) junk)) (\<lambda>str. Inr (puts str s1))))"

text \<open>\<open>cr2\<close> holds the address of the fault.\<close>

definition page_fault_handler :: "(u8 list \<Rightarrow> u64) \<Rightarrow> u8 list \<Rightarrow> u64 \<Rightarrow> interrupt_frame \<Rightarrow> u64 \<Rightarrow> sched_state \<Rightarrow> stdio_state \<Rightarrow> halted res" where
  "page_fault_handler lit junk cr2 f error_code sc s =
     (let action = ascii (page_fault_action error_code) in
      rbind (snprintf False 64 (Some (ascii ''Page fault occurred %s 0x%p'')) [VStr (lit action) action, VPtr cr2]) (\<lambda>(out, _).
      rbind (buffer_string (out @ drop (length out) junk)) (\<lambda>str.
      rbind (print_interrupt_frame lit junk f sc (puts str s)) (\<lambda>s1.
        Inr (Halted (if page_fault_not_present error_code then puts (ascii ''Page was not present!'') s1 else s1))))))"

definition unknown_interrupt_handler :: "(u8 list \<Rightarrow> u64) \<Rightarrow> u8 list \<Rightarrow> u8 \<Rightarrow> interrupt_frame \<Rightarrow> sched_state \<Rightarrow> stdio_state \<Rightarrow> halted res" where
  "unknown_interrupt_handler lit junk n f sc s =
     rbind (print_interrupt_frame lit junk f sc s) (\<lambda>s1.
       if n = 0 then kstd_panic (ascii ''Divide by zero!'') [] s1
       else kstd_panic (ascii ''Unhandled unknown interrupt: 0x%x!'') [VInt (ucast n)] s1)"

subsection \<open>The text of the numbers\<close>

lemma digits_length:
  assumes "2 \<le> b" "v < b ^ m" "mx \<le> k + m" shows "length (digits b pad0 mx k v) \<le> m"
  using assms(2,3)
proof (induction m arbitrary: k v)
  case 0
  then show ?case by (subst digits.simps) simp
next
  case (Suc m)
  have "v div b < b ^ m" using Suc.prems(1) assms(1) by (intro less_mult_imp_div_less) (simp add: mult.commute)
  then have "length (digits b pad0 mx (k + 1) (v div b)) \<le> m" using Suc.prems(2) by (intro Suc.IH) simp_all
  then show ?case by (subst digits.simps) simp
qed

definition number_text :: "nat \<Rightarrow> bool \<Rightarrow> nat \<Rightarrow> u64 \<Rightarrow> u8 list" where
  "number_text b pad0 mx v = (if v = 0 then [48] else rev (map (digit_char False) (digits b pad0 mx 0 (unat v))))"

lemma int_text_unsigned: "int_text b False False mx pad0 v = Inr (number_text b pad0 mx v)"
  by (simp add: int_text_def number_text_def)

lemma number_text_bounds:
  assumes "2 \<le> b" "b \<le> 16" "unat v < b ^ m" "mx \<le> m" "0 < m"
  shows "length (number_text b pad0 mx v) \<le> m" "0 \<notin> set (number_text b pad0 mx v)" "parse_number b (number_text b pad0 mx v) = unat v"
proof -
  have ds: "\<forall>d \<in> set (digits b pad0 mx 0 (unat v)). d < b" using digits_spec [OF assms(1)] by blast
  have nz: "digit_char False d \<noteq> 0" if "d < 16" for d
  proof
    assume z: "digit_char False d = 0"
    have "digit_value (digit_char False d) = d" by (rule digit_value_char [OF that])
    then have "d = 0" using z by (simp add: digit_value_def)
    then show False using z by (simp add: digit_char_def)
  qed
  show "length (number_text b pad0 mx v) \<le> m"
    using digits_length [OF assms(1,3), of mx 0 pad0] assms(4,5) by (simp add: number_text_def)
  show "0 \<notin> set (number_text b pad0 mx v)"
  proof
    assume "0 \<in> set (number_text b pad0 mx v)"
    then obtain d where "d \<in> set (digits b pad0 mx 0 (unat v))" "digit_char False d = 0"
      by (auto simp: number_text_def split: if_splits)
    then show False using nz ds assms(2) by (meson less_le_trans)
  qed
  show "parse_number b (number_text b pad0 mx v) = unat v"
    using parse_digits [OF assms(1,2), of False pad0 mx 0 "unat v"] by (simp add: number_text_def parse_number_def digit_value_def)
qed

subsection \<open>The reports\<close>

lemmas format_evaluation = format_text.simps get_flags_def get_length_def convert_text_def va_int_def va_ptr_def va_str_def
  unsigned_integer_arg_of_length_def length_to_digits_def int_text_unsigned

definition hex_text :: "u64 \<Rightarrow> u8 list" where
  "hex_text v = number_text 16 False (length_to_digits long_int 16) v"

definition task_text :: "sched_state \<Rightarrow> u8 list" where
  "task_text sc = number_text 10 False 9 (ucast (ucast (of_nat (current_task_id sc) :: u64) :: u32)) @ ascii '' ('' @
     ascii (if get_current_task_is_kernel sc then ''kernel'' else ''user'') @ ascii '')''"

definition frame_text :: "interrupt_frame \<Rightarrow> sched_state \<Rightarrow> u8 list" where
  "frame_text f sc = ascii ''RIP:     0x'' @ hex_text (if_rip f) @ [10] @ ascii ''CS:      0x'' @ hex_text (if_cs f) @ [10] @
     ascii ''RFLAGS:  0x'' @ hex_text (if_rflags f) @ [10] @ ascii ''RSP:     0x'' @ hex_text (if_rsp f) @ [10] @
     ascii ''SS:      0x'' @ hex_text (if_ss f) @ [10] @ ascii ''TASK ID: '' @ task_text sc"

lemma frame_format_text: "format_text frame_format (frame_args lit f sc) = Inr (frame_text f sc)"
  by (simp add: frame_format_def frame_args_def frame_text_def task_text_def hex_text_def ascii_def format_evaluation Let_def)

lemma hex_text_bounds: "length (hex_text v) \<le> 16" "0 \<notin> set (hex_text v)" "parse_number 16 (hex_text v) = unat v"
  using number_text_bounds [of 16 v 16 "length_to_digits long_int 16" False] unsigned_less [of v]
  by (simp_all add: hex_text_def length_to_digits_def)

lemma unat_ucast_up: "unat (ucast (w :: u32) :: u64) = unat w"
  by (simp add: unsigned_ucast_eq take_bit_nat_eq_self order_less_trans [OF unsigned_less])

lemma scast_positive:
  assumes "unat (w :: u32) < 2 ^ 31" shows "scast w = (ucast w :: u64)" "0 \<le> sint (ucast w :: u64)"
proof -
  have "\<not> bit w 31" using assms bit_unsigned_iff [of w 31, where 'a = nat] by (auto simp: bit_iff_odd)
  then have "bit w (min 31 n) \<longleftrightarrow> bit w n" for n
    by (cases "n < 31") (auto simp: min_def not_less le_less dest: bit_imp_le_length)
  then show "scast w = (ucast w :: u64)"
    by (intro bit_eqI) (simp add: bit_signed_iff bit_unsigned_iff possible_bit_word)
  have "\<not> bit (ucast w :: u64) 63" by (auto simp: bit_unsigned_iff dest: bit_imp_le_length)
  then show "0 \<le> sint (ucast w :: u64)" using bit_last_iff [of "ucast w :: u64"] by simp
qed

lemma frame_text_bounds: "length (frame_text f sc) < 256" "0 \<notin> set (frame_text f sc)"
proof -
  let ?id = "ucast (ucast (of_nat (current_task_id sc) :: u64) :: u32) :: u64"
  have "unat ?id < 2 ^ 32" unfolding unat_ucast_up by (rule order_less_le_trans [OF unsigned_less]) simp
  then have id: "unat ?id < 10 ^ 10" by (rule order_less_le_trans) simp
  note n = number_text_bounds [of 10 ?id 10 9 False, OF _ _ id]
  note h = hex_text_bounds(1) [of "if_rip f"] hex_text_bounds(1) [of "if_cs f"] hex_text_bounds(1) [of "if_rflags f"]
    hex_text_bounds(1) [of "if_rsp f"] hex_text_bounds(1) [of "if_ss f"]
  show "length (frame_text f sc) < 256" using h n(1) by (simp add: frame_text_def task_text_def ascii_def)
  show "0 \<notin> set (frame_text f sc)"
    using hex_text_bounds(2) n(2) by (simp add: frame_text_def task_text_def ascii_def)
qed

lemma buffer_string_text: "0 \<notin> set t \<Longrightarrow> buffer_string (t @ 0 # xs) = Inr t"
proof -
  assume "0 \<notin> set t"
  then have "takeWhile (\<lambda>c. c \<noteq> 0) (t @ 0 # xs) = t" by (induction t) auto
  then show ?thesis by (simp add: buffer_string_def)
qed

lemma print_interrupt_frame_text:
  assumes "length junk = 512" shows "print_interrupt_frame lit junk f sc s = Inr (puts (frame_text f sc) s)"
proof -
  note b = frame_text_bounds [of f sc]
  let ?t = "frame_text f sc"
  have "snprintf False 512 (Some frame_format) (frame_args lit f sc) = Inr (?t @ [0], int_of_size (length ?t), [])"
    unfolding snprintf_def using b(1) by (intro vsnprintf_text frame_format_text) simp
  moreover have "(?t @ [0] @ xs)[511 := 0] = ?t @ 0 # xs[511 - Suc (length ?t) := 0]" for xs
  proof (cases "511 - length ?t")
    case (Suc k)
    then have "510 - length ?t = k" by simp
    then show ?thesis using b(1) Suc by (simp add: list_update_append)
  qed (use b(1) in simp)
  ultimately show ?thesis using buffer_string_text [OF b(2)] by (simp add: print_interrupt_frame_def)
qed

subsection \<open>Properties\<close>

definition pointer_text :: "u64 \<Rightarrow> u8 list" where
  "pointer_text p = number_text 16 True 16 p"

lemma pointer_text_bounds: "length (pointer_text p) \<le> 16" "0 \<notin> set (pointer_text p)" "parse_number 16 (pointer_text p) = unat p"
  using number_text_bounds [of 16 p 16 16 True] unsigned_less [of p] by (simp_all add: pointer_text_def)

text \<open>
  C36. The page fault handler reports every fault in full: whatever the address, the error code, the frame and the bytes
  on its stack, both buffers are large enough, and the console and the debug port get the line with the access and the
  faulting address in hexadecimal, the frame, and the note on the missing page when the handler
  takes it for missing; then the processor halts.
\<close>

theorem page_fault_reports:
  assumes "length junk = 512"
  shows "\<exists>s'. page_fault_handler lit junk cr2 f error_code sc s = Inr (Halted s') \<and>
    vga_text s' = vga_text s @ ascii ''Page fault occurred '' @ ascii (page_fault_action error_code) @ ascii '' 0x'' @
      pointer_text cr2 @ [10] @ frame_text f sc @ [10] @
      (if page_fault_not_present error_code then ascii ''Page was not present!'' @ [10] else []) \<and>
    debug_text s' = debug_text s @ drop (length (vga_text s)) (vga_text s') \<and>
    parse_number 16 (pointer_text cr2) = unat cr2"
proof -
  let ?a = "ascii (page_fault_action error_code)"
  let ?t = "ascii ''Page fault occurred '' @ ?a @ ascii '' 0x'' @ pointer_text cr2"
  have f: "format_text (ascii ''Page fault occurred %s 0x%p'') [VStr (lit ?a) ?a, VPtr cr2] = Inr ?t"
    by (simp add: ascii_def [of "''Page fault occurred %s 0x%p''"] ascii_def [of "''Page fault occurred ''"] ascii_def [of "'' 0x''"]
      pointer_text_def format_evaluation)
  have a: "length ?a \<le> 12" "0 \<notin> set ?a" by (simp_all add: page_fault_action_def ascii_def)
  have t: "length ?t < 64" "0 \<notin> set ?t" using a pointer_text_bounds(1,2) [of cr2] by (simp_all add: ascii_def)
  have out: "snprintf False 64 (Some (ascii ''Page fault occurred %s 0x%p'')) [VStr (lit ?a) ?a, VPtr cr2] = Inr (?t @ [0], int_of_size (length ?t), [])"
    unfolding snprintf_def by (rule vsnprintf_text [OF f t(1)])
  have b: "buffer_string ((?t @ [0]) @ xs) = Inr ?t" for xs using buffer_string_text [OF t(2), of xs] by (simp only: append_assoc append_Cons append_Nil)
  let ?s1 = "puts (frame_text f sc) (puts ?t s)"
  let ?s' = "if page_fault_not_present error_code then puts (ascii ''Page was not present!'') ?s1 else ?s1"
  have "page_fault_handler lit junk cr2 f error_code sc s = Inr (Halted ?s')"
    unfolding page_fault_handler_def Let_def out rbind_Inr prod.case b print_interrupt_frame_text [OF assms] ..
  then show ?thesis using pointer_text_bounds(3) by (intro exI [of _ ?s']) (simp add: puts_def fputs_def)
qed

theorem page_fault_reports_witness:
  "\<forall>lit f sc s. \<exists>s'. page_fault_handler lit (replicate 512 0xCC) 0xDEAD000 f 2 sc s = Inr (Halted s') \<and>
     vga_text s' = vga_text s @ ascii ''Page fault occurred writing to 0x000000000dead000'' @ [10] @ frame_text f sc @ [10] @
       ascii ''Page was not present!'' @ [10]"
proof (intro allI)
  fix lit f sc s
  have p: "pointer_text 0xDEAD000 = ascii ''000000000dead000''"
    by (simp add: pointer_text_def number_text_def digits.simps digit_char_def ascii_def)
  have a: "page_fault_action 2 = ''writing to''" "page_fault_not_present 2"
    by (simp_all add: page_fault_action_def page_fault_not_present_def)
  from page_fault_reports [of "replicate 512 0xCC" lit "0xDEAD000" f 2 sc s]
  show "\<exists>s'. page_fault_handler lit (replicate 512 0xCC) 0xDEAD000 f 2 sc s = Inr (Halted s') \<and>
     vga_text s' = vga_text s @ ascii ''Page fault occurred writing to 0x000000000dead000'' @ [10] @ frame_text f sc @ [10] @
       ascii ''Page was not present!'' @ [10]"
    unfolding a(1) p using a(2) by (auto simp: ascii_def)
qed

text \<open>The report of a general protection fault fits its buffer as well, although it is written without a bound.\<close>

lemma general_protection_fault_reports:
  assumes "length junk = 512"
  shows "report_general_protection_fault lit junk f error_code sc s =
    Inr (puts (ascii ''General protection (GP) fault occurred at '' @ pointer_text (if_rip f) @ ascii '' (tbl='' @
      ascii (fault_table error_code) @ ascii '', idx='' @ number_text 16 False 8 (ucast (sel_get_index error_code)) @ ascii '')'')
      (puts (frame_text f sc) s))"
proof -
  let ?w = "ascii (fault_table error_code)" and ?i = "number_text 16 False 8 (ucast (sel_get_index error_code))"
  let ?fmt = "ascii ''General protection (GP) fault occurred at %p (tbl=%s, idx=%x)''"
  let ?args = "[VPtr (if_rip f), VStr (lit ?w) ?w, VInt (ucast (sel_get_index error_code))]"
  let ?t = "ascii ''General protection (GP) fault occurred at '' @ pointer_text (if_rip f) @ ascii '' (tbl='' @ ?w @ ascii '', idx='' @ ?i @ ascii '')''"
  have down: "ucast (ucast (w :: u32) :: u64) = w" for w by (rule bit_eqI) (simp add: bit_unsigned_iff possible_bit_word)
  have f: "format_text ?fmt ?args = Inr ?t"
    by (simp add: ascii_def [of "''General protection (GP) fault occurred at %p (tbl=%s, idx=%x)''"]
      ascii_def [of "''General protection (GP) fault occurred at ''"] ascii_def [of "'' (tbl=''"] ascii_def [of "'', idx=''"]
      ascii_def [of "'')''"] pointer_text_def format_evaluation down)
  have w: "length ?w = 3" "0 \<notin> set ?w" by (simp_all add: fault_table_def ascii_def)
  have "unat (ucast (sel_get_index error_code) :: u64) < 16 ^ 8"
    unfolding unat_ucast_up by (rule order_less_le_trans [OF unsigned_less]) simp
  note n = number_text_bounds [of 16 "ucast (sel_get_index error_code)" 8 8 False, OF _ _ this]
  have t: "length ?t < 128" "0 \<notin> set ?t" using n(1,2) w pointer_text_bounds(1,2) [of "if_rip f"] by (simp_all add: ascii_def)
  have "length ?t < SIZE_MAX" by (rule order_less_trans [OF t(1)]) (simp add: SIZE_MAX_def)
  then have out: "sprintf False (Some ?fmt) ?args = Inr (?t @ [0], int_of_size (length ?t), [])"
    unfolding sprintf_def vsprintf_def by (rule vsnprintf_text [OF f])
  have b: "buffer_string ((?t @ [0]) @ xs) = Inr ?t" for xs
    using buffer_string_text [OF t(2), of xs] by (simp only: append_assoc append_Cons append_Nil)
  have "length (?t @ [0]) \<le> 512" using t(1) by simp
  then show ?thesis
    unfolding report_general_protection_fault_def print_interrupt_frame_text [OF assms] rbind_Inr out prod.case b by simp
qed

text \<open>
  A failed assertion names its place: for a file name, a line below \<open>2 ^ 31\<close> and a condition that fit the buffer
  together, the console gets the file, the line in decimal and the condition, and the kernel halts.
\<close>

theorem assertion_reports:
  assumes "unat line < 2 ^ 31" "0 \<notin> set file" "0 \<notin> set condition" "length file + length condition < 0x1D0"
  shows "\<exists>s'. handle_assert lit file line condition s = Inr (Halted s') \<and>
    vga_text s' = vga_text s @ ascii ''assertion failed: '' @ file @ ascii '':'' @ number_text 10 False 9 (ucast line) @
      ascii '': `'' @ condition @ ascii ''`'' @ [10] \<and> parse_number 10 (number_text 10 False 9 (ucast line)) = unat line"
proof -
  let ?n = "number_text 10 False 9 (ucast line)"
  let ?t = "ascii ''assertion failed: '' @ file @ ascii '':'' @ ?n @ ascii '': `'' @ condition @ ascii ''`'' @ [10]"
  note u = unat_ucast_up [of line]
  have u2: "unat (ucast line :: u64) < 10 ^ 10" unfolding u using assms(1) by simp
  note n = number_text_bounds [of 10 "ucast line" 10 9 False, OF _ _ u2]
  have "ucast (ucast line :: u64) = line" by (rule bit_eqI) (simp add: bit_unsigned_iff possible_bit_word)
  then have sx: "scast (ucast (ucast line :: u64) :: u32) = (ucast line :: u64)" "0 \<le> sint (ucast line :: u64)"
    using scast_positive [OF assms(1)] by simp_all
  have f: "format_text (ascii ''assertion failed: %s:%d: `%s`'' @ [10])
      [VStr (lit file) file, VInt (ucast line), VStr (lit condition) condition] = Inr ?t"
    using sx by (simp add: ascii_def format_evaluation signed_integer_arg_of_length_def int_text_def number_text_def)
  have t: "length ?t < 0x200" "0 \<notin> set ?t" using assms n(1,2) by (simp_all add: ascii_def)
  have "handle_assert lit file line condition s = Inr (Halted (printed ?t Stdout s))"
    unfolding handle_assert_def kstd_panic_def vfprintf_text [OF f t, of Stdout, simplified] by simp
  then show ?thesis using n(3) u by (intro exI [of _ "printed ?t Stdout s"]) (simp add: printed_def fputs_def)
qed

theorem assertion_reports_witness:
  "\<forall>lit s. \<exists>s'. handle_assert lit (ascii ''vma.cpp'') 73 (ascii ''size != 0'') s = Inr (Halted s') \<and>
     vga_text s' = vga_text s @ ascii ''assertion failed: vma.cpp:73: `size != 0`'' @ [10]"
proof (intro allI)
  fix lit s
  have n: "number_text 10 False 9 (ucast (73 :: u32)) = ascii ''73''"
    by (simp add: number_text_def digits.simps digit_char_def ascii_def)
  have "unat (73 :: u32) < 2 ^ 31" "0 \<notin> set (ascii ''vma.cpp'')" "0 \<notin> set (ascii ''size != 0'')"
    "length (ascii ''vma.cpp'') + length (ascii ''size != 0'') < 0x1D0" by (simp_all add: ascii_def)
  from assertion_reports [OF this, of lit s]
  show "\<exists>s'. handle_assert lit (ascii ''vma.cpp'') 73 (ascii ''size != 0'') s = Inr (Halted s') \<and>
     vga_text s' = vga_text s @ ascii ''assertion failed: vma.cpp:73: `size != 0`'' @ [10]"
    unfolding n by (auto simp: ascii_def)
qed

text \<open>\<^verbatim>\<open>debug::printf\<close> sends the text to the port, and shows it once the screen is initialised.\<close>

lemma debug_printf_text:
  assumes "format_text fmt args = Inr t" "length t < 0x200" "0 \<notin> set t"
  shows "debug_printf polls hw fmt args buf tr v = rbind (send_all polls hw t tr) (\<lambda>t1.
    rbind (c_vga_print t v) (\<lambda>v1. Inr (t @ [0] @ drop (length t + 1) buf, t1, v1, [])))"
  using vsnprintf_text [OF assms(1,2)] buffer_string_text [OF assms(3)] by (simp add: debug_printf_def Let_def)

end
