(* ===== verification/Memory_Dump.thy ===== *)
theory Memory_Dump
  imports Diagnostics Memory_Map Vma
begin

text \<open>
  The listings the kernel prints of its memory: \<^verbatim>\<open>dump_memory_map\<close> (src/kernel/memory.cpp), which runs after
  the map is sorted, and \<^verbatim>\<open>dump_free_list\<close> (src/kernel/vma.cpp), which runs at the end of
  \<^verbatim>\<open>memory::finish_init\<close>. Both print one formatted line after another; the listing is the texts of the lines.
\<close>

subsection \<open>Printing several lines\<close>

fun fprint_all :: "stream \<Rightarrow> (u8 list \<times> va_value list) list \<Rightarrow> stdio_state \<Rightarrow> stdio_state res" where
  "fprint_all f [] s = Inr s"
| "fprint_all f ((fmt, args) # js) s = rbind (fprintf f fmt args s) (fprint_all f js)"

definition prints :: "u8 list \<times> va_value list \<Rightarrow> u8 list \<Rightarrow> bool" where
  "prints job t \<longleftrightarrow> format_text (fst job) (snd job) = Inr t \<and> length t < 0x200 \<and> 0 \<notin> set t"

lemma fprint_all_text:
  assumes "list_all2 prints js ts" "f \<noteq> Other_file"
  shows "\<exists>s'. fprint_all f js s = Inr s' \<and> debug_text s' = debug_text s @ concat ts \<and>
    vga_text s' = vga_text s @ (if f = Stdout then concat ts else [])"
  using assms(1)
proof (induction arbitrary: s rule: list_all2_induct)
  case (Cons j js t ts)
  obtain fmt args where j: "j = (fmt, args)" by (cases j)
  have p: "fprintf f fmt args s = Inr (printed t f s)"
    unfolding fprintf_def using Cons.hyps(1) assms(2) by (intro vfprintf_text) (simp_all add: prints_def j)
  obtain s' where "fprint_all f js (printed t f s) = Inr s'" "debug_text s' = debug_text (printed t f s) @ concat ts"
      "vga_text s' = vga_text (printed t f s) @ (if f = Stdout then concat ts else [])"
    using Cons.IH by blast
  then show ?case using p assms(2) by (cases f) (simp_all add: j printed_def fputs_def)
qed simp

subsection \<open>The memory map\<close>

definition map_entry_job :: "(u8 list \<Rightarrow> u64) \<Rightarrow> nat \<Rightarrow> memory_map_entry \<Rightarrow> u8 list \<times> va_value list" where
  "map_entry_job lit i e =
     (ascii ''memory_map[%d]:'' @ [10, 9] @ ascii ''type: %s'' @ [10, 9] @ ascii ''base: %lx'' @ [10, 9] @ ascii ''size: %lx'' @ [10],
      [VInt (ucast (of_nat i :: u32)), (let w = ascii (type_str (entry_type e)) in VStr (lit w) w), VInt (entry_base e), VInt (entry_length e)])"

definition dump_memory_map :: "(u8 list \<Rightarrow> u64) \<Rightarrow> memory_state \<Rightarrow> stdio_state \<Rightarrow> stdio_state res" where
  "dump_memory_map lit m s =
     fprint_all Stdout (map (\<lambda>i. map_entry_job lit i (g_memory_map m ! i)) [0..<nat (sint (g_num_of_memory_map_entries m))]) s"

definition map_entry_text :: "nat \<Rightarrow> memory_map_entry \<Rightarrow> u8 list" where
  "map_entry_text i e = ascii ''memory_map['' @ number_text 10 False 9 (ucast (of_nat i :: u32)) @ ascii '']:'' @ [10, 9] @
     ascii ''type: '' @ ascii (type_str (entry_type e)) @ [10, 9] @ ascii ''base: '' @ hex_text (entry_base e) @ [10, 9] @
     ascii ''size: '' @ hex_text (entry_length e) @ [10]"

lemma map_entry_prints:
  assumes "i < 2 ^ 31" shows "prints (map_entry_job lit i e) (map_entry_text i e)"
proof -
  let ?i = "of_nat i :: u32" and ?w = "ascii (type_str (entry_type e))"
  have u: "unat ?i = i" using assms by (simp add: unat_of_nat)
  have "ucast (ucast ?i :: u64) = ?i" by (rule bit_eqI) (simp add: bit_unsigned_iff possible_bit_word)
  then have sx: "scast (ucast (ucast ?i :: u64) :: u32) = (ucast ?i :: u64)" "0 \<le> sint (ucast ?i :: u64)"
    using scast_positive [of ?i] u assms by simp_all
  have f: "format_text (fst (map_entry_job lit i e)) (snd (map_entry_job lit i e)) = Inr (map_entry_text i e)"
    using sx unfolding map_entry_job_def map_entry_text_def fst_conv snd_conv Let_def
    by (simp add: ascii_def [of "''memory_map[%d]:''"] ascii_def [of "''type: %s''"] ascii_def [of "''base: %lx''"]
      ascii_def [of "''size: %lx''"] ascii_def [of "''memory_map[''"] ascii_def [of "'']:''"] ascii_def [of "''type: ''"]
      ascii_def [of "''base: ''"] ascii_def [of "''size: ''"] format_evaluation signed_integer_arg_of_length_def int_text_def
      number_text_def hex_text_def)
  have "unat (ucast ?i :: u64) < 10 ^ 10" unfolding unat_ucast_up u using assms by simp
  note n = number_text_bounds [of 10 "ucast ?i" 10 9 False, OF _ _ this]
  have w: "length ?w \<le> 11" "0 \<notin> set ?w" by (simp_all add: type_str_def ascii_def)
  show ?thesis
    using f n(1,2) w hex_text_bounds(1,2) [of "entry_base e"] hex_text_bounds(1,2) [of "entry_length e"]
    by (simp add: prints_def map_entry_text_def ascii_def [of "''memory_map[''"] ascii_def [of "'']:''"] ascii_def [of "''type: ''"]
      ascii_def [of "''base: ''"] ascii_def [of "''size: ''"])
qed

lemma dump_memory_map_text:
  fixes m :: memory_state
  assumes "unat (g_num_of_memory_map_entries m) < 2 ^ 31"
  shows "\<exists>s'. dump_memory_map lit m s = Inr s' \<and> vga_text s' = vga_text s @
    concat (map (\<lambda>i. map_entry_text i (g_memory_map m ! i)) [0..<unat (g_num_of_memory_map_entries m)])"
proof -
  let ?n = "g_num_of_memory_map_entries m"
  have "uint ?n < 2 ^ 31" using assms nat_less_iff [of "uint ?n" "2 ^ 31"] by simp
  then have "sint ?n = uint ?n" unfolding sint_uint
    by (intro signed_take_bit_int_eq_self) (simp_all add: order_trans [OF _ unsigned_greater_eq])
  then have n: "nat (sint ?n) = unat ?n" by (simp only: unat_eq_nat_uint)
  have "list_all2 prints (map (\<lambda>i. map_entry_job lit i (g_memory_map m ! i)) [0..<unat ?n])
      (map (\<lambda>i. map_entry_text i (g_memory_map m ! i)) [0..<unat ?n])"
    unfolding list.rel_map by (rule list.rel_refl_strong) (use assms in \<open>auto intro: map_entry_prints\<close>)
  from fprint_all_text [OF this, of Stdout s] show ?thesis unfolding dump_memory_map_def n by auto
qed

subsection \<open>The free list\<close>

definition free_node_job :: "free_node \<Rightarrow> u8 list \<times> va_value list" where
  "free_node_job n = (ascii ''-- node: %p - %p (%zx)'' @ [10],
     [VPtr (node_base n), VPtr (node_base n + node_size n - 1), VInt (node_size n)])"

definition dump_free_list :: "vma_state \<Rightarrow> stdio_state \<Rightarrow> stdio_state res" where
  "dump_free_list v s = rbind (fprintf Stderr (ascii ''dumping VMA free list:'' @ [10]) [] s) (\<lambda>s1.
     rbind (walk_list v) (\<lambda>is. fprint_all Stderr (map (\<lambda>i. free_node_job (nodes v ! i)) is) s1))"

definition free_node_text :: "free_node \<Rightarrow> u8 list" where
  "free_node_text n = ascii ''-- node: '' @ pointer_text (node_base n) @ ascii '' - '' @
     pointer_text (node_base n + node_size n - 1) @ ascii '' ('' @ number_text 16 False (length_to_digits size_int 16) (node_size n) @
     ascii '')'' @ [10]"

lemma free_node_prints: "prints (free_node_job n) (free_node_text n)"
proof -
  have f: "format_text (fst (free_node_job n)) (snd (free_node_job n)) = Inr (free_node_text n)"
    unfolding free_node_job_def free_node_text_def fst_conv snd_conv
    by (simp add: ascii_def pointer_text_def format_evaluation)
  have "unat (node_size n) < 16 ^ 16" using unsigned_less [of "node_size n"] by simp
  note b = number_text_bounds [of 16 "node_size n" 16 "length_to_digits size_int 16" False, OF _ _ this]
  have "length_to_digits size_int 16 \<le> 16" by (simp add: length_to_digits_def)
  then show ?thesis
    using f b(1,2) pointer_text_bounds(1,2) [of "node_base n"] pointer_text_bounds(1,2) [of "node_base n + node_size n - 1"]
    by (simp add: prints_def free_node_text_def ascii_def)
qed

lemma dump_free_list_text:
  assumes "walk_list v = Inr is"
  shows "\<exists>s'. dump_free_list v s = Inr s' \<and> vga_text s' = vga_text s \<and>
    debug_text s' = debug_text s @ ascii ''dumping VMA free list:'' @ [10] @ concat (map (\<lambda>i. free_node_text (nodes v ! i)) is)"
proof -
  let ?h = "ascii ''dumping VMA free list:'' @ [10]"
  have h: "prints (?h, []) ?h" by (simp add: prints_def ascii_def format_evaluation)
  have p: "fprintf Stderr ?h [] s = Inr (printed ?h Stderr s)"
    unfolding fprintf_def using h by (intro vfprintf_text) (simp_all add: prints_def)
  have "list_all2 prints (map (\<lambda>i. free_node_job (nodes v ! i)) is) (map (\<lambda>i. free_node_text (nodes v ! i)) is)"
    unfolding list.rel_map by (rule list.rel_refl_strong) (rule free_node_prints)
  from fprint_all_text [OF this, of Stderr "printed ?h Stderr s"]
  show ?thesis unfolding dump_free_list_def p rbind_Inr assms by (auto simp: printed_def fputs_def)
qed

end
