(* ===== verification/Paging_Dump.thy ===== *)
theory Paging_Dump
  imports Memory_Dump
begin

text \<open>
  \<^verbatim>\<open>page_tables::dump_to_file\<close> of src/kernel/paging.cpp, which the shell's \<^verbatim>\<open>pages\<close>
  command runs. It follows the entries to the tables at their physical addresses, without
  \<^verbatim>\<open>KERNEL_VMA_OFFSET\<close>, so what it reads goes through the page tables itself: a load
  from a virtual address reads the cell of its physical address, or faults.
\<close>

definition load_cell :: "paging_state \<Rightarrow> u64 \<Rightarrow> u64 res" where
  "load_cell ps a = (case translation ps (path_of a) of
     None \<Rightarrow> Inl (Blocked ''page fault'')
   | Some e \<Rightarrow> Inr (mem ps ((e AND ADDRESS_MASK) + take_bit 12 a + KERNEL_VMA_OFFSET)))"

subsection \<open>The four loops\<close>

record dump_line =
  dl_virtual :: u64
  dl_physical :: u64
  dl_rw_flags :: string
  dl_x_flags :: string

definition dump_entry :: "nat \<Rightarrow> nat \<Rightarrow> nat \<Rightarrow> nat \<Rightarrow> u64 \<Rightarrow> dump_line" where
  "dump_entry i j k l pml1_entry = \<lparr>
     dl_virtual = sign_extend (push_bit 12 (of_nat l) OR push_bit 21 (of_nat k) OR push_bit 30 (of_nat j) OR push_bit 39 (of_nat i)) 42,
     dl_physical = pml1_entry AND ADDRESS_MASK,
     dl_rw_flags = (if pml1_entry AND RW \<noteq> 0 then ''rw'' else ''r''),
     dl_x_flags = (if pml1_entry AND XD \<noteq> 0 then '''' else ''x'')\<rparr>"

fun collect :: "('a \<Rightarrow> 'b list res) \<Rightarrow> 'a list \<Rightarrow> 'b list res" where
  "collect f [] = Inr []"
| "collect f (x # xs) = rbind (f x) (\<lambda>ys. rbind (collect f xs) (\<lambda>zs. Inr (ys @ zs)))"

definition dump_pml1 :: "paging_state \<Rightarrow> nat \<Rightarrow> nat \<Rightarrow> nat \<Rightarrow> u64 \<Rightarrow> dump_line list res" where
  "dump_pml1 ps i j k pml1 = collect (\<lambda>l. rbind (load_cell ps (slot pml1 l)) (\<lambda>pml1_entry.
     Inr (if pml1_entry AND PRESENT = 0 then [] else [dump_entry i j k l pml1_entry]))) [0..<NUM_PAGE_TABLE_ENTRIES]"

definition dump_pml2 :: "paging_state \<Rightarrow> nat \<Rightarrow> nat \<Rightarrow> u64 \<Rightarrow> dump_line list res" where
  "dump_pml2 ps i j pml2 = collect (\<lambda>k. rbind (load_cell ps (slot pml2 k)) (\<lambda>pml2_entry.
     if pml2_entry AND PRESENT = 0 then Inr [] else dump_pml1 ps i j k (pml2_entry AND NOT PREFIX_MASK))) [0..<NUM_PAGE_TABLE_ENTRIES]"

definition dump_pml3 :: "paging_state \<Rightarrow> nat \<Rightarrow> u64 \<Rightarrow> dump_line list res" where
  "dump_pml3 ps i pml3 = collect (\<lambda>j. rbind (load_cell ps (slot pml3 j)) (\<lambda>pml3_entry.
     if pml3_entry AND PRESENT = 0 then Inr [] else dump_pml2 ps i j (pml3_entry AND NOT PREFIX_MASK))) [0..<NUM_PAGE_TABLE_ENTRIES]"

definition dump_lines :: "paging_state \<Rightarrow> dump_line list res" where
  "dump_lines ps = collect (\<lambda>i. rbind (load_cell ps (slot (pt_base ps) i)) (\<lambda>pml4_entry.
     if pml4_entry AND PRESENT = 0 then Inr [] else dump_pml3 ps i (pml4_entry AND NOT PREFIX_MASK))) [0..<NUM_PAGE_TABLE_ENTRIES]"

text \<open>The lines are printed one by one as they are found.\<close>

definition dump_job :: "(u8 list \<Rightarrow> u64) \<Rightarrow> dump_line \<Rightarrow> u8 list \<times> va_value list" where
  "dump_job lit d = (ascii ''Virtual 0x%p -> Physical 0x%p (%s%s)'' @ [10],
     [VPtr (dl_virtual d), VPtr (dl_physical d), VStr (lit (ascii (dl_rw_flags d))) (ascii (dl_rw_flags d)),
      VStr (lit (ascii (dl_x_flags d))) (ascii (dl_x_flags d))])"

definition dump_to_file :: "(u8 list \<Rightarrow> u64) \<Rightarrow> stream \<Rightarrow> paging_state \<Rightarrow> stdio_state \<Rightarrow> stdio_state res" where
  "dump_to_file lit out ps s = rbind (dump_lines ps) (\<lambda>ls. fprint_all out (map (dump_job lit) ls) s)"

definition dump_to_stderr :: "(u8 list \<Rightarrow> u64) \<Rightarrow> paging_state \<Rightarrow> stdio_state \<Rightarrow> stdio_state res" where
  "dump_to_stderr lit ps s = dump_to_file lit Stderr ps s"

subsection \<open>The dump lists the translations\<close>

lemma collect_concat: "(\<And>x. x \<in> set xs \<Longrightarrow> f x = Inr (g x)) \<Longrightarrow> collect f xs = Inr (concat (map g xs))"
  by (induction xs) simp_all

text \<open>Every table can be read where the dump reads it: the root at its own address, the others at
  their physical ones.\<close>

definition dump_readable :: "paging_state \<Rightarrow> bool" where
  "dump_readable ps \<longleftrightarrow> (\<forall>i < 512. load_cell ps (slot (pt_base ps) i) = Inr (mem ps (slot (pt_base ps) i))) \<and>
     (\<forall>p d t i. valid_path p \<longrightarrow> 0 < d \<longrightarrow> d \<le> 3 \<longrightarrow> table_at (mem ps) (pt_base ps) p d = Some t \<longrightarrow> i < 512 \<longrightarrow>
        load_cell ps (slot (t - KERNEL_VMA_OFFSET) i) = Inr (mem ps (slot t i)))"

lemma dump_readableD:
  assumes "dump_readable ps" "valid_path p" "0 < d" "d \<le> 3" "table_at (mem ps) (pt_base ps) p d = Some t" "i < 512"
  shows "load_cell ps (slot (t - KERNEL_VMA_OFFSET) i) = Inr (mem ps (slot t i))"
  using assms unfolding dump_readable_def by blast

definition lines1 :: "paging_state \<Rightarrow> nat \<Rightarrow> nat \<Rightarrow> nat \<Rightarrow> dump_line list" where
  "lines1 ps i j k = concat (map (\<lambda>l. case translation ps [l, k, j, i] of None \<Rightarrow> [] | Some e \<Rightarrow> [dump_entry i j k l e]) [0..<512])"

definition lines2 :: "paging_state \<Rightarrow> nat \<Rightarrow> nat \<Rightarrow> dump_line list" where
  "lines2 ps i j = concat (map (lines1 ps i j) [0..<512])"

definition lines3 :: "paging_state \<Rightarrow> nat \<Rightarrow> dump_line list" where
  "lines3 ps i = concat (map (lines2 ps i) [0..<512])"

text \<open>One line for every page that is mapped, in the order of the table indices.\<close>

definition page_lines :: "paging_state \<Rightarrow> dump_line list" where
  "page_lines ps = concat (map (lines3 ps) [0..<512])"

lemma entry_table_physical: "entry_table e - KERNEL_VMA_OFFSET = e AND NOT PREFIX_MASK"
  by (simp add: entry_table_def)

lemma not_present: "e AND PRESENT = 0 \<longleftrightarrow> \<not> bit e 0" for e :: u64
  using and_PRESENT by blast

text \<open>The four tables of a path, from the root.\<close>

lemma walk_steps:
  "table_at m b [l, k, j, i] 1 = (if bit (m (slot b i)) 0 then Some (entry_table (m (slot b i))) else None)"
  "table_at m b [l, k, j, i] 2 = (case table_at m b [l, k, j, i] 1 of None \<Rightarrow> None
     | Some t \<Rightarrow> if bit (m (slot t j)) 0 then Some (entry_table (m (slot t j))) else None)"
  "table_at m b [l, k, j, i] 3 = (case table_at m b [l, k, j, i] 2 of None \<Rightarrow> None
     | Some t \<Rightarrow> if bit (m (slot t k)) 0 then Some (entry_table (m (slot t k))) else None)"
  by (simp_all add: numeral_3_eq_3 numeral_2_eq_2 Let_def split: option.splits)

lemma translation_walk:
  "translation ps [l, k, j, i] = (case table_at (mem ps) (pt_base ps) [l, k, j, i] 3 of None \<Rightarrow> None
     | Some t \<Rightarrow> if bit (mem ps (slot t l)) 0 then Some (mem ps (slot t l)) else None)"
  by (simp add: translation_def pte_table split: option.splits)

lemma walk_independent:
  "table_at m b [l, k, j, i] 1 = table_at m b [0, 0, 0, i] 1" "table_at m b [l, k, j, i] 2 = table_at m b [0, 0, j, i] 2"
  "table_at m b [l, k, j, i] 3 = table_at m b [0, k, j, i] 3"
  by (simp_all only: walk_steps)

lemma dump_pml1_lines:
  assumes "dump_readable ps" "k < 512" "j < 512" "i < 512" "table_at (mem ps) (pt_base ps) [0, k, j, i] 3 = Some t"
  shows "dump_pml1 ps i j k (t - KERNEL_VMA_OFFSET) = Inr (lines1 ps i j k)"
  unfolding dump_pml1_def lines1_def NUM_PAGE_TABLE_ENTRIES_def
proof (rule collect_concat)
  fix l assume "l \<in> set [0..<512]"
  then have l: "l < 512" by simp
  have "valid_path [0, k, j, i]" using assms(2-4) by (simp add: valid_path_digits)
  then have ld: "load_cell ps (slot (t - KERNEL_VMA_OFFSET) l) = Inr (mem ps (slot t l))"
    using dump_readableD [OF assms(1) _ _ _ assms(5) l] by simp
  have "translation ps [l, k, j, i] = (if bit (mem ps (slot t l)) 0 then Some (mem ps (slot t l)) else None)"
    unfolding translation_walk walk_independent(3) [of _ _ l] assms(5) by simp
  then show "rbind (load_cell ps (slot (t - KERNEL_VMA_OFFSET) l)) (\<lambda>e. Inr (if e AND PRESENT = 0 then [] else [dump_entry i j k l e])) =
      Inr (case translation ps [l, k, j, i] of None \<Rightarrow> [] | Some e \<Rightarrow> [dump_entry i j k l e])"
    unfolding ld by (simp add: not_present)
qed
lemma lines1_unmapped: "table_at (mem ps) (pt_base ps) [0, k, j, i] 3 = None \<Longrightarrow> lines1 ps i j k = []"
proof -
  assume none: "table_at (mem ps) (pt_base ps) [0, k, j, i] 3 = None"
  have "translation ps [l, k, j, i] = None" for l
    unfolding translation_walk walk_independent(3) [of _ _ l] none by simp
  then show ?thesis by (simp add: lines1_def)
qed

lemma dump_pml2_lines:
  assumes "dump_readable ps" "j < 512" "i < 512" "table_at (mem ps) (pt_base ps) [0, 0, j, i] 2 = Some t"
  shows "dump_pml2 ps i j (t - KERNEL_VMA_OFFSET) = Inr (lines2 ps i j)"
  unfolding dump_pml2_def lines2_def NUM_PAGE_TABLE_ENTRIES_def
proof (rule collect_concat)
  fix k assume "k \<in> set [0..<512]"
  then have k: "k < 512" by simp
  have "valid_path [0, 0, j, i]" using assms(2,3) by (simp add: valid_path_digits)
  then have ld: "load_cell ps (slot (t - KERNEL_VMA_OFFSET) k) = Inr (mem ps (slot t k))"
    using dump_readableD [OF assms(1) _ _ _ assms(4) k] by simp
  have step: "table_at (mem ps) (pt_base ps) [0, k, j, i] 3 =
      (if bit (mem ps (slot t k)) 0 then Some (entry_table (mem ps (slot t k))) else None)"
    unfolding walk_steps(3) walk_independent(2) [of _ _ 0 k] assms(4) by simp
  show "rbind (load_cell ps (slot (t - KERNEL_VMA_OFFSET) k)) (\<lambda>e. if e AND PRESENT = 0 then Inr []
      else dump_pml1 ps i j k (e AND NOT PREFIX_MASK)) = Inr (lines1 ps i j k)"
  proof (cases "bit (mem ps (slot t k)) 0")
    case True
    with step have t3: "table_at (mem ps) (pt_base ps) [0, k, j, i] 3 = Some (entry_table (mem ps (slot t k)))" by simp
    show ?thesis
      using dump_pml1_lines [OF assms(1) k assms(2,3) t3] True by (simp add: ld not_present entry_table_physical)
  next
    case False
    then show ?thesis using step lines1_unmapped [of ps k j i] by (simp add: ld not_present)
  qed
qed

lemma lines2_unmapped: "table_at (mem ps) (pt_base ps) [0, 0, j, i] 2 = None \<Longrightarrow> lines2 ps i j = []"
proof -
  assume "table_at (mem ps) (pt_base ps) [0, 0, j, i] 2 = None"
  then have "table_at (mem ps) (pt_base ps) [0, k, j, i] 3 = None" for k
    unfolding walk_steps(3) walk_independent(2) [of _ _ 0 k] by simp
  then show ?thesis by (simp add: lines2_def lines1_unmapped)
qed

lemma dump_pml3_lines:
  assumes "dump_readable ps" "i < 512" "table_at (mem ps) (pt_base ps) [0, 0, 0, i] 1 = Some t"
  shows "dump_pml3 ps i (t - KERNEL_VMA_OFFSET) = Inr (lines3 ps i)"
  unfolding dump_pml3_def lines3_def NUM_PAGE_TABLE_ENTRIES_def
proof (rule collect_concat)
  fix j assume "j \<in> set [0..<512]"
  then have j: "j < 512" by simp
  have "valid_path [0, 0, 0, i]" using assms(2) by (simp add: valid_path_digits)
  then have ld: "load_cell ps (slot (t - KERNEL_VMA_OFFSET) j) = Inr (mem ps (slot t j))"
    using dump_readableD [OF assms(1) _ _ _ assms(3) j] by simp
  have step: "table_at (mem ps) (pt_base ps) [0, 0, j, i] 2 =
      (if bit (mem ps (slot t j)) 0 then Some (entry_table (mem ps (slot t j))) else None)"
    unfolding walk_steps(2) walk_independent(1) [of _ _ 0 0 j] assms(3) by simp
  show "rbind (load_cell ps (slot (t - KERNEL_VMA_OFFSET) j)) (\<lambda>e. if e AND PRESENT = 0 then Inr []
      else dump_pml2 ps i j (e AND NOT PREFIX_MASK)) = Inr (lines2 ps i j)"
  proof (cases "bit (mem ps (slot t j)) 0")
    case True
    with step have t2: "table_at (mem ps) (pt_base ps) [0, 0, j, i] 2 = Some (entry_table (mem ps (slot t j)))" by simp
    show ?thesis
      using dump_pml2_lines [OF assms(1) j assms(2) t2] True by (simp add: ld not_present entry_table_physical)
  next
    case False
    then show ?thesis using step lines2_unmapped [of ps j i] by (simp add: ld not_present)
  qed
qed

lemma lines3_unmapped: "table_at (mem ps) (pt_base ps) [0, 0, 0, i] 1 = None \<Longrightarrow> lines3 ps i = []"
proof -
  assume "table_at (mem ps) (pt_base ps) [0, 0, 0, i] 1 = None"
  then have "table_at (mem ps) (pt_base ps) [0, 0, j, i] 2 = None" for j
    unfolding walk_steps(2) walk_independent(1) [of _ _ 0 0 j] by simp
  then show ?thesis by (simp add: lines3_def lines2_unmapped)
qed

lemma dump_lines_pages:
  assumes "dump_readable ps" shows "dump_lines ps = Inr (page_lines ps)"
  unfolding dump_lines_def page_lines_def NUM_PAGE_TABLE_ENTRIES_def
proof (rule collect_concat)
  fix i assume "i \<in> set [0..<512]"
  then have i: "i < 512" by simp
  have ld: "load_cell ps (slot (pt_base ps) i) = Inr (mem ps (slot (pt_base ps) i))"
    using assms i unfolding dump_readable_def by blast
  show "rbind (load_cell ps (slot (pt_base ps) i)) (\<lambda>e. if e AND PRESENT = 0 then Inr []
      else dump_pml3 ps i (e AND NOT PREFIX_MASK)) = Inr (lines3 ps i)"
  proof (cases "bit (mem ps (slot (pt_base ps) i)) 0")
    case True
    then have t1: "table_at (mem ps) (pt_base ps) [0, 0, 0, i] 1 = Some (entry_table (mem ps (slot (pt_base ps) i)))"
      by (simp only: walk_steps(1) if_True)
    show ?thesis using dump_pml3_lines [OF assms i t1] True by (simp add: ld not_present entry_table_physical)
  next
    case False
    then have "table_at (mem ps) (pt_base ps) [0, 0, 0, i] 1 = None" by (simp only: walk_steps(1) if_False)
    then show ?thesis using False lines3_unmapped by (simp add: ld not_present)
  qed
qed

subsection \<open>The text of the dump\<close>

definition line_text :: "dump_line \<Rightarrow> u8 list" where
  "line_text d = ascii ''Virtual 0x'' @ pointer_text (dl_virtual d) @ ascii '' -> Physical 0x'' @ pointer_text (dl_physical d) @
     ascii '' ('' @ ascii (dl_rw_flags d) @ ascii (dl_x_flags d) @ ascii '')'' @ [10]"

definition flags_ok :: "dump_line \<Rightarrow> bool" where
  "flags_ok d \<longleftrightarrow> dl_rw_flags d \<in> {''rw'', ''r''} \<and> dl_x_flags d \<in> {[], ''x''}"

lemma dump_entry_flags: "flags_ok (dump_entry i j k l e)"
  by (simp add: flags_ok_def dump_entry_def)

lemma page_lines_flags: "d \<in> set (page_lines ps) \<Longrightarrow> flags_ok d"
  by (auto simp: page_lines_def lines3_def lines2_def lines1_def dump_entry_flags split: option.splits)

lemma dump_line_prints: "flags_ok d \<Longrightarrow> prints (dump_job lit d) (line_text d)"
proof -
  assume ok: "flags_ok d"
  let ?rw = "ascii (dl_rw_flags d)" and ?x = "ascii (dl_x_flags d)"
  have f: "format_text (fst (dump_job lit d)) (snd (dump_job lit d)) = Inr (line_text d)"
    unfolding dump_job_def fst_conv snd_conv
    by (simp add: line_text_def ascii_def [of "''Virtual 0x%p -> Physical 0x%p (%s%s)''"] ascii_def [of "''Virtual 0x''"]
      ascii_def [of "'' -> Physical 0x''"] ascii_def [of "'' (''"] ascii_def [of "'')''"] pointer_text_def format_evaluation)
  have w: "length ?rw \<le> 2" "0 \<notin> set ?rw" "length ?x \<le> 1" "0 \<notin> set ?x"
    using ok by (auto simp: flags_ok_def ascii_def)
  then show ?thesis
    using f pointer_text_bounds(1,2) [of "dl_virtual d"] pointer_text_bounds(1,2) [of "dl_physical d"]
    by (simp add: prints_def line_text_def ascii_def [of "''Virtual 0x''"] ascii_def [of "'' -> Physical 0x''"] ascii_def [of "'' (''"]
      ascii_def [of "'')''"])
qed

lemma page_lines_print: "list_all2 prints (map (dump_job lit) (page_lines ps)) (map line_text (page_lines ps))"
  unfolding list.rel_map by (rule list.rel_refl_strong) (blast intro: dump_line_prints page_lines_flags)

subsection \<open>When the dump can read the tables\<close>

text \<open>The tables of \<^verbatim>\<open>early_init\<close> are in the kernel's megabyte, which is mapped at its physical
  addresses too.\<close>

definition tables_in_kernel :: "symbols \<Rightarrow> bool" where
  "tables_in_kernel y \<longleftrightarrow> (\<forall>t \<in> set (init_tables y). \<exists>x. t = KERNEL_VMA_OFFSET + of_nat x \<and> 0x100000 \<le> x \<and> x + 4096 \<le> 0x200000)"

lemma load_cell_identity:
  assumes "boot_ok s" "0x1000 \<le> x" "x < 0x200000"
  shows "load_cell (paging_early_init s) (of_nat x) = Inr (mem (paging_early_init s) (KERNEL_VMA_OFFSET + of_nat x))"
proof -
  have i: "x div 4096 < 512" "1 \<le> x div 4096" using assms(2,3) by (auto simp: less_mult_imp_div_less)
  have "translation (paging_early_init s) (path_of (of_nat x)) = Some (page_entry (x div 4096))"
    using early_init_identity_pte [OF assms(1) i(1)] i(2) page_entry_address(2) [OF i(1)]
    by (simp add: translation_def path_of_identity [OF assms(3)])
  then show ?thesis
    using page_entry_address(1) [OF i(1)] page_plus_offset(1) [OF assms(3)] by (simp add: load_cell_def add.commute)
qed

lemma load_cell_kernel:
  assumes "boot_ok s" "0x100000 \<le> x" "x < 0x200000"
  shows "load_cell (paging_early_init s) (KERNEL_VMA_OFFSET + of_nat x) =
    Inr (mem (paging_early_init s) (KERNEL_VMA_OFFSET + of_nat x))"
proof -
  have i: "x div 4096 < 512" "0x100 \<le> x div 4096" using assms(2,3) by (auto simp: less_mult_imp_div_less)
  have "translation (paging_early_init s) (path_of (KERNEL_VMA_OFFSET + of_nat x)) = Some (page_entry (x div 4096))"
    using early_init_kernel_pte [OF assms(1) i(1)] i(2) page_entry_address(2) [OF i(1)]
    by (simp add: translation_def path_of_kernel [OF assms(3)])
  then show ?thesis
    using page_entry_address(1) [OF i(1)] page_plus_offset [OF assms(3)] by (simp add: load_cell_def add.commute)
qed

lemma early_init_readable:
  assumes "boot_ok s" "tables_in_kernel (syms s)"
  shows "dump_readable (paging_early_init s)"
  unfolding dump_readable_def
proof (intro conjI allI impI)
  have slot: "slot (a + of_nat x) i = a + of_nat (x + 8 * i)" for a x i by (simp add: slot_def)
  fix i :: nat assume i: "i < 512"
  obtain x where x: "kernel_pml4 (syms s) = KERNEL_VMA_OFFSET + of_nat x" "0x100000 \<le> x" "x + 4096 \<le> 0x200000"
    using assms(2) by (auto simp: tables_in_kernel_def init_tables_def)
  show "load_cell (paging_early_init s) (slot (pt_base (paging_early_init s)) i) =
      Inr (mem (paging_early_init s) (slot (pt_base (paging_early_init s)) i))"
    using load_cell_kernel [OF assms(1), of "x + 8 * i"] x(2,3) i
    unfolding early_init_fields x(1) slot by simp
next
  have slot: "slot (a + of_nat x) i = a + of_nat (x + 8 * i)" for a x i by (simp add: slot_def)
  fix p d t and i :: nat
  assume p: "valid_path p" "0 < d" "d \<le> 3" "table_at (mem (paging_early_init s)) (pt_base (paging_early_init s)) p d = Some t" "i < 512"
  have "init_level (syms s) t = 4 - d"
    using table_at_level [OF early_init_tree [OF assms(1)] p(1) _ p(3)] p(4) by simp
  then have "t \<in> set (init_tables (syms s))" using init_level_cases [OF assms(1)] p(3) by simp
  then obtain x where x: "t = KERNEL_VMA_OFFSET + of_nat x" "0x100000 \<le> x" "x + 4096 \<le> 0x200000"
    using assms(2) by (auto simp: tables_in_kernel_def)
  have "slot (t - KERNEL_VMA_OFFSET) i = of_nat (x + 8 * i)" unfolding x(1) by (simp add: slot_def)
  then show "load_cell (paging_early_init s) (slot (t - KERNEL_VMA_OFFSET) i) = Inr (mem (paging_early_init s) (slot t i))"
    using load_cell_identity [OF assms(1), of "x + 8 * i"] x(2,3) p(5) unfolding x(1) slot by simp
qed

text \<open>A table that is not mapped at its physical address stops the dump: this is so for every table
  that is allocated from the dynamic ones, whose physical pages are mapped in the kernel's half only.\<close>

lemma dump_pml1_faults: "translation ps (path_of pml1) = None \<Longrightarrow> dump_pml1 ps i j k pml1 = Inl (Blocked ''page fault'')"
proof -
  assume none: "translation ps (path_of pml1) = None"
  have "load_cell ps (slot pml1 0) = Inl (Blocked ''page fault'')" using none by (simp add: load_cell_def slot_def)
  then show ?thesis by (simp add: dump_pml1_def NUM_PAGE_TABLE_ENTRIES_def upt_conv_Cons)
qed

subsection \<open>Properties\<close>

lemma dump_entry_address:
  assumes "aligned va" "path_of va = [l, k, j, i]"
  shows "dl_virtual (dump_entry i j k l e) = sign_extend va 42"
  using virtual_page_address_path [of "\<lparr>it_tables = [], it_indices = [l, k, j, i], it_level = 0\<rparr>" va] assms
  by (simp add: dump_entry_def virtual_page_address_def or.commute or.left_commute or.assoc numeral_2_eq_2 numeral_3_eq_3)

lemma page_lines_complete:
  assumes "valid_path [l, k, j, i]" "translation ps [l, k, j, i] = Some e"
  shows "dump_entry i j k l e \<in> set (page_lines ps)"
proof -
  have b: "l < 512" "k < 512" "j < 512" "i < 512" using assms(1) by (simp_all add: valid_path_digits)
  have "dump_entry i j k l e \<in> set (lines1 ps i j k)" unfolding lines1_def using b(1) assms(2) by force
  then have "dump_entry i j k l e \<in> set (lines2 ps i j)" unfolding lines2_def using b(2) by auto
  then have "dump_entry i j k l e \<in> set (lines3 ps i)" unfolding lines3_def using b(3) by auto
  then show ?thesis unfolding page_lines_def using b(4) by auto
qed

lemma page_lines_sound:
  assumes "d \<in> set (page_lines ps)"
  obtains l k j i e where "valid_path [l, k, j, i]" "translation ps [l, k, j, i] = Some e" "d = dump_entry i j k l e"
  using assms unfolding page_lines_def lines3_def lines2_def lines1_def
  by (auto simp: valid_path_digits split: option.splits dest!: sym [of "Some _"])

text \<open>
  C35. \<^verbatim>\<open>dump_to_file\<close> lists what is mapped: on tables it can read it returns and prints to the stream one
  line for each present translation, and nothing else. The line of a page whose address
  has 42 significant bits names that address, the physical page it translates to, and its rights.
\<close>

theorem dump_prints_translations:
  assumes "dump_readable ps" "f \<noteq> Other_file"
  shows "(\<exists>s'. dump_to_file lit f ps s = Inr s' \<and> debug_text s' = debug_text s @ concat (map line_text (page_lines ps)) \<and>
       vga_text s' = vga_text s @ (if f = Stdout then concat (map line_text (page_lines ps)) else [])) \<and>
    (\<forall>va e. aligned va \<and> sign_extend va 42 = va \<and> translation ps (path_of va) = Some e \<longrightarrow>
       (\<exists>d \<in> set (page_lines ps). dl_virtual d = va \<and> dl_physical d = e AND ADDRESS_MASK \<and>
          (dl_rw_flags d = ''rw'' \<longleftrightarrow> e AND RW \<noteq> 0) \<and> (dl_x_flags d = ''x'' \<longleftrightarrow> e AND XD = 0))) \<and>
    (\<forall>d \<in> set (page_lines ps). \<exists>p e. valid_path p \<and> translation ps p = Some e \<and> dl_physical d = e AND ADDRESS_MASK)"
proof (intro conjI allI ballI impI)
  show "\<exists>s'. dump_to_file lit f ps s = Inr s' \<and> debug_text s' = debug_text s @ concat (map line_text (page_lines ps)) \<and>
      vga_text s' = vga_text s @ (if f = Stdout then concat (map line_text (page_lines ps)) else [])"
    using fprint_all_text [OF page_lines_print assms(2)] by (simp add: dump_to_file_def dump_lines_pages [OF assms(1)])
next
  fix va e
  assume va: "aligned va \<and> sign_extend va 42 = va \<and> translation ps (path_of va) = Some e"
  obtain l k j i where p: "path_of va = [l, k, j, i]" using path_of_digits by blast
  then have "valid_path [l, k, j, i]" using valid_path_of [of va] by simp
  then have "dump_entry i j k l e \<in> set (page_lines ps)" using page_lines_complete va p by simp
  then show "\<exists>d \<in> set (page_lines ps). dl_virtual d = va \<and> dl_physical d = e AND ADDRESS_MASK \<and>
      (dl_rw_flags d = ''rw'' \<longleftrightarrow> e AND RW \<noteq> 0) \<and> (dl_x_flags d = ''x'' \<longleftrightarrow> e AND XD = 0)"
    by (rule bexI [rotated]) (use va dump_entry_address [OF _ p, of e] in \<open>auto simp: dump_entry_def\<close>)
next
  fix d assume "d \<in> set (page_lines ps)"
  then show "\<exists>p e. valid_path p \<and> translation ps p = Some e \<and> dl_physical d = e AND ADDRESS_MASK"
    by (rule page_lines_sound) (auto simp: dump_entry_def)
qed

lemma sample_tables_in_kernel: "tables_in_kernel (syms sample_boot)"
proof -
  have "\<exists>x. t = KERNEL_VMA_OFFSET + of_nat x \<and> 0x100000 \<le> x \<and> x + 4096 \<le> (0x200000 :: nat)"
    if "t = 0xFFFFFFFF80100000 + 0x1000 * of_nat n" "n < 8" for t :: u64 and n :: nat
    by (rule exI [of _ "0x100000 + 0x1000 * n"]) (use that in \<open>simp add: KERNEL_VMA_OFFSET_def\<close>)
  from this [of _ 1] this [of _ 2] this [of _ 3] this [of _ 4] this [of _ 5] this [of _ 6] this [of _ 7]
  show ?thesis by (simp add: tables_in_kernel_def init_tables_def sample_boot_def sample_symbols_def)
qed

theorem dump_prints_translations_witness:
  "(\<exists>s'. dump_to_file (\<lambda>_. 0x1000) Stdout (paging_early_init sample_boot) \<lparr>printf_buffer = [], vga_text = [], debug_text = [], count_stores = []\<rparr> = Inr s' \<and>
      debug_text s' = concat (map line_text (page_lines (paging_early_init sample_boot)))) \<and>
   (\<exists>d \<in> set (page_lines (paging_early_init sample_boot)). dl_virtual d = 0x3000 \<and> dl_physical d = 0x3000)"
proof -
  let ?ps = "paging_early_init sample_boot"
  note t = dump_prints_translations [OF early_init_readable [OF sample_boot_ok sample_tables_in_kernel], of Stdout "\<lambda>_. 0x1000"
    "\<lparr>printf_buffer = [], vga_text = [], debug_text = [], count_stores = []\<rparr>"]
  have "translation ?ps (path_of (of_nat 0x3000)) = Some (page_entry 3)"
    using early_init_identity_pte [OF sample_boot_ok, of 3] page_entry_address(2) [of 3]
    by (subst path_of_identity) (simp_all add: translation_def)
  moreover have "aligned (of_nat 0x3000)" "sign_extend (of_nat 0x3000) 42 = of_nat 0x3000"
    by (simp_all add: aligned_def sign_extend_def)
  ultimately have "\<exists>d \<in> set (page_lines ?ps). dl_virtual d = of_nat 0x3000 \<and> dl_physical d = page_entry 3 AND ADDRESS_MASK"
    using t by blast
  then have "\<exists>d \<in> set (page_lines ?ps). dl_virtual d = 0x3000 \<and> dl_physical d = 0x3000"
    using page_entry_address(1) [of 3] by (simp add: PAGE_SIZE_def)
  then show ?thesis using t by auto
qed

end
