(* ===== verification/Platform.thy ===== *)
theory Platform
  imports Cpu Checks
begin

text \<open>
  What the kernel asks of the processor besides its control registers: the interrupt flag (interrupts.h) and
  \<^verbatim>\<open>cpuid\<close> (util.h), with the small value types of util.h, atomic.h and timing.h.
\<close>

definition interrupts_enabled :: "cpu \<Rightarrow> bool" where
  "interrupts_enabled c = (let flags = flags_register c in flags AND push_bit 9 1 \<noteq> 0)"

subsection \<open>cpuid and logarithms\<close>

record cpuid_info =
  ci_eax :: u32
  ci_ebx :: u32
  ci_ecx :: u32
  ci_edx :: u32

text \<open>The instruction is a parameter: the four registers it leaves for a code.\<close>

definition cpuid :: "(u32 \<Rightarrow> u32 \<times> u32 \<times> u32 \<times> u32) \<Rightarrow> u32 \<Rightarrow> cpuid_info" where
  "cpuid hw code = (case hw code of (a, b, c, d) \<Rightarrow> \<lparr>ci_eax = a, ci_ebx = b, ci_ecx = c, ci_edx = d\<rparr>)"

text \<open>\<^verbatim>\<open>std::bit_width\<close>: the number of binary digits.\<close>

fun bit_width :: "nat \<Rightarrow> nat" where
  "bit_width n = (if n = 0 then 0 else Suc (bit_width (n div 2)))"

declare bit_width.simps [simp del]

definition log2_floor :: "u64 \<Rightarrow> int" where
  "log2_floor v = int (bit_width (unat v)) - 1"

lemma bit_width_bounds: "0 < n \<Longrightarrow> 0 < bit_width n \<and> 2 ^ (bit_width n - 1) \<le> n \<and> n < 2 ^ bit_width n"
proof (induction n rule: bit_width.induct)
  case (1 n)
  show ?case
  proof (cases "n div 2 = 0")
    case True
    then have "n = 1" using 1 by auto
    then show ?thesis by (simp add: bit_width.simps [of "Suc 0"] bit_width.simps [of 0])
  next
    case False
    then obtain k where k: "bit_width (n div 2) = Suc k" "2 ^ k \<le> n div 2" "n div 2 < 2 ^ Suc k"
      using 1 by (cases "bit_width (n div 2)") auto
    have "2 ^ Suc k \<le> 2 * (n div 2)" using k(2) by simp
    moreover have "2 * (n div 2) \<le> n" "n < 2 * (n div 2) + 2" by simp_all
    moreover have "n div 2 + 1 \<le> 2 ^ Suc k" using k(3) by simp
    ultimately show ?thesis using 1 k(1) by (simp add: bit_width.simps [of n])
  qed
qed

lemma log2_floor_bounds:
  assumes "v \<noteq> 0" shows "0 \<le> log2_floor v" "2 ^ nat (log2_floor v) \<le> unat v" "unat v < 2 ^ Suc (nat (log2_floor v))"
proof -
  have "0 < unat v" using assms by (simp add: unat_gt_0)
  from bit_width_bounds [OF this] obtain k where k: "bit_width (unat v) = Suc k" "2 ^ k \<le> unat v" "unat v < 2 ^ Suc k"
    by (cases "bit_width (unat v)") auto
  then have l: "log2_floor v = int k" by (simp add: log2_floor_def)
  show "0 \<le> log2_floor v" "2 ^ nat (log2_floor v) \<le> unat v" "unat v < 2 ^ Suc (nat (log2_floor v))"
    unfolding l using k(2,3) by simp_all
qed

lemma log2_floor_0: "log2_floor 0 = - 1"
  by (simp add: log2_floor_def bit_width.simps)

subsection \<open>Values\<close>

text \<open>\<^verbatim>\<open>kstd::atomic\<close>: a store and a load are one step each.\<close>

record 'a atomic =
  at_val :: 'a

definition atomic_set :: "'a \<Rightarrow> 'a atomic \<Rightarrow> 'a atomic" where
  "atomic_set v a = a\<lparr>at_val := v\<rparr>"

definition atomic_get :: "'a atomic \<Rightarrow> 'a" where
  "atomic_get a = at_val a"

text \<open>\<^verbatim>\<open>convert_to_linear_ptr\<close> takes the segment and the offset from two characters, which are signed.\<close>

definition convert_to_linear_ptr :: "u8 \<Rightarrow> u8 \<Rightarrow> u64" where
  "convert_to_linear_ptr p0 p1 = scast p1 + scast p0 * 0x10"

lemma linear_ptr_negative: "convert_to_linear_ptr 0 0x80 = 0xFFFFFFFFFFFFFF80"
  by (simp add: convert_to_linear_ptr_def signed_eq_0_iff)

text \<open>Nothing is registered and nothing runs at the end.\<close>

definition cxa_atexit :: "u64 \<Rightarrow> u64 \<Rightarrow> u64 \<Rightarrow> int" where
  "cxa_atexit f objptr dso = 0"

end
