(* ===== verification/User_Library.thy ===== *)
theory User_Library
  imports Diagnostics Kernel_Main
begin

text \<open>
  The user side of the system calls: the wrappers \<^verbatim>\<open>_syscall0\<close> to \<^verbatim>\<open>_syscall3\<close> of
  src/libc/platform_specific.h, the functions of src/libc/stdlib.cpp and the assertion handler of
  src/libc/assert.cpp outside the kernel, composed with \<^verbatim>\<open>syscall_handler\<close>; and the build tool that
  computes the kernel's checksum (src/boot/compute_crc32.cpp), composed with the check at boot.
\<close>

subsection \<open>System calls\<close>

text \<open>The registers a wrapper does not load hold what they held.\<close>

record arg_regs =
  r_rsi :: u64
  r_rdx :: u64
  r_rcx :: u64

text \<open>What a system call runs in: the devices, the strings of the caller's memory, the processor's state and the registers,
  the privilege level of the caller and the interrupt descriptor table.\<close>

record call_env =
  ce_hw :: hardware
  ce_str :: "u64 \<Rightarrow> u8 list"
  ce_cpu :: "task_frame \<times> fxsave_data"
  ce_regs :: arg_regs
  ce_cpl :: nat
  ce_idt :: idt_state

text \<open>The instruction \<^verbatim>\<open>int $0x80\<close>: the processor enters the handler only if the caller's privilege level is at most the
  one in the gate. Otherwise it raises a general protection fault whose error code names the vector in the
  interrupt descriptor table.\<close>

definition int_80 :: "call_env \<Rightarrow> (kernel \<Rightarrow> (syscall_result \<times> kernel) res) \<Rightarrow> kernel \<Rightarrow> (syscall_result \<times> kernel) res" where
  "int_80 ce handler k =
     (if ce_cpl ce \<le> gate_dpl (g_idt (ce_idt ce) ! 0x80) then handler k
      else rbind (run_general_protection_fault (ce_hw ce) (ce_cpu ce) (0x80 * 8 + 2) (k_sched k)) (\<lambda>(cpu, s).
        Inr (Continues cpu, k\<lparr>k_sched := s\<rparr>)))"

definition syscall0 :: "call_env \<Rightarrow> u64 \<Rightarrow> kernel \<Rightarrow> (syscall_result \<times> kernel) res" where
  "syscall0 ce call_code = int_80 ce (syscall_handler (ce_hw ce) (ce_str ce) (ce_cpu ce) call_code
     (r_rsi (ce_regs ce)) (r_rdx (ce_regs ce)) (r_rcx (ce_regs ce)))"

definition syscall1 :: "call_env \<Rightarrow> u64 \<Rightarrow> u64 \<Rightarrow> kernel \<Rightarrow> (syscall_result \<times> kernel) res" where
  "syscall1 ce call_code arg0 = int_80 ce (syscall_handler (ce_hw ce) (ce_str ce) (ce_cpu ce) call_code
     arg0 (r_rdx (ce_regs ce)) (r_rcx (ce_regs ce)))"

definition syscall2 :: "call_env \<Rightarrow> u64 \<Rightarrow> u64 \<Rightarrow> u64 \<Rightarrow> kernel \<Rightarrow> (syscall_result \<times> kernel) res" where
  "syscall2 ce call_code arg0 arg1 = int_80 ce (syscall_handler (ce_hw ce) (ce_str ce) (ce_cpu ce) call_code arg0 arg1 (r_rcx (ce_regs ce)))"

definition syscall3 :: "call_env \<Rightarrow> u64 \<Rightarrow> u64 \<Rightarrow> u64 \<Rightarrow> u64 \<Rightarrow> kernel \<Rightarrow> (syscall_result \<times> kernel) res" where
  "syscall3 ce call_code arg0 arg1 arg2 = int_80 ce (syscall_handler (ce_hw ce) (ce_str ce) (ce_cpu ce) call_code arg0 arg1 arg2)"

text \<open>Code the compiler is told is never reached: only another task may run after the call.\<close>

definition unreachable_after :: "(syscall_result \<times> kernel) res \<Rightarrow> ((task_frame \<times> fxsave_data) \<times> kernel) res" where
  "unreachable_after r = rbind r (\<lambda>(x, k). case x of
     Returns _ \<Rightarrow> Inl (Undefined_behaviour ''unreachable'') | Continues cpu \<Rightarrow> Inr (cpu, k))"

definition lib_abort :: "call_env \<Rightarrow> kernel \<Rightarrow> ((task_frame \<times> fxsave_data) \<times> kernel) res" where
  "lib_abort ce k = unreachable_after (syscall0 ce SYSCALL_ABORT k)"

text \<open>The exit code is an \<^verbatim>\<open>int\<close>, so the conversion extends its sign.\<close>

definition lib_exit :: "call_env \<Rightarrow> u32 \<Rightarrow> kernel \<Rightarrow> ((task_frame \<times> fxsave_data) \<times> kernel) res" where
  "lib_exit ce exit_code k = unreachable_after (syscall1 ce SYSCALL_EXIT (scast exit_code) k)"

definition lib_aligned_alloc :: "call_env \<Rightarrow> u64 \<Rightarrow> u64 \<Rightarrow> kernel \<Rightarrow> (syscall_result \<times> kernel) res" where
  "lib_aligned_alloc ce sz alignment k = syscall2 ce SYSCALL_ALLOC sz alignment k"

definition lib_malloc :: "call_env \<Rightarrow> u64 \<Rightarrow> kernel \<Rightarrow> (syscall_result \<times> kernel) res" where
  "lib_malloc ce sz k = lib_aligned_alloc ce sz 1 k"

definition lib_free :: "call_env \<Rightarrow> u64 \<Rightarrow> kernel \<Rightarrow> kernel res" where
  "lib_free ce ptr k = rbind (syscall1 ce SYSCALL_FREE ptr k) (\<lambda>(_, k'). Inr k')"

text \<open>Outside the kernel the message goes to \<^verbatim>\<open>vfprintf\<close>, which prints nothing.\<close>

definition hosted_handle_assert :: "call_env \<Rightarrow> u8 list \<Rightarrow> u32 \<Rightarrow> u8 list \<Rightarrow> kernel \<Rightarrow> ((task_frame \<times> fxsave_data) \<times> kernel) res" where
  "hosted_handle_assert ce file line condition k =
     (let _ = hosted_vfprintf Stdout (ascii ''assertion failed: %s:%d: `%s`'' @ [10])
        [VStr 0 file, VInt (ucast line), VStr 0 condition] in lib_abort ce k)"

lemma int_80_gate:
  assumes "ce_idt ce = fst (idt_init hw addr idt_address t)"
  shows "ce_cpl ce = 0 \<Longrightarrow> int_80 ce handler k = handler k"
    "ce_cpl ce \<noteq> 0 \<Longrightarrow> int_80 ce handler k = Inl (Panicked ''unknown task type!'')"
proof -
  have "g_idt (ce_idt ce) ! 0x80 = idt_entry (addr (get_handler (of_nat 0x80)))"
    unfolding assms by (simp add: idt_init_def NUM_IDT_ENTRIES_def)
  then have dpl: "gate_dpl (g_idt (ce_idt ce) ! 0x80) = 0"
    by (simp add: idt_entry_def gate_dpl_def Attr_present_def Type_interrupt_32_def)
  show "ce_cpl ce = 0 \<Longrightarrow> int_80 ce handler k = handler k" by (simp add: int_80_def dpl)
  have "sel_get_selector (0x80 * 8 + 2) = 0" by (simp add: sel_get_selector_def sel_get_table_def)
  then show "ce_cpl ce \<noteq> 0 \<Longrightarrow> int_80 ce handler k = Inl (Panicked ''unknown task type!'')"
    by (simp add: int_80_def dpl run_general_protection_fault_def USER_CODE_SELECTOR_def KERNEL_CODE_SELECTOR_def
      USER_CODE_SELECTOR_IDX_def KERNEL_CODE_SELECTOR_IDX_def SIZEOF_ENTRY_def)
qed

lemma lib_calls_kernel:
  assumes "ce_idt ce = fst (idt_init hw addr idt_address t)" "ce_cpl ce = 0"
  shows "lib_malloc ce n k = rbind (alloc n (2 ^ 0) READ_WRITE (kalloc (k_sched k))) (\<lambda>(p, a).
      Inr (Returns p, k\<lparr>k_sched := (k_sched k)\<lparr>kalloc := a\<rparr>\<rparr>))"
    "lib_free ce p k = rbind (alloc_free p (kalloc (k_sched k))) (\<lambda>a. Inr (k\<lparr>k_sched := (k_sched k)\<lparr>kalloc := a\<rparr>\<rparr>))"
  using int_80_gate(1) [OF assms]
  by (simp_all add: lib_malloc_def lib_free_def lib_aligned_alloc_def syscall1_def syscall2_def syscall_handler_def rbind_def
    SYSCALL_EXIT_def SYSCALL_ABORT_def SYSCALL_ALLOC_def SYSCALL_FREE_def split: sum.splits prod.splits)

text \<open>
  C38. A user task has no system calls: with the interrupt descriptor table that \<^verbatim>\<open>idt::init\<close> builds, any call of the library
  from a privilege level other than 0 (the calls of \<^verbatim>\<open>malloc\<close>, \<^verbatim>\<open>aligned_alloc\<close>, \<^verbatim>\<open>free\<close>, \<^verbatim>\<open>exit\<close> and \<^verbatim>\<open>abort\<close> too) does not reach
  \<^verbatim>\<open>syscall_handler\<close>: the gate refuses it, and the handler of the general protection fault, which looks for a code selector in
  the error code, panics. From level 0 a call reaches the handler, and \<^verbatim>\<open>malloc\<close> and \<^verbatim>\<open>free\<close> are \<^verbatim>\<open>alloc\<close> and \<^verbatim>\<open>free\<close> of the kernel's heap.
\<close>

theorem user_syscalls_refused:
  assumes "ce_idt ce = fst (idt_init hw addr idt_address t)"
  shows "if ce_cpl ce \<noteq> 0
    then syscall0 ce c k = Inl (Panicked ''unknown task type!'') \<and> syscall1 ce c x k = Inl (Panicked ''unknown task type!'') \<and>
      syscall2 ce c x y k = Inl (Panicked ''unknown task type!'') \<and> syscall3 ce c x y z k = Inl (Panicked ''unknown task type!'') \<and>
      lib_malloc ce n k = Inl (Panicked ''unknown task type!'') \<and> lib_aligned_alloc ce n x k = Inl (Panicked ''unknown task type!'') \<and>
      lib_free ce p k = Inl (Panicked ''unknown task type!'') \<and>
      lib_exit ce i k = Inl (Panicked ''unknown task type!'') \<and> lib_abort ce k = Inl (Panicked ''unknown task type!'')
    else syscall3 ce c x y z k = syscall_handler (ce_hw ce) (ce_str ce) (ce_cpu ce) c x y z k \<and>
      lib_malloc ce n k = rbind (alloc n 1 READ_WRITE (kalloc (k_sched k))) (\<lambda>(a, h).
        Inr (Returns a, k\<lparr>k_sched := (k_sched k)\<lparr>kalloc := h\<rparr>\<rparr>)) \<and>
      lib_free ce p k = rbind (alloc_free p (kalloc (k_sched k))) (\<lambda>h. Inr (k\<lparr>k_sched := (k_sched k)\<lparr>kalloc := h\<rparr>\<rparr>))"
proof (cases "ce_cpl ce = 0")
  case True
  then show ?thesis using lib_calls_kernel [OF assms True] int_80_gate(1) [OF assms True] by (simp add: syscall3_def)
next
  case False
  note refused = int_80_gate(2) [OF assms False]
  show ?thesis
    using False refused by (simp add: syscall0_def syscall1_def syscall2_def syscall3_def lib_malloc_def lib_aligned_alloc_def
      lib_free_def lib_exit_def lib_abort_def unreachable_after_def)
qed

text \<open>A caller at level 3 and one at level 0, with the heap of the samples.\<close>

definition sample_caller :: "nat \<Rightarrow> (handler \<Rightarrow> u64) \<Rightarrow> call_env" where
  "sample_caller cpl addr = \<lparr>ce_hw = (\<lambda>_ _. 0), ce_str = (\<lambda>_. []), ce_cpu = (zero_frame, []), ce_regs = \<lparr>r_rsi = 0, r_rdx = 0, r_rcx = 0\<rparr>,
     ce_cpl = cpl, ce_idt = fst (idt_init (\<lambda>_ _. 0) addr 0xFFFFFFFF80120000 [])\<rparr>"

theorem user_syscalls_refused_witness:
  "\<forall>addr k. lib_malloc (sample_caller 3 addr) 100 k = Inl (Panicked ''unknown task type!'') \<and>
     (\<exists>k1. lib_malloc (sample_caller 0 addr) 100 (k\<lparr>k_sched := (k_sched k)\<lparr>kalloc := sample_heap\<rparr>\<rparr>) = Inr (Returns 0x400010, k1))"
proof (intro allI)
  fix addr and k :: kernel
  let ?k = "k\<lparr>k_sched := (k_sched k)\<lparr>kalloc := sample_heap\<rparr>\<rparr>"
  have idt: "ce_idt (sample_caller cpl addr) = fst (idt_init (\<lambda>_ _. 0) addr 0xFFFFFFFF80120000 [])" for cpl
    by (simp add: sample_caller_def)
  have cpl: "ce_cpl (sample_caller cpl addr) = cpl" for cpl by (simp add: sample_caller_def)
  have z: "(0 :: nat) \<le> 4" by simp
  obtain s1 where "alloc 100 (2 ^ 0) READ_WRITE sample_heap = Inr (0x400010, s1)" using sample_heap_allocs [OF z] by blast
  then have run: "alloc 100 1 READ_WRITE sample_heap = Inr (0x400010, s1)" by simp
  from user_syscalls_refused [OF idt, of 3 0 k 0 0 0 100 0 0] user_syscalls_refused [OF idt, of 0 0 ?k 0 0 0 100 0 0]
  show "lib_malloc (sample_caller 3 addr) 100 k = Inl (Panicked ''unknown task type!'') \<and>
     (\<exists>k1. lib_malloc (sample_caller 0 addr) 100 ?k = Inr (Returns 0x400010, k1))"
    by (simp add: cpl run)
qed

subsection \<open>The checksum of the image\<close>

text \<open>The files of the host: the input's bytes, or none when it cannot be opened; whether each seek succeeds; the number of bytes
  \<^verbatim>\<open>fread\<close> returns; and whether the output can be opened.\<close>

record host_files =
  hf_input :: "u8 list option"
  hf_seek_end :: bool
  hf_seek_set :: bool
  hf_read :: u64
  hf_output :: bool

text \<open>The exit status and what is written to the output.\<close>

definition compute_crc32_main :: "nat \<Rightarrow> host_files \<Rightarrow> int \<times> u8 list option" where
  "compute_crc32_main argc hf =
     (if argc < 3 then (1, None) else case hf_input hf of None \<Rightarrow> (1, None) | Some data \<Rightarrow>
      if \<not> hf_seek_end hf then (1, None) else
      let len = (of_nat (length data) :: u32) in
      if len = 0 then (1, None) else if \<not> hf_seek_set hf then (1, None) else
      if hf_read hf \<noteq> ucast len then (1, None) else
      let computed_crc32 = crc32 (take (unat len) data) in
      if \<not> hf_output hf then (1, None)
      else (0, Some (ascii ''KERNEL_EXPECTED_CRC32 equ 0x'' @ number_text 16 False 8 (ucast computed_crc32))))"

text \<open>
  The build and the boot agree on the checksum: when the tool succeeds on an image of less than 4 GiB, the number it writes
  for the boot loader is the checksum that \<^verbatim>\<open>kmain\<close> computes from the bytes of the image in memory.
\<close>

theorem crc_tool_matches_boot:
  assumes "compute_crc32_main argc hf = (0, Some out)" "hf_input hf = Some data" "length data < 2 ^ 32"
    "unat (kernel_image_size b) = length data"
    "\<forall>i < length data. be_image be (ucast (kernel_image_start b) + of_nat i) = data ! i"
  shows "take 28 out = ascii ''KERNEL_EXPECTED_CRC32 equ 0x'' \<and> parse_number 16 (drop 28 out) =
    unat (crc32 (map (\<lambda>i. be_image be (ucast (kernel_image_start b) + of_nat i)) [0..<unat (kernel_image_size b)]))"
proof -
  have "unat (of_nat (length data) :: u32) = length data" using assms(3) by (rule unat_of_nat_u32)
  then have out: "out = ascii ''KERNEL_EXPECTED_CRC32 equ 0x'' @ number_text 16 False 8 (ucast (crc32 data))"
    using assms(1,2) by (auto simp: compute_crc32_main_def Let_def split: if_splits)
  have image: "map (\<lambda>i. be_image be (ucast (kernel_image_start b) + of_nat i)) [0..<unat (kernel_image_size b)] = data"
    unfolding assms(4) using assms(5) by (intro nth_equalityI) simp_all
  have "unat (ucast (crc32 data) :: u64) < 16 ^ 8"
    unfolding unat_ucast_up by (rule order_less_le_trans [OF unsigned_less]) simp
  from number_text_bounds(3) [of 16 "ucast (crc32 data)" 8 8 False, OF _ _ this] have "parse_number 16 (number_text 16 False 8 (ucast (crc32 data))) = unat (crc32 data)"
    by (simp add: unat_ucast_up)
  moreover have "length (ascii ''KERNEL_EXPECTED_CRC32 equ 0x'') = 28" by (simp add: ascii_def)
  ultimately show ?thesis unfolding out image by simp
qed

theorem crc_tool_matches_boot_witness:
  "\<forall>(be :: boot_env) (b :: boot_info). \<exists>out. compute_crc32_main 3 \<lparr>hf_input = Some [65, 65], hf_seek_end = True, hf_seek_set = True, hf_read = 2, hf_output = True\<rparr> = (0, Some out) \<and>
     parse_number 16 (drop 28 out) = unat (crc32 (map (\<lambda>i. be_image (be\<lparr>be_image := \<lambda>_. 65\<rparr>)
       (ucast (kernel_image_start (b\<lparr>kernel_image_size := 2\<rparr>)) + of_nat i)) [0..<unat (kernel_image_size (b\<lparr>kernel_image_size := 2\<rparr>))]))"
proof (intro allI)
  fix be :: boot_env and b :: boot_info
  let ?hf = "\<lparr>hf_input = Some [65, 65], hf_seek_end = True, hf_seek_set = True, hf_read = 2, hf_output = True\<rparr>"
  let ?be = "be\<lparr>be_image := \<lambda>_. 65\<rparr>" and ?b = "b\<lparr>kernel_image_size := 2\<rparr>"
  obtain out where out: "compute_crc32_main 3 ?hf = (0, Some out)" by (simp add: compute_crc32_main_def Let_def)
  have d: "hf_input ?hf = Some [65, 65]" "length [65, 65 :: u8] < 2 ^ 32" "unat (kernel_image_size ?b) = length [65, 65 :: u8]"
    "\<forall>i < length [65, 65 :: u8]. be_image ?be (ucast (kernel_image_start ?b) + of_nat i) = [65, 65] ! i"
    by (auto simp: less_Suc_eq)
  from crc_tool_matches_boot [OF out d] out
  show "\<exists>out. compute_crc32_main 3 ?hf = (0, Some out) \<and> parse_number 16 (drop 28 out) =
    unat (crc32 (map (\<lambda>i. be_image ?be (ucast (kernel_image_start ?b) + of_nat i)) [0..<unat (kernel_image_size ?b)]))" by blast
qed

end
