(* ===== verification/Spec2Isabelle.thy ===== *)
theory Spec2Isabelle
  imports Ring_Buffer Kernel_Main Containers Elf Adt Boot_Heap Paging_Safety Paging_Lookup Paging_Dump Platform
    User_Library
begin

text \<open>
  TylerOS: a verification of the kernel's components.

  \<^bold>\<open>The program.\<close> TylerOS is a hobby kernel for x86-64. The boot loader (src/boot, assembly) loads it,
  passes a \<^verbatim>\<open>boot_info\<close> and calls \<^verbatim>\<open>kmain\<close> (src/kernel/main.cpp), which brings the components
  up in order: the serial port, the descriptor tables, the memory map, the page tables, the
  allocators of low memory, physical pages and virtual addresses, the heap, the screen, the
  clock and the timer, the scheduler, the floppy drive and the file system on it, the keyboard
  and the shell. Interrupts then drive it: the timer ticks and switches tasks, the keyboard
  queues key events for the shell, the floppy drive reports that a command has ended, and system calls
  use the heap and the console. src/libc and src/libadt hold the C library and the containers
  the kernel is written with.

  \<^bold>\<open>The model.\<close> Every definition translates the C++ function of its name; state is passed
  explicitly, one record per component, with machine integers at their width. A function that
  can assert, panic, divide by zero, reach an undefined operation or wait for ever returns
  \<open>fault + 'a\<close> (\<open>Prelude\<close>): \<open>Assert_failed\<close>, \<open>Panicked\<close>, \<open>Undefined_behaviour\<close> and \<open>Blocked\<close>
  are branches of the model, so a theorem that an operation returns \<open>Inr\<close> says that none of them
  happens. Hardware, the linker's addresses and what the boot loader leaves in memory are
  parameters: \<open>hardware\<close> maps the trace of port accesses so far and a port to the byte that is
  read, and the theorems that need more name it as a hypothesis.

  \<^item> \<open>Prelude\<close>: faults, sequencing of fallible operations (\<open>rbind\<close>, \<open>assert_that\<close>), lemmas on words and lists.
  \<^item> \<open>Util\<close>: src/kernel/util.h and util/algorithm.h; the locale \<open>strict_weak_order\<close> carries the sorting lemmas.
  \<^item> \<open>Ring_Buffer\<close>, \<open>Bitmap\<close>, \<open>Containers\<close> (\<^verbatim>\<open>optional\<close>, \<^verbatim>\<open>hash_map\<close>), \<open>Adt\<close> (list, string, array, casts):
    src/libadt and src/kernel/util. The locale \<open>bounded_deque\<close> is the contract of
    the ring buffer and the refinement of the list deque is proved in it.
  \<^item> \<open>Ownership\<close>: \<^verbatim>\<open>unique_ptr\<close>, the typed allocators and thunks over the heap; the locale
    \<open>pointer_deleter\<close> states what owners rely on and is interpreted with the kernel's deleter.
  \<^item> \<open>Memory_Map\<close>, \<open>Memory_Init\<close>, \<open>Boot_Memory\<close>: src/kernel/memory.cpp, the second phase of the
    initialisations, and the proof that they succeed one after the other; \<open>Boot_Heap\<close>: the first allocation after
    them; \<open>Memory_Dump\<close>: the listings.
  \<^item> \<open>Paging\<close> (the operations), \<open>Paging_Tables\<close> (the tables as a tree, the well-formedness
    invariant), \<open>Paging_Ops\<close> (map, unmap, lookup), \<open>Paging_Ranges\<close> (ranges; the locale
    \<open>entry_update\<close>, interpreted for every pass over the entries), \<open>Paging_Init\<close> (early
    initialisation, page protection and the properties), \<open>Paging_Safety\<close> (well-formedness as a type, over
    sequences of operations), \<open>Paging_Lookup\<close> (the class the iterator replaced), \<open>Paging_Dump\<close> (the listing of
    the translations): src/kernel/paging.h and paging.cpp. \<open>lacking\<close> counts the tables a page still needs,
    so that the theorems ask for no more spare tables than an operation takes.
  \<^item> \<open>Cpu\<close>: the control and model-specific registers that page protection programs; \<open>Platform\<close>: the interrupt flag,
    \<^verbatim>\<open>cpuid\<close>, atomic cells.
  \<^item> \<open>Pma\<close>, \<open>Vma\<close>: src/kernel/pma.cpp and vma.cpp; the locales \<open>page_allocator\<close> and
    \<open>area_allocator\<close> are their contracts, in which exclusive ownership is proved over runs.
  \<^item> \<open>Alloc\<close>, \<open>Heap\<close>: src/kernel/alloc.cpp, on top of the three.
  \<^item> \<open>Mutex\<close>: src/kernel/mutex.h, locks, guards, handles and optional handles, with the interleavings of tasks as an
    inductive step relation.
  \<^item> \<open>Libc_String\<close>, \<open>Stdio\<close>: src/libc/string.cpp, stdio.cpp, ctype.cpp and stdlib.cpp over byte memory;
    \<open>Printf_Text\<close>: the text a format stands for, and that the printing functions print it.
  \<^item> \<open>Diagnostics\<close>: panic.cpp, assert.cpp, debug.cpp and the reports of the fault handlers.
  \<^item> \<open>Port_IO\<close>: util/io.h, pic.cpp, pit.cpp, cmos.cpp, serial.cpp and debug.cpp over the trace of
    port accesses; \<open>Serial\<close>: \<^verbatim>\<open>serial::init\<close> and the line it prints on the port; \<open>Timing\<close>: timing.cpp.
  \<^item> \<open>Low_Memory\<close>, \<open>Floppy\<close>, \<open>Filesystem\<close>: low_memory_allocator.cpp, dma.cpp, floppy.cpp and filesystem.cpp.
  \<^item> \<open>Descriptors\<close>, \<open>Scheduler\<close>, \<open>Interrupts\<close>: gdt.cpp, idt.cpp, scheduler.cpp with task.asm,
    interrupts.cpp and syscalls.cpp; runs of the scheduler are an inductive relation.
  \<^item> \<open>Screen\<close>, \<open>Shell\<close>: vga.cpp, input.cpp and minishell.cpp.
  \<^item> \<open>Checks\<close>: crc32.cpp, dwarf.cpp and acpi.cpp; \<open>Elf\<close>: elf.h, elf.cpp and libadt/range.h.
  \<^item> \<open>User_Library\<close>: the library's system calls (platform_specific.h, stdlib.cpp) and the host program
    boot/compute_crc32.cpp.
  \<^item> \<open>Kernel_Main\<close>: main.cpp, the composition of all of these.

  \<^bold>\<open>What is proved.\<close> Paging: mapping and lookup are inverse, a range maps page by page, unmapping
  removes exactly one translation, early initialisation establishes
  the invariant, every sequence of operations keeps it and stops only for what its caller did or for a range whose
  addresses the iterator cannot name, after page protection no data is executable (and no text writable, if write protection
  was on before), and the dump lists exactly the translations. The allocators:
  memory comes up at boot unless the page bitmap fills whole pages, and the first allocation after it returns and can be freed, for
  exactly the sizes the page bitmap can be searched for; no physical page and no virtual area is handed out twice in any run, heap
  blocks are fresh and recorded, freeing gives their pages back, and owning pointers call the deleter once for each block. Containers: the ring buffer refines a bounded deque, the bitmap search finds the least clear bit as
  far as its shift is defined, thunks run once. Library: \<^verbatim>\<open>memmove\<close> equals the reference
  copy, the formatter stays inside its buffer, returns the length of a text that does not depend on the buffer,
  prints integers that read back and, when it fits, exactly the text of the format; a page fault is always reported in full. ELF structures read back what was laid out and
  indexing agrees with iteration. Tasks: mutual exclusion in every interleaving, the
  scheduler interrupt is always served, and the switch is round robin and restores what was saved.
  Devices: the serial line carries the message of its initialisation and the bytes sent, disk addresses, FAT12 entries, files of the root
  directory, the rows of the screen from which printing stays inside it, and the line the shell runs. Where the code does something
  else than it means to, a theorem states what it does (a neighbour that can no longer be freed, a full ring
  buffer that iterates as empty, a task that is never resumed, a checksum that does not shift, write
  protection that stays off, a bitmap that does not fit the pages mapped for it, user tasks whose system calls the gate refuses).

  \<^bold>\<open>Bounds and fuel.\<close> Recursion that follows a loop with a known bound is structural or has a
  measure. Loops that wait for a device take the number of polls as an argument and return
  \<open>Blocked\<close> when it runs out, since nothing in the code ends them; \<^verbatim>\<open>busy_sleep\<close> takes the interrupts that arrive.
  The walk along page lists (\<open>pages_until\<close>), the probe of the hash table and the chain of a
  file, the loops over ELF sections and \<^verbatim>\<open>kstd::list\<close> may truly run for ever and return \<open>None\<close> then; theorems that say they return prove it,
  and \<open>hash_map_stores_nothing\<close> proves where one does not.

  \<^bold>\<open>Not modelled.\<close> The boot loader and the start-up stubs (assembly); the processor's translation
  cache beyond the list of invalidated pages; interrupts that arrive inside a scheduler interrupt after \<^verbatim>\<open>scoped_disable\<close>
  has turned them on again, and the checks of \<^verbatim>\<open>iretq\<close> on the selectors it pops; messages that no later state depends on, where only their
  text is modelled (\<open>Memory_Dump\<close>, \<open>Diagnostics\<close>); the code under \<^verbatim>\<open>#if 0\<close> in paging.cpp and the
  commented-out body of \<^verbatim>\<open>elf::init\<close>; \<^verbatim>\<open>Thunk\<close>'s move assignment, which does not type-check; 16-bit port
  writes, which nothing uses; the type traits and compiler macros, which have no run-time behaviour; the host tests.
\<close>

end
